(* ===== verification/Py_Prelude.thy ===== *)
theory Py_Prelude
  imports Complex_Main "HOL-Library.AList"
begin

text \<open>
  Shared vocabulary of the development: the Python values that configuration data is made of,
  the string and dictionary operations the source calls, counters, and the two interfaces that
  several components share (a state machine whose operations keep an invariant, and a budget
  that grants and takes back bytes).

  Conventions. A clock reading is a \<^typ>\<open>real\<close> (the rounding of binary64 is not modelled).
  Characters are Unicode code points below 256, so \<^typ>\<open>string\<close> is a Python \<open>str\<close> over that
  range. A \<open>dict\<close> is an association list with distinct keys in insertion order: looking up is
  \<^const>\<open>map_of\<close>, storing is \<^const>\<open>AList.update\<close> (in place when the key exists, at the end
  otherwise) and removing is \<^const>\<open>AList.delete\<close>. Python integers are \<^typ>\<open>int\<close>. An
  exception is the left injection of a sum.
\<close>

named_theorems py_defs \<open>definitions of the Python vocabulary, for evaluation\<close>
named_theorems inv_rules \<open>every operation keeps the invariant of its component\<close>

type_synonym time = real
type_synonym ('k, 'v) dict = "('k \<times> 'v) list"

section \<open>Values\<close>

datatype pyval =
    PNone
  | PBool bool
  | PInt int
  | PFloat real
  | PStr string
  | PList "pyval list"
  | PDict "(string \<times> pyval) list"

fun truthy :: "pyval \<Rightarrow> bool" where
  "truthy PNone = False"
| "truthy (PBool b) = b"
| "truthy (PInt i) = (i \<noteq> 0)"
| "truthy (PFloat r) = (r \<noteq> 0)"
| "truthy (PStr s) = (s \<noteq> [])"
| "truthy (PList xs) = (xs \<noteq> [])"
| "truthy (PDict d) = (d \<noteq> [])"

text \<open>\<open>int(x)\<close> on a float truncates towards zero.\<close>

definition trunc :: "real \<Rightarrow> int" where
  "trunc r = (if 0 \<le> r then \<lfloor>r\<rfloor> else \<lceil>r\<rceil>)"

text \<open>\<open>round(x)\<close> goes to the nearest integer, halves to the even one.\<close>

definition py_round :: "real \<Rightarrow> int" where
  "py_round r = (let n = \<lfloor>r\<rfloor>; d = r - of_int n in
     if d < 1 / 2 then n else if 1 / 2 < d then n + 1 else if even n then n else n + 1)"

section \<open>Strings\<close>

definition codepoint :: "char \<Rightarrow> nat" where
  "codepoint c = of_char c"

definition is_space :: "char \<Rightarrow> bool" where
  "is_space c = (let n = codepoint c in
     (9 \<le> n \<and> n \<le> 13) \<or> (28 \<le> n \<and> n \<le> 32) \<or> n = 133 \<or> n = 160)"

definition is_digit :: "char \<Rightarrow> bool" where
  "is_digit c = (let n = codepoint c in 48 \<le> n \<and> n \<le> 57)"

text \<open>The class \<open>\w\<close> of Python's \<open>re\<close>: alphanumeric code points and the underscore.\<close>

definition is_word :: "char \<Rightarrow> bool" where
  "is_word c = (let n = codepoint c in
     (48 \<le> n \<and> n \<le> 57) \<or> (65 \<le> n \<and> n \<le> 90) \<or> n = 95 \<or> (97 \<le> n \<and> n \<le> 122) \<or>
     n = 170 \<or> n = 178 \<or> n = 179 \<or> n = 181 \<or> n = 185 \<or> n = 186 \<or>
     (188 \<le> n \<and> n \<le> 190) \<or> (192 \<le> n \<and> n \<le> 214) \<or> (216 \<le> n \<and> n \<le> 246) \<or> 248 \<le> n)"

definition to_lower :: "char \<Rightarrow> char" where
  "to_lower c = (let n = codepoint c in
     if (65 \<le> n \<and> n \<le> 90) \<or> (192 \<le> n \<and> n \<le> 222 \<and> n \<noteq> 215) then char_of (n + 32) else c)"

definition lower :: "string \<Rightarrow> string" where
  "lower s = map to_lower s"

definition lstrip_by :: "(char \<Rightarrow> bool) \<Rightarrow> string \<Rightarrow> string" where
  "lstrip_by p s = dropWhile p s"

definition rstrip_by :: "(char \<Rightarrow> bool) \<Rightarrow> string \<Rightarrow> string" where
  "rstrip_by p s = rev (dropWhile p (rev s))"

definition strip :: "string \<Rightarrow> string" where
  "strip s = rstrip_by is_space (lstrip_by is_space s)"

definition rstrip_char :: "char \<Rightarrow> string \<Rightarrow> string" where
  "rstrip_char c s = rstrip_by (\<lambda>x. x = c) s"

definition strip_char :: "char \<Rightarrow> string \<Rightarrow> string" where
  "strip_char c s = rstrip_by (\<lambda>x. x = c) (lstrip_by (\<lambda>x. x = c) s)"

fun startswith :: "string \<Rightarrow> string \<Rightarrow> bool" where
  "startswith s [] = True"
| "startswith [] (p # ps) = False"
| "startswith (c # s) (p # ps) = (c = p \<and> startswith s ps)"

definition endswith :: "string \<Rightarrow> string \<Rightarrow> bool" where
  "endswith s p = startswith (rev s) (rev p)"

text \<open>\<open>sub in s\<close>\<close>

fun contains :: "string \<Rightarrow> string \<Rightarrow> bool" where
  "contains sub [] = (sub = [])"
| "contains sub (c # s) = (startswith (c # s) sub \<or> contains sub s)"

text \<open>\<open>s.split(c)\<close> for a separator of one character; the result is never empty.\<close>

fun split_on :: "char \<Rightarrow> string \<Rightarrow> string list" where
  "split_on c [] = [[]]"
| "split_on c (x # s) =
     (if x = c then [] # split_on c s
      else (case split_on c s of [] \<Rightarrow> [[x]] | p # ps \<Rightarrow> (x # p) # ps))"

fun join_on :: "char \<Rightarrow> string list \<Rightarrow> string" where
  "join_on c [] = []"
| "join_on c [p] = p"
| "join_on c (p # q # ps) = p @ c # join_on c (q # ps)"

definition digit_value :: "char \<Rightarrow> nat" where
  "digit_value c = codepoint c - 48"

text \<open>\<open>int(s)\<close> on a string of decimal digits.\<close>

definition nat_of_digits :: "string \<Rightarrow> nat" where
  "nat_of_digits s = foldl (\<lambda>n c. 10 * n + digit_value c) 0 s"

fun digits_of_nat :: "nat \<Rightarrow> string" where
  "digits_of_nat n =
     (if n < 10 then [char_of (48 + n)]
      else digits_of_nat (n div 10) @ [char_of (48 + n mod 10)])"

declare digits_of_nat.simps [simp del]

definition int_str :: "int \<Rightarrow> string" where
  "int_str i = (if i < 0 then CHR ''-'' # digits_of_nat (nat (- i)) else digits_of_nat (nat i))"

text \<open>
  \<open>str(v)\<close>. The text of a float and of a container is an argument: it is the \<open>repr\<close> of the
  interpreter, and nothing proved here depends on it.
\<close>

definition py_str :: "(pyval \<Rightarrow> string) \<Rightarrow> pyval \<Rightarrow> string" where
  "py_str repr v = (case v of
       PNone \<Rightarrow> ''None''
     | PBool b \<Rightarrow> (if b then ''True'' else ''False'')
     | PInt i \<Rightarrow> int_str i
     | PStr s \<Rightarrow> s
     | _ \<Rightarrow> repr v)"

lemmas [py_defs] = codepoint_def is_space_def is_digit_def is_word_def to_lower_def lower_def
  lstrip_by_def rstrip_by_def strip_def rstrip_char_def strip_char_def endswith_def
  digit_value_def nat_of_digits_def int_str_def py_str_def Let_def

lemma startswith_append [simp]: "startswith (p @ s) p"
  by (induction p) auto

lemma startswith_iff: "startswith s p \<longleftrightarrow> (\<exists>r. s = p @ r)"
  by (induction s p rule: startswith.induct) auto

lemma endswith_iff: "endswith s p \<longleftrightarrow> (\<exists>r. s = r @ p)"
proof
  assume "endswith s p"
  then obtain r where "rev s = rev p @ r"
    by (auto simp: endswith_def startswith_iff)
  then have "s = rev r @ p" by (metis rev_append rev_rev_ident)
  then show "\<exists>r. s = r @ p" ..
qed (auto simp: endswith_def)

lemma contains_prefix [simp]: "contains sub (sub @ b)"
  by (cases "sub @ b") (simp_all, metis startswith_append)

lemma contains_iff: "contains sub s \<longleftrightarrow> (\<exists>a b. s = a @ sub @ b)"
proof
  show "contains sub s \<Longrightarrow> \<exists>a b. s = a @ sub @ b"
  proof (induction s)
    case (Cons c s)
    then show ?case by (auto simp: startswith_iff) (metis append_Nil, metis append_Cons)
  qed simp
next
  assume "\<exists>a b. s = a @ sub @ b"
  then obtain a b where "s = a @ sub @ b" by blast
  then show "contains sub s" by (induction a arbitrary: s) auto
qed

lemma split_on_nonempty [simp]: "split_on c s \<noteq> []"
  by (induction s) (auto split: list.splits)

lemma split_on_no_sep: "c \<notin> set s \<Longrightarrow> split_on c s = [s]"
  by (induction s) auto

lemma split_on_append: "c \<notin> set p \<Longrightarrow> split_on c (p @ c # s) = p # split_on c s"
  by (induction p) auto

lemma split_on_join:
  "ps \<noteq> [] \<Longrightarrow> \<forall>p \<in> set ps. c \<notin> set p \<Longrightarrow> split_on c (join_on c ps) = ps"
  by (induction c ps rule: join_on.induct) (auto simp: split_on_no_sep split_on_append)

lemma join_on_split: "join_on c (split_on c s) = s"
proof (induction s)
  case (Cons x s)
  then show ?case
    by (cases "split_on c s"; cases "tl (split_on c s)") (auto split: list.splits)
qed simp

lemma dropWhile_none: "\<forall>c \<in> set s. \<not> P c \<Longrightarrow> dropWhile P s = s"
  by (cases s) auto

lemma strip_id: "\<forall>c \<in> set s. \<not> is_space c \<Longrightarrow> strip s = s"
  by (simp add: strip_def rstrip_by_def lstrip_by_def dropWhile_none)

lemma dropWhile_shorter: "dropWhile P xs = y # ys \<Longrightarrow> length ys < length xs"
  using length_dropWhile_le [of P xs] by simp

section \<open>Decimal text\<close>

lemma codepoint_char_of [simp]: "n < 256 \<Longrightarrow> codepoint (char_of n) = n"
  by (simp add: codepoint_def)

lemma digits_of_nat_step:
  "\<not> n < 10 \<Longrightarrow> digits_of_nat n = digits_of_nat (n div 10) @ [char_of (48 + n mod 10)]"
  by (subst digits_of_nat.simps) (rule if_not_P)

lemma digits_of_nat_digits: "c \<in> set (digits_of_nat n) \<Longrightarrow> is_digit c"
proof (induction n rule: digits_of_nat.induct)
  case (1 n)
  have m: "n mod 10 < 10" by simp
  then have "48 + n mod 10 < 256" by simp
  then have "codepoint (char_of (48 + n mod 10)) = 48 + n mod 10" by simp
  with m have last: "is_digit (char_of (48 + n mod 10))" unfolding is_digit_def by simp
  show ?case
  proof (cases "n < 10")
    case True
    with "1.prems" show ?thesis
      using last by (simp add: digits_of_nat.simps [of n])
  next
    case False
    then have "digits_of_nat n = digits_of_nat (n div 10) @ [char_of (48 + n mod 10)]"
      by (rule digits_of_nat_step)
    with "1.prems" have "c \<in> set (digits_of_nat (n div 10)) \<or> c = char_of (48 + n mod 10)"
      by (simp only: set_append set_simps Un_iff) blast
    with False "1.IH" last show ?thesis by blast
  qed
qed

lemma digits_of_nat_nonempty [simp]: "digits_of_nat n \<noteq> []"
  by (subst digits_of_nat.simps) simp

lemma digit_value_char_of: "m < 10 \<Longrightarrow> digit_value (char_of (48 + m)) = m"
  by (simp add: digit_value_def)

lemma nat_of_digits_snoc: "nat_of_digits (s @ [c]) = 10 * nat_of_digits s + digit_value c"
  by (simp add: nat_of_digits_def)

lemma nat_of_digits_of_nat [simp]: "nat_of_digits (digits_of_nat n) = n"
proof (induction n rule: digits_of_nat.induct)
  case (1 n)
  show ?case
  proof (cases "n < 10")
    case True
    then show ?thesis
      by (simp add: digits_of_nat.simps [of n] nat_of_digits_def digit_value_char_of)
  next
    case False
    then show ?thesis
      using "1.IH" by (simp add: digits_of_nat.simps [of n] nat_of_digits_snoc digit_value_char_of)
  qed
qed

section \<open>Dictionaries and counters\<close>

definition dget :: "'v \<Rightarrow> ('k, 'v) dict \<Rightarrow> 'k \<Rightarrow> 'v" where
  "dget d m k = (case map_of m k of None \<Rightarrow> d | Some v \<Rightarrow> v)"

definition distinct_keys :: "('k, 'v) dict \<Rightarrow> bool" where
  "distinct_keys m \<longleftrightarrow> distinct (map fst m)"

definition total :: "('k, int) dict \<Rightarrow> int" where
  "total m = sum_list (map snd m)"

lemma dget_simps [simp]:
  "dget d [] k = d"
  "dget d ((j, v) # m) k = (if k = j then v else dget d m k)"
  by (auto simp: dget_def)

lemma dget_update [simp]: "dget d (AList.update k v m) j = (if j = k then v else dget d m j)"
  by (auto simp: dget_def update_conv')

lemma dget_delete [simp]: "dget d (AList.delete k m) j = (if j = k then d else dget d m j)"
  by (auto simp: dget_def delete_conv')

lemma distinct_keys_update [simp, intro]:
  "distinct_keys m \<Longrightarrow> distinct_keys (AList.update k v m)"
  by (simp add: distinct_keys_def distinct_update)

lemma distinct_keys_delete [simp, intro]:
  "distinct_keys m \<Longrightarrow> distinct_keys (AList.delete k m)"
  by (simp add: distinct_keys_def distinct_delete)

lemma distinct_keys_Nil [simp]: "distinct_keys []"
  by (simp add: distinct_keys_def)

lemma delete_absent: "k \<notin> fst ` set m \<Longrightarrow> AList.delete k m = m"
  by (induction m) auto

lemma dget_absent: "k \<notin> fst ` set m \<Longrightarrow> dget d m k = d"
  by (induction m) auto

lemma total_update [simp]:
  "distinct_keys m \<Longrightarrow> total (AList.update k v m) = total m - dget 0 m k + v"
  by (induction m) (auto simp: total_def distinct_keys_def dget_absent)

lemma total_delete [simp]:
  "distinct_keys m \<Longrightarrow> total (AList.delete k m) = total m - dget 0 m k"
  by (induction m) (auto simp: total_def distinct_keys_def delete_absent dget_absent)

lemma total_Nil [simp]: "total [] = 0"
  by (simp add: total_def)

lemma dget_nonneg: "\<forall>v \<in> snd ` set m. 0 \<le> v \<Longrightarrow> 0 \<le> dget 0 m k" for m :: "('k, int) dict"
  by (induction m) auto

lemma total_nonneg: "\<forall>v \<in> snd ` set m. 0 \<le> v \<Longrightarrow> 0 \<le> total m"
  by (induction m) (auto simp: total_def)

lemma dget_le_total: "\<forall>v \<in> snd ` set m. 0 \<le> v \<Longrightarrow> dget 0 m k \<le> total m"
proof (induction m)
  case (Cons x m)
  then show ?case
    using total_nonneg [of m] dget_nonneg [of m k] by (cases x) (auto simp: total_def)
qed simp

section \<open>Integers from text\<close>

text \<open>
  \<open>int(s)\<close>: surrounding white space, a sign, and decimal digits with single underscores between
  them; anything else is a \<open>ValueError\<close>.
\<close>

definition digit_groups :: "string \<Rightarrow> bool" where
  "digit_groups s = (\<forall>p \<in> set (split_on (CHR ''_'') s). p \<noteq> [] \<and> list_all is_digit p)"

definition py_int :: "string \<Rightarrow> int option" where
  "py_int s =
     (let t = strip s;
          (sign, body) = (case t of
              [] \<Rightarrow> (1, [])
            | c # r \<Rightarrow> if c = CHR ''-'' then (-1, r) else if c = CHR ''+'' then (1, r) else (1, t))
      in if digit_groups body
         then Some (sign * int (nat_of_digits (filter is_digit body))) else None)"

section \<open>Machines whose operations keep an invariant\<close>

text \<open>
  A component is a step function on its state. \<open>legal\<close> says that every operation of a sequence
  is called where its caller may call it; a component without such an obligation takes the
  constant \<^const>\<open>True\<close>.
\<close>

fun legal :: "('op \<Rightarrow> 's \<Rightarrow> bool) \<Rightarrow> ('op \<Rightarrow> 's \<Rightarrow> 's) \<Rightarrow> 'op list \<Rightarrow> 's \<Rightarrow> bool" where
  "legal ok step [] s = True"
| "legal ok step (op # ops) s = (ok op s \<and> legal ok step ops (step op s))"

locale invariant_machine =
  fixes ok :: "'op \<Rightarrow> 's \<Rightarrow> bool"
    and step :: "'op \<Rightarrow> 's \<Rightarrow> 's"
    and inv :: "'s \<Rightarrow> bool"
  assumes step_inv: "inv s \<Longrightarrow> ok op s \<Longrightarrow> inv (step op s)"
begin

lemma run_inv: "inv s \<Longrightarrow> legal ok step ops s \<Longrightarrow> inv (fold step ops s)"
  by (induction ops arbitrary: s) (auto intro: step_inv)

lemma run_prefix_inv:
  "inv s \<Longrightarrow> legal ok step (ops @ rest) s \<Longrightarrow> inv (fold step ops s)"
  by (induction ops arbitrary: s) (auto intro: step_inv)

end

section \<open>Slices\<close>

text \<open>\<open>for offset in range(0, len(xs), n): xs[offset : offset + n]\<close>\<close>

fun slices :: "nat \<Rightarrow> 'a list \<Rightarrow> 'a list list" where
  "slices n xs = (if n = 0 \<or> xs = [] then [] else take n xs # slices n (drop n xs))"

declare slices.simps [simp del]

lemma concat_slices: "0 < n \<Longrightarrow> concat (slices n xs) = xs"
  by (induction n xs rule: slices.induct) (subst slices.simps, simp)

lemma slices_Nil [simp]: "slices n [] = []"
  by (simp add: slices.simps)

lemma slices_nonempty: "0 < n \<Longrightarrow> \<forall>x \<in> set (slices n xs). x \<noteq> []"
proof (induction n xs rule: slices.induct)
  case (1 n xs)
  then show ?case by (subst slices.simps) auto
qed

end
