(* ===== verification/Scheduling.thy ===== *)
theory Scheduling
  imports Py_Prelude
begin

text \<open>
  The scheduling algorithms of \<open>uni_api/routing/core.py\<close>: \<open>weighted_round_robin\<close> (with its cached
  loop), \<open>lottery_scheduling\<close> and \<open>compute_start_index\<close>. The ratio \<open>current / weight\<close> is an exact
  rational here; the source divides floats, which rounds monotonically and rounds equal quotients
  equally. \<open>random.randint\<close> is the stream of its results.
\<close>

section \<open>Weighted round robin\<close>

datatype schedule_error = KeyError string

text \<open>\<open>int(weight)\<close> has already been applied: the configuration holds integers.\<close>

definition weight_items :: "(string, int) dict \<Rightarrow> (string \<times> int) list" where
  "weight_items weights = filter (\<lambda>(name, w). 0 < w) weights"

text \<open>The inner \<open>for name in provider_names\<close> loop.\<close>

fun wrr_inner ::
  "(string, int) dict \<Rightarrow> string list \<Rightarrow> (string, int) dict \<Rightarrow> rat \<Rightarrow> string option
   \<Rightarrow> (string, int) dict \<times> string option" where
  "wrr_inner weights [] current max_ratio selected = (current, selected)"
| "wrr_inner weights (name # names) current max_ratio selected =
     (let c = dget 0 current name + dget 0 weights name;
          current' = AList.update name c current;
          ratio = of_int c / of_int (dget 0 weights name)
      in if max_ratio < ratio then wrr_inner weights names current' ratio (Some name)
         else wrr_inner weights names current' max_ratio selected)"

text \<open>The outer loop, for the given number of selections.\<close>

fun wrr_loop ::
  "nat \<Rightarrow> (string, int) dict \<Rightarrow> string list \<Rightarrow> int \<Rightarrow> (string, int) dict
   \<Rightarrow> schedule_error + string list" where
  "wrr_loop 0 weights names total_weight current = Inr []"
| "wrr_loop (Suc n) weights names total_weight current =
     (case wrr_inner weights names current (-1) None of
        (current', None) \<Rightarrow> Inl (KeyError ''None'')
      | (current', Some selected) \<Rightarrow>
          (case wrr_loop n weights names total_weight
                  (AList.update selected (dget 0 current' selected - total_weight) current') of
             Inl e \<Rightarrow> Inl e
           | Inr rest \<Rightarrow> Inr (selected # rest)))"

definition weighted_round_robin_cached :: "(string \<times> int) list \<Rightarrow> schedule_error + string list" where
  "weighted_round_robin_cached items =
     (let names = map fst items;
          total_weight = total items
      in wrr_loop (nat total_weight) items names total_weight (map (\<lambda>n. (n, 0)) names))"

definition weighted_round_robin :: "(string, int) dict \<Rightarrow> schedule_error + string list" where
  "weighted_round_robin weights =
     (let items = weight_items weights in
      if items = [] then Inr [] else weighted_round_robin_cached items)"

lemma wrr_inner_current:
  "dget 0 (fst (wrr_inner weights names cur m sel)) x =
     dget 0 cur x + int (count_list names x) * dget 0 weights x"
  by (induction names arbitrary: cur m sel) (auto simp: Let_def algebra_simps)

definition ratio_after :: "(string, int) dict \<Rightarrow> (string, int) dict \<Rightarrow> string \<Rightarrow> rat" where
  "ratio_after weights cur x = of_int (dget 0 cur x + dget 0 weights x) / of_int (dget 0 weights x)"

lemma wrr_inner_selected:
  assumes "distinct names"
  shows "(snd (wrr_inner weights names cur m sel) = sel \<and> (\<forall>x \<in> set names. ratio_after weights cur x \<le> m)) \<or>
    (\<exists>s \<in> set names. snd (wrr_inner weights names cur m sel) = Some s \<and> m < ratio_after weights cur s \<and>
       (\<forall>x \<in> set names. ratio_after weights cur x \<le> ratio_after weights cur s))"
  using assms
proof (induction names arbitrary: cur m sel)
  case (Cons n names)
  let ?c = "dget 0 cur n + dget 0 weights n"
  let ?cur = "AList.update n ?c cur"
  have same: "ratio_after weights ?cur x = ratio_after weights cur x" if "x \<in> set names" for x
    using that Cons.prems by (auto simp: ratio_after_def)
  have head: "of_int ?c / of_int (dget 0 weights n) = ratio_after weights cur n"
    by (simp add: ratio_after_def)
  show ?case
  proof (cases "m < ratio_after weights cur n")
    case True
    with Cons.IH [of ?cur "ratio_after weights cur n" "Some n"] Cons.prems show ?thesis
      by (simp add: Let_def head same del: of_int_add) (meson order_less_imp_le order_less_le_trans order_trans)
  next
    case False
    with Cons.IH [of ?cur m sel] Cons.prems show ?thesis
      by (simp add: Let_def head same del: of_int_add) (meson not_le order_less_imp_le order_le_less_trans order_trans)
  qed
qed simp

text \<open>
  The state of the loop after \<open>t\<close> selections, of which \<open>cnt x\<close> went to \<open>x\<close>. Nobody has more than
  its weight, and nobody is a whole turn ahead of its share.
\<close>

definition wrr_inv :: "(string \<times> int) list \<Rightarrow> int \<Rightarrow> (string \<Rightarrow> int) \<Rightarrow> (string, int) dict \<Rightarrow> bool" where
  "wrr_inv items t cnt cur \<longleftrightarrow>
     (\<forall>x \<in> set (map fst items).
        dget 0 cur x = t * dget 0 items x - cnt x * total items \<and> cnt x \<le> dget 0 items x \<and>
        cnt x * total items \<le> t * dget 0 items x + total items) \<and>
     (\<Sum>x \<leftarrow> map fst items. cnt x) = t"

definition positive_items :: "(string \<times> int) list \<Rightarrow> bool" where
  "positive_items items \<longleftrightarrow> distinct_keys items \<and> items \<noteq> [] \<and> (\<forall>(n, w) \<in> set items. 0 < w)"

lemma weight_of_item: "positive_items items \<Longrightarrow> (n, w) \<in> set items \<Longrightarrow> dget 0 items n = w"
  by (simp add: positive_items_def distinct_keys_def dget_def)

lemma total_as_sum: "positive_items items \<Longrightarrow> total items = (\<Sum>x \<leftarrow> map fst items. dget 0 items x)"
  by (auto simp: total_def weight_of_item o_def intro!: arg_cong [of _ _ sum_list] map_cong)

lemma positive_weight: "positive_items items \<Longrightarrow> x \<in> set (map fst items) \<Longrightarrow> 0 < dget 0 items x"
  by (auto simp: weight_of_item) (auto simp: positive_items_def)

lemma sum_list_positive: "xs \<noteq> [] \<Longrightarrow> \<forall>x \<in> set xs. 0 < x \<Longrightarrow> 0 < sum_list xs" for xs :: "int list"
proof (induction xs)
  case (Cons x xs)
  then show ?case by (cases "xs = []") auto
qed simp

lemma positive_total: "positive_items items \<Longrightarrow> 0 < total items"
  unfolding total_def by (intro sum_list_positive) (auto simp: positive_items_def)

lemma sum_list_le_exists:
  fixes f g :: "'a \<Rightarrow> int"
  assumes "(\<Sum>x \<leftarrow> xs. f x) \<le> (\<Sum>x \<leftarrow> xs. g x)" "xs \<noteq> []"
  shows "\<exists>x \<in> set xs. f x \<le> g x"
  using assms
proof (induction xs)
  case (Cons a xs)
  show ?case
  proof (rule ccontr)
    assume "\<not> (\<exists>x \<in> set (a # xs). f x \<le> g x)"
    then have *: "g x < f x" if "x \<in> set (a # xs)" for x using that by force
    show False
    proof (cases "xs = []")
      case True
      then show False using Cons.prems * by simp
    next
      case False
      with Cons * show False by force
    qed
  qed
qed simp

lemma sum_list_bump:
  fixes f :: "'a \<Rightarrow> int"
  shows "distinct xs \<Longrightarrow> s \<in> set xs \<Longrightarrow> (\<Sum>x \<leftarrow> xs. (f(s := f s + 1)) x) = (\<Sum>x \<leftarrow> xs. f x) + 1"
proof (induction xs)
  case (Cons a xs)
  have "s \<notin> set xs \<Longrightarrow> (\<Sum>x \<leftarrow> xs. (f(s := f s + 1)) x) = (\<Sum>x \<leftarrow> xs. f x)"
    by (intro arg_cong [of _ _ sum_list] map_cong) auto
  with Cons show ?case by (cases "a = s") (simp_all del: fun_upd_apply, simp_all)
qed simp

lemma count_list_distinct: "distinct xs \<Longrightarrow> x \<in> set xs \<Longrightarrow> count_list xs x = 1"
  by (induction xs) auto

lemma wrr_step:
  assumes P: "positive_items items" and I: "wrr_inv items t cnt cur" and t: "t < total items"
  obtains s cur' where "wrr_inner items (map fst items) cur (-1) None = (cur', Some s)"
    and "s \<in> set (map fst items)"
    and "wrr_inv items (t + 1) (cnt(s := cnt s + 1)) (AList.update s (dget 0 cur' s - total items) cur')"
proof -
  let ?N = "map fst items" and ?W = "total items" and ?w = "dget 0 items"
  have dist: "distinct ?N" "?N \<noteq> []" using P by (auto simp: positive_items_def distinct_keys_def)
  have W: "0 < ?W" and w: "\<And>x. x \<in> set ?N \<Longrightarrow> 0 < ?w x"
    using P positive_total positive_weight by auto
  have cur: "\<And>x. x \<in> set ?N \<Longrightarrow> dget 0 cur x = t * ?w x - cnt x * ?W"
    and sum: "(\<Sum>x \<leftarrow> ?N. cnt x) = t" using I by (auto simp: wrr_inv_def)
  have ratio: "ratio_after items cur x = of_int (t + 1) - of_int (cnt x * ?W) / of_int (?w x)"
    if "x \<in> set ?N" for x
    using w [OF that] by (simp add: ratio_after_def cur [OF that] field_simps)
  have Wsum: "?W = (\<Sum>x \<leftarrow> ?N. ?w x)" using P by (rule total_as_sum)
  have "(\<Sum>x \<leftarrow> ?N. cnt x * ?W) = (\<Sum>x \<leftarrow> ?N. t * ?w x)"
    using sum Wsum by (simp only: sum_list_mult_const sum_list_const_mult)
  then have "(\<Sum>x \<leftarrow> ?N. cnt x * ?W) \<le> (\<Sum>x \<leftarrow> ?N. t * ?w x)" by simp
  then obtain i where i: "i \<in> set ?N" "cnt i * ?W \<le> t * ?w i"
    using sum_list_le_exists dist(2) by blast
  have "of_int (cnt i * ?W) / of_int (?w i) \<le> (of_int t :: rat)"
    using i w [of i] by (simp add: divide_le_eq flip: of_int_mult)
  then have ri: "1 \<le> ratio_after items cur i" using ratio [OF i(1)] by simp
  obtain s where s: "s \<in> set ?N" "snd (wrr_inner items ?N cur (-1) None) = Some s"
    and best: "\<And>x. x \<in> set ?N \<Longrightarrow> ratio_after items cur x \<le> ratio_after items cur s"
    using wrr_inner_selected [OF dist(1), of items cur "-1" None] ri i(1) by force
  define cur' where "cur' = fst (wrr_inner items ?N cur (-1) None)"
  have "of_int (cnt s * ?W) / of_int (?w s) \<le> (of_int t :: rat)"
    using best [OF i(1)] ri ratio [OF s(1)] by simp
  then have share: "cnt s * ?W \<le> t * ?w s"
    using w [OF s(1)] by (simp add: divide_le_eq flip: of_int_mult)
  have room: "cnt s < ?w s"
  proof -
    have "t * ?w s < ?W * ?w s" using t w [OF s(1)] by simp
    with share have "cnt s * ?W < ?w s * ?W" by (simp add: mult.commute)
    then show ?thesis using W by (simp add: mult_less_cancel_right)
  qed
  have cur': "dget 0 cur' x = (t + 1) * ?w x - cnt x * ?W" if "x \<in> set ?N" for x
    using that dist(1) by (simp add: cur'_def wrr_inner_current cur count_list_distinct algebra_simps)
  have old: "cnt x \<le> ?w x \<and> cnt x * ?W \<le> t * ?w x + ?W" if "x \<in> set ?N" for x
    using I that unfolding wrr_inv_def by blast
  have new: "dget 0 (AList.update s (dget 0 cur' s - ?W) cur') x
        = (t + 1) * ?w x - (cnt(s := cnt s + 1)) x * ?W \<and> (cnt(s := cnt s + 1)) x \<le> ?w x \<and>
        (cnt(s := cnt s + 1)) x * ?W \<le> (t + 1) * ?w x + ?W" if "x \<in> set ?N" for x
    using cur' [OF that] old [OF that] room share w [OF that] by (auto simp: algebra_simps)
  have "wrr_inv items (t + 1) (cnt(s := cnt s + 1)) (AList.update s (dget 0 cur' s - ?W) cur')"
    unfolding wrr_inv_def using new sum_list_bump [OF dist(1) s(1), of cnt] sum by blast
  with s show ?thesis using that by (simp add: cur'_def prod_eq_iff)
qed

lemma wrr_loop_counts:
  assumes "positive_items items" "wrr_inv items t cnt cur" "t + int k = total items"
  shows "\<exists>xs. wrr_loop k items (map fst items) (total items) cur = Inr xs \<and> length xs = k \<and>
    (\<forall>j \<le> k. \<forall>x \<in> set (map fst items).
       (cnt x + int (count_list (take j xs) x)) * total items
         \<le> (t + int j) * dget 0 items x + total items) \<and>
    (\<forall>x \<in> set (map fst items). cnt x + int (count_list xs x) \<le> dget 0 items x) \<and>
    set xs \<subseteq> set (map fst items)"
  using assms
proof (induction k arbitrary: t cnt cur)
  case 0
  then show ?case by (auto simp: wrr_inv_def)
next
  case (Suc k)
  have "t < total items" using Suc.prems(3) by simp
  from wrr_step [OF Suc.prems(1,2) this]
  obtain s cur' where inner: "wrr_inner items (map fst items) cur (-1) None = (cur', Some s)"
    and s: "s \<in> set (map fst items)"
    and inv: "wrr_inv items (t + 1) (cnt(s := cnt s + 1)) (AList.update s (dget 0 cur' s - total items) cur')"
    by blast
  from Suc.IH [OF Suc.prems(1) inv] Suc.prems(3) obtain xs where
    xs: "wrr_loop k items (map fst items) (total items)
           (AList.update s (dget 0 cur' s - total items) cur') = Inr xs" "length xs = k"
    and pre: "\<And>j x. j \<le> k \<Longrightarrow> x \<in> set (map fst items) \<Longrightarrow>
       ((cnt(s := cnt s + 1)) x + int (count_list (take j xs) x)) * total items
         \<le> (t + 1 + int j) * dget 0 items x + total items"
    and all: "\<And>x. x \<in> set (map fst items) \<Longrightarrow>
       (cnt(s := cnt s + 1)) x + int (count_list xs x) \<le> dget 0 items x"
    and sub: "set xs \<subseteq> set (map fst items)"
    by auto
  have "wrr_loop (Suc k) items (map fst items) (total items) cur = Inr (s # xs)"
    by (simp add: inner xs)
  moreover have "(cnt x + int (count_list (take j (s # xs)) x)) * total items
         \<le> (t + int j) * dget 0 items x + total items" if "j \<le> Suc k" "x \<in> set (map fst items)" for j x
  proof (cases j)
    case 0
    then show ?thesis using Suc.prems(2) that(2) unfolding wrr_inv_def by auto
  next
    case (Suc i)
    then show ?thesis using pre [of i x] that by (cases "x = s") (auto simp: algebra_simps)
  qed
  moreover have "cnt x + int (count_list (s # xs) x) \<le> dget 0 items x" if "x \<in> set (map fst items)" for x
    using all [OF that] by (cases "x = s") auto
  ultimately show ?case using xs(2) sub s by (intro exI [of _ "s # xs"]) auto
qed

lemma count_total:
  "distinct ns \<Longrightarrow> set xs \<subseteq> set ns \<Longrightarrow> (\<Sum>x \<leftarrow> ns. int (count_list xs x)) = int (length xs)"
proof (induction xs)
  case (Cons a xs)
  have "(\<Sum>x \<leftarrow> ns. int (count_list (a # xs) x)) = (\<Sum>x \<leftarrow> ns. ((\<lambda>y. int (count_list xs y))(a := int (count_list xs a) + 1)) x)"
    by (intro arg_cong [of _ _ sum_list] map_cong) auto
  also have "\<dots> = (\<Sum>x \<leftarrow> ns. int (count_list xs x)) + 1"
    using Cons.prems by (intro sum_list_bump) auto
  finally show ?case using Cons by simp
qed simp

lemma sum_list_equal:
  fixes f g :: "'a \<Rightarrow> int"
  shows "(\<Sum>x \<leftarrow> xs. f x) = (\<Sum>x \<leftarrow> xs. g x) \<Longrightarrow> \<forall>x \<in> set xs. f x \<le> g x \<Longrightarrow> \<forall>x \<in> set xs. f x = g x"
proof (induction xs)
  case (Cons a xs)
  have "(\<Sum>x \<leftarrow> xs. f x) \<le> (\<Sum>x \<leftarrow> xs. g x)" using Cons.prems by (intro sum_list_mono) auto
  with Cons show ?case by auto
qed simp

lemma wrr_inv_init:
  assumes "positive_items items"
  shows "wrr_inv items 0 (\<lambda>_. 0) (map (\<lambda>n. (n, 0)) (map fst items))"
proof -
  have "dget 0 (map (\<lambda>n. (n, 0)) ns) x = (0::int)" for ns x by (induction ns) auto
  with positive_weight [OF assms] positive_total [OF assms] show ?thesis
    by (auto simp: wrr_inv_def less_imp_le simp del: map_map)
qed

lemma weighted_round_robin_cached_shares:
  assumes P: "positive_items items"
  shows "\<exists>xs. weighted_round_robin_cached items = Inr xs \<and> int (length xs) = total items \<and>
     set xs \<subseteq> set (map fst items) \<and>
     (\<forall>(n, w) \<in> set items. int (count_list xs n) = w \<and>
        (\<forall>j \<le> length xs. int (count_list (take j xs) n) * total items \<le> int j * w + total items))"
proof -
  let ?N = "map fst items"
  have len: "0 + int (nat (total items)) = total items" using positive_total [OF P] by simp
  from wrr_loop_counts [OF P wrr_inv_init [OF P] len] obtain xs where
    xs: "weighted_round_robin_cached items = Inr xs" "length xs = nat (total items)"
    "set xs \<subseteq> set ?N"
    and pre: "\<forall>j \<le> length xs. \<forall>x \<in> set ?N. int (count_list (take j xs) x) * total items
         \<le> int j * dget 0 items x + total items"
    and le: "\<forall>x \<in> set ?N. int (count_list xs x) \<le> dget 0 items x"
    by (auto simp: weighted_round_robin_cached_def Let_def)
  have "distinct ?N" using P by (simp add: positive_items_def distinct_keys_def)
  then have "(\<Sum>x \<leftarrow> ?N. int (count_list xs x)) = (\<Sum>x \<leftarrow> ?N. dget 0 items x)"
    using count_total [OF _ xs(3)] xs(2) len total_as_sum [OF P] by simp
  from sum_list_equal [OF this le]
  have eq: "\<forall>x \<in> set ?N. int (count_list xs x) = dget 0 items x" .
  have "int (count_list xs n) = w \<and>
      (\<forall>j \<le> length xs. int (count_list (take j xs) n) * total items \<le> int j * w + total items)"
    if nw: "(n, w) \<in> set items" for n w
  proof -
    have "n \<in> set ?N" "dget 0 items n = w" using nw weight_of_item [OF P nw] by (force, simp)
    with eq pre show ?thesis by auto
  qed
  with xs len show ?thesis by (intro exI [of _ xs]) auto
qed

lemma weight_items_positive:
  "distinct_keys weights \<Longrightarrow> weight_items weights \<noteq> [] \<Longrightarrow> positive_items (weight_items weights)"
  by (auto simp: positive_items_def weight_items_def distinct_keys_def distinct_map_filter)

text \<open>
  Weighted round robin never fails, schedules nobody but the providers with a positive
  weight, gives each exactly its weight in slots, and spreads the slots: in every prefix of the
  schedule a provider has at most its proportional share plus one slot.
\<close>

theorem weighted_round_robin_exact_shares:
  assumes "distinct_keys weights"
  shows "\<exists>xs. weighted_round_robin weights = Inr xs \<and>
     set xs \<subseteq> {n. \<exists>w. (n, w) \<in> set weights \<and> 0 < w} \<and>
     (\<forall>(n, w) \<in> set weights. 0 < w \<longrightarrow> int (count_list xs n) = w \<and>
        (\<forall>j \<le> length xs. int (count_list (take j xs) n) * int (length xs)
            \<le> int j * w + int (length xs)))"
proof (cases "weight_items weights = []")
  case True
  then show ?thesis by (auto simp: weighted_round_robin_def weight_items_def filter_empty_conv)
next
  case False
  from weighted_round_robin_cached_shares [OF weight_items_positive [OF assms False]] False
  obtain xs where "weighted_round_robin weights = Inr xs" "int (length xs) = total (weight_items weights)"
    "set xs \<subseteq> set (map fst (weight_items weights))"
    "\<forall>(n, w) \<in> set (weight_items weights). int (count_list xs n) = w \<and>
        (\<forall>j \<le> length xs. int (count_list (take j xs) n) * total (weight_items weights)
           \<le> int j * w + total (weight_items weights))"
    by (auto simp: weighted_round_robin_def)
  then show ?thesis by (intro exI [of _ xs]) (force simp: weight_items_def)
qed

theorem weighted_round_robin_exact_shares_witness:
  "\<exists>xs. weighted_round_robin [(''gcp1'', 5), (''gcp2'', 3), (''gcp3'', 2)] = Inr xs \<and>
     int (count_list xs ''gcp1'') = 5 \<and> int (count_list xs ''gcp2'') = 3 \<and> int (count_list xs ''gcp3'') = 2"
  using weighted_round_robin_exact_shares [of "[(''gcp1'', 5), (''gcp2'', 3), (''gcp3'', 2)]"]
  by (auto simp: distinct_keys_def)

section \<open>Lottery scheduling\<close>

fun cumulative :: "int \<Rightarrow> (string \<times> int) list \<Rightarrow> int list" where
  "cumulative running_total [] = []"
| "cumulative running_total ((name, weight) # rest) =
     (running_total + weight) # cumulative (running_total + weight) rest"

definition bisect_left :: "int list \<Rightarrow> int \<Rightarrow> nat" where
  "bisect_left xs r = length (takeWhile (\<lambda>c. c < r) xs)"

text \<open>One draw; \<open>None\<close> is the \<open>IndexError\<close> of a draw above the last cumulative weight.\<close>

definition lottery_pick :: "int \<Rightarrow> (string \<times> int) list \<Rightarrow> int \<Rightarrow> string option" where
  "lottery_pick running_total items r =
     (let i = bisect_left (cumulative running_total items) r in
      if i < length items then Some (fst (items ! i)) else None)"

text \<open>\<open>rand k\<close> is the \<open>k\<close>-th result of \<open>random.randint(1, running_total)\<close>.\<close>

definition lottery_scheduling :: "(nat \<Rightarrow> int) \<Rightarrow> (string, int) dict \<Rightarrow> string option list" where
  "lottery_scheduling rand weights =
     (let items = weight_items weights in
      if items = [] then []
      else map (\<lambda>k. lottery_pick 0 items (rand k)) [0..<nat (total items)])"

lemma lottery_pick_Nil [simp]: "lottery_pick acc [] r = None"
  by (simp add: lottery_pick_def)

lemma lottery_pick_Cons:
  "lottery_pick acc ((m, w) # items) r =
     (if r \<le> acc + w then Some m else lottery_pick (acc + w) items r)"
  by (simp add: lottery_pick_def bisect_left_def Let_def)

lemma lottery_pick_names: "lottery_pick acc items r = Some n \<Longrightarrow> n \<in> set (map fst items)"
proof (induction items arbitrary: acc)
  case (Cons x items)
  then show ?case
    by (cases x) (force simp: lottery_pick_Cons split: if_splits)
qed simp

lemma lottery_pick_some: "r \<le> acc + total items \<Longrightarrow> items \<noteq> [] \<Longrightarrow> lottery_pick acc items r \<noteq> None"
proof (induction items arbitrary: acc)
  case (Cons x items)
  then show ?case by (cases x; cases "items = []") (auto simp: lottery_pick_Cons total_def add.assoc)
qed simp

lemma lottery_winning_numbers:
  assumes "distinct_keys items" "\<forall>(n, w) \<in> set items. 0 < w" "(n, w) \<in> set items"
  shows "card {r. acc < r \<and> r \<le> acc + total items \<and> lottery_pick acc items r = Some n} = nat w"
  using assms
proof (induction items arbitrary: acc)
  case (Cons x items)
  obtain m v where x: "x = (m, v)" by fastforce
  have dk: "distinct_keys items" "\<forall>(n, w) \<in> set items. 0 < w" "0 < v"
    using Cons.prems by (auto simp: distinct_keys_def x)
  have rest: "0 \<le> total items" using dk(2) by (intro total_nonneg) force
  show ?case
  proof (cases "(n, w) = x")
    case True
    have "lottery_pick (acc + v) items r \<noteq> Some n" for r
      using Cons.prems(1) True x lottery_pick_names [of "acc + v" items r n]
      by (auto simp: distinct_keys_def)
    then have "{r. acc < r \<and> r \<le> acc + total (x # items) \<and> lottery_pick acc (x # items) r = Some n}
        = {acc <.. acc + v}"
      using True x rest by (auto simp: lottery_pick_Cons total_def split: if_splits)
    with True x show ?thesis by simp
  next
    case False
    then have nw: "(n, w) \<in> set items" "n \<noteq> m"
      using Cons.prems x by (auto simp: distinct_keys_def image_iff)
    have "{r. acc < r \<and> r \<le> acc + total (x # items) \<and> lottery_pick acc (x # items) r = Some n}
        = {r. acc + v < r \<and> r \<le> acc + v + total items \<and> lottery_pick (acc + v) items r = Some n}"
      using nw(2) dk(3) x by (auto simp: lottery_pick_Cons total_def split: if_splits)
    with Cons.IH [OF dk(1,2) nw(1)] show ?thesis by simp
  qed
qed simp

text \<open>
  Every draw of the lottery is a provider with a positive weight, and of the equally likely
  numbers \<open>1..total\<close> exactly \<open>w\<close> draw a provider of weight \<open>w\<close>.
\<close>

theorem lottery_draws_by_weight:
  assumes "distinct_keys weights" and "weight_items weights \<noteq> []"
  defines "items \<equiv> weight_items weights"
  shows "(\<forall>r \<in> {1..total items}. \<exists>(n, w) \<in> set weights. 0 < w \<and> lottery_pick 0 items r = Some n) \<and>
         (\<forall>(n, w) \<in> set weights. 0 < w \<longrightarrow>
            card {r \<in> {1..total items}. lottery_pick 0 items r = Some n} = nat w)"
proof -
  have pos: "distinct_keys items" "\<forall>(n, w) \<in> set items. 0 < w"
    using assms(1) by (auto simp: items_def weight_items_def distinct_keys_def distinct_map_filter)
  have "{r \<in> {1..total items}. lottery_pick 0 items r = Some n} =
      {r. 0 < r \<and> r \<le> 0 + total items \<and> lottery_pick 0 items r = Some n}" for n by auto
  then have "card {r \<in> {1..total items}. lottery_pick 0 items r = Some n} = nat w"
    if "(n, w) \<in> set items" for n w
    using lottery_winning_numbers [OF pos that, of 0] by simp
  moreover have "\<exists>(n, w) \<in> set items. lottery_pick 0 items r = Some n" if "r \<in> {1..total items}" for r
    using lottery_pick_some [of r 0 items] lottery_pick_names [of 0 items r] assms(2) that
    by (fastforce simp: items_def)
  ultimately show ?thesis by (fastforce simp: items_def weight_items_def)
qed

theorem lottery_draws_by_weight_witness:
  "card {r \<in> {1..total (weight_items [(''a'', 3), (''b'', 2)])}.
     lottery_pick 0 (weight_items [(''a'', 3), (''b'', 2)]) r = Some ''b''} = nat 2"
  using lottery_draws_by_weight [of "[(''a'', 3), (''b'', 2)]", THEN conjunct2]
  by (simp add: weight_items_def distinct_keys_def)

section \<open>The rotating start index\<close>

text \<open>\<open>last_provider_indices\<close> is a \<open>defaultdict\<close> with default \<open>-1\<close>, shared by all requests.\<close>

definition compute_start_index ::
  "(string, int) dict \<Rightarrow> string \<Rightarrow> string \<Rightarrow> nat \<Rightarrow> int \<times> (string, int) dict" where
  "compute_start_index last_provider_indices request_model_name scheduling_algorithm num =
     (if scheduling_algorithm \<noteq> ''fixed_priority'' \<and> 1 < num then
        let i = (dget (-1) last_provider_indices request_model_name + 1) mod int num in
        (i, AList.update request_model_name i last_provider_indices)
      else (0, last_provider_indices))"

text \<open>Successive requests, each for a model; \<open>num m\<close> providers serve model \<open>m\<close>.\<close>

fun start_indices ::
  "string \<Rightarrow> (string \<Rightarrow> nat) \<Rightarrow> string list \<Rightarrow> (string, int) dict \<Rightarrow> (string \<times> int) list" where
  "start_indices alg num [] d = []"
| "start_indices alg num (m # ms) d =
     (let (i, d') = compute_start_index d m alg (num m) in (m, i) # start_indices alg num ms d')"

lemma start_indices_model:
  assumes "alg \<noteq> ''fixed_priority''" "1 < num m"
  shows "map snd (filter (\<lambda>(m', _). m' = m) (start_indices alg num ms d)) =
     map (\<lambda>k. (dget (-1) d m + 1 + int k) mod int (num m)) [0..<count_list ms m]"
proof (induction ms arbitrary: d)
  case (Cons a ms)
  show ?case
  proof (cases "a = m")
    case True
    have shift: "((dget (-1) d m + 1) mod int (num m) + 1 + int k) mod int (num m) =
        (dget (-1) d m + 1 + int (Suc k)) mod int (num m)" for k
    proof -
      have "((dget (-1) d m + 1) mod int (num m) + (1 + int k)) mod int (num m) =
          (dget (-1) d m + 1 + (1 + int k)) mod int (num m)" by (rule mod_add_left_eq)
      then show ?thesis by (simp add: algebra_simps)
    qed
    show ?thesis
      using True assms
      by (simp add: compute_start_index_def Let_def Cons.IH shift upt_conv_Cons map_Suc_upt [symmetric]
          o_def del: upt_Suc map_Suc_upt)
  next
    case False
    then have "dget (-1) (snd (compute_start_index d a alg (num a))) m = dget (-1) d m"
      by (simp add: compute_start_index_def Let_def)
    with False Cons.IH [of "snd (compute_start_index d a alg (num a))"] show ?thesis
      by (simp add: split_beta Let_def)
  qed
qed simp

text \<open>
  Except under \<open>fixed_priority\<close>, the requests for one model start one provider further each
  time, cyclically, whatever requests for other models come between: the \<open>k\<close>-th request for the
  model starts at \<open>(last + 1 + k) mod n\<close>.
\<close>

theorem start_index_rotates:
  assumes "alg \<noteq> ''fixed_priority''" and "1 < num m"
  shows "map snd (filter (\<lambda>(m', _). m' = m) (start_indices alg num ms d)) =
     map (\<lambda>k. (dget (-1) d m + 1 + int k) mod int (num m)) [0..<count_list ms m]"
  using assms by (rule start_indices_model)

theorem start_index_rotates_witness:
  "map snd (filter (\<lambda>(m', _). m' = ''a'')
      (start_indices ''round_robin'' (\<lambda>_. 2) [''a'', ''b'', ''a'', ''a''] [])) = [0, 1, 0]"
  by (subst start_index_rotates) (simp_all add: upt_rec)

end
