(* ===== verification/RoutingRules.thy ===== *)
theory RoutingRules
  imports Scheduling
begin

text \<open>
  The choice of providers for a request, \<open>uni_api/routing/core.py\<close>: the routing index, the rules of an
  API key (\<open>get_provider_rules\<close>), their expansion to provider views (\<open>get_provider_list\<close>), and the
  filters and the order of \<open>get_right_order_providers\<close>.

  A provider is the dictionary of the configuration. Its name is a string (\<open>pname\<close>). Code that is
  not in this repository is an argument: \<open>get_model_dict\<close> and \<open>safe_get\<close> of \<open>core.utils\<close>, the key
  pools (their token limit is \<open>tpr_exceeded\<close>), the channel manager and \<open>random.sample\<close>.
\<close>

type_synonym provider = "(string, pyval) dict"
type_synonym model_dict = "(string, pyval) dict"

section \<open>The routing index\<close>

definition pget :: "provider \<Rightarrow> string \<Rightarrow> pyval \<Rightarrow> pyval" where
  "pget p k otherwise = (case map_of p k of Some v \<Rightarrow> v | None \<Rightarrow> otherwise)"

definition pname :: "provider \<Rightarrow> string" where
  "pname p = (case map_of p ''provider'' of Some (PStr s) \<Rightarrow> s | _ \<Rightarrow> [])"

definition provider_model_dict :: "(provider \<Rightarrow> model_dict) \<Rightarrow> provider \<Rightarrow> model_dict" where
  "provider_model_dict get_model_dict p =
     (case pget p ''_model_dict_cache'' PNone of
        PDict d \<Rightarrow> if d \<noteq> [] then d else get_model_dict p
      | _ \<Rightarrow> get_model_dict p)"

record RoutingIndex =
  provider_by_name :: "(string, provider) dict"
  models_by_provider :: "(string, string list) dict"
  providers_by_model :: "(string, provider list) dict"
  api_key_to_index :: "(string, nat) dict"

definition dlist :: "(string, 'v list) dict \<Rightarrow> string \<Rightarrow> 'v list" where
  "dlist d k = (case map_of d k of Some v \<Rightarrow> v | None \<Rightarrow> [])"

definition index_provider :: "(provider \<Rightarrow> model_dict) \<Rightarrow> provider \<Rightarrow> RoutingIndex \<Rightarrow> RoutingIndex" where
  "index_provider get_model_dict p idx =
     (if pname p = [] then idx
      else
        let names = map fst (provider_model_dict get_model_dict p) in
        idx\<lparr>provider_by_name := AList.update (pname p) p (provider_by_name idx),
            models_by_provider := AList.update (pname p) names (models_by_provider idx),
            providers_by_model :=
              fold (\<lambda>m d. AList.update m (dlist d m @ [p]) d) names (providers_by_model idx)\<rparr>)"

definition build_routing_index ::
  "(provider \<Rightarrow> model_dict) \<Rightarrow> provider list \<Rightarrow> string list \<Rightarrow> RoutingIndex" where
  "build_routing_index get_model_dict ps api_list =
     fold (index_provider get_model_dict) ps
       \<lparr>provider_by_name = [], models_by_provider = [], providers_by_model = [],
        api_key_to_index = fold (\<lambda>(k, i) d. AList.update k i d) (zip api_list [0..<length api_list]) []\<rparr>"

section \<open>The rules of a key\<close>

definition provider_rule :: "provider \<Rightarrow> string \<Rightarrow> string" where
  "provider_rule p model = pname p @ ''/'' @ model"

text \<open>\<open>s.split("/")[0]\<close> and \<open>"/".join(s.split("/")[1:])\<close>\<close>

definition before_slash :: "string \<Rightarrow> string" where
  "before_slash s = hd (split_on (CHR ''/'') s)"

definition after_slash :: "string \<Rightarrow> string" where
  "after_slash s = join_on (CHR ''/'') (tl (split_on (CHR ''/'') s))"

definition is_local_key :: "string list \<Rightarrow> string \<Rightarrow> bool" where
  "is_local_key api_list name \<longleftrightarrow> startswith name ''sk-'' \<and> name \<in> set api_list"

text \<open>\<open>request_model.endswith("*") and model.startswith(request_model.rstrip("*"))\<close>\<close>

definition wildcard_match :: "string \<Rightarrow> string \<Rightarrow> bool" where
  "wildcard_match request_model model \<longleftrightarrow>
     endswith request_model ''*'' \<and> startswith model (rstrip_char (CHR ''*'') request_model)"

definition model_matches :: "string \<Rightarrow> string \<Rightarrow> bool" where
  "model_matches request_model model \<longleftrightarrow> model = request_model \<or> wildcard_match request_model model"

definition rules_of_all :: "provider list \<Rightarrow> string \<Rightarrow> RoutingIndex \<Rightarrow> string list" where
  "rules_of_all ps request_model idx =
     (if endswith request_model ''*''
      then concat (map (\<lambda>p. map (provider_rule p)
             (filter (\<lambda>m. startswith m (rstrip_char (CHR ''*'') request_model))
               (dlist (models_by_provider idx) (pname p)))) ps)
      else map (\<lambda>p. provider_rule p request_model) (dlist (providers_by_model idx) request_model))"

definition rules_of_model :: "string \<Rightarrow> string \<Rightarrow> RoutingIndex \<Rightarrow> string list" where
  "rules_of_model rule request_model idx =
     (if model_matches request_model rule
      then map (\<lambda>p. provider_rule p rule) (dlist (providers_by_model idx) rule) else [])"

definition rules_of_provider ::
  "string \<Rightarrow> string \<Rightarrow> string list \<Rightarrow> (string, string list) dict \<Rightarrow> RoutingIndex \<Rightarrow> string list" where
  "rules_of_provider rule request_model api_list models_list idx =
     (let name = before_slash rule; model = after_slash rule;
          available = (if is_local_key api_list name then dlist models_list name
                       else dlist (models_by_provider idx) name) in
      if model = ''*''
      then (if request_model \<in> set available then [name @ ''/'' @ request_model] else [])
           @ map (\<lambda>m. name @ ''/'' @ m) (filter (wildcard_match request_model) available)
      else if model_matches request_model model
      then (if model \<in> set available then [name @ ''/'' @ model] else [])
      else [])"

definition get_provider_rules ::
  "pyval \<Rightarrow> provider list \<Rightarrow> string \<Rightarrow> string list \<Rightarrow> (string, string list) dict \<Rightarrow> RoutingIndex \<Rightarrow> string list" where
  "get_provider_rules model_rule ps request_model api_list models_list idx =
     (case model_rule of
        PStr rule \<Rightarrow>
          (if rule = ''all'' then rules_of_all ps request_model idx
           else if CHR ''/'' \<in> set rule then
             (if startswith rule ''<'' \<and> endswith rule ''>''
              then rules_of_model (butlast (tl rule)) request_model idx
              else rules_of_provider rule request_model api_list models_list idx)
           else rules_of_model rule request_model idx)
      | _ \<Rightarrow> [])"

section \<open>The providers of a list of rules\<close>

definition provider_view :: "provider \<Rightarrow> model_dict \<Rightarrow> string \<Rightarrow> string \<Rightarrow> provider" where
  "provider_view p d model request_model =
     [(''provider'', PStr (pname p)),
      (''base_url'', pget p ''base_url'' (PStr [])),
      (''api'', pget p ''api'' PNone),
      (''model'', PList [PDict [(case map_of d model of Some (PStr original) \<Rightarrow> original | _ \<Rightarrow> [], PStr request_model)]]),
      (''preferences'', pget p ''preferences'' (PDict [])),
      (''tools'', pget p ''tools'' (PBool False)),
      (''_model_dict_cache'', PDict d),
      (''project_id'', pget p ''project_id'' PNone),
      (''private_key'', pget p ''private_key'' PNone),
      (''client_email'', pget p ''client_email'' PNone),
      (''region'', pget p ''region'' (PStr ''global'')),
      (''cf_account_id'', pget p ''cf_account_id'' PNone),
      (''aws_access_key'', pget p ''aws_access_key'' PNone),
      (''aws_secret_key'', pget p ''aws_secret_key'' PNone),
      (''engine'', pget p ''engine'' PNone),
      (''exclude_endpoints'', pget p ''exclude_endpoints'' (PList []))]"

definition local_view :: "string \<Rightarrow> string \<Rightarrow> provider" where
  "local_view name request_model =
     [(''provider'', PStr name),
      (''base_url'', PStr ''http://127.0.0.1:8000/v1/chat/completions''),
      (''model'', PList [PDict [(request_model, PStr request_model)]]),
      (''tools'', PBool True),
      (''_model_dict_cache'', PDict [(request_model, PStr request_model)])]"

definition provider_of_rule ::
  "(provider \<Rightarrow> model_dict) \<Rightarrow> string \<Rightarrow> string list \<Rightarrow> RoutingIndex \<Rightarrow> string \<Rightarrow> provider list" where
  "provider_of_rule get_model_dict request_model api_list idx item =
     (let name = before_slash item in
      if is_local_key api_list name then [local_view name request_model]
      else if CHR ''/'' \<notin> set item then []
      else
        (case map_of (provider_by_name idx) name of
           None \<Rightarrow> []
         | Some p \<Rightarrow>
             (let d = provider_model_dict get_model_dict p; model = after_slash item in
              if p = [] \<or> d = [] then []
              else if model \<notin> set (map fst d) then []
              else if model_matches request_model model then [provider_view p d model request_model]
              else [])))"

definition get_provider_list ::
  "(provider \<Rightarrow> model_dict) \<Rightarrow> string list \<Rightarrow> string \<Rightarrow> string list \<Rightarrow> RoutingIndex \<Rightarrow> provider list" where
  "get_provider_list get_model_dict rules request_model api_list idx =
     concat (map (provider_of_rule get_model_dict request_model api_list idx) rules)"

text \<open>
  The rules of the key at \<open>api_index\<close>: from the compiled rules when they reach that far, else from the
  configuration (\<open>configured\<close> is \<open>safe_get(config, "api_keys", api_index, "model", default=[])\<close>).
\<close>

definition rules_for_key :: "pyval list list option \<Rightarrow> (nat \<Rightarrow> pyval list) \<Rightarrow> nat \<Rightarrow> pyval list" where
  "rules_for_key compiled configured api_index =
     (case compiled of
        Some rules \<Rightarrow> if api_index < length rules then rules ! api_index else configured api_index
      | None \<Rightarrow> configured api_index)"

definition get_matching_providers ::
  "(provider \<Rightarrow> model_dict) \<Rightarrow> string \<Rightarrow> provider list \<Rightarrow> pyval list \<Rightarrow> string list
   \<Rightarrow> (string, string list) dict \<Rightarrow> RoutingIndex \<Rightarrow> provider list" where
  "get_matching_providers get_model_dict request_model ps model_rules api_list models_list idx =
     get_provider_list get_model_dict
       (concat (map (\<lambda>r. get_provider_rules r ps request_model api_list models_list idx) model_rules))
       request_model api_list idx"

section \<open>Endpoint and body-size filters\<close>

text \<open>\<open>None\<close> is the Python \<open>None\<close>; an endpoint is made a string by \<open>str\<close> before it is normalized.\<close>

definition normalize_endpoint_path :: "string option \<Rightarrow> string" where
  "normalize_endpoint_path endpoint =
     (case endpoint of
        None \<Rightarrow> []
      | Some e \<Rightarrow>
          (let path = strip e in
           if path = [] then []
           else
             let path = rstrip_char (CHR ''/'') path;
                 path = (if startswith path ''/'' then path else CHR ''/'' # path)
             in if path = [] then ''/'' else path))"

definition endpoint_list :: "pyval \<Rightarrow> pyval list" where
  "endpoint_list v =
     (if \<not> truthy v then []
      else (case v of PStr s \<Rightarrow> [PStr s] | PList vs \<Rightarrow> vs | _ \<Rightarrow> [v]))"

definition endpoint_of :: "(pyval \<Rightarrow> string) \<Rightarrow> pyval \<Rightarrow> string option" where
  "endpoint_of repr v = (case v of PNone \<Rightarrow> None | _ \<Rightarrow> Some (py_str repr v))"

text \<open>\<open>preference p k\<close> is \<open>safe_get(provider, "preferences", k)\<close>.\<close>

definition provider_excludes_endpoint ::
  "(pyval \<Rightarrow> string) \<Rightarrow> (provider \<Rightarrow> string \<Rightarrow> pyval) \<Rightarrow> provider \<Rightarrow> string option \<Rightarrow> bool" where
  "provider_excludes_endpoint repr preference p endpoint =
     (let normalized = normalize_endpoint_path endpoint in
      normalized \<noteq> [] \<and>
      list_ex (\<lambda>e. normalize_endpoint_path (endpoint_of repr e) = normalized)
        (endpoint_list (pget p ''exclude_endpoints'' PNone)
         @ endpoint_list (preference p ''exclude_endpoints'')))"

definition BYTE_UNITS :: "(string, int) dict" where
  "BYTE_UNITS =
     [('''', 1), (''b'', 1), (''byte'', 1), (''bytes'', 1),
      (''k'', 1000), (''kb'', 1000), (''ki'', 1024), (''kib'', 1024),
      (''m'', 1000 ^ 2), (''mb'', 1000 ^ 2), (''mi'', 1024 ^ 2), (''mib'', 1024 ^ 2),
      (''g'', 1000 ^ 3), (''gb'', 1000 ^ 3), (''gi'', 1024 ^ 3), (''gib'', 1024 ^ 3),
      (''t'', 1000 ^ 4), (''tb'', 1000 ^ 4), (''ti'', 1024 ^ 4), (''tib'', 1024 ^ 4)]"

text \<open>
  \<open>_BYTE_LIMIT_RE\<close>: digits, an optional fraction, white space and a unit. The units of the table are
  exactly the units of the pattern that have a multiplier, so the unit is looked up directly.
\<close>

definition match_byte_limit :: "string \<Rightarrow> (real \<times> string) option" where
  "match_byte_limit raw =
     (let raw = dropWhile is_space raw;
          digits = takeWhile is_digit raw; rest = dropWhile is_digit raw;
          frac = (case rest of c # r \<Rightarrow> if c = CHR ''.'' then takeWhile is_digit r else [] | [] \<Rightarrow> []);
          rest = (if frac \<noteq> [] then drop (1 + length frac) rest else rest)
      in if digits = [] then None
         else Some (real (nat_of_digits digits) + real (nat_of_digits frac) / 10 ^ length frac,
                    lower (rstrip_by is_space (dropWhile is_space rest))))"

definition positive_limit :: "int \<Rightarrow> int option" where
  "positive_limit l = (if 0 < l then Some l else None)"

definition parse_byte_limit :: "pyval \<Rightarrow> int option" where
  "parse_byte_limit v =
     (case v of
        PInt i \<Rightarrow> positive_limit i
      | PFloat r \<Rightarrow> positive_limit (trunc r)
      | PStr s \<Rightarrow>
          (let raw = filter (\<lambda>c. c \<noteq> CHR ''_'') (strip s) in
           if raw = [] then None
           else
             (case match_byte_limit raw of
                None \<Rightarrow> None
              | Some (number, unit) \<Rightarrow>
                  (case map_of BYTE_UNITS unit of
                     None \<Rightarrow> None
                   | Some multiplier \<Rightarrow> positive_limit (trunc (number * of_int multiplier)))))
      | _ \<Rightarrow> None)"

definition provider_request_body_limit :: "(provider \<Rightarrow> string \<Rightarrow> pyval) \<Rightarrow> provider \<Rightarrow> int option" where
  "provider_request_body_limit preference p =
     (let v = preference p ''max_request_body_bytes'';
          v = (if v = PNone then pget p ''max_request_body_bytes'' PNone else v)
      in parse_byte_limit v)"

definition provider_accepts_request_body :: "(provider \<Rightarrow> string \<Rightarrow> pyval) \<Rightarrow> provider \<Rightarrow> int \<Rightarrow> bool" where
  "provider_accepts_request_body preference p bytes =
     (bytes \<le> 0 \<or>
      (case provider_request_body_limit preference p of None \<Rightarrow> True | Some l \<Rightarrow> bytes \<le> l))"

section \<open>The providers of a request, in order\<close>

datatype route_error = HTTPException int string | MissingKey string | IndexError | RouteTypeError

record request =
  request_model :: string
  endpoint :: "string option"
  request_total_tokens :: int
  request_body_bytes :: int

text \<open>A channel manager as it is at one moment: its two flags and \<open>get_available_providers\<close>.\<close>

record channel =
  cooldown_enabled :: bool
  has_route_circuit :: bool
  available :: "provider list \<Rightarrow> route_error + provider list"

text \<open>The environment of the choice: the libraries, the key pools, the channel and the random numbers.\<close>

record route_env =
  get_model_dict :: "provider \<Rightarrow> model_dict"
  preference :: "provider \<Rightarrow> string \<Rightarrow> pyval"
  repr_of :: "pyval \<Rightarrow> string"
  tpr_exceeded :: "string \<Rightarrow> pyval \<Rightarrow> int \<Rightarrow> bool option"
  channel_manager :: "channel option"
  sample_all :: "provider list \<Rightarrow> provider list"
  randint :: "nat \<Rightarrow> int"
  providers :: "provider list"
  api_list :: "string list"
  models_list :: "(string, string list) dict"
  routing_index :: RoutingIndex

definition matching :: "route_env \<Rightarrow> pyval list \<Rightarrow> string \<Rightarrow> provider list" where
  "matching env model_rules model =
     get_matching_providers (get_model_dict env) model (providers env) model_rules (api_list env)
       (models_list env) (routing_index env)"

definition endpoint_filter :: "route_env \<Rightarrow> request \<Rightarrow> provider list \<Rightarrow> provider list" where
  "endpoint_filter env req ps =
     (case endpoint req of
        None \<Rightarrow> ps
      | Some e \<Rightarrow>
          if e = [] then ps
          else filter (\<lambda>p. \<not> provider_excludes_endpoint (repr_of env) (preference env) p (Some e)) ps)"

definition body_filter :: "route_env \<Rightarrow> request \<Rightarrow> provider list \<Rightarrow> route_error + provider list" where
  "body_filter env req ps =
     (if request_body_bytes req \<noteq> 0 \<and> ps \<noteq> []
      then
        let ps' = filter (\<lambda>p. provider_accepts_request_body (preference env) p (request_body_bytes req)) ps in
        if ps' = [] then Inl (HTTPException 413 ''The request body is too large for all available providers'')
        else Inr ps'
      else Inr ps)"

fun tokens_loop :: "route_env \<Rightarrow> request \<Rightarrow> provider list \<Rightarrow> route_error + provider list" where
  "tokens_loop env req [] = Inr []"
| "tokens_loop env req (p # ps) =
     (case map_of (provider_model_dict (get_model_dict env) p) (request_model req) of
        None \<Rightarrow> Inl (MissingKey (request_model req))
      | Some original \<Rightarrow>
          (if is_local_key (api_list env) (pname p)
           then (case tokens_loop env req ps of Inl e \<Rightarrow> Inl e | Inr rest \<Rightarrow> Inr (p # rest))
           else
             (case tpr_exceeded env (pname p) original (request_total_tokens req) of
                None \<Rightarrow> Inl (MissingKey (pname p))
              | Some exceeded \<Rightarrow>
                  (case tokens_loop env req ps of
                     Inl e \<Rightarrow> Inl e
                   | Inr rest \<Rightarrow> Inr (if exceeded then rest else p # rest)))))"

definition tokens_filter :: "route_env \<Rightarrow> request \<Rightarrow> provider list \<Rightarrow> route_error + provider list" where
  "tokens_filter env req ps =
     (if request_total_tokens req \<noteq> 0 \<and> ps \<noteq> []
      then (case tokens_loop env req ps of
              Inl e \<Rightarrow> Inl e
            | Inr [] \<Rightarrow> Inl (HTTPException 413 ''The request body is too long, No available providers at the moment'')
            | Inr (p # ps') \<Rightarrow> Inr (p # ps'))
      else Inr ps)"

definition channel_filter :: "route_env \<Rightarrow> provider list \<Rightarrow> route_error + provider list" where
  "channel_filter env ps =
     (case channel_manager env of
        None \<Rightarrow> Inr ps
      | Some c \<Rightarrow>
          (if (cooldown_enabled c \<or> has_route_circuit c) \<and> (1 < length ps \<or> has_route_circuit c)
           then
             (case available c ps of
                Inl e \<Rightarrow> Inl e
              | Inr ps' \<Rightarrow>
                  if ps' = [] then Inl (HTTPException 503 ''No available providers at the moment'') else Inr ps')
           else Inr ps))"

text \<open>\<open>weights_for_key\<close>: from the compiled weights when they reach that far, else from the configuration.\<close>

definition weights_for_key ::
  "(string, int) dict list option \<Rightarrow> (nat \<Rightarrow> (string, int) dict) \<Rightarrow> nat \<Rightarrow> (string, int) dict" where
  "weights_for_key compiled configured api_index =
     (case compiled of
        Some ws \<Rightarrow> if api_index < length ws then ws ! api_index else configured api_index
      | None \<Rightarrow> configured api_index)"

definition model_path :: "string \<Rightarrow> provider \<Rightarrow> string" where
  "model_path model p = pname p @ ''/'' @ model"

text \<open>The provider names that both match the request and are weighted; a single one counts as none.\<close>

definition weighted_names :: "route_env \<Rightarrow> string \<Rightarrow> (string, int) dict \<Rightarrow> provider list \<Rightarrow> string list" where
  "weighted_names env model weights ps =
     (let all_providers = remdups (map (model_path model) ps);
          weight_keys = map (model_path model) (matching env (map (\<lambda>(k, w). PStr k) weights) model);
          intersection = filter (\<lambda>n. n \<in> set weight_keys) all_providers
      in if length intersection = 1 then [] else intersection)"

definition filtered_weights :: "string \<Rightarrow> string list \<Rightarrow> (string, int) dict \<Rightarrow> (string, int) dict" where
  "filtered_weights model names weights =
     fold (\<lambda>(k, w) d. if before_slash k @ ''/'' @ model \<in> set names
                      then AList.update (before_slash k) w d else d) weights []"

definition weighted_order :: "route_env \<Rightarrow> string \<Rightarrow> (string, int) dict \<Rightarrow> route_error + string list" where
  "weighted_order env scheduling_algorithm weights =
     (if scheduling_algorithm = ''weighted_round_robin'' \<or> scheduling_algorithm = ''smart_round_robin''
      then (case weighted_round_robin weights of
              Inl (KeyError k) \<Rightarrow> Inl (MissingKey k)
            | Inr names \<Rightarrow> Inr names)
      else if scheduling_algorithm = ''lottery''
      then (let draws = lottery_scheduling (randint env) weights in
            if None \<in> set draws then Inl IndexError else Inr (map the draws))
      else Inr (map fst weights))"

definition providers_by_name :: "provider list \<Rightarrow> (string, provider) dict" where
  "providers_by_name ps = fold (\<lambda>p d. AList.update (pname p) p d) ps []"

definition weigh ::
  "route_env \<Rightarrow> string \<Rightarrow> string \<Rightarrow> (string, int) dict \<Rightarrow> provider list \<Rightarrow> route_error + provider list" where
  "weigh env scheduling_algorithm model weights ps =
     (if weights = [] \<or> ps = [] then Inr ps
      else
        let names = weighted_names env model weights ps in
        if names = [] then Inr ps
        else
          (case weighted_order env scheduling_algorithm (filtered_weights model names weights) of
             Inl e \<Rightarrow> Inl e
           | Inr order \<Rightarrow>
               Inr (concat (map (\<lambda>n. case map_of (providers_by_name ps) n of
                                       Some p \<Rightarrow> if p = [] then [] else [p] | None \<Rightarrow> []) order))))"

definition get_right_order_providers ::
  "route_env \<Rightarrow> request \<Rightarrow> string \<Rightarrow> pyval list \<Rightarrow> (string, int) dict \<Rightarrow> route_error + provider list" where
  "get_right_order_providers env req scheduling_algorithm model_rules weights =
     (case body_filter env req (endpoint_filter env req (matching env model_rules (request_model req))) of
        Inl e \<Rightarrow> Inl e
      | Inr ps1 \<Rightarrow>
          (case tokens_filter env req ps1 of
             Inl e \<Rightarrow> Inl e
           | Inr ps2 \<Rightarrow>
               (if ps2 = [] then Inl (HTTPException 404 ''No available providers at the moment'')
                else
                  (case channel_filter env ps2 of
                     Inl e \<Rightarrow> Inl e
                   | Inr ps3 \<Rightarrow>
                       weigh env scheduling_algorithm (request_model req) weights
                         (if scheduling_algorithm = ''random'' then sample_all env ps3 else ps3)))))"

text \<open>\<open>estimate_request_total_tokens\<close>: the text contents of the messages, four characters a token.\<close>

definition estimate_request_total_tokens :: "string option list option \<Rightarrow> int" where
  "estimate_request_total_tokens messages =
     (case messages of
        None \<Rightarrow> 0
      | Some ms \<Rightarrow>
          trunc (real (sum_list (map (\<lambda>m. case m of Some s \<Rightarrow> length s | None \<Rightarrow> 0) ms)) / 4))"

definition MODEL_INFO_CREATED :: int where "MODEL_INFO_CREATED = 1720524448858"

definition build_api_key_model_response_cache ::
  "string list \<Rightarrow> (string, string list) dict \<Rightarrow> (string, (string \<times> pyval) list list) dict" where
  "build_api_key_model_response_cache keys models =
     fold (\<lambda>k d. AList.update k
        (map (\<lambda>m. [(''id'', PStr m), (''object'', PStr ''model''), (''created'', PInt MODEL_INFO_CREATED),
                   (''owned_by'', PStr ''uni-api'')]) (dlist models k)) d) keys []"

text \<open>\<open>select_provider_api_key_raw\<close>; \<open>next_key\<close> is \<open>ProviderKeyPool.next\<close> of the provider's pool.\<close>

definition select_provider_api_key_raw ::
  "(string \<Rightarrow> string \<Rightarrow> route_error + string) \<Rightarrow> provider \<Rightarrow> string \<Rightarrow> string list \<Rightarrow> route_error + string option" where
  "select_provider_api_key_raw next_key p original_model keys =
     (if is_local_key keys (pname p) then Inr (Some (pname p))
      else if truthy (pget p ''api'' PNone)
      then (case next_key (pname p) original_model of Inl e \<Rightarrow> Inl e | Inr k \<Rightarrow> Inr (Some k))
      else Inr None)"

section \<open>What the rules allow\<close>

text \<open>
  The meaning of a rule of an API key, independent of how it is expanded: which model of which
  provider it names.
\<close>

definition rule_allows :: "pyval \<Rightarrow> string \<Rightarrow> string \<Rightarrow> bool" where
  "rule_allows rule name model \<longleftrightarrow>
     rule = PStr ''all'' \<or> rule = PStr (name @ ''/*'') \<or> rule = PStr (name @ ''/'' @ model) \<or>
     rule = PStr (''<'' @ model @ ''>'') \<or> (CHR ''/'' \<notin> set model \<and> rule = PStr model)"

definition slash_free :: "string \<Rightarrow> bool" where
  "slash_free s \<longleftrightarrow> CHR ''/'' \<notin> set s"

lemma slash_freeD: "slash_free s \<Longrightarrow> split_on (CHR ''/'') (s @ ''/'' @ t) = s # split_on (CHR ''/'') t"
  by (simp add: slash_free_def split_on_append)

lemma before_after_slash [simp]:
  "slash_free s \<Longrightarrow> before_slash (s @ CHR ''/'' # t) = s"
  "slash_free s \<Longrightarrow> after_slash (s @ CHR ''/'' # t) = t"
  using slash_freeD [of s t] by (simp_all add: before_slash_def after_slash_def join_on_split)

lemma split_on_hd: "c \<notin> set (hd (split_on c s))"
  by (induction s) (auto split: list.splits)

lemma before_slash_free [simp]: "slash_free (before_slash s)"
  by (simp add: slash_free_def before_slash_def split_on_hd)

lemma slash_split: "CHR ''/'' \<in> set s \<Longrightarrow> s = before_slash s @ ''/'' @ after_slash s"
proof -
  assume "CHR ''/'' \<in> set s"
  then obtain a b where "s = a @ CHR ''/'' # b" "CHR ''/'' \<notin> set a" by (metis split_list_first)
  then show ?thesis using before_after_slash [of a b] by (simp add: slash_free_def)
qed

lemma split_on_no_slash: "CHR ''/'' \<notin> set s \<Longrightarrow> before_slash s = s"
  by (simp add: before_slash_def split_on_no_sep)

definition good_index :: "provider list \<Rightarrow> RoutingIndex \<Rightarrow> bool" where
  "good_index ps idx \<longleftrightarrow>
     (\<forall>n p. map_of (provider_by_name idx) n = Some p \<longrightarrow> p \<in> set ps \<and> pname p = n) \<and>
     (\<forall>m. \<forall>p \<in> set (dlist (providers_by_model idx) m). p \<in> set ps)"

lemma dlist_update: "dlist (AList.update k v d) j = (if j = k then v else dlist d j)"
  by (simp add: dlist_def update_conv')

lemma dlist_add_models:
  "set (dlist (fold (\<lambda>m d. AList.update m (dlist d m @ [p]) d) names d) k) \<subseteq> insert p (set (dlist d k))"
proof (induction names arbitrary: d)
  case (Cons n names)
  have "set (dlist (AList.update n (dlist d n @ [p]) d) k) \<subseteq> insert p (set (dlist d k))"
    by (auto simp: dlist_update)
  with Cons.IH [of "AList.update n (dlist d n @ [p]) d"] show ?case by fastforce
qed auto

lemma index_provider_good:
  "good_index ps idx \<Longrightarrow> p \<in> set ps \<Longrightarrow> good_index ps (index_provider gm p idx)"
  using dlist_add_models [of p "map fst (provider_model_dict gm p)" "providers_by_model idx"]
  by (fastforce simp: good_index_def index_provider_def Let_def update_conv' split: if_splits)

lemma build_routing_index_good: "good_index ps (build_routing_index gm ps keys)"
proof -
  have "good_index ps (fold (index_provider gm) qs idx)" if "set qs \<subseteq> set ps" "good_index ps idx" for qs idx
    using that by (induction qs arbitrary: idx) (auto simp: index_provider_good)
  moreover have "good_index ps \<lparr>provider_by_name = [], models_by_provider = [], providers_by_model = [],
      api_key_to_index = d\<rparr>" for d by (simp add: good_index_def dlist_def)
  ultimately show ?thesis unfolding build_routing_index_def by blast
qed

text \<open>Every rule string that comes out names a provider and a model that the rule allows.\<close>

lemma get_provider_rules_allowed:
  assumes idx: "good_index ps idx" and names: "\<forall>p \<in> set ps. slash_free (pname p)"
    and item: "item \<in> set (get_provider_rules rule ps req keys models idx)"
  shows "\<exists>name model. item = name @ ''/'' @ model \<and> slash_free name \<and> model_matches req model \<and>
    rule_allows rule name model"
proof -
  obtain r where rule: "rule = PStr r" using item by (cases rule) (auto simp: get_provider_rules_def)
  have by_model: "\<exists>name model. item = name @ ''/'' @ model \<and> slash_free name \<and> model_matches req model \<and>
      rule_allows rule name model"
    if "item \<in> set (rules_of_model m req idx)" "\<And>name. rule_allows rule name m" for m
    using that idx names by (auto simp: rules_of_model_def provider_rule_def good_index_def split: if_splits) blast
  consider (all) "r = ''all''" | (model) m where "r = ''<'' @ m @ ''>''" "item \<in> set (rules_of_model m req idx)"
    | (plain) "CHR ''/'' \<notin> set r" "item \<in> set (rules_of_model r req idx)"
    | (prov) "CHR ''/'' \<in> set r" "item \<in> set (rules_of_provider r req keys models idx)"
  proof -
    have "r = ''<'' @ butlast (tl r) @ ''>''" if st: "startswith r ''<''" "endswith r ''>''" "CHR ''/'' \<in> set r" for r
    proof -
      obtain a where a: "r = CHR ''<'' # a" using st(1) unfolding startswith_iff by auto
      obtain b where b: "r = b @ ''>''" using st(2) unfolding endswith_iff by auto
      note ab = a b
      with st(3) have "a \<noteq> []" by auto
      with ab have "last a = CHR ''>''" by (metis last.simps last_snoc)
      with ab(1) \<open>a \<noteq> []\<close> show ?thesis by (metis append_Cons append_Nil append_butlast_last_id list.sel(3))
    qed
    with item rule that show thesis by (auto simp: get_provider_rules_def split: if_splits)
  qed
  then show ?thesis
  proof cases
    case all
    then show ?thesis using item rule idx names
      by (auto simp: get_provider_rules_def rules_of_all_def provider_rule_def rule_allows_def model_matches_def
        wildcard_match_def good_index_def split: if_splits)
  next
    case (model m)
    then show ?thesis using by_model [of m] by (simp add: rule rule_allows_def)
  next
    case plain
    then show ?thesis using by_model [of r] by (simp add: rule rule_allows_def)
  next
    case prov
    have r: "r = before_slash r @ ''/'' @ after_slash r" using prov(1) by (rule slash_split)
    then have "rule_allows rule (before_slash r) (after_slash r)"
      "after_slash r = ''*'' \<Longrightarrow> rule_allows rule (before_slash r) m" for m
      using r by (auto simp: rule rule_allows_def)
    with prov(2) show ?thesis
      by (fastforce simp: rules_of_provider_def Let_def model_matches_def split: if_splits)
  qed
qed

lemma provider_of_rule_name:
  assumes "slash_free name" "p \<in> set (provider_of_rule gm req keys idx (name @ ''/'' @ model))"
    and "good_index ps idx"
  shows "(is_local_key keys name \<and> p = local_view name req) \<or>
    (\<exists>c \<in> set ps. pname c = name \<and> model \<in> set (map fst (provider_model_dict gm c)) \<and>
       model_matches req model \<and> p = provider_view c (provider_model_dict gm c) model req)"
proof (cases "is_local_key keys name")
  case True
  with assms show ?thesis by (simp add: provider_of_rule_def Let_def)
next
  case False
  with assms(1,2) obtain c where c: "map_of (provider_by_name idx) name = Some c"
    by (cases "map_of (provider_by_name idx) name") (simp_all add: provider_of_rule_def Let_def)
  with False assms(1,2) have "model \<in> set (map fst (provider_model_dict gm c))" "model_matches req model"
    "p = provider_view c (provider_model_dict gm c) model req"
    by (auto simp: provider_of_rule_def Let_def split: if_splits)
  moreover have "c \<in> set ps \<and> pname c = name" using c assms(3) by (auto simp: good_index_def)
  ultimately show ?thesis by blast
qed

lemma pname_views [simp]:
  "pname (provider_view c d m req) = pname c" "pname (local_view name req) = name"
  by (simp_all add: pname_def provider_view_def local_view_def)

definition env_ok :: "route_env \<Rightarrow> bool" where
  "env_ok env \<longleftrightarrow>
     routing_index env = build_routing_index (get_model_dict env) (providers env) (api_list env) \<and>
     (\<forall>c \<in> set (providers env). slash_free (pname c)) \<and>
     (\<forall>ch ps qs. channel_manager env = Some ch \<longrightarrow> available ch ps = Inr qs \<longrightarrow> set qs \<subseteq> set ps) \<and>
     (\<forall>ps. set (sample_all env ps) = set ps)"

text \<open>A provider of the answer: where it comes from and why the key may use it.\<close>

definition authorized :: "route_env \<Rightarrow> pyval list \<Rightarrow> string \<Rightarrow> provider \<Rightarrow> bool" where
  "authorized env model_rules req p \<longleftrightarrow>
     (\<exists>rule \<in> set model_rules. \<exists>model. rule_allows rule (pname p) model \<and> model_matches req model \<and>
        ((is_local_key (api_list env) (pname p) \<and> p = local_view (pname p) req) \<or>
         (\<exists>c \<in> set (providers env). pname c = pname p \<and>
            model \<in> set (map fst (provider_model_dict (get_model_dict env) c)) \<and>
            p = provider_view c (provider_model_dict (get_model_dict env) c) model req)))"

lemma matching_authorized:
  assumes "env_ok env" "p \<in> set (matching env model_rules req)"
  shows "authorized env model_rules req p"
proof -
  have idx: "good_index (providers env) (routing_index env)" and names: "\<forall>c \<in> set (providers env). slash_free (pname c)"
    using assms(1) by (simp_all add: env_ok_def build_routing_index_good)
  obtain rule item where rule: "rule \<in> set model_rules"
    "item \<in> set (get_provider_rules rule (providers env) req (api_list env) (models_list env) (routing_index env))"
    "p \<in> set (provider_of_rule (get_model_dict env) req (api_list env) (routing_index env) item)"
    using assms(2) by (auto simp: matching_def get_matching_providers_def get_provider_list_def)
  from get_provider_rules_allowed [OF idx names rule(2)] obtain name model where
    item: "item = name @ ''/'' @ model" "slash_free name" "model_matches req model" "rule_allows rule name model"
    by blast
  from provider_of_rule_name [OF item(2) rule(3) [unfolded item(1)] idx] show ?thesis
    unfolding authorized_def using rule(1) item(3,4) by (elim disjE) fastforce+
qed

lemma endpoint_filter_subset: "set (endpoint_filter env req ps) \<subseteq> set ps"
  by (auto simp: endpoint_filter_def split: option.splits)

lemma body_filter_subset: "body_filter env req ps = Inr qs \<Longrightarrow> set qs \<subseteq> set ps \<and>
    (\<forall>p \<in> set qs. request_body_bytes req \<noteq> 0 \<longrightarrow>
       provider_accepts_request_body (preference env) p (request_body_bytes req))"
  by (auto simp: body_filter_def Let_def split: if_splits)

lemma tokens_loop_subset: "tokens_loop env req ps = Inr qs \<Longrightarrow> set qs \<subseteq> set ps"
  by (induction ps arbitrary: qs) (auto split: option.splits sum.splits if_splits)

lemma tokens_filter_subset: "tokens_filter env req ps = Inr qs \<Longrightarrow> set qs \<subseteq> set ps"
  by (auto simp: tokens_filter_def dest: tokens_loop_subset split: if_splits sum.splits list.splits)

lemma channel_filter_subset: "env_ok env \<Longrightarrow> channel_filter env ps = Inr qs \<Longrightarrow> set qs \<subseteq> set ps"
  by (fastforce simp: channel_filter_def env_ok_def Let_def split: if_splits option.splits sum.splits)

lemma providers_by_name_sound:
  "map_of (providers_by_name ps) n = Some p \<Longrightarrow> p \<in> set ps \<and> pname p = n"
proof -
  have "map_of (fold (\<lambda>p d. AList.update (pname p) p d) qs d) n = Some p \<Longrightarrow>
      set qs \<subseteq> set ps \<Longrightarrow> (\<forall>p. map_of d n = Some p \<longrightarrow> p \<in> set ps \<and> pname p = n) \<Longrightarrow> p \<in> set ps \<and> pname p = n"
    for qs d
    by (induction qs arbitrary: d) (auto simp: update_conv' split: if_splits)
  from this [of ps "[]"] show "map_of (providers_by_name ps) n = Some p \<Longrightarrow> p \<in> set ps \<and> pname p = n"
    by (simp add: providers_by_name_def)
qed

lemma weigh_subset: "weigh env alg model weights ps = Inr qs \<Longrightarrow> set qs \<subseteq> set ps"
  using providers_by_name_sound [of ps]
  by (auto simp: weigh_def Let_def split: if_splits sum.splits option.splits)

lemma right_order_stages:
  assumes "get_right_order_providers env req alg model_rules weights = Inr ps"
  obtains ps1 ps2 ps3 where
    "body_filter env req (endpoint_filter env req (matching env model_rules (request_model req))) = Inr ps1"
    "tokens_filter env req ps1 = Inr ps2" "ps2 \<noteq> []" "channel_filter env ps2 = Inr ps3"
    "weigh env alg (request_model req) weights (if alg = ''random'' then sample_all env ps3 else ps3) = Inr ps"
  using assms by (auto simp: get_right_order_providers_def split: sum.splits if_splits)

text \<open>
  C1. A request only reaches providers its key may use: every provider of the answer comes from the
  configuration (or is a local key), serves a model that matches the requested one and that a rule of
  the API key allows, does not exclude the endpoint, and accepts a body of that size; for any
  scheduling algorithm, weights, token limits and channel state. Provider names without a slash are
  assumed, since a rule is cut at its first slash.
\<close>

theorem routing_authorized:
  assumes env: "env_ok env" and answer: "get_right_order_providers env req alg model_rules weights = Inr ps"
    and p: "p \<in> set ps"
  shows "authorized env model_rules (request_model req) p \<and>
    (\<forall>e. endpoint req = Some e \<longrightarrow> \<not> provider_excludes_endpoint (repr_of env) (preference env) p (Some e)) \<and>
    provider_accepts_request_body (preference env) p (request_body_bytes req)"
  using answer
proof (cases rule: right_order_stages)
  case (1 ps1 ps2 ps3)
  have "set (if alg = ''random'' then sample_all env ps3 else ps3) = set ps3"
    using env by (auto simp: env_ok_def)
  then have p1: "p \<in> set ps1"
    using p weigh_subset [OF 1(5)] channel_filter_subset [OF env 1(4)] tokens_filter_subset [OF 1(2)] by blast
  then have p0: "p \<in> set (endpoint_filter env req (matching env model_rules (request_model req)))"
    using body_filter_subset [OF 1(1)] by blast
  then have "p \<in> set (matching env model_rules (request_model req))" using endpoint_filter_subset by blast
  moreover have "provider_accepts_request_body (preference env) p (request_body_bytes req)"
    using body_filter_subset [OF 1(1)] p1 by (cases "request_body_bytes req = 0") (auto simp: provider_accepts_request_body_def)
  moreover have "\<not> provider_excludes_endpoint (repr_of env) (preference env) p (Some e)" if "endpoint req = Some e" for e
    using p0 that by (auto simp: endpoint_filter_def provider_excludes_endpoint_def normalize_endpoint_path_def
      strip_def rstrip_by_def lstrip_by_def split: if_splits)
  ultimately show ?thesis using matching_authorized [OF env] by blast
qed

text \<open>Two providers, of which the second excludes the responses endpoint.\<close>

definition demo_provider :: "string \<Rightarrow> string \<Rightarrow> pyval list \<Rightarrow> provider" where
  "demo_provider name original excluded =
     [(''provider'', PStr name), (''_model_dict_cache'', PDict [(''gpt'', PStr original)]),
      (''exclude_endpoints'', PList excluded)]"

definition demo_env :: route_env where
  "demo_env =
     (let ps = [demo_provider ''east'' ''gpt-1'' [], demo_provider ''west'' ''gpt-2'' [PStr ''v1/responses/'']] in
      \<lparr>get_model_dict = (\<lambda>_. []), preference = (\<lambda>_ _. PNone), repr_of = (\<lambda>_. []),
       tpr_exceeded = (\<lambda>_ _ _. Some False), channel_manager = None, sample_all = rev,
       randint = (\<lambda>_. 1), providers = ps, api_list = [''sk-a''], models_list = [],
       routing_index = build_routing_index (\<lambda>_. []) ps [''sk-a'']\<rparr>)"

definition demo_request :: "string option \<Rightarrow> request" where
  "demo_request e = \<lparr>request_model = ''gpt'', endpoint = e, request_total_tokens = 0, request_body_bytes = 10\<rparr>"

lemma demo_env_ok: "env_ok demo_env"
  by (simp add: env_ok_def demo_env_def Let_def slash_free_def demo_provider_def pname_def)

lemmas route_eval = demo_env_def demo_provider_def demo_request_def get_right_order_providers_def matching_def
  get_matching_providers_def get_provider_list_def provider_of_rule_def get_provider_rules_def rules_of_all_def
  rules_of_model_def rules_of_provider_def model_matches_def wildcard_match_def is_local_key_def
  build_routing_index_def index_provider_def provider_model_dict_def pget_def pname_def dlist_def
  provider_rule_def provider_view_def endpoint_filter_def body_filter_def tokens_filter_def channel_filter_def
  provider_excludes_endpoint_def normalize_endpoint_path_def endpoint_list_def endpoint_of_def
  provider_accepts_request_body_def provider_request_body_limit_def parse_byte_limit_def weigh_def
  before_slash_def after_slash_def

theorem routing_authorized_witness:
  "\<exists>ps. get_right_order_providers demo_env (demo_request (Some ''/v1/responses'')) ''fixed_priority'' [PStr ''all''] [] = Inr ps \<and>
     map pname ps = [''east''] \<and> (\<forall>p \<in> set ps. authorized demo_env [PStr ''all''] ''gpt'' p)"
proof -
  let ?r = "get_right_order_providers demo_env (demo_request (Some ''/v1/responses'')) ''fixed_priority'' [PStr ''all''] []"
  obtain ps where ps: "?r = Inr ps" "map pname ps = [''east'']"
    by (simp add: route_eval py_defs)
  have "authorized demo_env [PStr ''all''] ''gpt'' p" if "p \<in> set ps" for p
    using routing_authorized [OF demo_env_ok ps(1) that] by (simp add: demo_request_def)
  with ps show ?thesis by (intro exI [of _ ps]) simp
qed

section \<open>What the rules give\<close>




definition plain_config :: "route_env \<Rightarrow> bool" where
  "plain_config env \<longleftrightarrow> distinct (map pname (providers env)) \<and>
     (\<forall>p \<in> set (providers env). pname p \<noteq> [] \<and> \<not> is_local_key (api_list env) (pname p) \<and>
        distinct_keys (provider_model_dict (get_model_dict env) p))"












section \<open>Weights\<close>

text \<open>
  Weights name providers (\<open>provider/...\<close>) and are positive. Then the weighted order keeps at least one
  provider; \<open>draws_in_range\<close> is \<open>random.randint\<close>.
\<close>

definition good_weights :: "(string, int) dict \<Rightarrow> bool" where
  "good_weights weights \<longleftrightarrow>
     (\<forall>(k, w) \<in> set weights. 0 < w \<and> CHR ''/'' \<in> set k \<and> \<not> startswith k ''<'')"

lemma filtered_weights_step:
  assumes "before_slash k @ ''/'' @ model \<in> set names" "(k, w) \<in> set weights" "\<forall>(k, w) \<in> set weights. 0 < w"
  shows "filtered_weights model names weights \<noteq> [] \<and>
    (\<forall>(n, w) \<in> set (filtered_weights model names weights). 0 < w \<and> n @ ''/'' @ model \<in> set names)"
proof -
  let ?f = "\<lambda>(k, w) d. if before_slash k @ ''/'' @ model \<in> set names then AList.update (before_slash k) w d else d"
  have vals: "\<forall>(n, w) \<in> set (AList.update k v d). 0 < w \<and> n @ ''/'' @ model \<in> set names"
    if "\<forall>(n, w) \<in> set d. 0 < w \<and> n @ ''/'' @ model \<in> set names" "0 < v" "k @ ''/'' @ model \<in> set names"
    for k v and d :: "(string, int) dict"
    using that by (induction d) auto
  have good: "\<forall>(n, w) \<in> set (fold ?f ws d). 0 < w \<and> n @ ''/'' @ model \<in> set names"
    if "\<forall>(n, w) \<in> set d. 0 < w \<and> n @ ''/'' @ model \<in> set names" "\<forall>(k, w) \<in> set ws. 0 < w"
    for ws :: "(string, int) dict" and d
    using that
  proof (induction ws arbitrary: d)
    case (Cons a ws)
    obtain k v where a: "a = (k, v)" by (cases a)
    have "\<forall>(n, w) \<in> set (?f a d). 0 < w \<and> n @ ''/'' @ model \<in> set names"
    proof (cases "before_slash k @ ''/'' @ model \<in> set names")
      case True
      with vals [OF Cons.prems(1), of v "before_slash k"] Cons.prems(2) show ?thesis by (simp add: a)
    qed (use Cons.prems(1) in \<open>simp add: a\<close>)
    from Cons.IH [OF this] Cons.prems(2) show ?case by simp
  qed simp
  have nonempty: "AList.update k v d \<noteq> []" for k v and d :: "(string, int) dict" by (cases d) auto
  have keep: "fold ?f ws d \<noteq> []" if "d \<noteq> []" for ws d
    using that
  proof (induction ws arbitrary: d)
    case (Cons a ws)
    have "?f a d \<noteq> []" using Cons.prems nonempty by (simp split: prod.split)
    from Cons.IH [OF this] show ?case by simp
  qed simp
  have "fold ?f ws d \<noteq> []" if "(k, w) \<in> set ws" for ws d
    using that assms(1)
  proof (induction ws arbitrary: d)
    case (Cons a ws)
    show ?case
    proof (cases "a = (k, w)")
      case True
      then show ?thesis using assms(1) keep [OF nonempty] by simp
    next
      case False
      then have "(k, w) \<in> set ws" using Cons.prems(1) by simp
      from Cons.IH [OF this assms(1)] show ?thesis by simp
    qed
  qed simp
  from this [OF assms(2)] show ?thesis
    using good [of "[]" weights] assms(3) by (simp add: filtered_weights_def)
qed

lemma weight_items_all: "\<forall>(n, w) \<in> set ws. 0 < w \<Longrightarrow> weight_items ws = ws"
  by (induction ws) (auto simp: weight_items_def)

lemma wrr_loop_names:
  "wrr_loop n weights names t cur = Inr order \<Longrightarrow> set order \<subseteq> set names \<and> length order = n"
proof (induction n arbitrary: cur order)
  case (Suc n)
  have sel: "snd (wrr_inner weights names' cur m None) = Some x \<Longrightarrow> x \<in> set names'" for names' cur m x
  proof -
    have "snd (wrr_inner weights names' cur m sel) = Some x \<Longrightarrow> x \<in> set names' \<or> sel = Some x" for sel
      by (induction names' arbitrary: cur m sel) (fastforce simp: Let_def split: if_splits)+
    then show "snd (wrr_inner weights names' cur m None) = Some x \<Longrightarrow> x \<in> set names'" by blast
  qed
  from Suc.prems obtain cur' x rest where x: "wrr_inner weights names cur (-1) None = (cur', Some x)"
    "wrr_loop n weights names t (AList.update x (dget 0 cur' x - t) cur') = Inr rest" "order = x # rest"
    by (auto split: prod.splits option.splits sum.splits)
  with Suc.IH [OF x(2)] sel [of names cur "-1" x] show ?case by auto
qed simp

lemma weighted_order_names:
  assumes ws: "ws \<noteq> []" "\<forall>(n, w) \<in> set ws. 0 < w"
    and order: "weighted_order env alg ws = Inr order"
  shows "order \<noteq> [] \<and> set order \<subseteq> fst ` set ws"
proof -
  have items: "weight_items ws = ws" using weight_items_all [OF ws(2)] .
  have pos: "0 < total ws"
  proof -
    have "0 < sum_list (map snd ws)" using ws by (intro sum_list_positive) auto
    then show ?thesis by (simp add: total_def)
  qed
  consider (wrr) "weighted_round_robin ws = Inr order"
    | (lottery) "None \<notin> set (lottery_scheduling (randint env) ws)" "order = map the (lottery_scheduling (randint env) ws)"
    | (plain) "order = map fst ws"
    using order by (auto simp: weighted_order_def Let_def split: if_splits sum.splits schedule_error.splits)
  then show ?thesis
  proof cases
    case wrr
    then have "wrr_loop (nat (total ws)) ws (map fst ws) (total ws) (map (\<lambda>n. (n, 0)) (map fst ws)) = Inr order"
      using ws(1) by (simp add: weighted_round_robin_def items weighted_round_robin_cached_def Let_def)
    from wrr_loop_names [OF this] pos show ?thesis by auto
  next
    case lottery
    let ?draw = "\<lambda>k. lottery_pick 0 ws (randint env k)"
    have draws: "lottery_scheduling (randint env) ws = map ?draw [0..<nat (total ws)]"
      using ws(1) by (simp add: lottery_scheduling_def items Let_def)
    have "the (?draw k) \<in> fst ` set ws" if "k < nat (total ws)" for k
    proof -
      have "?draw k \<noteq> None" using lottery(1) that by (force simp: draws)
      then show ?thesis using lottery_pick_names [of 0 ws "randint env k"] by auto
    qed
    then show ?thesis using pos by (auto simp: lottery(2) draws)
  next
    case plain
    then show ?thesis using ws(1) by simp
  qed
qed

lemma providers_by_name_complete:
  "p \<in> set ps \<Longrightarrow> map_of (providers_by_name ps) (pname p) \<noteq> None"
proof -
  have "p \<in> set qs \<or> map_of d (pname p) \<noteq> None \<Longrightarrow>
      map_of (fold (\<lambda>p d. AList.update (pname p) p d) qs d) (pname p) \<noteq> None" for qs d
    by (induction qs arbitrary: d) (auto simp: update_conv')
  then show "p \<in> set ps \<Longrightarrow> map_of (providers_by_name ps) (pname p) \<noteq> None"
    unfolding providers_by_name_def by blast
qed

lemma weigh_not_empty:
  assumes env: "env_ok env" and w: "good_weights weights"
    and ps: "ps \<noteq> []" "\<forall>p \<in> set ps. pname p \<noteq> []"
    and answer: "weigh env alg model weights ps = Inr qs"
  shows "qs \<noteq> []"
proof (cases "weights = [] \<or> weighted_names env model weights ps = []")
  case True
  with answer ps(1) show ?thesis by (auto simp: weigh_def Let_def split: if_splits)
next
  case False
  define names where "names = weighted_names env model weights ps"
  with False have names: "names \<noteq> []" "weights \<noteq> []" by simp_all
  then obtain n where n: "n \<in> set names" by (cases names) auto
  then obtain p' where p': "p' \<in> set (matching env (map (\<lambda>(k, w). PStr k) weights) model)" "n = model_path model p'"
    by (auto simp: names_def weighted_names_def Let_def split: if_splits)
  from matching_authorized [OF env p'(1)] obtain k v m where k: "(k, v) \<in> set weights" "rule_allows (PStr k) (pname p') m"
    by (auto simp: authorized_def)
  have kk: "CHR ''/'' \<in> set k" "\<not> startswith k ''<''" using w k(1) by (auto simp: good_weights_def)
  have "slash_free (pname p')"
  proof -
    obtain rule item where "rule \<in> set (map (\<lambda>(k, w). PStr k) weights)"
      "item \<in> set (get_provider_rules rule (providers env) model (api_list env) (models_list env) (routing_index env))"
      "p' \<in> set (provider_of_rule (get_model_dict env) model (api_list env) (routing_index env) item)"
      using p'(1) by (auto simp: matching_def get_matching_providers_def get_provider_list_def)
    moreover have idx: "good_index (providers env) (routing_index env)" "\<forall>c \<in> set (providers env). slash_free (pname c)"
      using env by (simp_all add: env_ok_def build_routing_index_good)
    ultimately show ?thesis
      using get_provider_rules_allowed [OF idx] provider_of_rule_name [OF _ _ idx(1)] by fastforce
  qed
  moreover have "k = pname p' @ ''/*'' \<or> k = pname p' @ ''/'' @ m"
    using k(2) kk by (auto simp: rule_allows_def startswith_iff)
  ultimately have "before_slash k = pname p'" by auto
  with n p'(2) have "before_slash k @ ''/'' @ model \<in> set names" by (simp add: model_path_def)
  from filtered_weights_step [OF this k(1)] w
  have fw: "filtered_weights model names weights \<noteq> []"
    "\<forall>(n, w) \<in> set (filtered_weights model names weights). 0 < w \<and> n @ ''/'' @ model \<in> set names"
    by (auto simp: good_weights_def)
  obtain order where order: "weighted_order env alg (filtered_weights model names weights) = Inr order"
    "qs = concat (map (\<lambda>n. case map_of (providers_by_name ps) n of
                             Some p \<Rightarrow> if p = [] then [] else [p] | None \<Rightarrow> []) order)"
    using answer names ps(1) by (auto simp: weigh_def Let_def names_def split: if_splits sum.splits)
  have "order \<noteq> [] \<and> set order \<subseteq> fst ` set (filtered_weights model names weights)"
    using fw by (intro weighted_order_names [OF fw(1) _ order(1)]) auto
  then obtain x where x: "x \<in> set order" "x \<in> fst ` set (filtered_weights model names weights)"
    by (cases order) auto
  with fw(2) have "x @ ''/'' @ model \<in> set names" by fastforce
  then have "x @ ''/'' @ model \<in> set (map (model_path model) ps)"
    by (auto simp: names_def weighted_names_def Let_def split: if_splits)
  then obtain p where p: "p \<in> set ps" "pname p = x" by (auto simp: model_path_def)
  from providers_by_name_complete [OF p(1)] obtain r where r: "map_of (providers_by_name ps) x = Some r"
    using p(2) by auto
  have "r \<in> set ps" using providers_by_name_sound [OF r] by simp
  then have "r \<noteq> []" using ps(2) by (auto simp: pname_def)
  with r x(1) show ?thesis by (force simp: order(2))
qed

lemma matching_names: "env_ok env \<Longrightarrow> plain_config env \<Longrightarrow> p \<in> set (matching env rules model) \<Longrightarrow> pname p \<noteq> []"
proof -
  assume env: "env_ok env" "plain_config env" and p: "p \<in> set (matching env rules model)"
  from matching_authorized [OF env(1) p]
  have "is_local_key (api_list env) (pname p) \<or> (\<exists>c \<in> set (providers env). pname c = pname p)"
    by (auto simp: authorized_def)
  then show "pname p \<noteq> []" using env(2) by (auto simp: is_local_key_def plain_config_def)
qed

definition demo_route :: "string \<Rightarrow> (string, int) dict \<Rightarrow> route_error + string list" where
  "demo_route alg weights = map_sum id (map pname)
     (get_right_order_providers demo_env (demo_request None) alg [PStr ''all''] weights)"

lemma demo_route_eq:
  "demo_route ''weighted_round_robin'' weights = map_sum id (map pname)
     (weigh demo_env ''weighted_round_robin'' ''gpt'' weights (matching demo_env [PStr ''all''] ''gpt''))"
proof -
  have b: "body_filter demo_env (demo_request None) (matching demo_env [PStr ''all''] ''gpt'') =
      Inr (matching demo_env [PStr ''all''] ''gpt'')" by code_simp
  have n: "matching demo_env [PStr ''all''] ''gpt'' \<noteq> []" by code_simp
  have c: "channel_manager demo_env = None" by (simp add: demo_env_def Let_def)
  show ?thesis
    using b n c by (simp add: demo_route_def get_right_order_providers_def endpoint_filter_def demo_request_def
      tokens_filter_def channel_filter_def)
qed

text \<open>
  C21. A request that gets past the filters has a provider: when every weight of the key is positive and
  names a provider, an answer is never the empty list, for every scheduling algorithm.
\<close>

theorem routing_never_empty:
  assumes "env_ok env" "plain_config env" "good_weights weights"
    and "get_right_order_providers env req alg model_rules weights = Inr ps"
  shows "ps \<noteq> []"
  using assms(4)
proof (cases rule: right_order_stages)
  case (1 ps1 ps2 ps3)
  let ?ps = "if alg = ''random'' then sample_all env ps3 else ps3"
  have "ps3 \<noteq> []" using 1(3,4) by (auto simp: channel_filter_def Let_def split: option.splits if_splits sum.splits)
  moreover have same: "set ?ps = set ps3" using assms(1) by (auto simp: env_ok_def)
  ultimately have "?ps \<noteq> []" by (metis list.set(1) set_empty)
  moreover have "set ps3 \<subseteq> set (matching env model_rules (request_model req))"
    using channel_filter_subset [OF assms(1) 1(4)] tokens_filter_subset [OF 1(2)] body_filter_subset [OF 1(1)]
      endpoint_filter_subset by blast
  then have "\<forall>p \<in> set ?ps. pname p \<noteq> []"
    using matching_names [OF assms(1,2)] same by blast
  ultimately show ?thesis using weigh_not_empty [OF assms(1,3) _ _ 1(5)] by blast
qed

theorem routing_never_empty_witness:
  "demo_route ''weighted_round_robin'' [(''east/*'', 2), (''west/gpt'', 1)] = Inr [''east'', ''west'', ''east''] \<and>
   (\<exists>ps. get_right_order_providers demo_env (demo_request None) ''weighted_round_robin'' [PStr ''all'']
      [(''east/*'', 2), (''west/gpt'', 1)] = Inr ps \<and> ps \<noteq> [])"
proof -
  have eval: "demo_route ''weighted_round_robin'' [(''east/*'', 2), (''west/gpt'', 1)] = Inr [''east'', ''west'', ''east'']"
    unfolding demo_route_eq by code_simp
  then obtain ps where ps: "get_right_order_providers demo_env (demo_request None) ''weighted_round_robin'' [PStr ''all'']
      [(''east/*'', 2), (''west/gpt'', 1)] = Inr ps"
    by (auto simp: demo_route_def map_sum_def split: sum.splits)
  have "plain_config demo_env"
    by (simp add: plain_config_def demo_env_def demo_provider_def pname_def is_local_key_def
      provider_model_dict_def pget_def distinct_keys_def Let_def)
  moreover have "good_weights [(''east/*'', 2), (''west/gpt'', 1)]" by (simp add: good_weights_def)
  ultimately have "ps \<noteq> []" using routing_never_empty [OF demo_env_ok _ _ ps] by blast
  with ps eval show ?thesis by blast
qed

text \<open>
  Without that the answer can be empty: two weights of zero drop both providers, and the request gets an
  empty list instead of the status 404 of a request without providers.
\<close>

lemma zero_weights_drop_every_provider:
  "demo_route ''weighted_round_robin'' [(''east/*'', 0), (''west/*'', 0)] = Inr []"
  unfolding demo_route_eq by code_simp

end
