(* ===== verification/ApiModels.thy ===== *)
theory ApiModels
  imports RoutingRules
begin

text \<open>
  The models an API key may list: \<open>get_all_models\<close> and \<open>post_all_models\<close> of \<open>uni_api/api/models.py\<close>, and
  \<open>build_api_key_models_map\<close> of \<open>uni_api/routing/core.py\<close>, which resolves the keys that refer to other
  keys (rules \<open>sk-.../*\<close>) recursively and cuts a cycle.

  An entry of a model list is a dictionary of constants but for its id; the lists of ids are the
  state, \<open>model_info\<close> is the entry. \<open>safe_get(config, "api_keys", i, "model", default=[])\<close> is the
  argument \<open>key_rules\<close>, since \<open>safe_get\<close> is not in this repository.

  The resolution invents no model and ends on every configuration of string rules; a key that refers to itself is
  the one way for it to fail (\<open>self_reference_fails\<close>).
\<close>

datatype models_error = KeyError string | IndexError | BadRule

section \<open>The models of a configuration and of a key\<close>

definition model_info :: "string \<Rightarrow> (string, pyval) dict" where
  "model_info m =
     [(''id'', PStr m), (''object'', PStr ''model''), (''created'', PInt MODEL_INFO_CREATED),
      (''owned_by'', PStr ''uni-api'')]"

definition add_model :: "string \<Rightarrow> string list \<Rightarrow> string list" where
  "add_model m acc = (if m \<in> set acc then acc else acc @ [m])"

definition model_ids :: "(provider \<Rightarrow> model_dict) \<Rightarrow> provider \<Rightarrow> string list" where
  "model_ids gm p = map fst (provider_model_dict gm p)"

definition all_model_ids :: "(provider \<Rightarrow> model_dict) \<Rightarrow> provider list \<Rightarrow> string list" where
  "all_model_ids gm ps = fold add_model (concat (map (model_ids gm) ps)) []"

definition get_all_models :: "(provider \<Rightarrow> model_dict) \<Rightarrow> provider list \<Rightarrow> (string, pyval) dict list" where
  "get_all_models gm ps = map model_info (all_model_ids gm ps)"

text \<open>\<open>model.split("/")[1]\<close>\<close>

definition second_part :: "string \<Rightarrow> string" where
  "second_part s = split_on (CHR ''/'') s ! 1"

definition provider_rule_models ::
  "(provider \<Rightarrow> model_dict) \<Rightarrow> provider list \<Rightarrow> string list \<Rightarrow> (string, string list) dict \<Rightarrow> string \<Rightarrow> string
   \<Rightarrow> models_error + string list" where
  "provider_rule_models gm ps keys models name model =
     (let wanted = filter (\<lambda>m. model = ''*'' \<or> m = model) in
      if is_local_key keys name then
        (case map_of models name of
           None \<Rightarrow> Inl (KeyError name)
         | Some ms \<Rightarrow> Inr (wanted ms))
      else Inr (concat (map (\<lambda>p. if pname p \<noteq> name then [] else wanted (model_ids gm p)) ps)))"

fun post_model_loop ::
  "(provider \<Rightarrow> model_dict) \<Rightarrow> provider list \<Rightarrow> string list \<Rightarrow> (string, string list) dict \<Rightarrow> pyval list
   \<Rightarrow> string list \<Rightarrow> models_error + string list" where
  "post_model_loop gm ps keys models [] acc = Inr acc"
| "post_model_loop gm ps keys models (PStr rule # rules) acc =
     (if rule = ''all'' then Inr (all_model_ids gm ps)
      else if CHR ''/'' \<in> set rule then
        (case provider_rule_models gm ps keys models (before_slash rule) (second_part rule) of
           Inl e \<Rightarrow> Inl e
         | Inr ms \<Rightarrow> post_model_loop gm ps keys models rules (fold add_model ms acc))
      else if is_local_key keys rule then post_model_loop gm ps keys models rules acc
      else post_model_loop gm ps keys models rules (add_model rule acc))"
| "post_model_loop gm ps keys models (_ # rules) acc = Inl BadRule"

text \<open>\<open>config["api_keys"][i]["model"]\<close> and the loop over it, when it is truthy.\<close>

definition post_model_ids ::
  "(provider \<Rightarrow> model_dict) \<Rightarrow> provider list \<Rightarrow> (string, pyval) dict list \<Rightarrow> nat \<Rightarrow> string list
   \<Rightarrow> (string, string list) dict \<Rightarrow> models_error + string list" where
  "post_model_ids gm ps api_keys i keys models =
     (if length api_keys \<le> i then Inl IndexError
      else
        (case map_of (api_keys ! i) ''model'' of
           None \<Rightarrow> Inl (KeyError ''model'')
         | Some v \<Rightarrow>
             if \<not> truthy v then Inr []
             else (case v of
                     PList rules \<Rightarrow> post_model_loop gm ps keys models rules []
                   | _ \<Rightarrow> Inl BadRule)))"

definition post_all_models ::
  "(provider \<Rightarrow> model_dict) \<Rightarrow> provider list \<Rightarrow> (string, pyval) dict list \<Rightarrow> nat \<Rightarrow> string list
   \<Rightarrow> (string, string list) dict \<Rightarrow> models_error + (string, pyval) dict list" where
  "post_all_models gm ps api_keys i keys models =
     map_sum id (map model_info) (post_model_ids gm ps api_keys i keys models)"

text \<open>\<open>list_models_payload\<close>: the cached entries of the key, else built.\<close>

definition list_models_payload ::
  "nat \<Rightarrow> string list \<Rightarrow> (string, (string, pyval) dict list) dict \<Rightarrow> models_error + (string, pyval) dict list
   \<Rightarrow> models_error + (string, pyval) dict list" where
  "list_models_payload i keys cache build =
     (case (if i < length keys then map_of cache (keys ! i) else None) of
        Some models \<Rightarrow> Inr models
      | None \<Rightarrow> build)"

section \<open>Keys that refer to keys\<close>

record models_config =
  cfg_model_dict :: "provider \<Rightarrow> model_dict"
  cfg_providers :: "provider list"
  api_keys :: "(string, pyval) dict list"
  key_rules :: "nat \<Rightarrow> pyval list"
  cfg_keys :: "string list"

text \<open>\<open>{api_key: index for index, api_key in enumerate(api_list)}\<close>: the last of equal keys wins.\<close>

definition key_index :: "string list \<Rightarrow> string \<Rightarrow> nat option" where
  "key_index ks = map_of (rev (zip ks [0..<length ks]))"

definition rule_provider_name :: "pyval \<Rightarrow> string" where
  "rule_provider_name rule =
     (case rule of
        PDict d \<Rightarrow> (case d of [] \<Rightarrow> [] | (k, _) # _ \<Rightarrow> before_slash k)
      | PStr s \<Rightarrow> (if CHR ''/'' \<in> set s then before_slash s else if startswith s ''sk-'' then s else [])
      | _ \<Rightarrow> [])"

definition dependencies :: "models_config \<Rightarrow> string \<Rightarrow> nat \<Rightarrow> string list" where
  "dependencies c key i =
     filter (\<lambda>n. n \<noteq> [] \<and> startswith n ''sk-'' \<and> key_index (cfg_keys c) n \<noteq> None \<and> n \<noteq> key)
       (map rule_provider_name (key_rules c i))"

lemma key_index_set: "key_index ks k = Some i \<Longrightarrow> k \<in> set ks"
  by (auto simp: key_index_def dest!: map_of_SomeD set_zip_leftD)

text \<open>
  \<open>resolve\<close> with its loop over the dependencies. \<open>visiting\<close> is restored on every return, so it is an
  argument; each nested call visits a further key of the list, which is why the recursion ends.
\<close>

function resolve ::
  "models_config \<Rightarrow> string list \<Rightarrow> string \<Rightarrow> (string, string list) dict \<Rightarrow> models_error + (string, string list) dict"
and resolve_each ::
  "models_config \<Rightarrow> string list \<Rightarrow> string list \<Rightarrow> (string, string list) dict \<Rightarrow> models_error + (string, string list) dict"
where
  "resolve c visiting key resolved =
     (if map_of resolved key \<noteq> None then Inr resolved
      else if key \<in> set visiting then Inr (AList.update key [] resolved)
      else
        (case key_index (cfg_keys c) key of
           None \<Rightarrow> Inr resolved
         | Some i \<Rightarrow>
             (case resolve_each c (key # visiting) (dependencies c key i) resolved of
                Inl e \<Rightarrow> Inl e
              | Inr resolved' \<Rightarrow>
                  (case post_model_ids (cfg_model_dict c) (cfg_providers c) (api_keys c) i (cfg_keys c) resolved' of
                     Inl e \<Rightarrow> Inl e
                   | Inr ids \<Rightarrow> Inr (AList.update key ids resolved')))))"
| "resolve_each c visiting [] resolved = Inr resolved"
| "resolve_each c visiting (n # ns) resolved =
     (case resolve c visiting n resolved of
        Inl e \<Rightarrow> Inl e
      | Inr resolved' \<Rightarrow> resolve_each c visiting ns resolved')"
  by pat_completeness auto
termination
proof (relation "measures
   [case_sum (\<lambda>(c, visiting, key, resolved). card (set (cfg_keys c) - set visiting))
             (\<lambda>(c, visiting, ns, resolved). card (set (cfg_keys c) - set visiting)),
    case_sum (\<lambda>_. 0) (\<lambda>(c, visiting, ns, resolved). Suc (length ns))]", goal_cases)
  case (2 c visiting key resolved i)
  then have "key \<in> set (cfg_keys c) - set visiting" using key_index_set by fastforce
  then have "card (set (cfg_keys c) - set (key # visiting)) < card (set (cfg_keys c) - set visiting)"
    by (intro psubset_card_mono) auto
  then show ?case by simp
qed auto

declare resolve.simps [simp del]

text \<open>The loop over the whole list is \<open>resolve_each\<close> with nothing being visited.\<close>

definition build_api_key_models_map :: "models_config \<Rightarrow> models_error + (string, string list) dict" where
  "build_api_key_models_map c = resolve_each c [] (cfg_keys c) []"

section \<open>What a key offers\<close>

text \<open>
  The meaning of the rules, independent of the order of resolution: a model is offered because a
  provider serves it and a rule names it, or because a key that a rule refers to offers it.
\<close>

definition rule_offers :: "models_config \<Rightarrow> (string \<Rightarrow> string \<Rightarrow> bool) \<Rightarrow> pyval list \<Rightarrow> string \<Rightarrow> bool" where
  "rule_offers c offered rules m \<longleftrightarrow>
     (\<exists>r. PStr r \<in> set rules \<and>
        (r = ''all'' \<and> (\<exists>p \<in> set (cfg_providers c). m \<in> set (model_ids (cfg_model_dict c) p)) \<or>
         CHR ''/'' \<notin> set r \<and> r = m \<or>
         CHR ''/'' \<in> set r \<and> (second_part r = ''*'' \<or> second_part r = m) \<and>
           (if is_local_key (cfg_keys c) (before_slash r) then offered (before_slash r) m
            else \<exists>p \<in> set (cfg_providers c).
                   pname p = before_slash r \<and> m \<in> set (model_ids (cfg_model_dict c) p))))"

lemma rule_offers_mono [mono]:
  "(\<And>k m. a k m \<longrightarrow> b k m) \<Longrightarrow> rule_offers c a rules m \<longrightarrow> rule_offers c b rules m"
  unfolding rule_offers_def by (auto split: if_splits)

definition rules_at :: "models_config \<Rightarrow> nat \<Rightarrow> pyval list" where
  "rules_at c i =
     (if i < length (api_keys c)
      then (case map_of (api_keys c ! i) ''model'' of Some (PList rules) \<Rightarrow> rules | _ \<Rightarrow> []) else [])"

inductive offers :: "models_config \<Rightarrow> string \<Rightarrow> string \<Rightarrow> bool" for c where
  by_rule: "key_index (cfg_keys c) k = Some i \<Longrightarrow> rule_offers c (offers c) (rules_at c i) m \<Longrightarrow> offers c k m"

lemma set_add_models [simp]: "set (fold add_model ms acc) = set ms \<union> set acc"
  by (induction ms arbitrary: acc) (auto simp: add_model_def)

lemma all_model_ids_set [simp]: "set (all_model_ids gm ps) = (\<Union>p \<in> set ps. set (model_ids gm p))"
  by (simp add: all_model_ids_def)

lemma provider_rule_models_set:
  "provider_rule_models gm ps ks models name model = Inr ms \<Longrightarrow>
   m \<in> set ms \<longleftrightarrow> (model = ''*'' \<or> m = model) \<and>
     (if is_local_key ks name then m \<in> set (dlist models name)
      else \<exists>p \<in> set ps. pname p = name \<and> m \<in> set (model_ids gm p))"
  by (auto simp: provider_rule_models_def Let_def dlist_def split: if_splits option.splits)

lemma rule_offers_Cons:
  "rule_offers c offered (r # rules) m \<longleftrightarrow> rule_offers c offered [r] m \<or> rule_offers c offered rules m"
  by (auto simp: rule_offers_def)

lemma post_model_loop_offers:
  assumes "post_model_loop (cfg_model_dict c) (cfg_providers c) (cfg_keys c) models rules acc = Inr ids"
    and "m \<in> set ids"
  shows "m \<in> set acc \<or> rule_offers c (\<lambda>k m. m \<in> set (dlist models k)) rules m"
  using assms
proof (induction "cfg_model_dict c" "cfg_providers c" "cfg_keys c" models rules acc
    rule: post_model_loop.induct)
  case (2 models rule rules acc)
  show ?case
  proof (cases "rule = ''all''")
    case True
    with "2.prems" show ?thesis by (auto simp: rule_offers_def)
  next
    case no_all: False
    show ?thesis
    proof (cases "CHR ''/'' \<in> set rule")
      case True
      with no_all "2.prems"(1) obtain ms where ms:
        "provider_rule_models (cfg_model_dict c) (cfg_providers c) (cfg_keys c) models (before_slash rule)
           (second_part rule) = Inr ms" by (auto split: sum.splits)
      have "rule_offers c (\<lambda>k m. m \<in> set (dlist models k)) [PStr rule] m" if "m \<in> set ms"
        using that True no_all unfolding provider_rule_models_set [OF ms] by (auto simp: rule_offers_def)
      then show ?thesis
        using "2.hyps"(1) [OF no_all True ms _ "2.prems"(2)] "2.prems"(1) True no_all ms
          rule_offers_Cons [of c _ "PStr rule" rules] by auto
    next
      case False
      have "rule_offers c (\<lambda>k m. m \<in> set (dlist models k)) [PStr rule] m" if "m = rule"
        using that False by (auto simp: rule_offers_def)
      then show ?thesis
        using "2.hyps"(2,3) [OF no_all False] "2.prems" False no_all
          rule_offers_Cons [of c _ "PStr rule" rules] by (auto simp: add_model_def split: if_splits)
    qed
  qed
qed auto

definition sound_map :: "models_config \<Rightarrow> (string, string list) dict \<Rightarrow> bool" where
  "sound_map c resolved \<longleftrightarrow> (\<forall>k. \<forall>m \<in> set (dlist resolved k). offers c k m)"

lemma post_model_ids_offers:
  assumes "post_model_ids (cfg_model_dict c) (cfg_providers c) (api_keys c) i (cfg_keys c) models = Inr ids"
    and "sound_map c models" "key_index (cfg_keys c) k = Some i" "m \<in> set ids"
  shows "offers c k m"
proof -
  from assms(1,4) obtain rules where rules: "i < length (api_keys c)"
      "map_of (api_keys c ! i) ''model'' = Some (PList rules)"
      "post_model_loop (cfg_model_dict c) (cfg_providers c) (cfg_keys c) models rules [] = Inr ids"
    by (auto simp: post_model_ids_def split: if_splits option.splits pyval.splits)
  have "rule_offers c (\<lambda>k m. m \<in> set (dlist models k)) (rules_at c i) m"
    using post_model_loop_offers [OF rules(3) assms(4)] rules(1,2) by (simp add: rules_at_def)
  then have "rule_offers c (offers c) (rules_at c i) m"
    using rule_offers_mono [of "\<lambda>k m. m \<in> set (dlist models k)" "offers c"] assms(2)
    by (auto simp: sound_map_def)
  with assms(3) show ?thesis by (rule by_rule)
qed

text \<open>The entries of the map stay sound, grow, and cover every key asked for.\<close>

lemma sound_map_update:
  "sound_map c r \<Longrightarrow> \<forall>m \<in> set ms. offers c k m \<Longrightarrow> sound_map c (AList.update k ms r)"
  by (simp add: sound_map_def dlist_update)

lemma resolve_sound:
  "sound_map c r \<Longrightarrow> resolve c v k r = Inr r' \<Longrightarrow> sound_map c r'"
  "sound_map c r \<Longrightarrow> resolve_each c v ks r = Inr r' \<Longrightarrow> sound_map c r'"
proof (induction c v k r and c v ks r arbitrary: r' and r' rule: resolve_resolve_each.induct)
  case (1 c v k r)
  then show ?case
    by (auto simp: resolve.simps [of c v k r] sound_map_update post_model_ids_offers
        split: if_splits option.splits sum.splits)
next
  case (3 c v n ns r)
  then show ?case by (auto split: sum.splits)
qed auto

lemma resolve_grows:
  "resolve c v k r = Inr r' \<Longrightarrow>
     dom (map_of r) \<subseteq> dom (map_of r') \<and> (key_index (cfg_keys c) k \<noteq> None \<longrightarrow> k \<in> dom (map_of r'))"
  "resolve_each c v ks r = Inr r' \<Longrightarrow>
     dom (map_of r) \<subseteq> dom (map_of r') \<and>
     (\<forall>k \<in> set ks. key_index (cfg_keys c) k \<noteq> None \<longrightarrow> k \<in> dom (map_of r'))"
proof (induction c v k r and c v ks r arbitrary: r' and r' rule: resolve_resolve_each.induct)
  case (1 c v k r)
  then show ?case
    by (auto simp: resolve.simps [of c v k r] update_conv' split: if_splits option.splits sum.splits) blast+
next
  case (3 c v n ns r)
  then show ?case by (auto split: sum.splits) blast+
qed auto

text \<open>
  A configuration in which every key has a list of rules that are strings, the same in its two views; and a key with a
  rule \<open><its own key>/...\<close>.
\<close>

definition string_rules :: "models_config \<Rightarrow> bool" where
  "string_rules c \<longleftrightarrow>
     (\<forall>k i. key_index (cfg_keys c) k = Some i \<longrightarrow>
        i < length (api_keys c) \<and>
        map_of (api_keys c ! i) ''model'' = Some (PList (key_rules c i)) \<and>
        (\<forall>r \<in> set (key_rules c i). \<exists>s. r = PStr s))"

definition refers_to_itself :: "models_config \<Rightarrow> string \<Rightarrow> bool" where
  "refers_to_itself c k \<longleftrightarrow>
     (\<exists>i s. key_index (cfg_keys c) k = Some i \<and> PStr s \<in> set (key_rules c i) \<and> CHR ''/'' \<in> set s \<and> before_slash s = k)"

lemma post_model_loop_fails:
  assumes "\<forall>r \<in> set rules. \<exists>s. r = PStr s" "post_model_loop gm ps ks models rules acc = Inl e"
  shows "\<exists>s. PStr s \<in> set rules \<and> CHR ''/'' \<in> set s \<and> is_local_key ks (before_slash s) \<and>
    map_of models (before_slash s) = None \<and> e = KeyError (before_slash s)"
  using assms
proof (induction gm ps ks models rules acc rule: post_model_loop.induct)
  case (2 gm ps ks models rule rules acc)
  then show ?case
    by (auto simp: provider_rule_models_def Let_def split: sum.splits option.splits if_splits)
qed auto

lemma key_index_exists: "k \<in> set ks \<Longrightarrow> key_index ks k \<noteq> None"
proof -
  assume "k \<in> set ks"
  then obtain i where "i < length ks" "ks ! i = k" by (metis in_set_conv_nth)
  then have "(k, i) \<in> set (rev (zip ks [0..<length ks]))" by (auto simp: in_set_zip)
  then show ?thesis unfolding key_index_def by (metis map_of_eq_None_iff fst_conv image_eqI)
qed

lemma post_model_ids_fails:
  assumes "string_rules c" "key_index (cfg_keys c) k = Some i" "resolve_each c v (dependencies c k i) r = Inr r'"
    and "post_model_ids (cfg_model_dict c) (cfg_providers c) (api_keys c) i (cfg_keys c) r' = Inl e"
  shows "e = KeyError k \<and> refers_to_itself c k"
proof -
  have i: "i < length (api_keys c)" "map_of (api_keys c ! i) ''model'' = Some (PList (key_rules c i))"
    and strings: "\<forall>x \<in> set (key_rules c i). \<exists>s. x = PStr s"
    using assms(1,2) unfolding string_rules_def by blast+
  have "post_model_loop (cfg_model_dict c) (cfg_providers c) (cfg_keys c) r' (key_rules c i) [] = Inl e"
    using assms(4) i by (auto simp: post_model_ids_def split: if_splits)
  from post_model_loop_fails [OF strings this]
  obtain s where s: "PStr s \<in> set (key_rules c i)" "CHR ''/'' \<in> set s" "is_local_key (cfg_keys c) (before_slash s)"
    "map_of r' (before_slash s) = None" "e = KeyError (before_slash s)" by blast
  have "before_slash s = k"
  proof (rule ccontr)
    assume "before_slash s \<noteq> k"
    moreover have idx: "key_index (cfg_keys c) (before_slash s) \<noteq> None" "startswith (before_slash s) ''sk-''"
      using s(3) key_index_exists by (auto simp: is_local_key_def)
    moreover have "before_slash s \<noteq> []" using idx(2) by auto
    moreover have "rule_provider_name (PStr s) = before_slash s" using s(2) by (simp add: rule_provider_name_def)
    ultimately have "before_slash s \<in> set (dependencies c k i)" using s(1) unfolding dependencies_def by force
    with resolve_grows(2) [OF assms(3)] idx(1) s(4) show False by auto
  qed
  with s(1,2,5) assms(2) show ?thesis unfolding refers_to_itself_def by blast
qed

lemma resolve_fails:
  "string_rules c \<Longrightarrow> resolve c v k r = Inl e \<Longrightarrow> \<exists>k. e = KeyError k \<and> refers_to_itself c k"
  "string_rules c \<Longrightarrow> resolve_each c v ks r = Inl e \<Longrightarrow> \<exists>k. e = KeyError k \<and> refers_to_itself c k"
proof (induction c v k r and c v ks r rule: resolve_resolve_each.induct)
  case (1 c v k r)
  from "1.prems"(2) obtain i where i: "map_of r k = None" "k \<notin> set v" "key_index (cfg_keys c) k = Some i"
    by (auto simp: resolve.simps [of c v k r] split: if_splits option.splits)
  show ?case
  proof (cases "resolve_each c (k # v) (dependencies c k i) r")
    case (Inl d)
    with 1 i show ?thesis by (auto simp: resolve.simps [of c v k r])
  next
    case (Inr r')
    with "1.prems"(2) i have "post_model_ids (cfg_model_dict c) (cfg_providers c) (api_keys c) i (cfg_keys c) r' = Inl e"
      by (auto simp: resolve.simps [of c v k r] split: sum.splits)
    with post_model_ids_fails [OF "1.prems"(1) i(3) Inr] show ?thesis by blast
  qed
next
  case (3 c v n ns r)
  then show ?case by (cases "resolve c v n r") auto
qed simp

text \<open>
  C10. Every model of the resolved map is one the key offers: through a chain of rules, from key to key
  when they refer to each other, it comes from a provider that serves it or from a rule that names
  it. Cutting a cycle of keys never adds a model.
\<close>

theorem api_key_models_sound:
  assumes "build_api_key_models_map c = Inr models" and "m \<in> set (dlist models k)"
  shows "offers c k m"
proof -
  have "sound_map c []" by (simp add: sound_map_def dlist_def)
  then have "sound_map c models"
    using assms(1) unfolding build_api_key_models_map_def by (rule resolve_sound(2))
  with assms(2) show ?thesis by (simp add: sound_map_def)
qed

definition cyclic_config :: models_config where
  "cyclic_config =
     \<lparr>cfg_model_dict = (\<lambda>p. [(''m1'', PStr ''m1''), (''m2'', PStr ''m2'')]),
      cfg_providers = [[(''provider'', PStr ''p'')]],
      api_keys = [[(''model'', PList [PStr ''sk-b/*'', PStr ''p/m1''])],
                  [(''model'', PList [PStr ''sk-a/*'', PStr ''p/m2''])]],
      key_rules = (\<lambda>i. if i = 0 then [PStr ''sk-b/*'', PStr ''p/m1''] else [PStr ''sk-a/*'', PStr ''p/m2'']),
      cfg_keys = [''sk-a'', ''sk-b'']\<rparr>"

lemma cyclic_config_map:
  "build_api_key_models_map cyclic_config = Inr [(''sk-a'', [''m2'', ''m1'']), (''sk-b'', [''m2''])]"
  by code_simp

theorem api_key_models_sound_witness: "offers cyclic_config ''sk-a'' ''m2''"
  by (rule api_key_models_sound [OF cyclic_config_map]) (simp add: dlist_def)

text \<open>
  C22. For a configuration whose keys have lists of strings as rules the resolution ends, whatever cycles the keys form,
  and fails in one way only: with the \<open>KeyError\<close> of a key that has a rule on itself. In particular it gives every key of
  the list an entry when no key refers directly to itself.
\<close>

theorem api_key_models_total:
  assumes "string_rules c"
  shows "case build_api_key_models_map c of
      Inr models \<Rightarrow> (\<forall>k. k \<in> set (cfg_keys c) \<longrightarrow> map_of models k \<noteq> None)
    | Inl e \<Rightarrow> (\<exists>k. e = KeyError k \<and> refers_to_itself c k)"
proof (cases "build_api_key_models_map c")
  case (Inl e)
  with resolve_fails(2) [OF assms] show ?thesis unfolding build_api_key_models_map_def by simp
next
  case (Inr models)
  then have "\<forall>k \<in> set (cfg_keys c). map_of models k \<noteq> None"
    using resolve_grows(2) [of c "[]" "cfg_keys c" "[]" models] key_index_exists
    unfolding build_api_key_models_map_def by (auto simp: domIff)
  with Inr show ?thesis by simp
qed

theorem api_key_models_total_witness:
  "\<exists>models. build_api_key_models_map cyclic_config = Inr models \<and>
     map_of models ''sk-a'' \<noteq> None \<and> map_of models ''sk-b'' \<noteq> None"
proof -
  have "string_rules cyclic_config" "\<not> refers_to_itself cyclic_config k" for k
    by (auto simp: string_rules_def refers_to_itself_def cyclic_config_def key_index_def before_slash_def split: if_splits)
  from api_key_models_total [OF this(1)] this(2) show ?thesis
    by (auto simp: cyclic_config_def split: sum.splits)
qed

text \<open>A key that refers to itself makes the construction fail.\<close>

lemma self_reference_fails:
  "build_api_key_models_map (cyclic_config\<lparr>api_keys := [[(''model'', PList [PStr ''sk-a/*''])]],
     key_rules := (\<lambda>_. [PStr ''sk-a/*'']), cfg_keys := [''sk-a'']\<rparr>) = Inl (KeyError ''sk-a'')"
  by code_simp

end
