(* ===== verification/RateLimit.thy ===== *)
theory RateLimit
  imports Py_Prelude
begin

text \<open>
  \<open>uni_api/rate_limit/policy.py\<close>, \<open>state.py\<close> and \<open>memory.py\<close>: the language of rate limits
  (\<open>60/min,2000/day\<close>), the choice of the rules for a model, and the sliding-window state that
  decides whether one credential may serve one more request. The state is one deque of time
  stamps per credential, model and window length; \<open>RateLimitState.is_rate_limited\<close> is one
  function from the state to the decision and the next state, with the clock reading as an
  argument. The lemmas show that the deques implement a plain log of the accepted requests.
\<close>

section \<open>The policy\<close>

definition TPR_PERIOD :: int where
  "TPR_PERIOD = -1"

definition DEFAULT_RATE_LIMIT :: string where
  "DEFAULT_RATE_LIMIT = ''999999/min''"

definition TIME_UNITS :: "(string, int) dict" where
  "TIME_UNITS =
    [(''s'', 1), (''sec'', 1), (''second'', 1),
     (''m'', 60), (''min'', 60), (''minute'', 60),
     (''h'', 3600), (''hr'', 3600), (''hour'', 3600),
     (''d'', 86400), (''day'', 86400),
     (''mo'', 2592000), (''month'', 2592000),
     (''y'', 31536000), (''year'', 31536000),
     (''tpr'', TPR_PERIOD)]"

record RateLimitRule =
  rule_count :: int
  period_seconds :: int

definition as_tuple :: "RateLimitRule \<Rightarrow> int \<times> int" where
  "as_tuple r = (rule_count r, period_seconds r)"

datatype policy_error =
    InvalidFormat string
  | InvalidValue pyval
  | UnknownUnit string

text \<open>
  The match of \<open>^(\d+)/(\w+)$\<close> on a stripped text: its two groups. Neither class holds the slash,
  so the first group is the longest run of digits.
\<close>

definition match_limit :: "string \<Rightarrow> (string \<times> string) option" where
  "match_limit limit =
     (let n = takeWhile is_digit limit; r = dropWhile is_digit limit in
      case r of
        [] \<Rightarrow> None
      | c # u \<Rightarrow>
          (if n \<noteq> [] \<and> c = CHR ''/'' \<and> u \<noteq> [] \<and> list_all is_word u then Some (n, u) else None))"

definition parse_rule :: "string \<Rightarrow> policy_error + RateLimitRule" where
  "parse_rule raw_limit =
     (let limit = strip raw_limit in
      case match_limit limit of
        None \<Rightarrow> Inl (InvalidFormat limit)
      | Some (count_text, unit) \<Rightarrow>
          (case map_of TIME_UNITS unit of
             None \<Rightarrow> Inl (UnknownUnit unit)
           | Some period \<Rightarrow>
               Inr \<lparr>rule_count = int (nat_of_digits count_text), period_seconds = period\<rparr>))"

fun parse_limits :: "string list \<Rightarrow> policy_error + RateLimitRule list" where
  "parse_limits [] = Inr []"
| "parse_limits (raw # rest) =
     (case parse_rule raw of
        Inl e \<Rightarrow> Inl e
      | Inr r \<Rightarrow> (case parse_limits rest of Inl e \<Rightarrow> Inl e | Inr rs \<Rightarrow> Inr (r # rs)))"

definition parse_rules :: "pyval \<Rightarrow> policy_error + RateLimitRule list" where
  "parse_rules value =
     (case value of
        PStr s \<Rightarrow> parse_limits (split_on (CHR '','') s)
      | _ \<Rightarrow> Inl (InvalidValue value))"

definition parse_rate_limit :: "pyval \<Rightarrow> policy_error + (int \<times> int) list" where
  "parse_rate_limit s =
     (case parse_rules s of Inl e \<Rightarrow> Inl e | Inr rs \<Rightarrow> Inr (map as_tuple rs))"

type_synonym policy = "(string, RateLimitRule list) dict"

fun parse_entries :: "(string \<times> pyval) list \<Rightarrow> policy_error + policy" where
  "parse_entries [] = Inr []"
| "parse_entries ((model, raw_value) # rest) =
     (case parse_rules raw_value of
        Inl e \<Rightarrow> Inl e
      | Inr rs \<Rightarrow>
          (case parse_entries rest of Inl e \<Rightarrow> Inl e | Inr p \<Rightarrow> Inr ((model, rs) # p)))"

definition from_config :: "pyval \<Rightarrow> policy_error + policy" where
  "from_config value =
     (case value of
        PStr _ \<Rightarrow> (case parse_rules value of Inl e \<Rightarrow> Inl e | Inr rs \<Rightarrow> Inr [(''default'', rs)])
      | PDict d \<Rightarrow> parse_entries d
      | _ \<Rightarrow> (case parse_rules (PStr DEFAULT_RATE_LIMIT) of
                Inl e \<Rightarrow> Inl e | Inr rs \<Rightarrow> Inr [(''default'', rs)]))"

definition from_legacy_rules :: "(int \<times> int) list \<Rightarrow> policy" where
  "from_legacy_rules rules =
     [(''default'', map (\<lambda>(c, p). \<lparr>rule_count = c, period_seconds = p\<rparr>) rules)]"

text \<open>The value of \<open>_parse_rules(DEFAULT_RATE_LIMIT)\<close>; \<open>default_rules_parse\<close> below proves it.\<close>

definition default_rules :: "RateLimitRule list" where
  "default_rules = [\<lparr>rule_count = 999999, period_seconds = 60\<rparr>]"

definition named_model :: "string option \<Rightarrow> string option" where
  "named_model model = (case model of Some [] \<Rightarrow> None | m \<Rightarrow> m)"

definition rules_for :: "policy \<Rightarrow> string option \<Rightarrow> RateLimitRule list" where
  "rules_for policy model =
     (let fallback = (case map_of policy ''default'' of Some rs \<Rightarrow> rs | None \<Rightarrow> default_rules) in
      case named_model model of
        None \<Rightarrow> fallback
      | Some m \<Rightarrow>
          (case map_of policy m of
             Some rs \<Rightarrow> rs
           | None \<Rightarrow>
               (case find (\<lambda>(limit_model, rs). limit_model \<noteq> ''default'' \<and> contains limit_model m)
                       policy of
                  Some (_, rs) \<Rightarrow> rs
                | None \<Rightarrow> fallback)))"

definition as_legacy_dict :: "policy \<Rightarrow> (string, (int \<times> int) list) dict" where
  "as_legacy_dict policy = map (\<lambda>(model, rules). (model, map as_tuple rules)) policy"

section \<open>The sliding-window state\<close>

text \<open>
  \<open>requests\<close> is a \<open>defaultdict\<close> of deques: a missing entry reads as the empty deque. Likewise
  \<open>cooling_until\<close> reads as \<open>0.0\<close>.
\<close>

record RateLimitState =
  requests :: "string \<Rightarrow> string \<Rightarrow> int \<Rightarrow> time list"
  cooling_until :: "string \<Rightarrow> time"

definition init_state :: RateLimitState where
  "init_state = \<lparr>requests = (\<lambda>_ _ _. []), cooling_until = (\<lambda>_. 0)\<rparr>"

definition model_key :: "string option \<Rightarrow> string" where
  "model_key model = (case named_model model of None \<Rightarrow> ''default'' | Some m \<Rightarrow> m)"

definition set_cooling :: "time \<Rightarrow> string option \<Rightarrow> int \<Rightarrow> RateLimitState \<Rightarrow> RateLimitState" where
  "set_cooling now item cooling_time st =
     (case item of
        None \<Rightarrow> st
      | Some i \<Rightarrow> st\<lparr>cooling_until := (cooling_until st)(i := now + of_int cooling_time)\<rparr>)"

definition positive_periods :: "RateLimitRule list \<Rightarrow> int list" where
  "positive_periods rules = filter (\<lambda>p. 0 < p) (map period_seconds rules)"

definition prune_windows :: "time \<Rightarrow> int list \<Rightarrow> (int \<Rightarrow> time list) \<Rightarrow> (int \<Rightarrow> time list)" where
  "prune_windows now periods windows =
     (\<lambda>p. if List.member periods p then dropWhile (\<lambda>t. t \<le> now - of_int p) (windows p)
          else windows p)"

definition windows_full :: "RateLimitRule list \<Rightarrow> (int \<Rightarrow> time list) \<Rightarrow> bool" where
  "windows_full rules windows =
     list_ex (\<lambda>r. 0 < period_seconds r \<and> rule_count r \<le> int (length (windows (period_seconds r))))
       rules"

definition put_windows ::
  "string \<Rightarrow> string \<Rightarrow> (int \<Rightarrow> time list) \<Rightarrow> RateLimitState \<Rightarrow> RateLimitState" where
  "put_windows item key w st =
     st\<lparr>requests := (requests st)(item := (requests st item)(key := w))\<rparr>"

definition is_rate_limited ::
  "time \<Rightarrow> string \<Rightarrow> string option \<Rightarrow> policy \<Rightarrow> bool \<Rightarrow> RateLimitState \<Rightarrow> bool \<times> RateLimitState" where
  "is_rate_limited now item model policy commit st =
     (if now < cooling_until st item then (True, st)
      else
        let key = model_key model;
            rules = rules_for policy model;
            periods = positive_periods rules;
            w = prune_windows now periods (requests st item key)
        in if windows_full rules w then (True, put_windows item key w st)
           else if commit then
             (False, put_windows item key (\<lambda>p. if List.member periods p then w p @ [now] else w p) st)
           else (False, put_windows item key w st))"

definition rollback_last_record :: "string \<Rightarrow> string option \<Rightarrow> RateLimitState \<Rightarrow> RateLimitState" where
  "rollback_last_record item model st =
     put_windows item (model_key model) (\<lambda>p. butlast (requests st item (model_key model) p)) st"

definition is_tpr_exceeded :: "string option \<Rightarrow> int \<Rightarrow> policy \<Rightarrow> bool" where
  "is_tpr_exceeded model tokens policy =
     (if tokens = 0 then False
      else list_ex (\<lambda>r. period_seconds r = TPR_PERIOD \<and> rule_count r < tokens)
             (rules_for policy model))"

text \<open>\<open>InMemoryRateLimiter.is_rate_limited\<close>.\<close>

definition memory_is_rate_limited ::
  "time \<Rightarrow> string \<Rightarrow> (int \<times> int) list \<Rightarrow> RateLimitState \<Rightarrow> bool \<times> RateLimitState" where
  "memory_is_rate_limited now key limits st =
     is_rate_limited now key None
       (from_legacy_rules (if limits = [] then [(999999, 60)] else limits)) True st"

section \<open>Parsing\<close>

text \<open>The text of a rule, with the short name of its unit.\<close>

definition unit_text :: "int \<Rightarrow> string" where
  "unit_text p =
     (if p = 1 then ''s'' else if p = 60 then ''min'' else if p = 3600 then ''h''
      else if p = 86400 then ''day'' else if p = 2592000 then ''month''
      else if p = 31536000 then ''y'' else ''tpr'')"

definition rule_text :: "RateLimitRule \<Rightarrow> string" where
  "rule_text r = digits_of_nat (nat (rule_count r)) @ CHR ''/'' # unit_text (period_seconds r)"

definition printable :: "RateLimitRule \<Rightarrow> bool" where
  "printable r \<longleftrightarrow> 0 \<le> rule_count r \<and> List.member [1, 60, 3600, 86400, 2592000, 31536000, -1] (period_seconds r)"

definition rules_text :: "RateLimitRule list \<Rightarrow> pyval" where
  "rules_text rs = PStr (join_on (CHR '','') (map rule_text rs))"

lemma default_rules_parse: "parse_rules (PStr DEFAULT_RATE_LIMIT) = Inr default_rules"
  by (simp add: parse_rules_def DEFAULT_RATE_LIMIT_def parse_rule_def match_limit_def
      TIME_UNITS_def default_rules_def py_defs)

lemma unit_text_word: "c \<in> set (unit_text p) \<Longrightarrow> is_word c \<and> \<not> is_space c \<and> c \<noteq> CHR '','' "
  by (auto simp: unit_text_def is_word_def is_space_def codepoint_def split: if_splits)

lemma unit_text_nonempty [simp]: "unit_text p \<noteq> []"
  by (simp add: unit_text_def)

lemma unit_text_lookup:
  "List.member [1, 60, 3600, 86400, 2592000, 31536000, -1] p \<Longrightarrow>
   map_of TIME_UNITS (unit_text p) = Some p"
  by (auto simp: unit_text_def TIME_UNITS_def TPR_PERIOD_def)

lemma is_digit_not_space: "is_digit c \<Longrightarrow> \<not> is_space c"
  by (auto simp: is_digit_def is_space_def Let_def)

lemma is_digit_not_comma: "is_digit c \<Longrightarrow> c \<noteq> CHR '','' \<and> c \<noteq> CHR ''/''"
  by (auto simp: is_digit_def codepoint_def)

lemma rule_text_chars: "c \<in> set (rule_text r) \<Longrightarrow> \<not> is_space c \<and> c \<noteq> CHR '',''"
proof -
  assume "c \<in> set (rule_text r)"
  then have "is_digit c \<or> c = CHR ''/'' \<or> (is_word c \<and> \<not> is_space c \<and> c \<noteq> CHR '','')"
    by (auto simp: rule_text_def dest: digits_of_nat_digits unit_text_word)
  moreover have "\<not> is_space (CHR ''/'')" by (simp add: is_space_def codepoint_def)
  ultimately show ?thesis using is_digit_not_space is_digit_not_comma by auto
qed

lemma match_limit_print:
  "match_limit (digits_of_nat n @ CHR ''/'' # unit_text p) = Some (digits_of_nat n, unit_text p)"
proof -
  have slash: "\<not> is_digit (CHR ''/'')" by (simp add: is_digit_def codepoint_def)
  have t: "takeWhile is_digit (digits_of_nat n @ CHR ''/'' # unit_text p) = digits_of_nat n"
    using slash by (simp add: takeWhile_append2 digits_of_nat_digits)
  have d: "dropWhile is_digit (digits_of_nat n @ CHR ''/'' # unit_text p) = CHR ''/'' # unit_text p"
    using slash by (simp add: dropWhile_append2 digits_of_nat_digits)
  show ?thesis
    unfolding match_limit_def t d by (auto simp: list_all_iff dest: unit_text_word)
qed

lemma parse_rule_print: "printable r \<Longrightarrow> parse_rule (rule_text r) = Inr r"
  using strip_id [of "rule_text r"] rule_text_chars [of _ r]
  by (auto simp: parse_rule_def rule_text_def match_limit_print unit_text_lookup printable_def
      simp del: List.member_iff)

lemma parse_limits_print: "list_all printable rs \<Longrightarrow> parse_limits (map rule_text rs) = Inr rs"
  by (induction rs) (auto simp: parse_rule_print)

text \<open>C24. Printing a non-empty list of rules and parsing the text gives the rules back.\<close>

theorem parse_print_rules:
  assumes "rs \<noteq> []" and "list_all printable rs"
  shows "parse_rules (rules_text rs) = Inr rs"
proof -
  have "split_on (CHR '','') (join_on (CHR '','') (map rule_text rs)) = map rule_text rs"
    using assms(1) rule_text_chars by (intro split_on_join) auto
  then show ?thesis
    by (simp add: parse_rules_def rules_text_def parse_limits_print [OF assms(2)])
qed

theorem parse_print_rules_witness:
  "parse_rules (rules_text [\<lparr>rule_count = 60, period_seconds = 60\<rparr>,
       \<lparr>rule_count = 2000, period_seconds = 86400\<rparr>, \<lparr>rule_count = 4096, period_seconds = -1\<rparr>])
   = Inr [\<lparr>rule_count = 60, period_seconds = 60\<rparr>,
       \<lparr>rule_count = 2000, period_seconds = 86400\<rparr>, \<lparr>rule_count = 4096, period_seconds = -1\<rparr>]"
  by (rule parse_print_rules) (simp_all add: printable_def)

section \<open>The windows implement a log of accepted requests\<close>

text \<open>
  What the limiter promises, stated without windows: one log of the accepted requests of a
  credential and model, newest last, and the end of its cooling period.
\<close>

record limiter_spec =
  log :: "time list"
  cool :: time

definition recent :: "time \<Rightarrow> int \<Rightarrow> time list \<Rightarrow> time list" where
  "recent now p ts = filter (\<lambda>t. now - of_int p < t) ts"

definition spec_limited :: "RateLimitRule list \<Rightarrow> time \<Rightarrow> limiter_spec \<Rightarrow> bool" where
  "spec_limited rules now sp \<longleftrightarrow>
     now < cool sp \<or>
     list_ex (\<lambda>r. 0 < period_seconds r \<and>
                  rule_count r \<le> int (length (recent now (period_seconds r) (log sp)))) rules"

datatype limiter_event = Ask time bool | Cool time int

fun event_time :: "limiter_event \<Rightarrow> time" where
  "event_time (Ask t _) = t"
| "event_time (Cool t _) = t"

fun spec_step :: "RateLimitRule list \<Rightarrow> limiter_event \<Rightarrow> limiter_spec \<Rightarrow> bool \<times> limiter_spec" where
  "spec_step rules (Ask now commit) sp =
     (if spec_limited rules now sp then (True, sp)
      else (False, if commit then sp\<lparr>log := log sp @ [now]\<rparr> else sp))"
| "spec_step rules (Cool now d) sp = (True, sp\<lparr>cool := now + of_int d\<rparr>)"

fun spec_run :: "RateLimitRule list \<Rightarrow> limiter_event list \<Rightarrow> limiter_spec \<Rightarrow> bool list \<times> limiter_spec" where
  "spec_run rules [] sp = ([], sp)"
| "spec_run rules (e # es) sp =
     (let (b, sp') = spec_step rules e sp; (bs, sp'') = spec_run rules es sp' in (b # bs, sp''))"

text \<open>The same events on the state of the code.\<close>

fun limiter_step ::
  "string \<Rightarrow> string option \<Rightarrow> policy \<Rightarrow> limiter_event \<Rightarrow> RateLimitState \<Rightarrow> bool \<times> RateLimitState" where
  "limiter_step item model policy (Ask now commit) st = is_rate_limited now item model policy commit st"
| "limiter_step item model policy (Cool now d) st = (True, set_cooling now (Some item) d st)"

fun limiter_run ::
  "string \<Rightarrow> string option \<Rightarrow> policy \<Rightarrow> limiter_event list \<Rightarrow> RateLimitState
   \<Rightarrow> bool list \<times> RateLimitState" where
  "limiter_run item model policy [] st = ([], st)"
| "limiter_run item model policy (e # es) st =
     (let (b, st') = limiter_step item model policy e st;
          (bs, st'') = limiter_run item model policy es st' in (b # bs, st''))"

text \<open>A deque holds the log from some cut-off on, and the cut-off lies outside every later window.\<close>

definition window_of :: "time list \<Rightarrow> time \<Rightarrow> int \<Rightarrow> time list \<Rightarrow> bool" where
  "window_of ts now p w \<longleftrightarrow> (\<exists>c. c \<le> now - of_int p \<and> w = filter (\<lambda>t. c < t) ts)"

definition tracks ::
  "string \<Rightarrow> string option \<Rightarrow> policy \<Rightarrow> time \<Rightarrow> limiter_spec \<Rightarrow> RateLimitState \<Rightarrow> bool" where
  "tracks item model policy now sp st \<longleftrightarrow>
     sorted (log sp) \<and> (\<forall>t \<in> set (log sp). t \<le> now) \<and>
     cooling_until st item = cool sp \<and>
     (\<forall>p \<in> set (positive_periods (rules_for policy model)).
        window_of (log sp) now p (requests st item (model_key model) p))"

lemma dropWhile_filter_sorted:
  fixes a :: "'a::linorder"
  shows "sorted ts \<Longrightarrow> dropWhile (\<lambda>t. t \<le> a) ts = filter (\<lambda>t. a < t) ts"
proof (induction ts)
  case (Cons x ts)
  then show ?case
    by (cases "x \<le> a") (auto simp: not_le intro!: filter_True [symmetric] dest: order_less_le_trans)
qed simp

lemma window_of_prune:
  assumes "sorted ts" "window_of ts now p w" "now \<le> now'"
  shows "dropWhile (\<lambda>t. t \<le> now' - of_int p) w = recent now' p ts"
proof -
  obtain c where c: "c \<le> now - of_int p" and w: "w = filter (\<lambda>t. c < t) ts"
    using assms(2) by (auto simp: window_of_def)
  have "sorted w" using assms(1) by (simp add: w sorted_filter [where f = id, simplified])
  then have "dropWhile (\<lambda>t. t \<le> now' - of_int p) w = filter (\<lambda>t. now' - of_int p < t) w"
    by (rule dropWhile_filter_sorted)
  also have "\<dots> = recent now' p ts"
    using c assms(3) by (auto simp: w recent_def intro!: filter_cong)
  finally show ?thesis .
qed

lemma window_of_mono: "window_of ts now p w \<Longrightarrow> now \<le> now' \<Longrightarrow> window_of ts now' p w"
  unfolding window_of_def by (elim exE conjE, rule_tac x = c in exI) simp

lemma window_of_recent: "window_of ts now p (recent now p ts)"
  by (auto simp: window_of_def recent_def)

lemma window_of_snoc:
  "0 < p \<Longrightarrow> window_of (ts @ [now]) now p (recent now p ts @ [now])"
  by (auto simp: window_of_def recent_def intro!: exI [of _ "now - of_int p"])

lemma prune_windows_recent:
  assumes "tracks item model policy now sp st" "now \<le> now'"
    and "p \<in> set (positive_periods (rules_for policy model))"
  shows "prune_windows now' (positive_periods (rules_for policy model))
           (requests st item (model_key model)) p = recent now' p (log sp)"
  using assms by (auto simp: prune_windows_def tracks_def intro: window_of_prune)

lemma windows_full_recent:
  assumes "tracks item model policy now sp st" "now \<le> now'"
  shows "windows_full (rules_for policy model)
           (prune_windows now' (positive_periods (rules_for policy model))
              (requests st item (model_key model)))
     \<longleftrightarrow> list_ex (\<lambda>r. 0 < period_seconds r \<and>
            rule_count r \<le> int (length (recent now' (period_seconds r) (log sp))))
          (rules_for policy model)"
proof -
  have "0 < period_seconds r \<Longrightarrow> r \<in> set (rules_for policy model) \<Longrightarrow>
     period_seconds r \<in> set (positive_periods (rules_for policy model))" for r
    by (auto simp: positive_periods_def)
  then show ?thesis
    unfolding windows_full_def list_ex_iff by (auto simp: prune_windows_recent [OF assms])
qed

lemma limiter_step_simulates:
  assumes R: "tracks item model policy now sp st" and now: "now \<le> event_time e"
  defines "a \<equiv> spec_step (rules_for policy model) e sp"
    and "c \<equiv> limiter_step item model policy e st"
  shows "fst c = fst a \<and> tracks item model policy (event_time e) (snd a) (snd c)"
proof (cases e)
  case (Cool t d)
  with R now show ?thesis
    by (auto simp: a_def c_def tracks_def set_cooling_def intro: window_of_mono order_trans)
next
  case (Ask t commit)
  have log: "\<forall>u \<in> set (log sp). u \<le> t"
    using R now Ask by (auto simp: tracks_def)
  have pos: "p \<in> set (positive_periods rules) \<Longrightarrow> 0 < p" for p rules
    by (simp add: positive_periods_def)
  note full = windows_full_recent [OF R, of t] and prune = prune_windows_recent [OF R, of t]
  show ?thesis
    using R now Ask log
    by (auto simp: a_def c_def spec_limited_def is_rate_limited_def Let_def full prune tracks_def
        put_windows_def sorted_append window_of_recent window_of_snoc pos intro: window_of_mono)
qed

lemma limiter_run_simulates:
  assumes "tracks item model policy now sp st" "sorted (now # map event_time es)"
  shows "fst (limiter_run item model policy es st) = fst (spec_run (rules_for policy model) es sp)"
  using assms
proof (induction es arbitrary: now sp st)
  case (Cons e es)
  have "now \<le> event_time e" "sorted (event_time e # map event_time es)" using Cons.prems by auto
  from limiter_step_simulates [OF Cons.prems(1) this(1)] Cons.IH [OF _ this(2)]
  show ?case by (auto simp: split_beta Let_def)
qed simp

lemma tracks_init: "tracks item model policy now \<lparr>log = [], cool = 0\<rparr> init_state"
  by (auto simp: tracks_def init_state_def window_of_def)

lemma limiter_run_init:
  assumes "sorted (map event_time es)"
  shows "fst (limiter_run item model policy es init_state)
       = fst (spec_run (rules_for policy model) es \<lparr>log = [], cool = 0\<rparr>)"
proof (cases es)
  case (Cons e es')
  then show ?thesis
    using assms by (intro limiter_run_simulates [OF tracks_init, of "event_time e"]) auto
qed simp

text \<open>
  C12. Over any sequence of checks, commits and coolings of one credential and model, on a clock
  that does not run backwards, the deques of \<open>RateLimitState\<close> decide exactly as a plain log of
  the accepted requests does: a request is limited iff the credential is cooling or some rule with
  a positive period \<open>p\<close> already has its count of accepted requests within the last \<open>p\<close> seconds.
\<close>

theorem rate_limiter_refines_log:
  assumes "sorted (map event_time es)"
  shows "fst (limiter_run item model policy es init_state)
       = fst (spec_run (rules_for policy model) es \<lparr>log = [], cool = 0\<rparr>)"
  using assms by (rule limiter_run_init)

theorem rate_limiter_refines_log_witness:
  "fst (limiter_run ''k'' (Some ''gpt'') [(''default'', [\<lparr>rule_count = 1, period_seconds = 60\<rparr>])]
      [Ask 10 True, Ask 20 True, Ask 70 True, Cool 80 60, Ask 90 False] init_state)
   = [False, True, False, True, True]"
  by (subst rate_limiter_refines_log)
     (simp_all add: rules_for_def named_model_def spec_limited_def recent_def)

text \<open>The sliding-window guarantee, from the log.\<close>

definition within_limits :: "RateLimitRule list \<Rightarrow> time list \<Rightarrow> bool" where
  "within_limits rules ts \<longleftrightarrow>
     (\<forall>r \<in> set rules. 0 < period_seconds r \<longrightarrow>
        (\<forall>t. int (length (filter (\<lambda>x. t - of_int (period_seconds r) < x \<and> x \<le> t) ts))
             \<le> max 0 (rule_count r)))"

lemma within_limits_snoc:
  assumes W: "within_limits rules ts" and le: "\<forall>x \<in> set ts. x \<le> now"
    and ok: "\<not> spec_limited rules now sp" and ts: "log sp = ts"
  shows "within_limits rules (ts @ [now])"
  unfolding within_limits_def
proof (intro ballI impI allI)
  fix r t assume r: "r \<in> set rules" "0 < period_seconds r"
  let ?in = "\<lambda>t x. t - of_int (period_seconds r) < x \<and> x \<le> t"
  show "int (length (filter (?in t) (ts @ [now]))) \<le> max 0 (rule_count r)"
  proof (cases "?in t now")
    case False
    with W r show ?thesis by (auto simp: within_limits_def)
  next
    case True
    then have "length (filter (?in t) ts) \<le> length (recent now (period_seconds r) ts)"
      unfolding recent_def by (intro length_filter_conv_card [THEN eq_refl, THEN order_trans] )
        (auto simp: length_filter_conv_card intro!: card_mono)
    moreover have "int (length (recent now (period_seconds r) ts)) < rule_count r"
      using ok r ts by (auto simp: spec_limited_def list_ex_iff not_le)
    ultimately show ?thesis using True by simp
  qed
qed

definition spec_good :: "RateLimitRule list \<Rightarrow> time \<Rightarrow> limiter_spec \<Rightarrow> bool" where
  "spec_good rules now sp \<longleftrightarrow> within_limits rules (log sp) \<and> (\<forall>x \<in> set (log sp). x \<le> now)"

lemma spec_step_good:
  "spec_good rules now sp \<Longrightarrow> now \<le> event_time e \<Longrightarrow>
   spec_good rules (event_time e) (snd (spec_step rules e sp))"
  by (cases e) (auto simp: spec_good_def intro: within_limits_snoc order_trans)

lemma spec_run_good:
  "spec_good rules now sp \<Longrightarrow> sorted (now # map event_time es) \<Longrightarrow>
   within_limits rules (log (snd (spec_run rules es sp)))"
proof (induction es arbitrary: now sp)
  case (Cons e es)
  then have "spec_good rules (event_time e) (snd (spec_step rules e sp))"
    by (intro spec_step_good) auto
  from Cons.IH [OF this] Cons.prems show ?case by (simp add: split_beta Let_def)
qed (simp add: spec_good_def)

fun accepted :: "limiter_event list \<Rightarrow> bool list \<Rightarrow> time list" where
  "accepted (Ask t True # es) (False # bs) = t # accepted es bs"
| "accepted (e # es) (b # bs) = accepted es bs"
| "accepted _ _ = []"

lemma accepted_log:
  "log (snd (spec_run rules es sp)) = log sp @ accepted es (fst (spec_run rules es sp))"
proof (induction es arbitrary: sp)
  case (Cons e es)
  show ?case
    by (cases "(rules, e, sp)" rule: spec_step.cases) (auto simp: split_beta Let_def Cons.IH)
qed simp

text \<open>
  C4. No window of any length-\<open>p\<close> rule is ever overdrawn: whatever the sequence of requests, in
  every half-open interval of \<open>p\<close> seconds the code accepts at most the rule's count.
\<close>

theorem rate_limit_never_exceeded:
  assumes "sorted (map event_time es)" and "r \<in> set (rules_for policy model)"
    and "0 < period_seconds r"
  shows "int (length (filter (\<lambda>x. t - of_int (period_seconds r) < x \<and> x \<le> t)
            (accepted es (fst (limiter_run item model policy es init_state)))))
         \<le> max 0 (rule_count r)"
proof -
  let ?rules = "rules_for policy model" and ?sp = "\<lparr>log = [], cool = 0\<rparr>"
  have "within_limits ?rules (log (snd (spec_run ?rules es ?sp)))"
  proof (cases es)
    case (Cons e es')
    have "spec_good ?rules (event_time e) ?sp" by (simp add: spec_good_def within_limits_def)
    then show ?thesis using assms(1) Cons by (intro spec_run_good) auto
  qed (simp add: within_limits_def)
  then have "within_limits ?rules (accepted es (fst (limiter_run item model policy es init_state)))"
    by (simp add: accepted_log limiter_run_init [OF assms(1)])
  with assms(2,3) show ?thesis by (simp add: within_limits_def)
qed

theorem rate_limit_never_exceeded_witness:
  "int (length (filter (\<lambda>x. (100::real) - of_int 60 < x \<and> x \<le> 100)
      (accepted [Ask 10 True, Ask 50 True, Ask 60 True, Ask 90 True]
        (fst (limiter_run ''k'' None [(''default'', [\<lparr>rule_count = 2, period_seconds = 60\<rparr>])]
           [Ask 10 True, Ask 50 True, Ask 60 True, Ask 90 True] init_state))))) \<le> max 0 2"
  using rate_limit_never_exceeded [of "[Ask 10 True, Ask 50 True, Ask 60 True, Ask 90 True]"
      "\<lparr>rule_count = 2, period_seconds = 60\<rparr>" "[(''default'', [\<lparr>rule_count = 2, period_seconds = 60\<rparr>])]"
      None 100 "''k''"]
  by (simp add: rules_for_def named_model_def)

end
