(* ===== verification/KeyPool.thy ===== *)
theory KeyPool
  imports RateLimit
begin

text \<open>
  \<open>uni_api/rate_limit/key_pool.py\<close>: \<open>ProviderKeyPool\<close>, the rotating list of one provider's
  credentials. \<open>next\<close> walks the ring of keys from the current index and returns the first key
  whose rate limits admit the request. The walk is proved against an interface
  (\<open>credential_check\<close>): a check that refuses a key must not change any later answer. The
  interface is then interpreted on \<open>RateLimitState.is_rate_limited\<close>.

  Not modelled: log output, and the database query behind \<open>_load_reordered_items\<close> (its result is
  an argument).
\<close>

section \<open>Walking the ring\<close>

datatype 'i scan_result = Found 'i | Exhausted | OutOfRange

text \<open>
  The \<open>while True\<close> loop of \<open>next\<close>. The \<open>k\<close>-th check reads the clock as \<open>clk k\<close>. Reading
  \<open>items[index]\<close> out of range raises \<open>IndexError\<close>; the loop starts with \<open>index = start\<close>, so the
  test of \<open>start\<close> is the same test and only serves termination.
\<close>

function ring_scan ::
  "(time \<Rightarrow> 'i \<Rightarrow> 's \<Rightarrow> bool \<times> 's) \<Rightarrow> (nat \<Rightarrow> time) \<Rightarrow> 'i list \<Rightarrow> nat \<Rightarrow> nat \<Rightarrow> nat \<Rightarrow> 's
   \<Rightarrow> 'i scan_result \<times> nat \<times> 's" where
  "ring_scan check clk items start k index s =
     (if index < length items \<and> start < length items then
        let item = items ! index;
            index' = (index + 1) mod length items;
            (limited, s') = check (clk k) item s
        in if \<not> limited then (Found item, index', s')
           else if index' = start then (Exhausted, index', s')
           else ring_scan check clk items start (Suc k) index' s'
      else (OutOfRange, index, s))"
  by pat_completeness auto
termination
proof (relation "measure (\<lambda>(check, clk, items, start, k, index, s).
    if index < start then start - index else start + length items - index)", goal_cases)
  case (2 check clk items start k index s item index' r limited s')
  then show ?case
    by (cases "Suc index = length items") auto
qed simp

declare ring_scan.simps [simp del]

locale credential_check =
  fixes check :: "time \<Rightarrow> 'i \<Rightarrow> 's \<Rightarrow> bool \<times> 's"
  assumes refused_quiet:
    "fst (check t i s) \<Longrightarrow> t \<le> t' \<Longrightarrow> fst (check t' j (snd (check t i s))) = fst (check t' j s)"
begin

lemma ring_scan_step:
  assumes "index < length items" "start < length items" "check (clk k) (items ! index) s = (b, s')"
  shows "ring_scan check clk items start k index s =
     (if \<not> b then (Found (items ! index), (index + 1) mod length items, s')
      else if (index + 1) mod length items = start then (Exhausted, start, s')
      else ring_scan check clk items start (Suc k) ((index + 1) mod length items) s')"
  using assms by (subst ring_scan.simps) (simp add: Let_def)

lemma ring_scan_from:
  fixes clk items start s0
  defines "n \<equiv> length items"
  defines "limited \<equiv> \<lambda>e. fst (check (clk e) (items ! ((start + e) mod n)) s0)"
  assumes "index = (start + d) mod n" "d < n" "start < n" "mono clk"
    and "\<And>e j. d \<le> e \<Longrightarrow> fst (check (clk e) j s) = fst (check (clk e) j s0)"
  defines "R \<equiv> ring_scan check clk items start d index s"
  shows "(\<exists>e \<ge> d. e < n \<and> \<not> limited e \<and> (\<forall>e'. d \<le> e' \<and> e' < e \<longrightarrow> limited e') \<and>
            fst R = Found (items ! ((start + e) mod n)) \<and> fst (snd R) = (start + e + 1) mod n)
       \<or> ((\<forall>e \<ge> d. e < n \<longrightarrow> limited e) \<and> fst R = Exhausted \<and> fst (snd R) = start)"
  using assms(3-7) unfolding R_def
proof (induction "n - d" arbitrary: d index s)
  case 0
  then show ?case by simp
next
  case (Suc m)
  obtain b s' where chk: "check (clk d) (items ! index) s = (b, s')" by fastforce
  have idx: "index < n" using Suc.prems(1,2) by simp
  have b: "b = limited d" using Suc.prems(5) [of d "items ! index"] chk Suc.prems(1) by (simp add: limited_def)
  have nxt: "(index + 1) mod n = (start + Suc d) mod n" using Suc.prems(1) by (simp add: mod_Suc_eq)
  note eq = ring_scan_step [of index items start clk d s b s', folded n_def, OF idx Suc.prems(3) chk]
  show ?case
  proof (cases "b \<and> Suc d < n")
    case False
    show ?thesis
    proof (cases b)
      case True
      with False Suc.prems(2) have "n = Suc d" by simp
      with Suc.prems(3) have "(start + Suc d) mod n = start" by (metis mod_add_self2 mod_less)
      with nxt have "(index + 1) mod n = start" by simp
      then have "ring_scan check clk items start d index s = (Exhausted, start, s')"
        using True by (simp add: eq)
      with True b \<open>n = Suc d\<close> show ?thesis by (auto simp: less_Suc_eq)
    next
      case False
      then have "ring_scan check clk items start d index s = (Found (items ! index), (index + 1) mod n, s')"
        by (simp add: eq)
      with False b Suc.prems(1,2) nxt show ?thesis by (intro disjI1 exI [of _ d]) auto
    qed
  next
    case True
    have ne: "(index + 1) mod n \<noteq> start"
    proof
      assume "(index + 1) mod n = start"
      then have "(start + Suc d) mod n = (start + 0) mod n" using nxt Suc.prems(3) by simp
      then have "n dvd Suc d" using mod_eq_dvd_iff_nat [of start "start + Suc d" n] by simp
      with True show False by (auto dest: dvd_imp_le)
    qed
    have quiet: "fst (check (clk e) j s') = fst (check (clk e) j s0)" if "Suc d \<le> e" for e j
      using refused_quiet [of "clk d" "items ! index" s "clk e" j] chk True Suc.prems(5) [of e j] that
        monoD [OF Suc.prems(4), of d e] by simp
    have "m = n - Suc d" using Suc.hyps(2) by simp
    from Suc.hyps(1) [OF this nxt _ Suc.prems(3,4) quiet] True
    have IH: "(\<exists>e \<ge> Suc d. e < n \<and> \<not> limited e \<and> (\<forall>e'. Suc d \<le> e' \<and> e' < e \<longrightarrow> limited e') \<and>
            fst R' = Found (items ! ((start + e) mod n)) \<and> fst (snd R') = (start + e + 1) mod n)
       \<or> ((\<forall>e \<ge> Suc d. e < n \<longrightarrow> limited e) \<and> fst R' = Exhausted \<and> fst (snd R') = start)"
      if "R' = ring_scan check clk items start (Suc d) ((index + 1) mod n) s'" for R'
      by (simp add: that)
    have R: "ring_scan check clk items start d index s =
        ring_scan check clk items start (Suc d) ((index + 1) mod n) s'"
      using True ne by (simp add: eq)
    show ?thesis
      using IH [OF R]
    proof (elim disjE exE conjE, goal_cases)
      case (1 e)
      then show ?case
        using True b by (intro disjI1 exI [of _ e]) (metis Suc_leI Suc_leD le_neq_implies_less)
    next
      case 2
      then show ?case using True b by (metis Suc_leI le_neq_implies_less)
    qed
  qed
qed

text \<open>
  From any position the walk returns the first admitted key in ring order, judged in the state it
  started from, and leaves the index behind it; it reports exhaustion iff every key is refused.
\<close>

lemma ring_scan_first:
  fixes s :: 's
  assumes "start < length items" "mono clk"
  defines "n \<equiv> length items"
    and "limited \<equiv> \<lambda>e. fst (check (clk e) (items ! ((start + e) mod length items)) s)"
  shows "(\<exists>e < n. \<not> limited e \<and> (\<forall>e' < e. limited e') \<and>
            fst (ring_scan check clk items start 0 start s) = Found (items ! ((start + e) mod n)) \<and>
            fst (snd (ring_scan check clk items start 0 start s)) = (start + e + 1) mod n)
       \<or> ((\<forall>e < n. limited e) \<and>
            fst (ring_scan check clk items start 0 start s) = Exhausted \<and>
            fst (snd (ring_scan check clk items start 0 start s)) = start)"
proof -
  have "0 < n" "start = (start + 0) mod n" using assms(1) by (auto simp: n_def)
  then show ?thesis
    using ring_scan_from [of start start 0 items clk s s] assms(1,2)
    by (auto simp: n_def limited_def)
qed

end

text \<open>
  A check that never changes a later answer, whatever it answers itself: the dry runs of
  \<open>is_all_rate_limited\<close>.
\<close>

locale credential_probe =
  fixes probe :: "time \<Rightarrow> 'i \<Rightarrow> 's \<Rightarrow> bool \<times> 's"
  assumes probe_quiet: "t \<le> t' \<Longrightarrow> fst (probe t' j (snd (probe t i s))) = fst (probe t' j s)"

sublocale credential_probe \<subseteq> credential_check probe
  by unfold_locales (rule probe_quiet)

text \<open>The \<open>for\<close> loop of \<open>is_all_rate_limited\<close>: it stops at the first key that is not limited.\<close>

fun all_limited ::
  "(time \<Rightarrow> 'i \<Rightarrow> 's \<Rightarrow> bool \<times> 's) \<Rightarrow> (nat \<Rightarrow> time) \<Rightarrow> nat \<Rightarrow> 'i list \<Rightarrow> 's \<Rightarrow> bool \<times> 's" where
  "all_limited probe clk k [] s = (True, s)"
| "all_limited probe clk k (item # rest) s =
     (let (limited, s') = probe (clk k) item s in
      if \<not> limited then (False, s') else all_limited probe clk (Suc k) rest s')"

context credential_probe
begin

lemma all_limited_from:
  assumes "mono clk" "\<And>e j. k \<le> e \<Longrightarrow> fst (probe (clk e) j s) = fst (probe (clk e) j s0)"
  shows "fst (all_limited probe clk k items s) \<longleftrightarrow>
     (\<forall>e < length items. fst (probe (clk (k + e)) (items ! e) s0))"
  using assms(2)
proof (induction items arbitrary: k s)
  case (Cons item rest)
  obtain b s' where chk: "probe (clk k) item s = (b, s')" by fastforce
  have b: "b = fst (probe (clk k) item s0)" using Cons.prems [of k item] chk by simp
  have quiet: "fst (probe (clk e) j s') = fst (probe (clk e) j s0)" if "Suc k \<le> e" for e j
    using probe_quiet [of "clk k" "clk e" j item s] chk Cons.prems [of e j] that
      monoD [OF assms(1), of k e] by simp
  show ?case
    using Cons.IH [OF quiet] b chk by (auto simp: All_less_Suc2)
qed simp

lemma all_limited_iff:
  "mono clk \<Longrightarrow> fst (all_limited probe clk 0 items s) \<longleftrightarrow>
     (\<forall>e < length items. fst (probe (clk e) (items ! e) s))"
  using all_limited_from [of clk 0 s s items] by simp

end

section \<open>The interface holds of the rate-limit state\<close>

lemma dropWhile_twice:
  "(\<And>x. P x \<Longrightarrow> Q x) \<Longrightarrow> dropWhile Q (dropWhile P xs) = dropWhile Q xs"
  by (induction xs) auto

lemma prune_windows_twice:
  "t \<le> t' \<Longrightarrow> prune_windows t' ps (prune_windows t ps w) = prune_windows t' ps w"
  by (rule ext) (auto simp: prune_windows_def intro!: dropWhile_twice)

text \<open>A second look at keys whose windows were pruned sees the same windows.\<close>

definition sees_same ::
  "time \<Rightarrow> policy \<Rightarrow> string option \<Rightarrow> RateLimitState \<Rightarrow> RateLimitState \<Rightarrow> bool" where
  "sees_same t policy model st st' \<longleftrightarrow>
     cooling_until st' = cooling_until st \<and>
     (\<forall>item. requests st' item (model_key model) = requests st item (model_key model) \<or>
        requests st' item (model_key model) =
          prune_windows t (positive_periods (rules_for policy model))
            (requests st item (model_key model)))"

lemma sees_same_answers:
  "sees_same t policy model st st' \<Longrightarrow> t \<le> t' \<Longrightarrow>
   fst (is_rate_limited t' item model policy commit st') =
   fst (is_rate_limited t' item model policy commit st)"
  unfolding sees_same_def is_rate_limited_def Let_def
  by (auto simp: prune_windows_twice dest!: spec [of _ item])

lemma is_rate_limited_sees_same:
  "fst (is_rate_limited t item model policy commit st) \<or> \<not> commit \<Longrightarrow>
   sees_same t policy model st (snd (is_rate_limited t item model policy commit st))"
  by (auto simp: is_rate_limited_def sees_same_def put_windows_def Let_def)

interpretation pool_check:
  credential_check "\<lambda>t item st. is_rate_limited t item model policy True st" for model policy
  by unfold_locales (rule sees_same_answers [OF is_rate_limited_sees_same]; simp)

interpretation pool_probe:
  credential_probe "\<lambda>t item st. is_rate_limited t item model policy False st" for model policy
  by unfold_locales (rule sees_same_answers [OF is_rate_limited_sees_same]; simp)

section \<open>The pool\<close>

datatype schedule = RoundRobin | RandomOrder | FixedPriority | SmartRoundRobin

datatype task = NoTask | Running | Done

datatype pool_error = HTTPException nat string | IndexError

record ProviderKeyPool =
  provider_name :: "string option"
  original_items :: "string list"
  schedule_algorithm :: schedule
  items :: "string list"
  index :: nat
  state :: RateLimitState
  policy :: policy
  reordering_task :: task

definition normalize_schedule_algorithm :: "string \<Rightarrow> schedule" where
  "normalize_schedule_algorithm s =
     (if s = ''round_robin'' then RoundRobin
      else if s = ''random'' then RandomOrder
      else if s = ''fixed_priority'' then FixedPriority
      else if s = ''smart_round_robin'' then SmartRoundRobin
      else RoundRobin)"

definition reset_items :: "string list \<Rightarrow> ProviderKeyPool \<Rightarrow> ProviderKeyPool" where
  "reset_items new_items p =
     (if items p \<noteq> new_items then p\<lparr>items := new_items, index := 0\<rparr> else p)"

definition trigger_reorder :: "bool \<Rightarrow> ProviderKeyPool \<Rightarrow> ProviderKeyPool" where
  "trigger_reorder loop_running p =
     (if provider_name p \<noteq> None \<and> provider_name p \<noteq> Some [] \<and> reordering_task p \<noteq> Running \<and> loop_running
      then p\<lparr>reordering_task := Running\<rparr> else p)"

text \<open>
  The task \<open>_reorder_keys\<close>: \<open>loaded\<close> is what \<open>_load_reordered_items\<close> returned, \<open>None\<close> also when it
  raised (the exception is only logged).
\<close>

definition reorder_keys :: "string list option \<Rightarrow> ProviderKeyPool \<Rightarrow> ProviderKeyPool" where
  "reorder_keys loaded p =
     (let p' = (case loaded of None \<Rightarrow> p | Some [] \<Rightarrow> p | Some ks \<Rightarrow> reset_items ks p) in
      p'\<lparr>reordering_task := Done\<rparr>)"

text \<open>\<open>sample\<close> is \<open>random.sample(items, len(items))\<close>.\<close>

definition new_pool ::
  "(string list \<Rightarrow> string list) \<Rightarrow> bool \<Rightarrow> string list \<Rightarrow> pyval \<Rightarrow> string \<Rightarrow> string option
   \<Rightarrow> policy_error + ProviderKeyPool" where
  "new_pool sample loop_running ks rate_limit algorithm name =
     (let rate_limit' = (if rate_limit = PNone then PDict [(''default'', PStr DEFAULT_RATE_LIMIT)]
                         else rate_limit);
          alg = normalize_schedule_algorithm algorithm in
      case from_config rate_limit' of
        Inl e \<Rightarrow> Inl e
      | Inr pol \<Rightarrow>
          (let p = \<lparr>provider_name = name, original_items = ks, schedule_algorithm = alg,
                    items = (if alg = RandomOrder then sample ks else ks), index = 0,
                    state = init_state, policy = pol, reordering_task = NoTask\<rparr>
           in Inr (if alg = SmartRoundRobin then trigger_reorder loop_running p else p)))"

definition pool_set_cooling :: "time \<Rightarrow> string \<Rightarrow> int \<Rightarrow> ProviderKeyPool \<Rightarrow> ProviderKeyPool" where
  "pool_set_cooling now item cooling_time p =
     p\<lparr>state := set_cooling now (Some item) cooling_time (state p)\<rparr>"

definition pool_is_rate_limited ::
  "time \<Rightarrow> string \<Rightarrow> string option \<Rightarrow> bool \<Rightarrow> ProviderKeyPool \<Rightarrow> bool \<times> ProviderKeyPool" where
  "pool_is_rate_limited now item model is_check p =
     (let (limited, s) = is_rate_limited now item model (policy p) (\<not> is_check) (state p)
      in (limited, p\<lparr>state := s\<rparr>))"

definition rollback_rate_limit_record ::
  "string \<Rightarrow> string option \<Rightarrow> ProviderKeyPool \<Rightarrow> ProviderKeyPool" where
  "rollback_rate_limit_record item model p = p\<lparr>state := rollback_last_record item model (state p)\<rparr>"

definition too_many_requests :: pool_error where
  "too_many_requests = HTTPException 429 ''Too many requests''"

definition pool_next ::
  "bool \<Rightarrow> (nat \<Rightarrow> time) \<Rightarrow> string option \<Rightarrow> ProviderKeyPool
   \<Rightarrow> (pool_error + string) \<times> ProviderKeyPool" where
  "pool_next loop_running clk model p =
     (if items p = [] then (Inl too_many_requests, p)
      else
        let p1 = (if schedule_algorithm p = FixedPriority then p\<lparr>index := 0\<rparr> else p);
            p2 = (if schedule_algorithm p1 = SmartRoundRobin \<and> index p1 = length (items p1) - 1
                  then trigger_reorder loop_running p1 else p1);
            (r, i, s) = ring_scan (\<lambda>t item st. is_rate_limited t item model (policy p) True st) clk
                          (items p2) (index p2) 0 (index p2) (state p2);
            p3 = p2\<lparr>index := i, state := s\<rparr>
        in (case r of
              Found item \<Rightarrow> (Inr item, p3)
            | Exhausted \<Rightarrow> (Inl too_many_requests, p3)
            | OutOfRange \<Rightarrow> (Inl IndexError, p3)))"

definition claim_by_fingerprint ::
  "(string \<Rightarrow> string) \<Rightarrow> time \<Rightarrow> string \<Rightarrow> string option \<Rightarrow> ProviderKeyPool
   \<Rightarrow> (pool_error + string option) \<times> ProviderKeyPool" where
  "claim_by_fingerprint fingerprint_item now fingerprint model p =
     (case find (\<lambda>c. fingerprint_item c = fingerprint) (items p) of
        None \<Rightarrow> (Inr None, p)
      | Some item \<Rightarrow>
          (let (limited, s) = is_rate_limited now item model (policy p) True (state p) in
           (if limited
            then Inl (HTTPException 429 ''Bound provider credential is temporarily unavailable'')
            else Inr (Some item), p\<lparr>state := s\<rparr>)))"

definition pool_is_tpr_exceeded :: "string option \<Rightarrow> int \<Rightarrow> ProviderKeyPool \<Rightarrow> bool" where
  "pool_is_tpr_exceeded model tokens p = is_tpr_exceeded model tokens (policy p)"

definition is_all_rate_limited ::
  "(nat \<Rightarrow> time) \<Rightarrow> string option \<Rightarrow> ProviderKeyPool \<Rightarrow> bool \<times> ProviderKeyPool" where
  "is_all_rate_limited clk model p =
     (if items p = [] then (False, p)
      else
        let (b, s) = all_limited (\<lambda>t item st. is_rate_limited t item model (policy p) False st) clk 0
                       (items p) (state p)
        in (b, p\<lparr>state := s\<rparr>))"

text \<open>\<open>(index - 1) % len(items)\<close>: Python's remainder is non-negative.\<close>

definition after_next_current :: "ProviderKeyPool \<Rightarrow> string option" where
  "after_next_current p =
     (if items p = [] then None
      else Some (items p ! nat ((int (index p) - 1) mod int (length (items p)))))"

definition get_items_count :: "ProviderKeyPool \<Rightarrow> nat" where
  "get_items_count p = length (items p)"

definition pool_close :: "ProviderKeyPool \<Rightarrow> ProviderKeyPool" where
  "pool_close p = p\<lparr>reordering_task := NoTask\<rparr>"

section \<open>Properties of the pool\<close>

definition index_ok :: "ProviderKeyPool \<Rightarrow> bool" where
  "index_ok p \<longleftrightarrow> (if items p = [] then index p = 0 else index p < length (items p))"

text \<open>The key \<open>next\<close> looks at in its \<open>e\<close>-th step.\<close>

definition next_start :: "ProviderKeyPool \<Rightarrow> nat" where
  "next_start p = (if schedule_algorithm p = FixedPriority then 0 else index p)"

definition ring_key :: "ProviderKeyPool \<Rightarrow> nat \<Rightarrow> string" where
  "ring_key p e = items p ! ((next_start p + e) mod length (items p))"

lemma trigger_reorder_frame [simp]:
  "items (trigger_reorder l p) = items p" "index (trigger_reorder l p) = index p"
  "state (trigger_reorder l p) = state p" "policy (trigger_reorder l p) = policy p"
  "schedule_algorithm (trigger_reorder l p) = schedule_algorithm p"
  by (simp_all add: trigger_reorder_def)

lemma pool_next_scan:
  assumes "items p \<noteq> []"
  shows "let (r, i, s) = ring_scan (\<lambda>t item st. is_rate_limited t item model (policy p) True st) clk
                 (items p) (next_start p) 0 (next_start p) (state p) in
         fst (pool_next l clk model p) =
           (case r of Found item \<Rightarrow> Inr item | Exhausted \<Rightarrow> Inl too_many_requests
            | OutOfRange \<Rightarrow> Inl IndexError) \<and>
         index (snd (pool_next l clk model p)) = i \<and> items (snd (pool_next l clk model p)) = items p \<and>
         schedule_algorithm (snd (pool_next l clk model p)) = schedule_algorithm p"
  using assms
  by (auto simp: pool_next_def Let_def next_start_def split_beta split: scan_result.splits)

lemma next_start_bound: "index_ok p \<Longrightarrow> items p \<noteq> [] \<Longrightarrow> next_start p < length (items p)"
  by (simp add: index_ok_def next_start_def)

lemma pool_next_result:
  fixes model :: "string option"
  assumes "index_ok p" and "items p \<noteq> []" and "mono clk"
  defines "limited \<equiv> \<lambda>e. fst (is_rate_limited (clk e) (ring_key p e) model (policy p) True (state p))"
    and "n \<equiv> length (items p)"
  shows "(\<exists>e < n. \<not> limited e \<and> (\<forall>e' < e. limited e') \<and>
            fst (pool_next l clk model p) = Inr (ring_key p e) \<and>
            index (snd (pool_next l clk model p)) = (next_start p + e + 1) mod n)
       \<or> ((\<forall>e < n. limited e) \<and>
            fst (pool_next l clk model p) = Inl too_many_requests \<and>
            index (snd (pool_next l clk model p)) = next_start p)"
proof -
  have "next_start p < length (items p)" using assms(1,2) by (rule next_start_bound)
  from pool_check.ring_scan_first [OF this \<open>mono clk\<close>, of model "policy p" "state p"]
    pool_next_scan [OF assms(2), of model clk l]
  show ?thesis
    by (auto simp: limited_def n_def ring_key_def split_beta Let_def)
qed

text \<open>
  C18. With the index in range and a clock that does not run backwards, \<open>next\<close> returns the first key
  in ring order (from the head of the list under \<open>fixed_priority\<close>) whose limits admit the request,
  and moves the index just behind it. It raises 429 exactly when every key is limited, and then
  leaves the index where the walk began.
\<close>

theorem pool_next_first_available:
  fixes model :: "string option"
  assumes "index_ok p" and "items p \<noteq> []" and "mono clk"
  defines "limited \<equiv> \<lambda>e. fst (is_rate_limited (clk e) (ring_key p e) model (policy p) True (state p))"
    and "n \<equiv> length (items p)"
  shows "(\<exists>e < n. \<not> limited e \<and> (\<forall>e' < e. limited e') \<and>
            fst (pool_next l clk model p) = Inr (ring_key p e) \<and>
            index (snd (pool_next l clk model p)) = (next_start p + e + 1) mod n)
       \<or> ((\<forall>e < n. limited e) \<and>
            fst (pool_next l clk model p) = Inl too_many_requests \<and>
            index (snd (pool_next l clk model p)) = next_start p)"
  unfolding limited_def n_def using assms(1-3) by (rule pool_next_result)

definition sample_pool :: ProviderKeyPool where
  "sample_pool =
    \<lparr>provider_name = None, original_items = [''a'', ''b''], schedule_algorithm = RoundRobin,
     items = [''a'', ''b''], index = 0, state = set_cooling 90 (Some ''a'') 60 init_state,
     policy = [(''default'', [\<lparr>rule_count = 5, period_seconds = 60\<rparr>])],
     reordering_task = NoTask\<rparr>"

lemma sample_pool_limited:
  "fst (is_rate_limited 100 ''a'' None (policy sample_pool) True (state sample_pool))"
  "\<not> fst (is_rate_limited 100 ''b'' None (policy sample_pool) True (state sample_pool))"
  by (simp_all add: sample_pool_def is_rate_limited_def set_cooling_def init_state_def rules_for_def
      named_model_def windows_full_def prune_windows_def positive_periods_def Let_def)

theorem pool_next_first_available_witness:
  "fst (pool_next False (\<lambda>_. 100) None sample_pool) = Inr ''b'' \<and>
   index (snd (pool_next False (\<lambda>_. 100) None sample_pool)) = 0"
proof -
  have "index_ok sample_pool" "items sample_pool \<noteq> []" "mono (\<lambda>_::nat. 100::time)"
    by (simp_all add: sample_pool_def index_ok_def mono_def)
  note first = pool_next_first_available [OF this, of None False]
  have "length (items sample_pool) = 2" "ring_key sample_pool 0 = ''a''"
    "ring_key sample_pool (Suc 0) = ''b''" "next_start sample_pool = 0"
    by (simp_all add: sample_pool_def ring_key_def next_start_def)
  with first sample_pool_limited show ?thesis
    by (auto simp: less_2_cases_iff)
qed

lemma decision_commit:
  "fst (is_rate_limited t item model pol c st) = fst (is_rate_limited t item model pol c' st)"
  by (simp add: is_rate_limited_def Let_def)

lemma all_ring_positions:
  assumes "s < length xs"
  shows "(\<forall>e < length xs. P (xs ! e)) \<longleftrightarrow> (\<forall>e < length xs. P (xs ! ((s + e) mod length xs)))"
    (is "?L \<longleftrightarrow> ?R")
proof
  assume ?R
  show ?L
  proof (intro allI impI)
    fix e assume e: "e < length xs"
    let ?d = "(e + length xs - s) mod length xs"
    have "(s + ?d) mod length xs = (s + (e + length xs - s)) mod length xs" by (rule mod_add_right_eq)
    also have "\<dots> = e" using e assms by simp
    finally have "(s + ?d) mod length xs = e" .
    moreover have "?d < length xs" using e by (intro mod_less_divisor) auto
    ultimately show "P (xs ! e)" using \<open>?R\<close> by metis
  qed
next
  assume ?L
  moreover have "(s + e) mod length xs < length xs" for e
    using assms by (intro mod_less_divisor) auto
  ultimately show ?R by blast
qed

text \<open>
  C27. The dry run \<open>is_all_rate_limited\<close>, which the router asks before it spends an attempt on a
  provider, answers yes exactly when \<open>next\<close> at the same time would raise 429.
\<close>

theorem all_rate_limited_iff_next_fails:
  assumes "index_ok p" and "items p \<noteq> []"
  shows "fst (is_all_rate_limited (\<lambda>_. now) model p) \<longleftrightarrow>
         fst (pool_next l (\<lambda>_. now) model p) = Inl too_many_requests"
proof -
  let ?lim = "\<lambda>k. fst (is_rate_limited now k model (policy p) True (state p))"
  let ?n = "length (items p)"
  have bound: "next_start p < ?n" using assms by (rule next_start_bound)
  have "fst (is_all_rate_limited (\<lambda>_. now) model p) \<longleftrightarrow> (\<forall>e < ?n. ?lim (items p ! e))"
    using assms(2) pool_probe.all_limited_iff [of "\<lambda>_. now" model "policy p" "items p" "state p"]
    by (simp add: is_all_rate_limited_def Let_def split_beta mono_def decision_commit [of _ _ _ _ False _ True])
  also have "\<dots> \<longleftrightarrow> (\<forall>e < ?n. ?lim (ring_key p e))"
    unfolding ring_key_def by (rule all_ring_positions [OF bound])
  also have "\<dots> \<longleftrightarrow> fst (pool_next l (\<lambda>_. now) model p) = Inl too_many_requests"
    using pool_next_result [OF assms, of "\<lambda>_. now" model l] by (auto simp: mono_def)
  finally show ?thesis .
qed

theorem all_rate_limited_iff_next_fails_witness:
  "fst (is_all_rate_limited (\<lambda>_. 100) None sample_pool) \<longleftrightarrow>
   fst (pool_next True (\<lambda>_. 100) None sample_pool) = Inl too_many_requests"
  by (rule all_rate_limited_iff_next_fails) (simp_all add: sample_pool_def index_ok_def)

text \<open>Every operation of the pool keeps the index inside the list of keys.\<close>

datatype pool_op =
    Next "nat \<Rightarrow> time" "string option"
  | Claim "string \<Rightarrow> string" time string "string option"
  | Reset "string list"
  | Reorder "string list option"
  | Cooling time string int
  | Limited time string "string option" bool
  | Rollback string "string option"
  | AllLimited "nat \<Rightarrow> time" "string option"
  | Close

fun pool_step :: "pool_op \<Rightarrow> ProviderKeyPool \<Rightarrow> ProviderKeyPool" where
  "pool_step (Next clk model) p = snd (pool_next True clk model p)"
| "pool_step (Claim f now fp model) p = snd (claim_by_fingerprint f now fp model p)"
| "pool_step (Reset ks) p = reset_items ks p"
| "pool_step (Reorder ks) p = reorder_keys ks p"
| "pool_step (Cooling now item d) p = pool_set_cooling now item d p"
| "pool_step (Limited now item model chk) p = snd (pool_is_rate_limited now item model chk p)"
| "pool_step (Rollback item model) p = rollback_rate_limit_record item model p"
| "pool_step (AllLimited clk model) p = snd (is_all_rate_limited clk model p)"
| "pool_step Close p = pool_close p"

lemma is_all_rate_limited_frame [simp]:
  "items (snd (is_all_rate_limited clk model p)) = items p"
  "index (snd (is_all_rate_limited clk model p)) = index p"
  by (auto simp: is_all_rate_limited_def Let_def split: prod.split)

lemma ring_scan_index:
  "i < length ks \<Longrightarrow> start < length ks \<Longrightarrow> fst (snd (ring_scan check clk ks start k i s)) < length ks"
proof (induction check clk ks start k i s rule: ring_scan.induct)
  case (1 check clk ks start k i s)
  obtain b s' where chk: "check (clk k) (ks ! i) s = (b, s')" by fastforce
  have "(i + 1) mod length ks < length ks" using "1.prems" by (intro mod_less_divisor) auto
  with "1" chk show ?case by (subst ring_scan.simps) (auto simp: Let_def)
qed

lemma pool_next_index_ok [inv_rules]: "index_ok p \<Longrightarrow> index_ok (snd (pool_next l clk model p))"
proof (cases "items p = []")
  case False
  assume "index_ok p"
  from next_start_bound [OF this False]
  have "fst (snd (ring_scan (\<lambda>t item st. is_rate_limited t item model (policy p) True st) clk
      (items p) (next_start p) 0 (next_start p) (state p))) < length (items p)"
    by (intro ring_scan_index)
  with pool_next_scan [OF False, of model clk l] False show ?thesis
    by (auto simp: index_ok_def split_beta Let_def)
qed (simp add: pool_next_def)

lemma pool_step_index_ok: "index_ok p \<Longrightarrow> index_ok (pool_step op p)"
proof (cases op)
  case (Next clk model)
  then show "index_ok p \<Longrightarrow> ?thesis" by (simp add: pool_next_index_ok)
qed (auto simp: index_ok_def claim_by_fingerprint_def reset_items_def reorder_keys_def pool_set_cooling_def
    pool_is_rate_limited_def rollback_rate_limit_record_def pool_close_def split_beta Let_def
    split: option.splits list.splits)

interpretation pool: invariant_machine "\<lambda>_ _. True" pool_step index_ok
  by unfold_locales (rule pool_step_index_ok)

lemma new_pool_index_ok:
  assumes "new_pool sample l ks limits alg name = Inr p" and "sample ks = [] \<longleftrightarrow> ks = []"
  shows "index_ok p"
proof -
  from assms(1) have "index p = 0" "items p = ks \<or> items p = sample ks"
    by (auto simp: new_pool_def Let_def split: sum.splits if_splits)
  with assms(2) show ?thesis by (auto simp: index_ok_def)
qed

text \<open>
  From construction on, whatever operations run and in whatever order (refreshes that replace
  the key list included), \<open>index\<close> addresses a key of the list, so \<open>next\<close> never raises
  \<open>IndexError\<close>: it answers with a key or with 429.
\<close>

theorem pool_next_total:
  assumes "new_pool sample loop ks limits alg name = Inr p0"
    and "sample ks = [] \<longleftrightarrow> ks = []" and "mono clk"
  shows "(\<exists>k \<in> set (items (fold pool_step ops p0)).
            fst (pool_next l clk model (fold pool_step ops p0)) = Inr k)
       \<or> fst (pool_next l clk model (fold pool_step ops p0)) = Inl too_many_requests"
proof -
  let ?p = "fold pool_step ops p0"
  have legal: "legal (\<lambda>_ _. True) pool_step ops p0" for p0 by (induction ops arbitrary: p0) auto
  have ok: "index_ok ?p"
    using new_pool_index_ok [OF assms(1,2)] legal by (rule pool.run_inv)
  show ?thesis
  proof (cases "items ?p = []")
    case False
    have "ring_key ?p e \<in> set (items ?p)" for e
      using False unfolding ring_key_def by (intro nth_mem mod_less_divisor) simp
    with pool_next_result [OF ok False \<open>mono clk\<close>, of model l] show ?thesis by blast
  qed (simp add: pool_next_def)
qed

lemma parse_default: "from_config (PDict [(''default'', PStr DEFAULT_RATE_LIMIT)]) = Inr [(''default'', default_rules)]"
  by (simp add: from_config_def default_rules_parse)

theorem pool_next_total_witness:
  "\<exists>p0. new_pool rev True [''a'', ''b''] PNone ''random'' None = Inr p0 \<and>
     ((\<exists>k \<in> set (items (fold pool_step [Reset [''c''], Close] p0)).
         fst (pool_next True (\<lambda>_. 5) None (fold pool_step [Reset [''c''], Close] p0)) = Inr k)
     \<or> fst (pool_next True (\<lambda>_. 5) None (fold pool_step [Reset [''c''], Close] p0))
         = Inl too_many_requests)"
proof -
  obtain p0 where p0: "new_pool rev True [''a'', ''b''] PNone ''random'' None = Inr p0"
    by (simp add: new_pool_def parse_default Let_def)
  have "mono (\<lambda>_::nat. 5::time)" by (simp add: mono_def)
  from pool_next_total [OF p0 _ this, of "[Reset [''c''], Close]" True None] p0 show ?thesis
    by auto
qed

end
