(* ===== verification/RoutingPlan.thy ===== *)
theory RoutingPlan
  imports ApiModels KeyPool
begin

text \<open>
  \<open>RoutingPlan\<close> of \<open>uni_api/routing/core.py\<close>: the providers one request may try, fixed when the plan is
  created, and the order in which \<open>next_provider\<close> consumes them. The resolver is an argument (the
  default is \<open>get_right_order_providers\<close>), as are the key pools: the interface \<open>pools\<close> says that
  asking a pool whether all its keys are limited changes no later answer, and it is interpreted on
  \<open>ProviderKeyPool.is_all_rate_limited\<close>.
\<close>

section \<open>Creating a plan\<close>

datatype plan_error =
    Resolver route_error
  | Models models_error
  | PlanKeyError string
  | PlanIndexError
  | TypeError
  | ZeroDivisionError

record RoutingPlanState =
  matching_providers :: "provider list"
  retry_count :: nat
  available_provider_names :: "string set"
  plan_index :: nat
  status_code :: int
  error_message :: "string option"

definition num_matching_providers :: "RoutingPlanState \<Rightarrow> nat" where
  "num_matching_providers st = length (matching_providers st)"

text \<open>
  The keyword arguments of the resolver. \<open>_call_provider_resolver\<close> drops those the resolver's signature
  does not have; the default resolver has them all.
\<close>

record resolver_call =
  call_request :: request
  call_api_index :: nat
  call_algorithm :: string
  call_api_list :: "string list"
  call_models_list :: "(string, string list) dict"
  call_model_rules :: "pyval list list"
  call_weights :: "(string, pyval) dict list"

type_synonym resolver = "resolver_call \<Rightarrow> route_error + provider list"

record RoutingPlan =
  plan_call :: resolver_call
  api_key_preferences :: "(string, pyval) dict list"
  api_key_roles :: "string list"
  auto_retry :: pyval
  role :: string
  start_index :: int
  plan_state :: RoutingPlanState

text \<open>
  The weights of a key are integers, booleans or floats in a configuration; \<open>_weight_items\<close> makes them
  integers with \<open>int\<close>.
\<close>

definition int_weight :: "pyval \<Rightarrow> int" where
  "int_weight v = (case v of PInt i \<Rightarrow> i | PBool b \<Rightarrow> of_bool b | PFloat r \<Rightarrow> trunc r | _ \<Rightarrow> 0)"

definition default_resolver ::
  "route_env \<Rightarrow> (nat \<Rightarrow> pyval list) \<Rightarrow> (nat \<Rightarrow> (string, int) dict) \<Rightarrow> resolver" where
  "default_resolver env configured_rules configured_weights call =
     get_right_order_providers
       (env\<lparr>api_list := call_api_list call, models_list := call_models_list call\<rparr>)
       (call_request call) (call_algorithm call)
       (rules_for_key (Some (call_model_rules call)) configured_rules (call_api_index call))
       (weights_for_key (Some (map (map (map_prod id int_weight)) (call_weights call)))
          configured_weights (call_api_index call))"

text \<open>\<open>compute_retry_count\<close>: attempts beyond the first pass; \<open>count\<close> is \<open>get_items_count\<close> of a provider's pool.\<close>

definition compute_retry_count :: "(string \<Rightarrow> nat) \<Rightarrow> provider list \<Rightarrow> nat" where
  "compute_retry_count count ps =
     (if ps = [] then 0
      else if length ps = 1 \<and> pname (hd ps) \<noteq> [] \<and> 1 < count (pname (hd ps)) then count (pname (hd ps))
      else min (2 * sum_list (map (\<lambda>p. count (pname p)) ps)) 10)"

text \<open>\<open>str(provider.get("provider") or "")\<close>\<close>

definition provider_names :: "provider list \<Rightarrow> string set" where
  "provider_names ps = pname ` set ps"

definition new_plan_state :: "(string \<Rightarrow> nat) \<Rightarrow> provider list \<Rightarrow> RoutingPlanState" where
  "new_plan_state count ps =
     \<lparr>matching_providers = ps, retry_count = compute_retry_count count ps,
      available_provider_names = provider_names ps, plan_index = 0, status_code = 500,
      error_message = None\<rparr>"

text \<open>The parts of \<open>app.state\<close> that \<open>create\<close> reads; \<open>runtime_config\<close> only when it belongs to the current configuration.\<close>

record runtime_config =
  rc_api_list :: "string list"
  rc_allowed_models :: "(string, string list) dict"
  rc_preferences :: "(string, pyval) dict list"
  rc_roles :: "string list"
  rc_model_rules :: "pyval list list"
  rc_weights :: "(string, pyval) dict list"

record app_state =
  runtime_config :: "runtime_config option"
  app_api_list :: "string list"
  app_models_list :: "(string, string list) dict"
  app_api_keys :: "(string, pyval) dict list"

definition or_else :: "'a list \<Rightarrow> 'a list \<Rightarrow> 'a list" where
  "or_else xs ys = (if xs \<noteq> [] then xs else ys)"

text \<open>\<open>dict((api_keys[index] or {}).get(name) or {})\<close> and \<open>tuple((api_keys[index] or {}).get(name) or ())\<close>\<close>

definition dict_of :: "pyval \<Rightarrow> plan_error + (string, pyval) dict" where
  "dict_of v = (if \<not> truthy v then Inr [] else (case v of PDict d \<Rightarrow> Inr d | _ \<Rightarrow> Inl TypeError))"

definition tuple_of :: "pyval \<Rightarrow> plan_error + pyval list" where
  "tuple_of v =
     (if \<not> truthy v then Inr []
      else (case v of PList vs \<Rightarrow> Inr vs | PStr s \<Rightarrow> Inr (map (\<lambda>c. PStr [c]) s)
                    | PDict d \<Rightarrow> Inr (map (PStr \<circ> fst) d) | _ \<Rightarrow> Inl TypeError))"

text \<open>One entry per key of the list: \<open>tuple(f(api_keys[index]) for index in range(len(api_list)))\<close>.\<close>

fun per_key :: "('a \<Rightarrow> plan_error + 'b) \<Rightarrow> 'a list \<Rightarrow> nat \<Rightarrow> plan_error + 'b list" where
  "per_key f xs 0 = Inr []"
| "per_key f [] (Suc n) = Inl PlanIndexError"
| "per_key f (x # xs) (Suc n) =
     (case f x of
        Inl e \<Rightarrow> Inl e
      | Inr y \<Rightarrow> (case per_key f xs n of Inl e \<Rightarrow> Inl e | Inr ys \<Rightarrow> Inr (y # ys)))"

record key_tables =
  kt_api_list :: "string list"
  kt_models_list :: "(string, string list) dict"
  kt_preferences :: "(string, pyval) dict list"
  kt_roles :: "string list"
  kt_model_rules :: "pyval list list"
  kt_weights :: "(string, pyval) dict list"

text \<open>\<open>str((api_keys[index] or {}).get("role") or api_key[:8] or "None")\<close>\<close>

definition role_text :: "(pyval \<Rightarrow> string) \<Rightarrow> (string, pyval) dict \<Rightarrow> string \<Rightarrow> string" where
  "role_text repr entry api_key =
     (let v = pget entry ''role'' PNone in
      if truthy v then py_str repr v else if take 8 api_key \<noteq> [] then take 8 api_key else ''None'')"

definition configured_tables ::
  "(pyval \<Rightarrow> string) \<Rightarrow> (string list \<Rightarrow> models_error + (string, string list) dict) \<Rightarrow> app_state
   \<Rightarrow> string list \<Rightarrow> (string, string list) dict \<Rightarrow> plan_error + key_tables" where
  "configured_tables repr build_models app keys models =
     (let entries = app_api_keys app;
          keys = or_else keys (map (\<lambda>e. py_str repr (pget e ''api'' PNone))
                                 (filter (\<lambda>e. truthy (pget e ''api'' PNone)) entries));
          n = length keys
      in case (if models = [] \<and> keys \<noteq> [] then build_models keys else Inr models) of
           Inl e \<Rightarrow> Inl (Models e)
         | Inr models \<Rightarrow>
             (case per_key (\<lambda>e. dict_of (pget e ''preferences'' PNone)) entries n of
                Inl e \<Rightarrow> Inl e
              | Inr prefs \<Rightarrow>
             (case per_key (\<lambda>(e, k). Inr (role_text repr e k)) (zip entries keys) n of
                Inl e \<Rightarrow> Inl e
              | Inr roles \<Rightarrow>
             (case per_key (\<lambda>e. tuple_of (pget e ''model'' PNone)) entries n of
                Inl e \<Rightarrow> Inl e
              | Inr rules \<Rightarrow>
             (case per_key (\<lambda>e. dict_of (pget e ''weights'' PNone)) entries n of
                Inl e \<Rightarrow> Inl e
              | Inr weights \<Rightarrow>
                  Inr \<lparr>kt_api_list = keys, kt_models_list = models, kt_preferences = prefs,
                       kt_roles = roles, kt_model_rules = rules, kt_weights = weights\<rparr>)))))"

definition key_tables ::
  "(pyval \<Rightarrow> string) \<Rightarrow> (string list \<Rightarrow> models_error + (string, string list) dict) \<Rightarrow> app_state
   \<Rightarrow> plan_error + key_tables" where
  "key_tables repr build_models app =
     (case runtime_config app of
        Some rc \<Rightarrow>
          Inr \<lparr>kt_api_list = or_else (rc_api_list rc) (app_api_list app),
               kt_models_list = or_else (rc_allowed_models rc) (app_models_list app),
               kt_preferences = rc_preferences rc, kt_roles = rc_roles rc,
               kt_model_rules = rc_model_rules rc, kt_weights = rc_weights rc\<rparr>
      | None \<Rightarrow>
          if app_api_keys app \<noteq> []
          then configured_tables repr build_models app (app_api_list app) (app_models_list app)
          else Inr \<lparr>kt_api_list = app_api_list app, kt_models_list = app_models_list app,
                    kt_preferences = [], kt_roles = [], kt_model_rules = [], kt_weights = []\<rparr>)"

text \<open>
  \<open>create\<close>. \<open>algorithm_of\<close> is \<open>safe_get(preferences, "SCHEDULING_ALGORITHM", default="fixed_priority")\<close>
  and \<open>configured_role\<close> is \<open>safe_get(config, "api_keys", api_index, "api", default="None")[:8]\<close>;
  \<open>last_provider_indices\<close> is read and written.
\<close>

definition create ::
  "((string, pyval) dict \<Rightarrow> string) \<Rightarrow> string \<Rightarrow> (string \<Rightarrow> nat) \<Rightarrow> resolver \<Rightarrow> key_tables \<Rightarrow> request \<Rightarrow> nat
   \<Rightarrow> (string, int) dict \<Rightarrow> plan_error + RoutingPlan \<times> (string, int) dict" where
  "create algorithm_of configured_role count resolver kt req api_index last_provider_indices =
     (let prefs = (if api_index < length (kt_preferences kt) then kt_preferences kt ! api_index else []);
          call = \<lparr>call_request = req, call_api_index = api_index, call_algorithm = algorithm_of prefs,
                  call_api_list = kt_api_list kt, call_models_list = kt_models_list kt,
                  call_model_rules = kt_model_rules kt, call_weights = kt_weights kt\<rparr>
      in case resolver call of
           Inl e \<Rightarrow> Inl (Resolver e)
         | Inr ps \<Rightarrow>
             (let (start, indices) = compute_start_index last_provider_indices (request_model req)
                                    (call_algorithm call) (length ps)
              in Inr (\<lparr>plan_call = call, api_key_preferences = kt_preferences kt, api_key_roles = kt_roles kt,
                       auto_retry = pget prefs ''AUTO_RETRY'' (PBool True),
                       role = (if api_index < length (kt_roles kt) then kt_roles kt ! api_index
                               else configured_role),
                       start_index = start, plan_state = new_plan_state count ps\<rparr>, indices)))"

definition api_key_preferences_for_index :: "RoutingPlan \<Rightarrow> (string, pyval) dict" where
  "api_key_preferences_for_index pl =
     (let i = call_api_index (plan_call pl) in
      if i < length (api_key_preferences pl) then api_key_preferences pl ! i else [])"

definition api_key_role_for_index :: "RoutingPlan \<Rightarrow> string" where
  "api_key_role_for_index pl =
     (let i = call_api_index (plan_call pl) in
      if i < length (api_key_roles pl) then api_key_roles pl ! i else role pl)"

section \<open>Consuming a plan\<close>

record ProviderAttempt =
  attempt_provider :: provider
  attempt_provider_name :: string
  attempt_original_model :: pyval

definition record_failure :: "int \<Rightarrow> string \<Rightarrow> RoutingPlanState \<Rightarrow> RoutingPlanState" where
  "record_failure code text st = st\<lparr>status_code := code, error_message := Some text\<rparr>"

text \<open>The provider of the slot \<open>i\<close>: \<open>matching_providers[(start_index + i) % num_matching_providers]\<close>.\<close>

definition slot :: "int \<Rightarrow> RoutingPlanState \<Rightarrow> nat \<Rightarrow> provider" where
  "slot start st i = matching_providers st ! nat ((start + int i) mod int (num_matching_providers st))"

text \<open>\<open>provider["_model_dict_cache"][request_model_name]\<close>\<close>

definition original_model :: "string \<Rightarrow> provider \<Rightarrow> plan_error + pyval" where
  "original_model model p =
     (case map_of p ''_model_dict_cache'' of
        None \<Rightarrow> Inl (PlanKeyError ''_model_dict_cache'')
      | Some (PDict d) \<Rightarrow> (case map_of d model of None \<Rightarrow> Inl (PlanKeyError model) | Some m \<Rightarrow> Inr m)
      | Some _ \<Rightarrow> Inl TypeError)"

text \<open>
  \<open>next_provider\<close>. \<open>limited name model w\<close> asks the pool of a provider (in the world \<open>w\<close> of all pools)
  whether all its keys are limited. The number of slots is fixed, so the loop ends.
\<close>

function next_provider ::
  "(string \<Rightarrow> pyval \<Rightarrow> 'w \<Rightarrow> bool \<times> 'w) \<Rightarrow> string \<Rightarrow> int \<Rightarrow> RoutingPlanState \<Rightarrow> 'w
   \<Rightarrow> (plan_error + ProviderAttempt option) \<times> RoutingPlanState \<times> 'w" where
  "next_provider limited model start st w =
     (if num_matching_providers st + retry_count st \<le> plan_index st then (Inr None, st, w)
      else if num_matching_providers st = 0 then (Inl ZeroDivisionError, st, w)
      else
        let p = slot start st (plan_index st); st = st\<lparr>plan_index := plan_index st + 1\<rparr> in
        if pname p \<notin> available_provider_names st then next_provider limited model start st w
        else
          (case original_model model p of
             Inl e \<Rightarrow> (Inl e, st, w)
           | Inr m \<Rightarrow>
               (let (refused, w) = limited (pname p) m w in
                if refused then
                  let st = record_failure 429 ''All API keys are rate limited and stop auto retry!'' st in
                  if num_matching_providers st = 1 then (Inr None, st, w)
                  else next_provider limited model start st w
                else (Inr (Some \<lparr>attempt_provider = p, attempt_provider_name = pname p,
                                 attempt_original_model = m\<rparr>), st, w))))"
  by pat_completeness auto
termination
  by (relation "measure (\<lambda>(limited, model, start, st, w).
        length (matching_providers st) + retry_count st - plan_index st)")
     (auto simp: num_matching_providers_def record_failure_def)

declare next_provider.simps [simp del]

definition restrict_to_provider :: "string \<Rightarrow> RoutingPlanState \<Rightarrow> bool \<times> RoutingPlanState" where
  "restrict_to_provider name st =
     (let ps = filter (\<lambda>p. pname p = name) (matching_providers st) in
      if ps = [] then (False, st)
      else (True, st\<lparr>matching_providers := ps, retry_count := 0, available_provider_names := {name},
                     plan_index := 0\<rparr>))"

text \<open>\<open>refresh_matching_providers\<close>: the resolver again, with the arguments of the plan.\<close>

definition refresh_matching_providers ::
  "resolver \<Rightarrow> RoutingPlan \<Rightarrow> plan_error + RoutingPlan" where
  "refresh_matching_providers resolver pl =
     (case resolver (plan_call pl) of
        Inl e \<Rightarrow> Inl (Resolver e)
      | Inr ps \<Rightarrow>
          Inr (pl\<lparr>plan_state := (plan_state pl)\<lparr>available_provider_names :=
                 provider_names (matching_providers (plan_state pl)) \<inter> provider_names ps\<rparr>\<rparr>))"

section \<open>The pools a plan asks\<close>

text \<open>A slot may be used; what a call answers when the search found a slot or none; where it leaves the index.\<close>

definition eligible ::
  "(string \<Rightarrow> pyval \<Rightarrow> 'w \<Rightarrow> bool \<times> 'w) \<Rightarrow> string \<Rightarrow> int \<Rightarrow> RoutingPlanState \<Rightarrow> 'w \<Rightarrow> nat \<Rightarrow> bool" where
  "eligible limited model start st w i \<longleftrightarrow>
     pname (slot start st i) \<in> available_provider_names st \<and>
     (case original_model model (slot start st i) of
        Inl e \<Rightarrow> False | Inr m \<Rightarrow> \<not> fst (limited (pname (slot start st i)) m w))"

definition attempt_result ::
  "string \<Rightarrow> int \<Rightarrow> RoutingPlanState \<Rightarrow> nat option \<Rightarrow> plan_error + ProviderAttempt option \<Rightarrow> bool" where
  "attempt_result model start st found r \<longleftrightarrow>
     (case found of
        None \<Rightarrow> r = Inr None
      | Some i \<Rightarrow> \<exists>m. original_model model (slot start st i) = Inr m \<and>
          r = Inr (Some \<lparr>attempt_provider = slot start st i, attempt_provider_name = pname (slot start st i),
                         attempt_original_model = m\<rparr>))"

definition slots_left :: "RoutingPlanState \<Rightarrow> nat list" where
  "slots_left st = [plan_index st..<num_matching_providers st + retry_count st]"

definition index_after :: "RoutingPlanState \<Rightarrow> nat option \<Rightarrow> nat" where
  "index_after st found =
     (case found of None \<Rightarrow> max (plan_index st) (num_matching_providers st + retry_count st) | Some i \<Rightarrow> Suc i)"

text \<open>
  What \<open>next_provider\<close> relies on: a question to one pool does not change the answer of any. Then one
  call of \<open>next_provider\<close> is the search of the ring for the first eligible slot, judged in the world
  it started from.
\<close>

locale pools =
  fixes limited :: "string \<Rightarrow> pyval \<Rightarrow> 'w \<Rightarrow> bool \<times> 'w"
  assumes question_quiet: "fst (limited n' m' (snd (limited n m w))) = fst (limited n' m' w)"
begin

lemma next_provider_first:
  assumes keys: "\<And>p. p \<in> set (matching_providers st) \<Longrightarrow> \<exists>m. original_model model p = Inr m"
    and many: "1 < num_matching_providers st"
    and same: "\<And>n m. fst (limited n m w) = fst (limited n m w0)"
    and result: "next_provider limited model start st w = (r, st', w')"
  shows "attempt_result model start st (find (eligible limited model start st w0) (slots_left st)) r \<and>
     plan_index st' = index_after st (find (eligible limited model start st w0) (slots_left st))"
  using keys many same result
proof (induction "num_matching_providers st + retry_count st - plan_index st" arbitrary: st w)
  case 0
  then show ?case
    by (auto simp: next_provider.simps [of limited model start st w] slots_left_def attempt_result_def
        index_after_def)
next
  case (Suc k)
  let ?i = "plan_index st" and ?n = "num_matching_providers st"
  let ?p = "slot start st ?i" and ?st1 = "st\<lparr>plan_index := plan_index st + 1\<rparr>"
  have i: "?i < ?n + retry_count st" using Suc.hyps(2) by simp
  have n0: "?n \<noteq> 0" using Suc.prems(2) by simp
  have "nat ((start + int ?i) mod int ?n) < ?n" using n0 by (simp add: nat_less_iff)
  then have "?p \<in> set (matching_providers st)" by (simp add: slot_def num_matching_providers_def)
  then obtain m where m: "original_model model ?p = Inr m" using Suc.prems(1) by blast
  have fields: "slot start (st\<lparr>plan_index := x\<rparr>) = slot start st"
      "slot start (record_failure c t st1) = slot start st1"
      "num_matching_providers (st\<lparr>plan_index := x\<rparr>) = ?n"
      "num_matching_providers (record_failure c t st1) = num_matching_providers st1" for x c t st1
    by (simp_all add: slot_def num_matching_providers_def record_failure_def fun_eq_iff)
  have elig: "eligible limited model start (st\<lparr>plan_index := x\<rparr>) w0 = eligible limited model start st w0"
      "eligible limited model start (record_failure c t st1) w0 = eligible limited model start st1 w0" for x c t st1
    by (simp_all add: eligible_def fields fun_eq_iff split: sum.split) (simp_all add: record_failure_def)
  have here: "eligible limited model start st w0 ?i \<longleftrightarrow>
      pname ?p \<in> available_provider_names st \<and> \<not> fst (limited (pname ?p) m w)"
    by (simp add: eligible_def m Suc.prems(3))
  have left: "slots_left st = ?i # [Suc ?i..<?n + retry_count st]"
    using i by (simp add: slots_left_def upt_conv_Cons)
  have step: "?case" if st2: "plan_index st2 = Suc ?i" "num_matching_providers st2 = ?n"
      "retry_count st2 = retry_count st" "matching_providers st2 = matching_providers st"
      "slot start st2 = slot start st" "eligible limited model start st2 w0 = eligible limited model start st w0"
      "\<And>n m. fst (limited n m w2) = fst (limited n m w0)"
      "next_provider limited model start st2 w2 = (r, st', w')" "\<not> eligible limited model start st w0 ?i" for st2 w2
  proof -
    let ?f = "find (eligible limited model start st w0) (slots_left st)"
    have f: "find (eligible limited model start st2 w0) (slots_left st2) = ?f"
      using st2(9) unfolding left by (simp add: st2(1-3,6) slots_left_def)
    have k: "k = num_matching_providers st2 + retry_count st2 - plan_index st2"
      using Suc.hyps(2) st2(1-3) by simp
    have "attempt_result model start st2 ?f r \<and> plan_index st' = index_after st2 ?f"
      using Suc.hyps(1) [OF k _ _ st2(7,8)] Suc.prems(1,2) unfolding f st2(2,4) by blast
    then show ?case
      using i by (simp add: attempt_result_def index_after_def st2(1-5) split: option.splits)
  qed
  show ?case
  proof (cases "pname ?p \<in> available_provider_names st")
    case False
    with i n0 have "next_provider limited model start st w = next_provider limited model start ?st1 w"
      by (subst next_provider.simps) (simp add: Let_def)
    with Suc.prems(4) have "next_provider limited model start ?st1 w = (r, st', w')" by simp
    then show ?thesis using False here Suc.prems(3) by (intro step [of ?st1 w]) (simp_all add: fields elig)
  next
    case True
    obtain b w1 where b: "limited (pname ?p) m w = (b, w1)" by fastforce
    show ?thesis
    proof (cases b)
      case False
      with i n0 True m b have eq: "next_provider limited model start st w =
          (Inr (Some \<lparr>attempt_provider = ?p, attempt_provider_name = pname ?p, attempt_original_model = m\<rparr>),
           ?st1, w1)"
        by (subst next_provider.simps) (simp add: Let_def)
      have "eligible limited model start st w0 ?i" using here True False b by simp
      with Suc.prems(4) eq m show ?thesis by (auto simp: left attempt_result_def index_after_def)
    next
      case refused: True
      let ?st2 = "record_failure 429 ''All API keys are rate limited and stop auto retry!'' ?st1"
      have "next_provider limited model start st w = next_provider limited model start ?st2 w1"
        using i n0 True m b refused Suc.prems(2)
        by (subst next_provider.simps) (simp add: Let_def fields)
      with Suc.prems(4) have "next_provider limited model start ?st2 w1 = (r, st', w')" by simp
      moreover have "fst (limited n' m' w1) = fst (limited n' m' w0)" for n' m'
        using question_quiet [of n' m' "pname ?p" m w] b Suc.prems(3) by simp
      moreover have "plan_index ?st2 = Suc ?i" "retry_count ?st2 = retry_count st"
          "matching_providers ?st2 = matching_providers st" by (simp_all add: record_failure_def)
      ultimately show ?thesis
        using refused here b by (intro step [of ?st2 w1]) (simp_all add: fields elig)
    qed
  qed
qed

end

text \<open>
  The interface holds of the key pools, all asked at the time \<open>t\<close>: a dry run drops expired times from
  the windows of the keys it looks at, and nothing else.
\<close>

definition ask_pool ::
  "time \<Rightarrow> string \<Rightarrow> pyval \<Rightarrow> (string \<Rightarrow> ProviderKeyPool) \<Rightarrow> bool \<times> (string \<Rightarrow> ProviderKeyPool)" where
  "ask_pool t name model w =
     (let (b, p) = is_all_rate_limited (\<lambda>_. t) (case model of PStr m \<Rightarrow> Some m | _ \<Rightarrow> None) (w name)
      in (b, w(name := p)))"

definition pruned :: "time \<Rightarrow> RateLimitState \<Rightarrow> RateLimitState \<Rightarrow> bool" where
  "pruned t st st' \<longleftrightarrow>
     cooling_until st' = cooling_until st \<and>
     (\<forall>item key p. requests st' item key p = requests st item key p \<or>
        requests st' item key p = dropWhile (\<lambda>s. s \<le> t - of_int p) (requests st item key p))"

lemma prunedD:
  "pruned t st st' \<Longrightarrow> requests st' item key p = requests st item key p \<or>
     requests st' item key p = dropWhile (\<lambda>s. s \<le> t - of_int p) (requests st item key p)"
  by (simp add: pruned_def)

lemma fst_is_rate_limited:
  "fst (is_rate_limited t item model pol commit st) \<longleftrightarrow>
     t < cooling_until st item \<or>
     windows_full (rules_for pol model)
       (prune_windows t (positive_periods (rules_for pol model)) (requests st item (model_key model)))"
  by (simp add: is_rate_limited_def Let_def)

lemma pruned_same_answer:
  assumes "pruned t st st'"
  shows "fst (is_rate_limited t item model pol commit st') = fst (is_rate_limited t item model pol commit st)"
proof -
  have "prune_windows t ps (requests st' item key) p = prune_windows t ps (requests st item key) p"
    if "p \<in> set ps" for ps key p
    using prunedD [OF assms, of item key p] that by (auto simp: prune_windows_def dropWhile_twice)
  then have "windows_full rules (prune_windows t (positive_periods rules) (requests st' item key)) =
      windows_full rules (prune_windows t (positive_periods rules) (requests st item key))" for rules key
    unfolding windows_full_def list_ex_iff by (intro bex_cong refl) (auto simp: positive_periods_def)
  with assms show ?thesis by (simp add: fst_is_rate_limited pruned_def)
qed

lemma pruned_step:
  assumes "pruned t st0 st"
  shows "pruned t st0 (snd (is_rate_limited t item model pol False st))"
proof -
  have "prune_windows t ps (requests st i k) p = requests st0 i k p \<or>
      prune_windows t ps (requests st i k) p = dropWhile (\<lambda>s. s \<le> t - of_int p) (requests st0 i k p)" for ps i k p
    using prunedD [OF assms, of i k p] by (auto simp: prune_windows_def dropWhile_twice)
  then show ?thesis
    using assms by (simp add: is_rate_limited_def Let_def pruned_def put_windows_def)
qed

lemma pruned_all:
  "pruned t st0 st \<Longrightarrow>
     pruned t st0 (snd (all_limited (\<lambda>u item s. is_rate_limited u item model pol False s) (\<lambda>_. t) k ks st))"
proof (induction ks arbitrary: st k)
  case (Cons item ks)
  then show ?case using pruned_step [OF Cons.prems] by (auto simp: split_beta Let_def)
qed simp

lemma fst_is_all_rate_limited:
  "fst (is_all_rate_limited (\<lambda>_. t) model p) \<longleftrightarrow>
     items p \<noteq> [] \<and> (\<forall>i < length (items p). fst (is_rate_limited t (items p ! i) model (policy p) False (state p)))"
  using pool_probe.all_limited_iff [of "\<lambda>_. t" model "policy p" "items p" "state p"]
  by (simp add: is_all_rate_limited_def Let_def split_beta mono_def)

lemma ask_twice:
  "fst (is_all_rate_limited (\<lambda>_. t) m' (snd (is_all_rate_limited (\<lambda>_. t) m p))) =
     fst (is_all_rate_limited (\<lambda>_. t) m' p)"
proof -
  let ?p = "snd (is_all_rate_limited (\<lambda>_. t) m p)"
  have "pruned t (state p) (state p)" by (simp add: pruned_def)
  then have "pruned t (state p) (state ?p)"
    using pruned_all [of t "state p" "state p" m "policy p" 0 "items p"]
    by (simp add: is_all_rate_limited_def Let_def split_beta)
  moreover have "items ?p = items p" "policy ?p = policy p"
    by (simp_all add: is_all_rate_limited_def Let_def split_beta)
  ultimately show ?thesis
    using pruned_same_answer by (simp add: fst_is_all_rate_limited)
qed

interpretation key_pools: pools "ask_pool t" for t
  by unfold_locales (simp add: ask_pool_def Let_def split_beta ask_twice)

section \<open>What plans do\<close>

text \<open>
  C9. One call of \<open>next_provider\<close> is a search: it answers the first slot from its index on, in the
  order of the ring, whose provider is still available and has a key that is not rate limited, as
  judged by the pools before the call; it answers None only when no slot is left that is, and it
  leaves the index behind the slot it answered.
\<close>

theorem plan_next_is_first_eligible:
  assumes "1 < num_matching_providers st"
    and "\<forall>p \<in> set (matching_providers st). \<exists>m. original_model model p = Inr m"
    and "next_provider (ask_pool t) model start st w = (r, st', w')"
  shows "attempt_result model start st (find (eligible (ask_pool t) model start st w) (slots_left st)) r \<and>
     plan_index st' = index_after st (find (eligible (ask_pool t) model start st w) (slots_left st))"
  using assms by (intro key_pools.next_provider_first) auto

definition two_providers :: "provider list" where
  "two_providers = [local_view ''sk-a'' ''m'', local_view ''sk-b'' ''m'']"

definition two_pools :: "string \<Rightarrow> ProviderKeyPool" where
  "two_pools name =
     \<lparr>provider_name = Some name, original_items = [name], schedule_algorithm = FixedPriority, items = [name],
      index = 0,
      state = (if name = ''sk-a'' then set_cooling 90 (Some name) 60 init_state else init_state),
      policy = [], reordering_task = NoTask\<rparr>"

lemma two_providers_models: "\<forall>p \<in> set two_providers. original_model ''m'' p = Inr (PStr ''m'')"
  by (simp add: two_providers_def original_model_def local_view_def)

lemma two_plan_limited:
  "fst (ask_pool 100 ''sk-a'' (PStr ''m'') two_pools)" "\<not> fst (ask_pool 100 ''sk-b'' (PStr ''m'') two_pools)"
  by (simp_all add: ask_pool_def split_beta fst_is_all_rate_limited fst_is_rate_limited two_pools_def
      set_cooling_def init_state_def rules_for_def named_model_def prune_windows_def windows_full_def
      default_rules_def)

definition two_plan :: RoutingPlanState where
  "two_plan = new_plan_state (\<lambda>_. 1) two_providers"

theorem plan_next_is_first_eligible_witness:
  "fst (next_provider (ask_pool 100) ''m'' 0 two_plan two_pools) =
     Inr (Some \<lparr>attempt_provider = local_view ''sk-b'' ''m'', attempt_provider_name = ''sk-b'',
                attempt_original_model = PStr ''m''\<rparr>)"
proof -
  obtain r st' w' where result: "next_provider (ask_pool 100) ''m'' 0 two_plan two_pools = (r, st', w')"
    by (metis prod_cases3)
  have plan: "matching_providers two_plan = two_providers" "plan_index two_plan = 0"
      "available_provider_names two_plan = {''sk-a'', ''sk-b''}" "num_matching_providers two_plan = 2"
    by (simp_all add: two_plan_def new_plan_state_def two_providers_def provider_names_def local_view_def
        pname_def num_matching_providers_def)
  have left: "slots_left two_plan = 0 # 1 # [2..<2 + retry_count two_plan]"
    using plan by (simp add: slots_left_def upt_conv_Cons numeral_2_eq_2)
  have slots: "slot 0 two_plan 0 = local_view ''sk-a'' ''m''" "slot 0 two_plan 1 = local_view ''sk-b'' ''m''"
      "slot 0 two_plan (Suc 0) = local_view ''sk-b'' ''m''"
    by (simp_all add: slot_def plan) (simp_all add: two_providers_def)
  have names: "pname (local_view n ''m'') = n" "original_model ''m'' (local_view n ''m'') = Inr (PStr ''m'')" for n
    by (simp_all add: local_view_def pname_def original_model_def)
  have "\<not> eligible (ask_pool 100) ''m'' 0 two_plan two_pools 0"
      "eligible (ask_pool 100) ''m'' 0 two_plan two_pools 1"
    using two_plan_limited by (simp_all add: eligible_def slots names plan)
  then have "find (eligible (ask_pool 100) ''m'' 0 two_plan two_pools) (slots_left two_plan) = Some 1"
    by (simp add: left)
  with plan_next_is_first_eligible [OF _ _ result] two_providers_models plan(1,4)
  have "attempt_result ''m'' 0 two_plan (Some 1) r" by auto
  then show ?thesis by (simp add: result attempt_result_def slots names)
qed

text \<open>
  What may happen to a plan during a request: a call of \<open>next_provider\<close> in the world \<open>w\<close>, a refresh
  whose resolver answered \<open>ps\<close>, a recorded failure.
\<close>

datatype 'w plan_op = AskNext 'w | Refreshed "provider list" | Failed int string

definition refresh_state :: "provider list \<Rightarrow> RoutingPlanState \<Rightarrow> RoutingPlanState" where
  "refresh_state ps st =
     st\<lparr>available_provider_names := provider_names (matching_providers st) \<inter> provider_names ps\<rparr>"

lemma refresh_matching_providers_state:
  "refresh_matching_providers resolver pl =
     (case resolver (plan_call pl) of
        Inl e \<Rightarrow> Inl (Resolver e) | Inr ps \<Rightarrow> Inr (pl\<lparr>plan_state := refresh_state ps (plan_state pl)\<rparr>))"
  by (simp add: refresh_matching_providers_def refresh_state_def split: sum.split)

fun plan_trace ::
  "(string \<Rightarrow> pyval \<Rightarrow> 'w \<Rightarrow> bool \<times> 'w) \<Rightarrow> string \<Rightarrow> int \<Rightarrow> 'w plan_op list \<Rightarrow> RoutingPlanState
   \<Rightarrow> (nat \<times> ProviderAttempt) list" where
  "plan_trace limited model start [] st = []"
| "plan_trace limited model start (AskNext w # ops) st =
     (case next_provider limited model start st w of
        (Inr (Some a), st', _) \<Rightarrow> (plan_index st' - 1, a) # plan_trace limited model start ops st'
      | (_, st', _) \<Rightarrow> plan_trace limited model start ops st')"
| "plan_trace limited model start (Refreshed ps # ops) st =
     plan_trace limited model start ops (refresh_state ps st)"
| "plan_trace limited model start (Failed c t # ops) st =
     plan_trace limited model start ops (record_failure c t st)"

definition same_ring :: "RoutingPlanState \<Rightarrow> RoutingPlanState \<Rightarrow> bool" where
  "same_ring st st' \<longleftrightarrow>
     matching_providers st' = matching_providers st \<and> retry_count st' = retry_count st"

lemma same_ring_slot: "same_ring st st' \<Longrightarrow> slot start st' = slot start st"
  by (simp add: same_ring_def slot_def num_matching_providers_def fun_eq_iff)

lemma num_frames [simp]:
  "num_matching_providers (st\<lparr>plan_index := i\<rparr>) = num_matching_providers st"
  "num_matching_providers (st\<lparr>status_code := c\<rparr>) = num_matching_providers st"
  "num_matching_providers (st\<lparr>error_message := t\<rparr>) = num_matching_providers st"
  by (simp_all add: num_matching_providers_def)

lemma next_provider_ring:
  assumes "next_provider limited model start st w = (r, st', w')"
  shows "same_ring st st' \<and> plan_index st \<le> plan_index st' \<and>
     (\<forall>a. r = Inr (Some a) \<longrightarrow> plan_index st < plan_index st' \<and>
        plan_index st' \<le> num_matching_providers st + retry_count st \<and>
        attempt_provider a = slot start st (plan_index st' - 1))"
  using assms
proof (induction limited model start st w rule: next_provider.induct)
  case (1 limited model start st w)
  let ?p = "slot start st (plan_index st)" and ?st = "st\<lparr>plan_index := Suc (plan_index st)\<rparr>"
  have ring: "same_ring st ?st" "same_ring st (record_failure c t ?st)"
      "plan_index (record_failure c t ?st) = Suc (plan_index st)" for c t
    by (simp_all add: same_ring_def record_failure_def)
  have slots: "slot start ?st = slot start st" "slot start (record_failure c t ?st) = slot start st" for c t
    by (rule same_ring_slot [OF ring(1)], rule same_ring_slot [OF ring(2)])
  have nums: "num_matching_providers ?st = num_matching_providers st"
      "num_matching_providers (record_failure c t ?st) = num_matching_providers st"
      "retry_count (record_failure c t ?st) = retry_count st" for c t
    by (simp_all add: num_matching_providers_def record_failure_def)
  consider (finished) "num_matching_providers st + retry_count st \<le> plan_index st"
    | (empty) "plan_index st < num_matching_providers st + retry_count st" "num_matching_providers st = 0"
    | (slot) "plan_index st < num_matching_providers st + retry_count st" "num_matching_providers st \<noteq> 0"
    by linarith
  then show ?case
  proof cases
    case finished
    with "1.prems" show ?thesis by (auto simp: next_provider.simps [of limited model start st w] same_ring_def)
  next
    case empty
    with "1.prems" show ?thesis
      by (auto simp: next_provider.simps [of limited model start st w] same_ring_def)
  next
    case slot
    have more: "?thesis" if "next_provider limited model start st2 w2 = (r, st', w')"
        and IH: "same_ring st2 st' \<and> plan_index st2 \<le> plan_index st' \<and>
     (\<forall>a. r = Inr (Some a) \<longrightarrow> plan_index st2 < plan_index st' \<and>
        plan_index st' \<le> num_matching_providers st2 + retry_count st2 \<and>
        attempt_provider a = slot start st2 (plan_index st' - 1))"
        and "same_ring st st2" "plan_index st2 = Suc (plan_index st)" "slot start st2 = slot start st"
          "num_matching_providers st2 = num_matching_providers st" "retry_count st2 = retry_count st" for st2 w2
      using that by (auto simp: same_ring_def)
    show ?thesis
    proof (cases "pname ?p \<in> available_provider_names st")
      case False
      with slot have eq: "next_provider limited model start st w = next_provider limited model start ?st w"
        by (subst next_provider.simps) (simp add: Let_def)
      have "\<not> num_matching_providers st + retry_count st \<le> plan_index st" using slot by simp
      from "1.IH"(1) [OF this slot(2) refl refl] False "1.prems" eq
      show ?thesis by (intro more [of ?st w]) (simp_all add: ring slots nums)
    next
      case True
      show ?thesis
      proof (cases "original_model model ?p")
        case (Inl e)
        with slot True "1.prems" show ?thesis
          by (auto simp: next_provider.simps [of limited model start st w] Let_def same_ring_def)
      next
        case (Inr m)
        obtain b w1 where b: "limited (pname ?p) m w = (b, w1)" by fastforce
        show ?thesis
        proof (cases "b \<and> num_matching_providers st \<noteq> 1")
          case False
          with slot True Inr b "1.prems" show ?thesis
            by (auto simp: next_provider.simps [of limited model start st w] Let_def same_ring_def nums
                record_failure_def split: if_splits)
        next
          case retry: True
          let ?st2 = "record_failure 429 ''All API keys are rate limited and stop auto retry!'' ?st"
          have eq: "next_provider limited model start st w = next_provider limited model start ?st2 w1"
            using slot True Inr b retry by (subst next_provider.simps) (simp add: Let_def nums)
          have "\<not> num_matching_providers st + retry_count st \<le> plan_index st" using slot by simp
          from "1.IH"(2) [OF this slot(2) refl refl _ Inr b [symmetric] refl _ refl] True retry "1.prems" eq
          show ?thesis by (intro more [of ?st2 w1]) (simp_all add: ring slots nums)
        qed
      qed
    qed
  qed
qed

lemma same_ring_num: "same_ring st st' \<Longrightarrow> num_matching_providers st' = num_matching_providers st"
  by (simp add: same_ring_def num_matching_providers_def)

definition slots_ok :: "int \<Rightarrow> RoutingPlanState \<Rightarrow> (nat \<times> ProviderAttempt) list \<Rightarrow> bool" where
  "slots_ok start st tr \<longleftrightarrow>
     sorted_wrt (<) (map fst tr) \<and>
     (\<forall>(i, a) \<in> set tr. plan_index st \<le> i \<and> i < num_matching_providers st + retry_count st \<and>
        attempt_provider a = slot start st i)"

lemma slots_ok_later:
  assumes "slots_ok start st' tr" "same_ring st st'" "plan_index st \<le> plan_index st'"
  shows "slots_ok start st tr"
proof -
  have "retry_count st' = retry_count st" using assms(2) by (simp add: same_ring_def)
  with assms(1) have "sorted_wrt (<) (map fst tr)"
    and "\<forall>(i, a) \<in> set tr. plan_index st' \<le> i \<and> i < num_matching_providers st + retry_count st \<and>
      attempt_provider a = slot start st i"
    unfolding slots_ok_def same_ring_slot [OF assms(2)] same_ring_num [OF assms(2)] by simp_all
  with assms(3) show ?thesis unfolding slots_ok_def by (auto dest: le_trans)
qed

lemma slots_ok_Cons:
  assumes "slots_ok start st' tr" "same_ring st st'" "plan_index st \<le> i" "Suc i = plan_index st'"
    "i < num_matching_providers st + retry_count st" "attempt_provider a = slot start st i"
  shows "slots_ok start st ((i, a) # tr)"
proof -
  have "slots_ok start st tr" using assms(3,4) by (intro slots_ok_later [OF assms(1,2)]) simp
  moreover have "\<forall>(j, b) \<in> set tr. i < j" using assms(1,4) by (auto simp: slots_ok_def)
  ultimately show ?thesis using assms(3,5,6) by (auto simp: slots_ok_def)
qed

lemma plan_trace_slots: "slots_ok start st (plan_trace limited model start ops st)"
proof (induction ops arbitrary: st)
  case Nil
  then show ?case by (simp add: slots_ok_def)
next
  case (Cons op ops)
  show ?case
  proof (cases op)
    case (AskNext w)
    obtain r st' w' where nxt: "next_provider limited model start st w = (r, st', w')"
      by (metis prod_cases3)
    note ring = next_provider_ring [OF nxt]
    show ?thesis
    proof (cases "\<exists>a. r = Inr (Some a)")
      case True
      then obtain a where a: "r = Inr (Some a)" ..
      with ring have "slots_ok start st ((plan_index st' - 1, a) # plan_trace limited model start ops st')"
        by (intro slots_ok_Cons [OF Cons.IH [of st']]) auto
      then show ?thesis by (simp add: AskNext nxt a)
    next
      case False
      then have "plan_trace limited model start (op # ops) st = plan_trace limited model start ops st'"
        by (auto simp: AskNext nxt split: sum.split option.split)
      with ring show ?thesis by (auto intro: slots_ok_later [OF Cons.IH [of st']])
    qed
  next
    case (Refreshed ps)
    have "same_ring st (refresh_state ps st)" "plan_index (refresh_state ps st) = plan_index st"
      by (simp_all add: refresh_state_def same_ring_def)
    then show ?thesis using slots_ok_later [OF Cons.IH] by (simp add: Refreshed)
  next
    case (Failed c t)
    have "same_ring st (record_failure c t st)" "plan_index (record_failure c t st) = plan_index st"
      by (simp_all add: record_failure_def same_ring_def)
    then show ?thesis using slots_ok_later [OF Cons.IH] by (simp add: Failed)
  qed
qed

lemma increasing_below: "sorted_wrt (<) xs \<Longrightarrow> \<forall>x \<in> set xs. x < n \<Longrightarrow> length xs \<le> n" for xs :: "nat list"
  using strict_sorted_imp_sorted [of xs] card_mono [of "{..<n}" "set xs"] strict_sorted_iff [of xs]
  by (auto simp: distinct_card)

lemma retry_bound_many: "1 < length ps \<Longrightarrow> compute_retry_count count ps \<le> 10"
  by (auto simp: compute_retry_count_def)

text \<open>
  C23. Whatever happens to the pools and to the channels while a request is in flight, a plan consumes
  the slots of the ring it was created with in order and each at most once: the attempts are at
  strictly increasing slots, the attempt at slot \<open>i\<close> uses the resolver's provider \<open>(start + i) mod n\<close>,
  and there are at most \<open>n\<close> plus the retry count of them (at most \<open>n + 10\<close> for several providers).
\<close>

theorem plan_ring_consumed_once:
  assumes "create algorithm_of configured_role count resolver kt req api_index indices = Inr (pl, indices')"
  shows "\<exists>ps. resolver (plan_call pl) = Inr ps \<and>
     (let tr = plan_trace limited (request_model req) (start_index pl) ops (plan_state pl) in
        sorted_wrt (<) (map fst tr) \<and>
        (\<forall>(i, a) \<in> set tr.
           attempt_provider a = ps ! nat ((start_index pl + int i) mod int (length ps))) \<and>
        length tr \<le> length ps + compute_retry_count count ps \<and>
        (1 < length ps \<longrightarrow> length tr \<le> length ps + 10))"
proof -
  from assms obtain ps where ps: "resolver (plan_call pl) = Inr ps" "plan_state pl = new_plan_state count ps"
    by (auto simp: create_def Let_def split_beta split: sum.splits)
  let ?st = "plan_state pl"
  define tr where "tr = plan_trace limited (request_model req) (start_index pl) ops ?st"
  have st: "num_matching_providers ?st = length ps" "retry_count ?st = compute_retry_count count ps"
      "slot (start_index pl) ?st i = ps ! nat ((start_index pl + int i) mod int (length ps))" for i
    by (simp_all add: ps(2) new_plan_state_def num_matching_providers_def slot_def)
  have ok: "slots_ok (start_index pl) ?st tr" unfolding tr_def by (rule plan_trace_slots)
  then have sorted: "sorted_wrt (<) (map fst tr)"
    and slots: "\<forall>(i, a) \<in> set tr. i < length ps + compute_retry_count count ps \<and>
      attempt_provider a = ps ! nat ((start_index pl + int i) mod int (length ps))"
    by (auto simp: slots_ok_def st)
  have "length (map fst tr) \<le> length ps + compute_retry_count count ps"
    using sorted slots by (intro increasing_below) auto
  with ps(1) sorted slots retry_bound_many [of ps count] show ?thesis
    unfolding tr_def [symmetric] Let_def by (intro exI [of _ ps]) auto
qed

theorem plan_ring_consumed_once_witness:
  "\<exists>pl last'. create (\<lambda>_. ''round_robin'') [] (\<lambda>_. 1) (\<lambda>_. Inr two_providers)
       \<lparr>kt_api_list = [], kt_models_list = [], kt_preferences = [], kt_roles = [], kt_model_rules = [],
        kt_weights = []\<rparr>
       \<lparr>request_model = ''m'', endpoint = None, request_total_tokens = 0, request_body_bytes = 0\<rparr> 0 []
       = Inr (pl, last') \<and>
     length (plan_trace (\<lambda>n m w. (w, w)) ''m'' (start_index pl) (map AskNext [False, True, False, False])
       (plan_state pl)) \<le> 6"
proof -
  obtain pl last' where pl: "create (\<lambda>_. ''round_robin'') [] (\<lambda>_. 1) (\<lambda>_. Inr two_providers)
       \<lparr>kt_api_list = [], kt_models_list = [], kt_preferences = [], kt_roles = [], kt_model_rules = [],
        kt_weights = []\<rparr>
       \<lparr>request_model = ''m'', endpoint = None, request_total_tokens = 0, request_body_bytes = 0\<rparr> 0 []
       = Inr (pl, last')" by (auto simp: create_def Let_def split_beta)
  from plan_ring_consumed_once [OF pl, of "\<lambda>n m w. (w, w)" "map AskNext [False, True, False, False]"]
  show ?thesis
    using pl by (auto simp: two_providers_def compute_retry_count_def Let_def)
qed

end
