(* ===== verification/CircuitBreaker.thy ===== *)
theory CircuitBreaker
  imports Py_Prelude
begin

text \<open>
  \<open>uni_api/routing/health.py\<close>: \<open>ProviderModelCircuitBreaker\<close>, which takes a provider-model route out
  of rotation for \<open>open_seconds\<close> after \<open>failure_threshold\<close> deterministic failures (403, 404) within
  \<open>failure_window_seconds\<close>. Every method holds the lock for its whole body, so each is one function
  on the state; the clock reading it takes is an argument. The SHA-256 fingerprint of \<open>snapshot\<close> is
  an argument too.
\<close>

section \<open>State\<close>

record RouteState =
  failures :: "(time \<times> int) list"
  open_until :: time
  route_opened_total :: nat
  last_status_code :: "int option"

type_synonym route = "string \<times> string"

record ProviderModelCircuitBreaker =
  failure_threshold :: int
  failure_window_seconds :: time
  open_seconds :: time
  states :: "(route, RouteState) dict"
  failure_total :: "(int, int) dict"
  opened_total :: nat
  success_reset_total :: nat

datatype circuit_error = ValueError string

definition new_route :: RouteState where
  "new_route = \<lparr>failures = [], open_until = 0, route_opened_total = 0, last_status_code = None\<rparr>"

definition new_breaker :: "int \<Rightarrow> time \<Rightarrow> time \<Rightarrow> circuit_error + ProviderModelCircuitBreaker" where
  "new_breaker threshold window opens =
     (if threshold \<le> 0 then Inl (ValueError ''failure_threshold must be positive'')
      else if window \<le> 0 \<or> opens \<le> 0 then Inl (ValueError ''circuit durations must be positive'')
      else Inr \<lparr>failure_threshold = threshold, failure_window_seconds = window, open_seconds = opens,
                states = [], failure_total = [], opened_total = 0, success_reset_total = 0\<rparr>)"

text \<open>\<open>from_environment\<close>, on the three numbers read from the environment.\<close>

definition breaker_from_environment ::
  "int \<Rightarrow> time \<Rightarrow> time \<Rightarrow> circuit_error + ProviderModelCircuitBreaker" where
  "breaker_from_environment threshold window opens =
     new_breaker (max 1 threshold) (max 1 window) (max 1 opens)"

definition route_key :: "string \<Rightarrow> string \<Rightarrow> route" where
  "route_key provider model = (strip provider, strip model)"

definition valid_key :: "route \<Rightarrow> bool" where
  "valid_key key \<longleftrightarrow> fst key \<noteq> [] \<and> snd key \<noteq> []"

section \<open>Operations\<close>

definition prune_route :: "time \<Rightarrow> time \<Rightarrow> RouteState \<Rightarrow> RouteState" where
  "prune_route window now st =
     (let st1 = st\<lparr>failures := dropWhile (\<lambda>(t, _). t < now - window) (failures st)\<rparr> in
      if open_until st1 \<noteq> 0 \<and> open_until st1 \<le> now
      then st1\<lparr>open_until := 0, failures := []\<rparr> else st1)"

definition record_failure ::
  "time \<Rightarrow> string \<Rightarrow> string \<Rightarrow> int \<Rightarrow> ProviderModelCircuitBreaker
   \<Rightarrow> bool \<times> ProviderModelCircuitBreaker" where
  "record_failure now provider model status_code b =
     (if status_code \<noteq> 403 \<and> status_code \<noteq> 404 then (False, b)
      else
        let key = route_key provider model in
        if \<not> valid_key key then (False, b)
        else
          let st0 = (case map_of (states b) key of Some st \<Rightarrow> st | None \<Rightarrow> new_route);
              st1 = prune_route (failure_window_seconds b) now st0;
              st2 = st1\<lparr>last_status_code := Some status_code,
                        failures := failures st1 @ [(now, status_code)]\<rparr>;
              b2 = b\<lparr>failure_total :=
                       AList.update status_code (dget 0 (failure_total b) status_code + 1) (failure_total b),
                     states := AList.update key st2 (states b)\<rparr>
          in if now < open_until st2 then (False, b2)
             else if int (length (failures st2)) < failure_threshold b then (False, b2)
             else
               let st3 = st2\<lparr>open_until := now + open_seconds b,
                             route_opened_total := route_opened_total st2 + 1\<rparr>
               in (True, b2\<lparr>states := AList.update key st3 (states b2),
                            opened_total := opened_total b2 + 1\<rparr>))"

definition record_success ::
  "string \<Rightarrow> string \<Rightarrow> ProviderModelCircuitBreaker \<Rightarrow> bool \<times> ProviderModelCircuitBreaker" where
  "record_success provider model b =
     (let key = route_key provider model in
      if \<not> valid_key key then (False, b)
      else (case map_of (states b) key of
              None \<Rightarrow> (False, b)
            | Some _ \<Rightarrow> (True, b\<lparr>states := AList.delete key (states b),
                               success_reset_total := success_reset_total b + 1\<rparr>)))"

definition idle :: "RouteState \<Rightarrow> bool" where
  "idle st \<longleftrightarrow> failures st = [] \<and> open_until st = 0"

definition is_open ::
  "time \<Rightarrow> string \<Rightarrow> string \<Rightarrow> ProviderModelCircuitBreaker \<Rightarrow> bool \<times> ProviderModelCircuitBreaker" where
  "is_open now provider model b =
     (let key = route_key provider model in
      if \<not> valid_key key then (False, b)
      else (case map_of (states b) key of
              None \<Rightarrow> (False, b)
            | Some st \<Rightarrow>
                (let st' = prune_route (failure_window_seconds b) now st in
                 if idle st' then (False, b\<lparr>states := AList.delete key (states b)\<rparr>)
                 else (now < open_until st', b\<lparr>states := AList.update key st' (states b)\<rparr>))))"

record open_route =
  route_fingerprint :: string
  remaining_open_ms :: int
  open_last_status_code :: "int option"
  failures_in_window :: nat
  open_opened_total :: nat

text \<open>\<open>snapshot\<close> prunes every route, forgets the idle ones and lists the open ones.\<close>

fun snapshot_routes ::
  "(route \<Rightarrow> string) \<Rightarrow> time \<Rightarrow> time \<Rightarrow> (route, RouteState) dict
   \<Rightarrow> (route, RouteState) dict \<times> open_route list" where
  "snapshot_routes fp window now [] = ([], [])"
| "snapshot_routes fp window now ((key, st) # rest) =
     (let st' = prune_route window now st; (rest', routes) = snapshot_routes fp window now rest in
      if idle st' then (rest', routes)
      else ((key, st') # rest',
            if now < open_until st'
            then \<lparr>route_fingerprint = fp key,
                  remaining_open_ms = max 0 (trunc ((open_until st' - now) * 1000)),
                  open_last_status_code = last_status_code st',
                  failures_in_window = length (failures st'),
                  open_opened_total = route_opened_total st'\<rparr> # routes
            else routes))"

definition snapshot ::
  "(route \<Rightarrow> string) \<Rightarrow> time \<Rightarrow> ProviderModelCircuitBreaker
   \<Rightarrow> (open_route list \<times> nat) \<times> ProviderModelCircuitBreaker" where
  "snapshot fp now b =
     (let (sts, routes) = snapshot_routes fp (failure_window_seconds b) now (states b) in
      ((take 64 routes, length routes), b\<lparr>states := sts\<rparr>))"

section \<open>What the route does\<close>

text \<open>The failures of a route that still count at a time.\<close>

definition counted :: "time \<Rightarrow> time \<Rightarrow> (time \<times> int) list \<Rightarrow> (time \<times> int) list" where
  "counted window now fs = filter (\<lambda>(t, _). now - window \<le> t) fs"

lemma prune_route_failures:
  assumes "sorted (map fst (failures st))" "open_until st = 0 \<or> now < open_until st"
  shows "prune_route window now st = st\<lparr>failures := counted window now (failures st)\<rparr>"
proof -
  have "sorted (map fst fs) \<Longrightarrow> dropWhile (\<lambda>(t, _). t < now - window) fs = counted window now fs" for fs
    by (induction fs) (auto simp: counted_def not_less intro!: filter_True [symmetric])
  with assms show ?thesis by (auto simp: prune_route_def Let_def)
qed

lemma prune_route_expired:
  "open_until st \<noteq> 0 \<Longrightarrow> open_until st \<le> now \<Longrightarrow>
   prune_route window now st = st\<lparr>failures := [], open_until := 0\<rparr>"
  by (simp add: prune_route_def Let_def)

lemma prune_route_open_until [simp]:
  "now < open_until st \<Longrightarrow> open_until (prune_route window now st) = open_until st"
  by (simp add: prune_route_def Let_def)

text \<open>The state a route is in: a route never seen, or forgotten, is as new.\<close>

definition route_state :: "ProviderModelCircuitBreaker \<Rightarrow> route \<Rightarrow> RouteState" where
  "route_state b key = (case map_of (states b) key of Some st \<Rightarrow> st | None \<Rightarrow> new_route)"

text \<open>
  C25. On a closed route, the deterministic failure that brings the number of failures inside the
  window (this one included) to the threshold opens the route, and no earlier one does; the route
  is then open until \<open>now + open_seconds\<close>.
\<close>

theorem record_failure_opens_at_threshold:
  assumes "valid_key (route_key provider model)" and "status_code = 403 \<or> status_code = 404"
    and "sorted (map fst (failures (route_state b (route_key provider model))))"
    and "open_until (route_state b (route_key provider model)) = 0" and "0 \<le> now"
  defines "n \<equiv> int (length (counted (failure_window_seconds b) now
                   (failures (route_state b (route_key provider model))))) + 1"
    and "res \<equiv> record_failure now provider model status_code b"
  shows "(fst res \<longleftrightarrow> failure_threshold b \<le> n) \<and>
         open_until (route_state (snd res) (route_key provider model)) =
           (if fst res then now + open_seconds b else 0)"
  using assms(1-5)
    prune_route_failures [of "route_state b (route_key provider model)" now "failure_window_seconds b"]
  unfolding n_def res_def
  by (auto simp: record_failure_def route_state_def Let_def update_conv' split: if_splits option.splits)

theorem record_failure_opens_at_threshold_witness:
  "fst (record_failure 30 ''p'' ''m'' 404
     \<lparr>failure_threshold = 2, failure_window_seconds = 120, open_seconds = 300,
      states = [((''p'', ''m''), \<lparr>failures = [(20, 403)], open_until = 0, route_opened_total = 0,
                                 last_status_code = Some 403\<rparr>)],
      failure_total = [(403, 1)], opened_total = 0, success_reset_total = 0\<rparr>)"
  by (subst record_failure_opens_at_threshold [THEN conjunct1])
     (simp_all add: route_key_def valid_key_def route_state_def counted_def py_defs)

section \<open>An open route stays open\<close>

datatype circuit_op =
    Failure time string string int
  | Success string string
  | Query time string string
  | Snapshot "route \<Rightarrow> string" time

fun circuit_step :: "circuit_op \<Rightarrow> ProviderModelCircuitBreaker \<Rightarrow> ProviderModelCircuitBreaker" where
  "circuit_step (Failure now p m code) b = snd (record_failure now p m code b)"
| "circuit_step (Success p m) b = snd (record_success p m b)"
| "circuit_step (Query now p m) b = snd (is_open now p m b)"
| "circuit_step (Snapshot fp now) b = snd (snapshot fp now b)"

text \<open>Operations before the time \<open>T\<close> that report no success of the route.\<close>

fun before :: "time \<Rightarrow> route \<Rightarrow> circuit_op \<Rightarrow> bool" where
  "before T key (Failure now _ _ _) \<longleftrightarrow> now < T"
| "before T key (Success p m) \<longleftrightarrow> route_key p m \<noteq> key"
| "before T key (Query now _ _) \<longleftrightarrow> now < T"
| "before T key (Snapshot _ now) \<longleftrightarrow> now < T"

definition open_for :: "time \<Rightarrow> route \<Rightarrow> ProviderModelCircuitBreaker \<Rightarrow> bool" where
  "open_for T key b \<longleftrightarrow> distinct_keys (states b) \<and> map_option open_until (map_of (states b) key) = Some T"

lemma snapshot_routes_map_of:
  "distinct_keys sts \<Longrightarrow>
   map_of (fst (snapshot_routes fp window now sts)) key =
     (case map_of sts key of None \<Rightarrow> None
      | Some st \<Rightarrow> (let st' = prune_route window now st in if idle st' then None else Some st')) \<and>
   fst ` set (fst (snapshot_routes fp window now sts)) \<subseteq> fst ` set sts \<and>
   distinct_keys (fst (snapshot_routes fp window now sts))"
proof (induction sts)
  case (Cons x sts)
  then have "map_of sts (fst x) = None" by (cases x) (auto simp: distinct_keys_def map_of_eq_None_iff)
  with Cons show ?case
    by (cases x) (auto simp: distinct_keys_def split_beta Let_def image_iff split: option.splits)
qed simp

lemma open_not_idle: "now < open_until st \<Longrightarrow> 0 < open_until st \<Longrightarrow> \<not> idle (prune_route w now st)"
  by (simp add: idle_def)

lemma circuit_step_open:
  assumes "open_for T key b" "before T key op" "0 < T"
  shows "open_for T key (circuit_step op b)"
proof -
  from assms(1) obtain st where st: "map_of (states b) key = Some st" "open_until st = T"
    by (auto simp: open_for_def)
  show ?thesis
  proof (cases op)
    case (Snapshot fp now)
    with assms st show ?thesis
      using snapshot_routes_map_of [of "states b" fp "failure_window_seconds b" now key]
      by (auto simp: open_for_def snapshot_def split_beta Let_def open_not_idle)
  qed (use assms st in \<open>auto simp: open_for_def record_failure_def record_success_def is_open_def
      Let_def update_conv' delete_conv' open_not_idle split: option.splits\<close>)
qed

interpretation circuit: invariant_machine "\<lambda>op b. before T key op \<and> 0 < T" circuit_step "open_for T key"
  for T key
  by unfold_locales (auto intro: circuit_step_open)

lemma is_open_open_for:
  assumes "open_for T (route_key provider model) b" "valid_key (route_key provider model)" "now < T" "0 < T"
  shows "fst (is_open now provider model b)"
  using assms by (auto simp: open_for_def is_open_def Let_def open_not_idle)

lemma legal_before:
  "list_all (before T key) ops \<Longrightarrow> 0 < T \<Longrightarrow> legal (\<lambda>op b. before T key op \<and> 0 < T) circuit_step ops b"
  by (induction ops arbitrary: b) auto

text \<open>
  C26. Once a failure has opened a route at time \<open>t\<close>, the route answers open to every query before
  \<open>t + open_seconds\<close>: no sequence of further failures (of this or of other routes), queries,
  snapshots, or successes of other routes closes it early.
\<close>

theorem opened_route_stays_open:
  assumes "fst (record_failure t provider model code b)" and "distinct_keys (states b)"
    and "0 \<le> t" and "0 < open_seconds b"
    and "list_all (before (t + open_seconds b) (route_key provider model)) ops"
    and "now < t + open_seconds b"
  shows "fst (is_open now provider model
           (fold circuit_step ops (snd (record_failure t provider model code b))))"
proof -
  let ?T = "t + open_seconds b" and ?key = "route_key provider model"
  have "open_for ?T ?key (snd (record_failure t provider model code b))" "valid_key ?key"
    using assms(1,2) by (auto simp: open_for_def record_failure_def Let_def update_conv' split: if_splits)
  moreover have "0 < ?T" using assms(3,4) by simp
  ultimately show ?thesis
    using circuit.run_inv legal_before [OF assms(5)] is_open_open_for assms(6) by blast
qed

theorem opened_route_stays_open_witness:
  "fst (is_open 250 ''p'' ''m'' (fold circuit_step [Failure 10 ''p'' ''m'' 404, Success ''q'' ''m'', Query 200 ''p'' ''m'']
     (snd (record_failure 5 ''p'' ''m'' 403
        \<lparr>failure_threshold = 1, failure_window_seconds = 120, open_seconds = 300, states = [],
         failure_total = [], opened_total = 0, success_reset_total = 0\<rparr>))))"
  by (rule opened_route_stays_open)
     (simp_all add: record_failure_def route_key_def valid_key_def new_route_def prune_route_def
        distinct_keys_def py_defs)

text \<open>
  The circuit closes by itself: a query at or after the end of the open period finds the route
  closed and forgets it, whatever failures were recorded while it was open.
\<close>

theorem open_route_expires:
  assumes "open_for T (route_key provider model) b" and "T \<noteq> 0" and "T \<le> now"
  shows "\<not> fst (is_open now provider model b) \<and>
         (valid_key (route_key provider model) \<longrightarrow>
            map_of (states (snd (is_open now provider model b))) (route_key provider model) = None)"
  using assms
  by (auto simp: open_for_def is_open_def Let_def prune_route_expired idle_def delete_conv')

theorem open_route_expires_witness:
  "\<not> fst (is_open 310 ''p'' ''m''
     \<lparr>failure_threshold = 1, failure_window_seconds = 120, open_seconds = 300,
      states = [((''p'', ''m''), \<lparr>failures = [(5, 403), (40, 404)], open_until = 305, route_opened_total = 1,
                                 last_status_code = Some 404\<rparr>)],
      failure_total = [(403, 1)], opened_total = 1, success_reset_total = 0\<rparr>)"
  by (rule open_route_expires [where T = 305, THEN conjunct1])
     (simp_all add: open_for_def route_key_def distinct_keys_def py_defs)

end
