(* ===== verification/AdmissionLease.thy ===== *)
theory AdmissionLease
  imports Py_Prelude
begin

text \<open>
  \<open>AdmissionLease\<close> of \<open>uni_api/admission/core.py\<close>: the ownership of one slot of a gate. The class
  takes any gate that has \<open>_release_slot\<close>; that interface is the locale \<open>slot_gate\<close>, with
  \<open>try_acquire\<close> for the other end. \<open>release\<close> may be called any number of times (a handler's
  \<open>finally\<close>, a disconnect, a shutdown) and by any number of tasks: all of them await the one release
  task, so the model is the effect of that task, once.
\<close>

record AdmissionLease =
  wait_ms :: time
  released :: bool

definition new_lease :: "time \<Rightarrow> AdmissionLease" where
  "new_lease ms = \<lparr>wait_ms = max 0 ms, released = False\<rparr>"

definition lease_release ::
  "('g \<Rightarrow> 'e + 'g) \<Rightarrow> AdmissionLease \<Rightarrow> 'g \<Rightarrow> 'e + AdmissionLease \<times> 'g" where
  "lease_release release_slot l g =
     (if released l then Inr (l, g)
      else (case release_slot g of
              Inl e \<Rightarrow> Inl e
            | Inr g' \<Rightarrow> Inr (l\<lparr>released := True\<rparr>, g')))"

text \<open>
  Requests take leases without waiting (\<open>Grab\<close>) and release them, in any order and more than once
  (\<open>Drop i\<close> releases the \<open>i\<close>-th lease).
\<close>

datatype lease_op = Grab time | Drop nat

fun lease_step ::
  "('g \<Rightarrow> bool \<times> 'g) \<Rightarrow> ('g \<Rightarrow> 'e + 'g) \<Rightarrow> lease_op \<Rightarrow> AdmissionLease list \<times> 'g
   \<Rightarrow> 'e + AdmissionLease list \<times> 'g" where
  "lease_step try_acquire release_slot (Grab ms) (ls, g) =
     (case try_acquire g of
        (True, g') \<Rightarrow> Inr (ls @ [new_lease ms], g')
      | (False, g') \<Rightarrow> Inr (ls, g'))"
| "lease_step try_acquire release_slot (Drop i) (ls, g) =
     (if i < length ls then
        (case lease_release release_slot (ls ! i) g of
           Inl e \<Rightarrow> Inl e
         | Inr (l, g') \<Rightarrow> Inr (ls[i := l], g'))
      else Inr (ls, g))"

fun lease_run ::
  "('g \<Rightarrow> bool \<times> 'g) \<Rightarrow> ('g \<Rightarrow> 'e + 'g) \<Rightarrow> lease_op list \<Rightarrow> AdmissionLease list \<times> 'g
   \<Rightarrow> 'e + AdmissionLease list \<times> 'g" where
  "lease_run try_acquire release_slot [] s = Inr s"
| "lease_run try_acquire release_slot (op # ops) s =
     (case lease_step try_acquire release_slot op s of
        Inl e \<Rightarrow> Inl e
      | Inr s' \<Rightarrow> lease_run try_acquire release_slot ops s')"

definition held :: "AdmissionLease list \<Rightarrow> int" where
  "held ls = int (length (filter (\<lambda>l. \<not> released l) ls))"

lemma held_append [simp]: "held (ls @ [new_lease ms]) = held ls + 1"
  by (simp add: held_def new_lease_def)

lemma held_update:
  "i < length ls \<Longrightarrow> \<not> released (ls ! i) \<Longrightarrow> held (ls[i := (ls ! i)\<lparr>released := True\<rparr>]) = held ls - 1"
proof (induction ls arbitrary: i)
  case (Cons l ls)
  then show ?case by (cases i) (auto simp: held_def)
qed simp

lemma held_pos: "i < length ls \<Longrightarrow> \<not> released (ls ! i) \<Longrightarrow> 0 < held ls"
  by (auto simp: held_def filter_empty_conv intro!: bexI [of _ "ls ! i"])

locale slot_gate =
  fixes slots :: "'g \<Rightarrow> int"
    and try_acquire :: "'g \<Rightarrow> bool \<times> 'g"
    and release_slot :: "'g \<Rightarrow> 'e + 'g"
    and gate_ok :: "'g \<Rightarrow> bool"
  assumes try_acquire_law:
      "gate_ok g \<Longrightarrow> try_acquire g = (b, g') \<Longrightarrow> gate_ok g' \<and> slots g' = slots g + (if b then 1 else 0)"
    and release_slot_law:
      "gate_ok g \<Longrightarrow> 0 < slots g \<Longrightarrow> \<exists>g'. release_slot g = Inr g' \<and> gate_ok g' \<and> slots g' = slots g - 1"
begin

lemma lease_step_account:
  assumes "gate_ok g" "slots g = held ls"
  shows "\<exists>ls' g'. lease_step try_acquire release_slot op (ls, g) = Inr (ls', g') \<and>
    gate_ok g' \<and> slots g' = held ls' \<and> length ls \<le> length ls'"
proof (cases op)
  case (Grab ms)
  obtain b g' where "try_acquire g = (b, g')" by fastforce
  with Grab try_acquire_law [OF assms(1) this] assms(2) show ?thesis by (cases b) auto
next
  case (Drop i)
  show ?thesis
  proof (cases "i < length ls \<and> \<not> released (ls ! i)")
    case True
    with assms(2) held_pos have "0 < slots g" by auto
    from release_slot_law [OF assms(1) this] True Drop assms(2) show ?thesis
      by (auto simp: lease_release_def held_update)
  next
    case False
    with Drop assms show ?thesis by (auto simp: lease_release_def)
  qed
qed

text \<open>No sequence of grabs and (repeated) releases underflows, and the slots are the held leases.\<close>

lemma lease_run_account:
  assumes "gate_ok g" "slots g = held ls"
  shows "\<exists>ls' g'. lease_run try_acquire release_slot ops (ls, g) = Inr (ls', g') \<and>
    gate_ok g' \<and> slots g' = held ls'"
  using assms
proof (induction ops arbitrary: ls g)
  case (Cons op ops)
  from lease_step_account [OF Cons.prems, of op] obtain ls' g' where
    "lease_step try_acquire release_slot op (ls, g) = Inr (ls', g')" "gate_ok g'" "slots g' = held ls'"
    by blast
  with Cons.IH [of g' ls'] show ?case by simp
qed auto

end

end
