(* ===== verification/AdmissionGate.thy ===== *)
theory AdmissionGate
  imports AdmissionLease
begin

text \<open>
  \<open>uni_api/admission/core.py\<close>, first part: \<open>BoundedAdmissionGate\<close>, the first-in-first-out gate
  with an active capacity and a bounded queue of waiters, and \<open>AdmissionLease\<close>.

  Every \<open>async with self._lock\<close> block runs without a suspension point inside, so each is one
  function on the gate. What a coroutine does between two blocks (wait for the future, time out,
  be cancelled) is the environment of the step relation \<open>gate_step\<close> below: it says when a caller
  may call which block, and keeps the leases that callers hold. The clock is the stream of its
  readings.

  Besides the safety of the gate, \<open>in_order\<close> is an invariant of the steps: who came earlier and still waits has not been
  overtaken.
\<close>

section \<open>The gate\<close>

datatype waiter_state = Queued | Granted | Abandoned

datatype future = Pending | Resolved time | Cancelled

datatype gate_error =
    ValueError string
  | AdmissionRejected string
  | RuntimeError string

record BoundedAdmissionGate =
  capacity :: int
  waiter_limit :: int
  wait_timeout_seconds :: time
  active :: int
  waiters :: "nat list"
  waiter_state :: "nat \<Rightarrow> waiter_state"
  future :: "nat \<Rightarrow> future"
  next_waiter :: nat
  acquired_total :: nat
  cancelled_total :: nat
  rejected :: "(string, int) dict"

definition new_gate :: "int \<Rightarrow> int \<Rightarrow> time \<Rightarrow> gate_error + BoundedAdmissionGate" where
  "new_gate cap limit timeout =
     (if cap \<le> 0 then Inl (ValueError ''capacity must be greater than zero'')
      else if limit < 0 then Inl (ValueError ''waiter_limit cannot be negative'')
      else if timeout \<le> 0 then Inl (ValueError ''wait_timeout_seconds must be greater than zero'')
      else Inr \<lparr>capacity = cap, waiter_limit = limit, wait_timeout_seconds = timeout, active = 0,
                waiters = [], waiter_state = (\<lambda>_. Abandoned), future = (\<lambda>_. Cancelled),
                next_waiter = 0, acquired_total = 0, cancelled_total = 0, rejected = []\<rparr>)"

definition reject :: "string \<Rightarrow> BoundedAdmissionGate \<Rightarrow> BoundedAdmissionGate" where
  "reject reason g = g\<lparr>rejected := AList.update reason (dget 0 (rejected g) reason + 1) (rejected g)\<rparr>"

definition claim_slot :: "BoundedAdmissionGate \<Rightarrow> BoundedAdmissionGate" where
  "claim_slot g = g\<lparr>active := active g + 1, acquired_total := acquired_total g + 1\<rparr>"

text \<open>A caller of \<open>begin_acquire\<close> leaves with a lease or with a place in the queue.\<close>

datatype acquisition = Leased | Waiting nat

definition begin_acquire ::
  "time option \<Rightarrow> BoundedAdmissionGate \<Rightarrow> (gate_error + acquisition) \<times> BoundedAdmissionGate" where
  "begin_acquire timeout_seconds g =
     (let timeout = (case timeout_seconds of None \<Rightarrow> wait_timeout_seconds g | Some t \<Rightarrow> t) in
      if timeout \<le> 0 then (Inl (ValueError ''timeout_seconds must be greater than zero''), g)
      else if active g < capacity g \<and> waiters g = [] then (Inr Leased, claim_slot g)
      else if waiter_limit g \<le> int (length (waiters g)) then
        (Inl (AdmissionRejected ''queue_full''), reject ''queue_full'' g)
      else
        let w = next_waiter g in
        (Inr (Waiting w),
         g\<lparr>waiters := waiters g @ [w], waiter_state := (waiter_state g)(w := Queued),
           future := (future g)(w := Pending), next_waiter := w + 1\<rparr>))"

definition try_acquire :: "BoundedAdmissionGate \<Rightarrow> bool \<times> BoundedAdmissionGate" where
  "try_acquire g =
     (if capacity g \<le> active g \<or> waiters g \<noteq> [] then (False, g) else (True, claim_slot g))"

text \<open>
  \<open>_promote_waiters_locked\<close>: the loop over the queue, with the remaining queue as its argument.
\<close>

fun promote_queue ::
  "(nat \<Rightarrow> time) \<Rightarrow> nat \<Rightarrow> BoundedAdmissionGate \<Rightarrow> nat list \<Rightarrow> BoundedAdmissionGate" where
  "promote_queue clk k g [] = g\<lparr>waiters := []\<rparr>"
| "promote_queue clk k g (w # ws) =
     (if active g < capacity g then
        if waiter_state g w \<noteq> Queued \<or> future g w \<noteq> Pending then promote_queue clk k g ws
        else promote_queue clk (Suc k)
               ((claim_slot g)\<lparr>waiter_state := (waiter_state g)(w := Granted),
                              future := (future g)(w := Resolved (clk k))\<rparr>) ws
      else g\<lparr>waiters := w # ws\<rparr>)"

definition promote_waiters :: "(nat \<Rightarrow> time) \<Rightarrow> BoundedAdmissionGate \<Rightarrow> BoundedAdmissionGate" where
  "promote_waiters clk g = promote_queue clk 0 g (waiters g)"

definition release_slot ::
  "(nat \<Rightarrow> time) \<Rightarrow> BoundedAdmissionGate \<Rightarrow> gate_error + BoundedAdmissionGate" where
  "release_slot clk g =
     (if active g \<le> 0 then Inl (RuntimeError ''admission gate active count underflow'')
      else Inr (promote_waiters clk (g\<lparr>active := active g - 1\<rparr>)))"

text \<open>
  \<open>_abandon_waiter\<close>. \<open>deque.remove\<close> of a waiter that is not queued would raise; the invariant
  below shows that a waiter in state \<open>queued\<close> is in the queue.
\<close>

definition abandon_waiter ::
  "(nat \<Rightarrow> time) \<Rightarrow> nat \<Rightarrow> string option \<Rightarrow> bool \<Rightarrow> BoundedAdmissionGate \<Rightarrow> BoundedAdmissionGate" where
  "abandon_waiter clk w rejection_reason cancelled g =
     (let finish = (\<lambda>g1.
            let g2 = (case rejection_reason of None \<Rightarrow> g1 | Some r \<Rightarrow> reject r g1);
                g3 = (if cancelled then g2\<lparr>cancelled_total := cancelled_total g2 + 1\<rparr> else g2)
            in promote_waiters clk g3)
      in case waiter_state g w of
           Queued \<Rightarrow> finish (g\<lparr>waiter_state := (waiter_state g)(w := Abandoned),
                              waiters := remove1 w (waiters g),
                              future := (future g)(w := Cancelled)\<rparr>)
         | Granted \<Rightarrow> finish (g\<lparr>waiter_state := (waiter_state g)(w := Abandoned),
                               active := active g - 1\<rparr>)
         | Abandoned \<Rightarrow> g)"

text \<open>\<open>_wait_for_waiter\<close>: what the waiting coroutine does when its wait ends.\<close>

datatype wait_outcome = GotResult | TimedOut | WasCancelled

definition wait_for_waiter ::
  "(nat \<Rightarrow> time) \<Rightarrow> nat \<Rightarrow> time \<Rightarrow> wait_outcome \<Rightarrow> BoundedAdmissionGate
   \<Rightarrow> (gate_error + time option) \<times> BoundedAdmissionGate" where
  "wait_for_waiter clk w started_at oc g =
     (case oc of
        GotResult \<Rightarrow>
          (Inr (case future g w of Resolved granted_at \<Rightarrow> Some (max 0 ((granted_at - started_at) * 1000))
                | _ \<Rightarrow> None), g)
      | TimedOut \<Rightarrow>
          (Inl (AdmissionRejected ''wait_timeout''), abandon_waiter clk w (Some ''wait_timeout'') False g)
      | WasCancelled \<Rightarrow> (Inr None, abandon_waiter clk w None True g))"

record gate_snapshot =
  snap_active :: int
  snap_waiters :: nat
  snap_capacity :: int
  snap_waiter_limit :: int
  snap_wait_timeout_seconds :: time
  snap_acquired_total :: nat
  snap_cancelled_total :: nat
  snap_rejected :: "(string, int) dict"

definition gate_snapshot :: "BoundedAdmissionGate \<Rightarrow> gate_snapshot" where
  "gate_snapshot g =
     \<lparr>snap_active = active g,
      snap_waiters = length (filter (\<lambda>w. waiter_state g w = Queued) (waiters g)),
      snap_capacity = capacity g, snap_waiter_limit = waiter_limit g,
      snap_wait_timeout_seconds = wait_timeout_seconds g,
      snap_acquired_total = acquired_total g, snap_cancelled_total = cancelled_total g,
      snap_rejected = rejected g\<rparr>"

section \<open>Promotion\<close>

text \<open>The queue holds distinct waiters that really wait.\<close>

definition queue_ok :: "BoundedAdmissionGate \<Rightarrow> nat list \<Rightarrow> bool" where
  "queue_ok g ws \<longleftrightarrow> distinct ws \<and> (\<forall>w \<in> set ws. waiter_state g w = Queued \<and> future g w = Pending)"

text \<open>How many waiters a promotion grants: as many as there are free slots.\<close>

definition free_slots :: "BoundedAdmissionGate \<Rightarrow> nat" where
  "free_slots g = nat (capacity g - active g)"

definition grant :: "nat list \<Rightarrow> BoundedAdmissionGate \<Rightarrow> nat \<Rightarrow> waiter_state" where
  "grant ws g = (\<lambda>w. if w \<in> set ws then Granted else waiter_state g w)"

lemma promote_queue_fifo:
  assumes "queue_ok g ws"
  defines "n \<equiv> min (free_slots g) (length ws)"
  shows "let g' = promote_queue clk k g ws in
     waiters g' = drop n ws \<and> active g' = active g + int n \<and>
     waiter_state g' = grant (take n ws) g \<and> acquired_total g' = acquired_total g + n \<and>
     capacity g' = capacity g \<and> waiter_limit g' = waiter_limit g \<and>
     wait_timeout_seconds g' = wait_timeout_seconds g \<and> next_waiter g' = next_waiter g \<and>
     cancelled_total g' = cancelled_total g \<and> rejected g' = rejected g \<and>
     (\<forall>w. w \<notin> set (take n ws) \<longrightarrow> future g' w = future g w) \<and>
     (\<forall>w \<in> set (take n ws). \<exists>t. future g' w = Resolved t)"
  using assms(1) unfolding n_def
proof (induction ws arbitrary: k g)
  case Nil
  then show ?case by (simp add: grant_def)
next
  case (Cons w ws)
  show ?case
  proof (cases "active g < capacity g")
    case False
    then show ?thesis by (simp add: free_slots_def grant_def)
  next
    case True
    let ?g = "(claim_slot g)\<lparr>waiter_state := (waiter_state g)(w := Granted),
                future := (future g)(w := Resolved (clk k))\<rparr>"
    have ok: "queue_ok ?g ws" using Cons.prems by (auto simp: queue_ok_def claim_slot_def)
    have free: "free_slots g = Suc (free_slots ?g)"
      using True by (auto simp: free_slots_def claim_slot_def)
    have step: "promote_queue clk k g (w # ws) = promote_queue clk (Suc k) ?g ws"
      using True Cons.prems by (simp add: queue_ok_def)
    from Cons.IH [OF ok, of "Suc k"] Cons.prems show ?thesis
      unfolding step free
      by (auto simp: Let_def claim_slot_def grant_def queue_ok_def fun_eq_iff)
  qed
qed

lemmas promote_fifo = promote_queue_fifo [where k = 0 and ws = "waiters g" and g = g for g,
  folded promote_waiters_def, unfolded Let_def]

section \<open>The gate and its callers\<close>

text \<open>
  \<open>leases\<close> counts the leases callers hold; each calls \<open>release_slot\<close> once (\<open>AdmissionLease\<close>).
  \<open>delivered\<close> are the waiters whose grant reached the caller as a lease. A coroutine whose wait
  timed out or was cancelled abandons its waiter at most once effectively, and only before delivery.
\<close>

record gate_system =
  gate :: BoundedAdmissionGate
  leases :: nat
  delivered :: "nat set"

inductive gate_step :: "gate_system \<Rightarrow> gate_system \<Rightarrow> bool" where
  acquire_now:
    "begin_acquire timeout (gate s) = (Inr Leased, g) \<Longrightarrow>
     gate_step s (s\<lparr>gate := g, leases := leases s + 1\<rparr>)"
| acquire_wait:
    "begin_acquire timeout (gate s) = (Inr (Waiting w), g) \<Longrightarrow> gate_step s (s\<lparr>gate := g\<rparr>)"
| acquire_rejected:
    "begin_acquire timeout (gate s) = (Inl e, g) \<Longrightarrow> gate_step s (s\<lparr>gate := g\<rparr>)"
| try_success:
    "try_acquire (gate s) = (True, g) \<Longrightarrow> gate_step s (s\<lparr>gate := g, leases := leases s + 1\<rparr>)"
| deliver:
    "waiter_state (gate s) w = Granted \<Longrightarrow> w \<notin> delivered s \<Longrightarrow>
     gate_step s (s\<lparr>leases := leases s + 1, delivered := insert w (delivered s)\<rparr>)"
| abandon:
    "w \<notin> delivered s \<Longrightarrow> abandon_waiter clk w reason cancelled (gate s) = g \<Longrightarrow>
     gate_step s (s\<lparr>gate := g\<rparr>)"
| release:
    "0 < leases s \<Longrightarrow> release_slot clk (gate s) = Inr g \<Longrightarrow>
     gate_step s (s\<lparr>gate := g, leases := leases s - 1\<rparr>)"

inductive gate_reachable :: "gate_system \<Rightarrow> bool" where
  init: "new_gate cap limit timeout = Inr g \<Longrightarrow> gate_reachable \<lparr>gate = g, leases = 0, delivered = {}\<rparr>"
| step: "gate_reachable s \<Longrightarrow> gate_step s s' \<Longrightarrow> gate_reachable s'"

definition granted :: "BoundedAdmissionGate \<Rightarrow> nat set" where
  "granted g = {w. waiter_state g w = Granted}"

text \<open>
  The part of the invariant that every block keeps by itself: the queue is exactly the set of
  queued waiters, no waiter is from the future, and the bounds hold.
\<close>

definition gate_core :: "BoundedAdmissionGate \<Rightarrow> bool" where
  "gate_core g \<longleftrightarrow>
     queue_ok g (waiters g) \<and> (\<forall>w. waiter_state g w = Queued \<longleftrightarrow> w \<in> set (waiters g)) \<and>
     (\<forall>w. next_waiter g \<le> w \<longrightarrow> waiter_state g w = Abandoned) \<and>
     active g \<le> capacity g \<and> 0 < capacity g \<and> int (length (waiters g)) \<le> waiter_limit g"

definition work_conserving :: "BoundedAdmissionGate \<Rightarrow> bool" where
  "work_conserving g \<longleftrightarrow> (waiters g \<noteq> [] \<longrightarrow> active g = capacity g)"

definition gate_inv :: "gate_system \<Rightarrow> bool" where
  "gate_inv s \<longleftrightarrow>
     gate_core (gate s) \<and> work_conserving (gate s) \<and> delivered s \<subseteq> granted (gate s) \<and>
     active (gate s) = int (leases s) + int (card (granted (gate s) - delivered s))"

lemma granted_finite [simp]: "gate_core g \<Longrightarrow> finite (granted g)"
proof (rule finite_subset [of _ "{..<next_waiter g}"])
  assume "gate_core g"
  then have "next_waiter g \<le> w \<Longrightarrow> waiter_state g w = Abandoned" for w by (simp add: gate_core_def)
  then show "granted g \<subseteq> {..<next_waiter g}" by (force simp: granted_def not_less [symmetric])
qed simp

lemma promote_core:
  assumes "gate_core g"
  shows "gate_core (promote_waiters clk g)" "work_conserving (promote_waiters clk g)"
    and "\<exists>n. active (promote_waiters clk g) = active g + int n \<and>
        granted (promote_waiters clk g) = granted g \<union> set (take n (waiters g)) \<and>
        n \<le> length (waiters g) \<and> capacity (promote_waiters clk g) = capacity g"
proof -
  let ?n = "min (free_slots g) (length (waiters g))"
  have ok: "queue_ok g (waiters g)" using assms by (simp add: gate_core_def)
  note fifo = promote_fifo [OF ok, of clk]
  let ?t = "set (take ?n (waiters g))" and ?r = "set (drop ?n (waiters g))"
  have sets: "set (waiters g) = ?t \<union> ?r" by (metis append_take_drop_id set_append)
  have disj: "?t \<inter> ?r = {}"
    using ok distinct_append [of "take ?n (waiters g)" "drop ?n (waiters g)"] by (simp add: queue_ok_def)
  have st: "waiter_state (promote_waiters clk g) w = (if w \<in> ?t then Granted else waiter_state g w)"
    and ws: "waiters (promote_waiters clk g) = drop ?n (waiters g)"
    and fut: "w \<notin> ?t \<Longrightarrow> future (promote_waiters clk g) w = future g w"
    and nw: "next_waiter (promote_waiters clk g) = next_waiter g" for w
    using fifo by (simp_all add: grant_def)
  have q: "waiter_state g w = Queued \<longleftrightarrow> w \<in> ?t \<union> ?r" for w
    using assms sets by (simp add: gate_core_def)
  have "queue_ok (promote_waiters clk g) (waiters (promote_waiters clk g))"
    using ok disj unfolding queue_ok_def ws by (auto simp: st fut dest: in_set_dropD)
  moreover have "\<forall>w. waiter_state (promote_waiters clk g) w = Queued
      \<longleftrightarrow> w \<in> set (waiters (promote_waiters clk g))"
    unfolding ws using q disj by (auto simp: st)
  moreover have "next_waiter g \<le> w \<Longrightarrow> waiter_state (promote_waiters clk g) w = Abandoned" for w
    using assms q [of w] by (auto simp: st gate_core_def)
  moreover have act: "active (promote_waiters clk g) = active g + int ?n"
    and cap: "capacity (promote_waiters clk g) = capacity g"
    and lim: "waiter_limit (promote_waiters clk g) = waiter_limit g"
    using fifo by simp_all
  moreover have "active g + int ?n \<le> capacity g" "int (length (drop ?n (waiters g))) \<le> waiter_limit g"
    using assms by (auto simp: gate_core_def free_slots_def min_def)
  ultimately show "gate_core (promote_waiters clk g)"
    using assms by (simp add: gate_core_def nw ws)
  show "work_conserving (promote_waiters clk g)"
    using assms by (auto simp: work_conserving_def gate_core_def ws act cap free_slots_def min_def)
  show "\<exists>n. active (promote_waiters clk g) = active g + int n \<and>
        granted (promote_waiters clk g) = granted g \<union> set (take n (waiters g)) \<and>
        n \<le> length (waiters g) \<and> capacity (promote_waiters clk g) = capacity g"
    using fifo by (intro exI [of _ ?n]) (auto simp: granted_def grant_def)
qed

text \<open>A promotion keeps the account of slots.\<close>

lemma promote_account:
  assumes "gate_core g" "d \<subseteq> granted g"
  shows "active (promote_waiters clk g) - int (card (granted (promote_waiters clk g) - d))
       = active g - int (card (granted g - d))"
proof -
  obtain n where n: "active (promote_waiters clk g) = active g + int n"
    "granted (promote_waiters clk g) = granted g \<union> set (take n (waiters g))" "n \<le> length (waiters g)"
    using promote_core(3) [OF assms(1)] by blast
  have "\<forall>w \<in> set (take n (waiters g)). waiter_state g w = Queued"
    using assms(1) by (auto simp: gate_core_def queue_ok_def dest: in_set_takeD)
  then have disj: "(granted g - d) \<inter> set (take n (waiters g)) = {}" "d \<inter> set (take n (waiters g)) = {}"
    using assms(2) by (auto simp: granted_def)
  have "granted (promote_waiters clk g) - d = (granted g - d) \<union> set (take n (waiters g))"
    using n(2) disj(2) by blast
  moreover have "card (set (take n (waiters g))) = n"
    using assms(1) n(3) by (simp add: gate_core_def queue_ok_def distinct_card)
  ultimately have "card (granted (promote_waiters clk g) - d) = card (granted g - d) + n"
    using card_Un_disjoint [OF _ _ disj(1)] granted_finite [OF assms(1)] by simp
  with n(1) show ?thesis by simp
qed

lemma frame_stats [simp]:
  "gate_core (reject r g) = gate_core g" "gate_core (g\<lparr>cancelled_total := c\<rparr>) = gate_core g"
  "granted (reject r g) = granted g" "granted (g\<lparr>cancelled_total := c\<rparr>) = granted g"
  "active (reject r g) = active g" "work_conserving (reject r g) = work_conserving g"
  "waiter_state (reject r g) = waiter_state g"
  by (simp_all add: reject_def gate_core_def queue_ok_def granted_def work_conserving_def)

lemma claim_slot_core:
  "gate_core g \<Longrightarrow> active g < capacity g \<Longrightarrow> waiters g = [] \<Longrightarrow>
   gate_core (claim_slot g) \<and> work_conserving (claim_slot g) \<and> granted (claim_slot g) = granted g \<and>
   active (claim_slot g) = active g + 1"
  by (auto simp: claim_slot_def gate_core_def queue_ok_def work_conserving_def granted_def)

lemma enqueue_core:
  assumes "gate_core g" "begin_acquire timeout g = (Inr (Waiting w), g')" "work_conserving g"
  shows "gate_core g'" "work_conserving g'" "granted g' = granted g" "active g' = active g"
proof -
  have g': "g' = g\<lparr>waiters := waiters g @ [w], waiter_state := (waiter_state g)(w := Queued),
      future := (future g)(w := Pending), next_waiter := w + 1\<rparr>"
    and w: "w = next_waiter g" and room: "int (length (waiters g)) < waiter_limit g"
    and busy: "\<not> (active g < capacity g \<and> waiters g = [])"
    using assms(2) by (auto simp: begin_acquire_def Let_def split: if_splits)
  have fresh: "waiter_state g w = Abandoned"
    using assms(1) w by (simp add: gate_core_def)
  moreover have "waiter_state g w = Queued \<longleftrightarrow> w \<in> set (waiters g)" using assms(1) by (simp add: gate_core_def)
  ultimately have new: "w \<notin> set (waiters g)" by simp
  show "gate_core g'"
    using assms(1) new room w unfolding g' gate_core_def
    by (auto simp: queue_ok_def)
  show "work_conserving g'"
    using assms(1,3) busy unfolding g' by (auto simp: work_conserving_def gate_core_def)
  show "granted g' = granted g" "active g' = active g"
    using fresh unfolding g' by (auto simp: granted_def)
qed

text \<open>Abandoning a waiter: the two effective cases end in a promotion.\<close>

lemma abandon_cases:
  obtains (none) "waiter_state g w = Abandoned" "abandon_waiter clk w r c g = g"
  | (queued) g' where "waiter_state g w = Queued" "abandon_waiter clk w r c g = promote_waiters clk g'"
      "gate_core g' = gate_core (g\<lparr>waiter_state := (waiter_state g)(w := Abandoned),
          waiters := remove1 w (waiters g), future := (future g)(w := Cancelled)\<rparr>)"
      "granted g' = granted g" "active g' = active g"
  | (granted) g' where "waiter_state g w = Granted" "abandon_waiter clk w r c g = promote_waiters clk g'"
      "gate_core g' = gate_core (g\<lparr>waiter_state := (waiter_state g)(w := Abandoned), active := active g - 1\<rparr>)"
      "granted g' = granted g - {w}" "active g' = active g - 1"
proof (cases "waiter_state g w")
  case Queued
  show ?thesis
    by (rule queued [OF Queued], simp add: abandon_waiter_def Queued Let_def)
      (use Queued in \<open>auto simp: granted_def split: option.split\<close>)
next
  case Granted
  show ?thesis
    by (rule granted [OF Granted], simp add: abandon_waiter_def Granted Let_def)
      (use Granted in \<open>auto simp: granted_def split: option.split\<close>)
next
  case Abandoned
  then show ?thesis by (intro none) (simp_all add: abandon_waiter_def Let_def)
qed

lemma abandon_core:
  assumes "gate_core g" "work_conserving g" "d \<subseteq> granted g" "w \<notin> d"
  shows "gate_core (abandon_waiter clk w r c g) \<and> work_conserving (abandon_waiter clk w r c g) \<and>
     d \<subseteq> granted (abandon_waiter clk w r c g) \<and>
     active (abandon_waiter clk w r c g) - int (card (granted (abandon_waiter clk w r c g) - d))
       = active g - int (card (granted g - d))"
proof (cases rule: abandon_cases [of g w clk r c])
  case none
  with assms show ?thesis by simp
next
  case (queued g1)
  have "gate_core g1"
    using assms(1) queued by (auto simp: gate_core_def queue_ok_def length_remove1)
  with promote_core [OF this, of clk] promote_account [OF this, of d clk] queued assms(3)
  show ?thesis by auto
next
  case (granted g1)
  have "gate_core g1"
    using assms(1) granted by (auto simp: gate_core_def queue_ok_def)
  moreover have "d \<subseteq> granted g1" using assms(3,4) granted by auto
  moreover have "card (granted g - d) = Suc (card (granted g1 - d))"
  proof -
    have "granted g - d = insert w (granted g1 - d)" "w \<notin> granted g1 - d"
      using granted(1,4) assms(4) by (auto simp: granted_def)
    then show ?thesis using granted_finite [OF \<open>gate_core g1\<close>] by simp
  qed
  ultimately show ?thesis
    using promote_core [of g1 clk] promote_account [of g1 d clk] granted by auto
qed

lemma release_core:
  assumes "gate_core g" "0 < active g" "d \<subseteq> granted g"
  shows "\<exists>g'. release_slot clk g = Inr g' \<and> gate_core g' \<and> work_conserving g' \<and> d \<subseteq> granted g' \<and>
     active g' - int (card (granted g' - d)) = active g - 1 - int (card (granted g - d))"
proof -
  let ?g = "g\<lparr>active := active g - 1\<rparr>"
  have core: "gate_core ?g" "d \<subseteq> granted ?g"
    using assms by (auto simp: gate_core_def queue_ok_def granted_def)
  have "granted ?g = granted g" by (simp add: granted_def)
  with promote_core [OF core(1), of clk] promote_account [OF core, of clk] assms show ?thesis
    by (auto simp: release_slot_def)
qed

lemma begin_acquire_leased:
  "begin_acquire timeout g = (Inr Leased, g') \<Longrightarrow>
   active g < capacity g \<and> waiters g = [] \<and> g' = claim_slot g"
  by (auto simp: begin_acquire_def Let_def split: if_splits)

lemma begin_acquire_refused:
  "begin_acquire timeout g = (Inl e, g') \<Longrightarrow> g' = g \<or> g' = reject ''queue_full'' g"
  by (auto simp: begin_acquire_def Let_def split: if_splits)

lemma try_acquire_leased:
  "try_acquire g = (True, g') \<Longrightarrow> active g < capacity g \<and> waiters g = [] \<and> g' = claim_slot g"
  by (auto simp: try_acquire_def split: if_splits)

lemma gate_step_inv: "gate_step s s' \<Longrightarrow> gate_inv s \<Longrightarrow> gate_inv s'"
proof (induction rule: gate_step.induct)
  case (acquire_now timeout s g)
  with begin_acquire_leased [OF acquire_now(1)] claim_slot_core [of "gate s"] show ?case
    by (simp add: gate_inv_def)
next
  case (acquire_wait timeout s w g)
  with enqueue_core [OF _ acquire_wait(1)] show ?case by (simp add: gate_inv_def)
next
  case (acquire_rejected timeout s e g)
  with begin_acquire_refused [OF acquire_rejected(1)] show ?case by (auto simp: gate_inv_def)
next
  case (try_success s g)
  with try_acquire_leased [OF try_success(1)] claim_slot_core [of "gate s"] show ?case
    by (simp add: gate_inv_def)
next
  case (deliver s w)
  let ?D = "delivered s"
  have "granted (gate s) - ?D = insert w (granted (gate s) - insert w ?D)"
    "w \<notin> granted (gate s) - insert w ?D"
    using deliver by (auto simp: granted_def)
  moreover have "finite (granted (gate s))"
    using deliver by (intro granted_finite) (simp add: gate_inv_def)
  ultimately have "card (granted (gate s) - ?D) = Suc (card (granted (gate s) - insert w ?D))"
    by (metis card_insert_disjoint finite_Diff)
  with deliver show ?case by (simp add: gate_inv_def granted_def)
next
  case (abandon w s clk reason cancelled g)
  let ?g = "abandon_waiter clk w reason cancelled (gate s)"
  have "gate_core (gate s)" "work_conserving (gate s)" "delivered s \<subseteq> granted (gate s)"
    using abandon(3) by (simp_all add: gate_inv_def)
  from abandon_core [OF this abandon(1), of clk reason cancelled] have
    "gate_core ?g" "work_conserving ?g" "delivered s \<subseteq> granted ?g"
    "active ?g - int (card (granted ?g - delivered s)) =
       active (gate s) - int (card (granted (gate s) - delivered s))" by blast+
  with abandon(3) show ?case unfolding abandon(2) [symmetric] gate_inv_def by simp
next
  case (release s clk g)
  have core: "gate_core (gate s)" "0 < active (gate s)" "delivered s \<subseteq> granted (gate s)"
    using release by (simp_all add: gate_inv_def)
  from release_core [OF this, of clk] release(2) have
    "gate_core g" "work_conserving g" "delivered s \<subseteq> granted g"
    "active g - int (card (granted g - delivered s)) =
       active (gate s) - 1 - int (card (granted (gate s) - delivered s))" by auto
  with release show ?case by (simp add: gate_inv_def of_nat_diff)
qed

lemma gate_reachable_inv: "gate_reachable s \<Longrightarrow> gate_inv s"
proof (induction rule: gate_reachable.induct)
  case (init cap limit timeout g)
  then show ?case
    by (auto simp: new_gate_def gate_inv_def gate_core_def queue_ok_def work_conserving_def granted_def
        split: if_splits)
qed (rule gate_step_inv)

text \<open>
  C17. In every reachable state of the gate and its callers: at most \<open>capacity\<close> slots are active,
  and they are exactly the leases callers hold plus the grants on their way to a caller; the queue
  is within its bound and holds only waiters that still wait; no slot is idle while a caller waits;
  and a lease can always be released without an underflow.
\<close>

theorem bounded_gate_safe:
  assumes "gate_reachable s"
  shows "active (gate s) \<le> capacity (gate s) \<and>
     active (gate s) = int (leases s) + int (card {w. waiter_state (gate s) w = Granted \<and> w \<notin> delivered s}) \<and>
     int (length (waiters (gate s))) \<le> waiter_limit (gate s) \<and> distinct (waiters (gate s)) \<and>
     (\<forall>w. waiter_state (gate s) w = Queued \<longleftrightarrow> w \<in> set (waiters (gate s))) \<and>
     (waiters (gate s) \<noteq> [] \<longrightarrow> active (gate s) = capacity (gate s)) \<and>
     (0 < leases s \<longrightarrow> (\<exists>g. release_slot clk (gate s) = Inr g))"
proof -
  have inv: "gate_inv s" using assms by (rule gate_reachable_inv)
  have "granted (gate s) - delivered s = {w. waiter_state (gate s) w = Granted \<and> w \<notin> delivered s}"
    by (auto simp: granted_def)
  moreover have "0 < leases s \<Longrightarrow> \<exists>g. release_slot clk (gate s) = Inr g"
    using inv by (auto simp: gate_inv_def release_slot_def)
  ultimately show ?thesis
    using inv by (auto simp: gate_inv_def gate_core_def queue_ok_def work_conserving_def)
qed

section \<open>First come, first served\<close>

text \<open>Waiters are numbered as they come. The queue is in this order, and nobody is overtaken.\<close>

definition in_order :: "BoundedAdmissionGate \<Rightarrow> bool" where
  "in_order g \<longleftrightarrow> sorted (waiters g) \<and>
     (\<forall>v w. waiter_state g v = Granted \<and> waiter_state g w = Queued \<longrightarrow> v < w)"

lemma in_order_frame [simp]:
  "in_order (reject r g) = in_order g" "in_order (g\<lparr>cancelled_total := c\<rparr>) = in_order g"
  "in_order (claim_slot g) = in_order g" "in_order (g\<lparr>active := a\<rparr>) = in_order g"
  "next_waiter (reject r g) = next_waiter g"
  by (simp_all add: in_order_def reject_def claim_slot_def)

lemma promote_in_order:
  assumes "gate_core g" "in_order g"
  shows "in_order (promote_waiters clk g)" "next_waiter (promote_waiters clk g) = next_waiter g"
proof -
  let ?n = "min (free_slots g) (length (waiters g))" and ?q = "waiters g"
  have ok: "queue_ok g ?q" using assms(1) by (simp add: gate_core_def)
  note fifo = promote_fifo [OF ok, of clk]
  have "sorted_wrt (<) ?q" using assms ok by (simp add: in_order_def queue_ok_def strict_sorted_iff)
  then have "sorted_wrt (<) (take ?n ?q @ drop ?n ?q)" by (simp only: append_take_drop_id)
  then have ahead: "v < w" if "v \<in> set (take ?n ?q)" "w \<in> set (drop ?n ?q)" for v w
    using that unfolding sorted_wrt_append by blast
  have "set ?q = set (take ?n ?q) \<union> set (drop ?n ?q)" by (simp only: set_append [symmetric] append_take_drop_id)
  then have queued: "w \<in> set (drop ?n ?q)" if "waiter_state g w = Queued" "w \<notin> set (take ?n ?q)" for w
    using that assms(1) by (auto simp: gate_core_def)
  have state: "waiter_state (promote_waiters clk g) = grant (take ?n ?q) g"
    and q: "waiters (promote_waiters clk g) = drop ?n ?q" using fifo by simp_all
  have "v < w" if "grant (take ?n ?q) g v = Granted" "grant (take ?n ?q) g w = Queued" for v w
  proof -
    have w: "w \<notin> set (take ?n ?q)" "waiter_state g w = Queued" using that(2) by (auto simp: grant_def split: if_splits)
    show ?thesis
    proof (cases "v \<in> set (take ?n ?q)")
      case True
      then show ?thesis using queued [OF w(2,1)] by (rule ahead)
    next
      case False
      then have "waiter_state g v = Granted" using that(1) by (simp add: grant_def)
      with w(2) assms(2) show ?thesis by (simp add: in_order_def)
    qed
  qed
  moreover have "sorted (drop ?n ?q)" using assms(2) by (simp add: in_order_def sorted_wrt_drop)
  ultimately show "in_order (promote_waiters clk g)" unfolding in_order_def state q by blast
  show "next_waiter (promote_waiters clk g) = next_waiter g" using fifo by simp
qed

lemma enqueue_in_order:
  assumes "gate_core g" "in_order g" "begin_acquire timeout g = (Inr (Waiting w), g')"
  shows "in_order g'" "w = next_waiter g" "next_waiter g' = Suc w"
proof -
  have g': "g' = g\<lparr>waiters := waiters g @ [w], waiter_state := (waiter_state g)(w := Queued),
      future := (future g)(w := Pending), next_waiter := w + 1\<rparr>" and w: "w = next_waiter g"
    using assms(3) by (auto simp: begin_acquire_def Let_def split: if_splits)
  have old: "v < w" if "waiter_state g v \<noteq> Abandoned" for v
    using that assms(1) w by (auto simp: gate_core_def not_less [symmetric])
  then have "\<forall>v \<in> set (waiters g). v < w" using assms(1) by (auto simp: gate_core_def queue_ok_def)
  then show "in_order g'" using assms(2) old by (auto simp: g' in_order_def sorted_append less_imp_le)
  show "w = next_waiter g" "next_waiter g' = Suc w" using w by (simp_all add: g')
qed

lemma abandon_in_order:
  assumes "gate_core g" "in_order g"
  shows "in_order (abandon_waiter clk w r c g) \<and> next_waiter (abandon_waiter clk w r c g) = next_waiter g"
proof -
  let ?finish = "\<lambda>g. let g = (case r of None \<Rightarrow> g | Some r \<Rightarrow> reject r g) in
      if c then g\<lparr>cancelled_total := cancelled_total g + 1\<rparr> else g"
  have promoted: "in_order (promote_waiters clk (?finish h)) \<and> next_waiter (promote_waiters clk (?finish h)) = next_waiter g"
    if "gate_core h" "in_order h" "next_waiter h = next_waiter g" for h
    using promote_in_order [of "?finish h" clk] that by (auto simp: Let_def split: option.split)
  show ?thesis
  proof (cases "waiter_state g w")
    case Queued
    let ?h = "g\<lparr>waiter_state := (waiter_state g)(w := Abandoned), waiters := remove1 w (waiters g),
        future := (future g)(w := Cancelled)\<rparr>"
    have "gate_core ?h" using assms(1) by (auto simp: gate_core_def queue_ok_def length_remove1)
    moreover have "in_order ?h" using assms(2) by (auto simp: in_order_def sorted_remove1)
    ultimately show ?thesis using promoted [of ?h] Queued by (simp add: abandon_waiter_def Let_def)
  next
    case Granted
    let ?h = "g\<lparr>waiter_state := (waiter_state g)(w := Abandoned), active := active g - 1\<rparr>"
    have "gate_core ?h" using assms(1) Granted by (auto simp: gate_core_def queue_ok_def)
    moreover have "in_order ?h" using assms(2) by (auto simp: in_order_def)
    ultimately show ?thesis using promoted [of ?h] Granted by (simp add: abandon_waiter_def Let_def)
  next
    case Abandoned
    then show ?thesis using assms(2) by (simp add: abandon_waiter_def Let_def)
  qed
qed

lemma gate_step_in_order:
  "gate_step s s' \<Longrightarrow> gate_inv s \<Longrightarrow> in_order (gate s) \<Longrightarrow>
   in_order (gate s') \<and> next_waiter (gate s) \<le> next_waiter (gate s')"
proof (induction rule: gate_step.induct)
  case (acquire_now timeout s g)
  with begin_acquire_leased [OF acquire_now(1)] show ?case by (simp add: claim_slot_def in_order_def)
next
  case (acquire_wait timeout s w g)
  with enqueue_in_order [OF _ acquire_wait(3,1)] show ?case by (simp add: gate_inv_def)
next
  case (acquire_rejected timeout s e g)
  with begin_acquire_refused [OF acquire_rejected(1)] show ?case by (auto simp: reject_def in_order_def)
next
  case (try_success s g)
  with try_acquire_leased [OF try_success(1)] show ?case by (simp add: claim_slot_def in_order_def)
next
  case (abandon w s clk reason cancelled g)
  with abandon_in_order [of "gate s" clk w reason cancelled] show ?case by (simp add: gate_inv_def)
next
  case (release s clk g)
  let ?g = "(gate s)\<lparr>active := active (gate s) - 1\<rparr>"
  have "gate_core ?g" using release(3) by (auto simp: gate_inv_def gate_core_def queue_ok_def)
  with promote_in_order [of ?g clk] release show ?case by (auto simp: release_slot_def split: if_splits)
qed simp

lemma gate_steps_in_order:
  assumes "rtranclp gate_step s s'" "gate_inv s" "in_order (gate s)"
  shows "gate_inv s' \<and> in_order (gate s') \<and> next_waiter (gate s) \<le> next_waiter (gate s')"
  using assms by (induction rule: rtranclp_induct) (use gate_step_inv gate_step_in_order le_trans in blast)+

lemma gate_reachable_in_order: "gate_reachable s \<Longrightarrow> in_order (gate s)"
proof (induction rule: gate_reachable.induct)
  case (step s s')
  with gate_step_in_order gate_reachable_inv show ?case by blast
qed (auto simp: new_gate_def in_order_def split: if_splits)

text \<open>
  C28. Slots are handed over first come first served. Of two callers that had to wait, the one that came later never
  has a slot while the earlier one still waits, whatever happens in between and after: other callers, time-outs,
  cancellations, releases. A release grants as long a prefix of the queue as there are free slots and leaves the rest in
  order, and a newcomer gets a slot at once only if nobody waits.
\<close>

theorem gate_first_come_first_served:
  assumes "gate_reachable s1" "begin_acquire t1 (gate s1) = (Inr (Waiting early), g1)"
    and "rtranclp gate_step (s1\<lparr>gate := g1\<rparr>) s2" "begin_acquire t2 (gate s2) = (Inr (Waiting late), g2)"
    and "rtranclp gate_step (s2\<lparr>gate := g2\<rparr>) s" "release_slot clk (gate s) = Inr g"
  shows "(waiter_state (gate s) late = Granted \<longrightarrow> waiter_state (gate s) early \<noteq> Queued) \<and>
    (\<exists>n. waiters (gate s) = take n (waiters (gate s)) @ waiters g \<and>
     n = min (nat (capacity (gate s) - active (gate s) + 1)) (length (waiters (gate s))) \<and>
     (\<forall>w \<in> set (waiters (gate s)). waiter_state g w = (if w \<in> set (take n (waiters (gate s))) then Granted else Queued))) \<and>
    (fst (begin_acquire timeout (gate s)) = Inr Leased \<or> fst (try_acquire (gate s)) \<longrightarrow> waiters (gate s) = [])"
proof -
  have one: "gate_inv s1" "in_order (gate s1)"
    using gate_reachable_inv gate_reachable_in_order assms(1) by blast+
  have came: "gate_inv (s\<lparr>gate := g\<rparr>) \<and> in_order g \<and> w < next_waiter g \<and> next_waiter (gate s) \<le> w"
    if "gate_inv s" "in_order (gate s)" "begin_acquire t (gate s) = (Inr (Waiting w), g)" for s t w g
    using gate_step_inv [OF gate_step.acquire_wait [OF that(3)] that(1)] enqueue_in_order [OF _ that(2,3)] that(1)
    by (simp add: gate_inv_def)
  note c1 = came [OF one assms(2)]
  from gate_steps_in_order [OF assms(3)] c1
  have two: "gate_inv s2" "in_order (gate s2)" "early < next_waiter (gate s2)" by auto
  note c2 = came [OF two(1,2) assms(4)]
  from gate_steps_in_order [OF assms(5)] c2 have now: "gate_inv s" "in_order (gate s)" by auto
  have "early < late" using two(3) c2 by simp
  with now(2) have fair: "waiter_state (gate s) late = Granted \<longrightarrow> waiter_state (gate s) early \<noteq> Queued"
    unfolding in_order_def by (metis less_asym)
  let ?g = "(gate s)\<lparr>active := active (gate s) - 1\<rparr>"
  have ok: "queue_ok ?g (waiters ?g)" using now(1) by (simp add: gate_inv_def gate_core_def queue_ok_def)
  have g: "g = promote_waiters clk ?g" using assms(6) by (auto simp: release_slot_def split: if_splits)
  from promote_fifo [OF ok, of clk] ok fair show ?thesis
    unfolding g
    by (intro conjI exI [of _ "min (free_slots ?g) (length (waiters (gate s)))"])
      (auto simp: free_slots_def grant_def queue_ok_def begin_acquire_def try_acquire_def Let_def
        algebra_simps split: if_splits)
qed

text \<open>A gate of capacity one with one lease out and one waiter in the queue.\<close>

definition sample_gate :: BoundedAdmissionGate where
  "sample_gate = \<lparr>capacity = 1, waiter_limit = 1, wait_timeout_seconds = 5, active = 1, waiters = [0],
     waiter_state = (\<lambda>w. if w = 0 then Queued else Abandoned),
     future = (\<lambda>w. if w = 0 then Pending else Cancelled),
     next_waiter = 1, acquired_total = 1, cancelled_total = 0, rejected = []\<rparr>"

lemma sample_gate_reachable: "gate_reachable \<lparr>gate = sample_gate, leases = 1, delivered = {}\<rparr>"
proof -
  define g0 :: BoundedAdmissionGate where
    "g0 = \<lparr>capacity = 1, waiter_limit = 1, wait_timeout_seconds = 5, active = 0, waiters = [],
       waiter_state = (\<lambda>_. Abandoned), future = (\<lambda>_. Cancelled), next_waiter = 0, acquired_total = 0,
       cancelled_total = 0, rejected = []\<rparr>"
  have s0: "gate_reachable \<lparr>gate = g0, leases = 0, delivered = {}\<rparr>"
    by (rule gate_reachable.init [of 1 1 5]) (simp add: new_gate_def g0_def)
  have s1: "gate_reachable \<lparr>gate = claim_slot g0, leases = 1, delivered = {}\<rparr>"
    using gate_reachable.step [OF s0 gate_step.acquire_now [of None _ "claim_slot g0"]]
    by (simp add: begin_acquire_def g0_def claim_slot_def)
  have "begin_acquire None (claim_slot g0) = (Inr (Waiting 0), sample_gate)"
    by (auto simp: begin_acquire_def g0_def claim_slot_def sample_gate_def)
  with gate_reachable.step [OF s1 gate_step.acquire_wait [of None _ 0 sample_gate]] show ?thesis by simp
qed

theorem bounded_gate_safe_witness:
  "gate_reachable \<lparr>gate = sample_gate, leases = 1, delivered = {}\<rparr> \<and> active sample_gate \<le> capacity sample_gate \<and>
   (\<exists>g. release_slot (\<lambda>_. 9) sample_gate = Inr g)"
  using sample_gate_reachable bounded_gate_safe [OF sample_gate_reachable, of "\<lambda>_. 9"] by simp

text \<open>A second caller comes to wait; then the slot is released, to the first of the two.\<close>

definition sample_gate2 :: BoundedAdmissionGate where
  "sample_gate2 = sample_gate\<lparr>waiter_limit := 2, waiters := [0, 1], waiter_state := (\<lambda>w. if w \<le> 1 then Queued else Abandoned),
     future := (\<lambda>w. if w \<le> 1 then Pending else Cancelled), next_waiter := 2\<rparr>"

lemma busy_gate_reachable:
  "gate_reachable \<lparr>gate = sample_gate\<lparr>waiter_limit := 2, waiters := [], waiter_state := (\<lambda>_. Abandoned),
     future := (\<lambda>_. Cancelled), next_waiter := 0\<rparr>, leases = 1, delivered = {}\<rparr>" (is "gate_reachable ?s")
proof -
  let ?g = "\<lparr>capacity = 1, waiter_limit = 2, wait_timeout_seconds = 5, active = 0, waiters = [],
       waiter_state = (\<lambda>_. Abandoned), future = (\<lambda>_. Cancelled), next_waiter = 0, acquired_total = 0,
       cancelled_total = 0, rejected = []\<rparr>"
  have "gate_reachable \<lparr>gate = ?g, leases = 0, delivered = {}\<rparr>"
    by (rule gate_reachable.init [of 1 2 5]) (simp add: new_gate_def)
  from gate_reachable.step [OF this gate_step.acquire_now [of None _ "claim_slot ?g"]] show ?thesis
    by (simp add: begin_acquire_def claim_slot_def sample_gate_def)
qed

theorem gate_first_come_first_served_witness:
  "\<exists>g n. release_slot (\<lambda>_. 9) sample_gate2 = Inr g \<and> waiters sample_gate2 = take n (waiters sample_gate2) @ waiters g \<and>
     n = 1 \<and> waiters g = [1] \<and> waiter_state g 0 = Granted"
proof -
  let ?g0 = "sample_gate\<lparr>waiter_limit := 2, waiters := [], waiter_state := (\<lambda>_. Abandoned), future := (\<lambda>_. Cancelled), next_waiter := 0\<rparr>"
  let ?g1 = "sample_gate\<lparr>waiter_limit := 2\<rparr>"
  let ?s = "\<lambda>g. \<lparr>gate = g, leases = 1, delivered = {}\<rparr>"
  have first: "begin_acquire None (gate (?s ?g0)) = (Inr (Waiting 0), ?g1)"
    by (auto simp: begin_acquire_def sample_gate_def)
  have second: "begin_acquire None (gate ((?s ?g0)\<lparr>gate := ?g1\<rparr>)) = (Inr (Waiting 1), sample_gate2)"
    by (auto simp: begin_acquire_def sample_gate_def sample_gate2_def fun_eq_iff)
  obtain g where g: "release_slot (\<lambda>_. 9) sample_gate2 = Inr g" "waiters g = [1]" "waiter_state g 0 = Granted"
    by (simp add: release_slot_def promote_waiters_def claim_slot_def sample_gate2_def sample_gate_def)
  from gate_first_come_first_served [OF busy_gate_reachable first rtranclp.rtrancl_refl second rtranclp.rtrancl_refl,
      of "\<lambda>_. 9" g] g
  show ?thesis by (auto simp: sample_gate2_def sample_gate_def)
qed

text \<open>Without queueing the gate is a slot gate, so leases account for its slots.\<close>

lemma promote_empty: "waiters g = [] \<Longrightarrow> promote_waiters clk g = g"
  by (simp add: promote_waiters_def)

interpretation counted_gate: slot_gate active try_acquire "release_slot clk" "\<lambda>g. waiters g = []" for clk
  by unfold_locales
    (auto simp: try_acquire_def claim_slot_def release_slot_def promote_empty split: if_splits)

end
