(* ===== verification/FairBodyQueue.thy ===== *)
theory FairBodyQueue
  imports Py_Prelude
begin

text \<open>
  \<open>_FairBodyMemoryWaitQueue\<close> of \<open>uni_api/admission/core.py\<close>: requests that wait for body memory,
  in two lanes (small and large bodies), tenants taking turns within a lane. At most one waiter per
  lane has the turn; the others wait until it finishes, until memory is released, or until they
  time out. Waiters are numbered; their tenant, lane, state and future are fields by number.

  Every sequence of operations keeps \<open>queue_inv\<close>; a waiter is overtaken at most as often as there are names before its
  tenant's in the ring. The ring may hold a name twice (\<open>tenant_served_twice_after_timeout\<close>), which the bound allows for.
\<close>

section \<open>State\<close>

datatype body_waiter_state = Queued | Granted | Abandoned

datatype queue_error = ValueError string | TimeoutError | RuntimeError string

record FairQueue =
  limit :: "int option"
  queues :: "bool \<Rightarrow> (string, nat list) dict"
  tenant_round_robin :: "bool \<Rightarrow> string list"
  active_turn :: "bool \<Rightarrow> bool"
  promotion_enabled :: "bool \<Rightarrow> bool"
  waiter_count :: int
  peak :: int
  grants :: nat
  timeouts :: nat
  queue_full :: nat
  next_waiter :: nat
  tenant_key :: "nat \<Rightarrow> string"
  small_lane :: "nat \<Rightarrow> bool"
  waiter_state :: "nat \<Rightarrow> body_waiter_state"
  future_done :: "nat \<Rightarrow> bool"

definition new_queue :: "int option \<Rightarrow> queue_error + FairQueue" where
  "new_queue bound =
     (if (case bound of Some l \<Rightarrow> l < 0 | None \<Rightarrow> False)
      then Inl (ValueError ''body memory waiter limit cannot be negative'')
      else Inr \<lparr>limit = bound, queues = (\<lambda>_. []), tenant_round_robin = (\<lambda>_. []),
                active_turn = (\<lambda>_. False), promotion_enabled = (\<lambda>_. True),
                waiter_count = 0, peak = 0, grants = 0, timeouts = 0, queue_full = 0,
                next_waiter = 0, tenant_key = (\<lambda>_. []), small_lane = (\<lambda>_. False),
                waiter_state = (\<lambda>_. Abandoned), future_done = (\<lambda>_. True)\<rparr>)"

definition queued_in :: "(string, nat list) dict \<Rightarrow> nat" where
  "queued_in qs = sum_list (map (\<lambda>(_, q). length q) qs)"

definition count_for_lane :: "bool \<Rightarrow> FairQueue \<Rightarrow> nat" where
  "count_for_lane lane f = queued_in (queues f lane)"

definition has_waiters :: "bool \<Rightarrow> FairQueue \<Rightarrow> bool" where
  "has_waiters lane f \<longleftrightarrow> active_turn f lane \<or> 0 < count_for_lane lane f"

section \<open>Operations\<close>

lemma queued_in_update:
  "map_of qs t = Some q \<Longrightarrow> queued_in (AList.update t q' qs) + length q = queued_in qs + length q'"
  by (induction qs) (auto simp: queued_in_def)

lemma queued_in_delete: "queued_in (AList.delete t qs) \<le> queued_in qs"
  by (induction qs) (auto simp: queued_in_def)

lemma queued_in_delete_Some: "map_of qs t = Some q \<Longrightarrow> queued_in (AList.delete t qs) + length q \<le> queued_in qs"
  using queued_in_delete [of t] by (induction qs) (auto simp: queued_in_def)

text \<open>A tenant's queue is stored only while it is not empty.\<close>

definition set_queue :: "string \<Rightarrow> nat list \<Rightarrow> (string, nat list) dict \<Rightarrow> (string, nat list) dict" where
  "set_queue tenant q qs = (if q \<noteq> [] then AList.update tenant q qs else AList.delete tenant qs)"

text \<open>
  The \<open>while round_robin\<close> loop of \<open>_promote\<close>: the next waiter that still waits, taking tenants in
  turn. Tenants without a queue fall out of the ring; a tenant with more waiters goes to its end.
\<close>

function pick_waiter ::
  "(nat \<Rightarrow> bool) \<Rightarrow> string list \<Rightarrow> (string, nat list) dict \<Rightarrow> int
   \<Rightarrow> nat option \<times> string list \<times> (string, nat list) dict \<times> int" where
  "pick_waiter waits [] qs c = (None, [], qs, c)"
| "pick_waiter waits (tenant # rr) qs c =
     (case map_of qs tenant of
        None \<Rightarrow> pick_waiter waits rr (AList.delete tenant qs) c
      | Some [] \<Rightarrow> pick_waiter waits rr (AList.delete tenant qs) c
      | Some (w # q) \<Rightarrow>
          (let rr' = (if q \<noteq> [] then rr @ [tenant] else rr);
               qs' = set_queue tenant q qs
           in if waits w then (Some w, rr', qs', c - 1) else pick_waiter waits rr' qs' (c - 1)))"
  by pat_completeness auto
termination
proof (relation "measure (\<lambda>(waits, rr, qs, c). length rr + queued_in qs)", goal_cases)
  case (2 waits tenant rr qs c)
  then show ?case using queued_in_delete [of tenant qs] by simp
next
  case (3 waits tenant rr qs c xs)
  then show ?case using queued_in_delete [of tenant qs] by simp
next
  case (4 waits tenant rr qs c xs w q rr' qs')
  then show ?case
    using queued_in_update [of qs tenant "w # q" q] queued_in_delete_Some [of qs tenant "w # q"]
    by (auto simp: set_queue_def)
qed simp

definition promote :: "bool \<Rightarrow> FairQueue \<Rightarrow> FairQueue" where
  "promote lane f =
     (if active_turn f lane \<or> \<not> promotion_enabled f lane then f
      else
        let (picked, rr, qs, c) =
              pick_waiter (\<lambda>w. waiter_state f w = Queued \<and> \<not> future_done f w)
                (tenant_round_robin f lane) (queues f lane) (waiter_count f);
            f1 = f\<lparr>tenant_round_robin := (tenant_round_robin f)(lane := rr),
                   queues := (queues f)(lane := qs), waiter_count := c\<rparr>
        in (case picked of
              None \<Rightarrow> f1
            | Some w \<Rightarrow> f1\<lparr>waiter_state := (waiter_state f)(w := Granted),
                           active_turn := (active_turn f)(lane := True),
                           grants := grants f + 1,
                           future_done := (future_done f)(w := True)\<rparr>))"

text \<open>\<open>wait_turn\<close> up to its \<open>await\<close>: the waiter is queued and the lane promoted.\<close>

definition normalized_tenant :: "string \<Rightarrow> string" where
  "normalized_tenant t = take 96 (if t = [] then ''anonymous'' else t)"

definition wait_turn_begin ::
  "string \<Rightarrow> bool \<Rightarrow> time \<Rightarrow> FairQueue \<Rightarrow> (queue_error + nat) \<times> FairQueue" where
  "wait_turn_begin tenant lane timeout_seconds f =
     (if timeout_seconds \<le> 0 then (Inl TimeoutError, f)
      else if (case limit f of Some l \<Rightarrow> l \<le> waiter_count f | None \<Rightarrow> False)
      then (Inl TimeoutError, f\<lparr>queue_full := queue_full f + 1\<rparr>)
      else
        let t = normalized_tenant tenant;
            w = next_waiter f;
            qs = queues f lane;
            rr = tenant_round_robin f lane;
            (qs', rr') = (case map_of qs t of
                            None \<Rightarrow> (AList.update t [w] qs, rr @ [t])
                          | Some q \<Rightarrow> (AList.update t (q @ [w]) qs, rr));
            f1 = f\<lparr>queues := (queues f)(lane := qs'),
                   tenant_round_robin := (tenant_round_robin f)(lane := rr'),
                   waiter_count := waiter_count f + 1, peak := max (peak f) (waiter_count f + 1),
                   next_waiter := w + 1, tenant_key := (tenant_key f)(w := t),
                   small_lane := (small_lane f)(w := lane),
                   waiter_state := (waiter_state f)(w := Queued),
                   future_done := (future_done f)(w := False)\<rparr>
        in (Inr w, promote lane f1))"

definition finish_turn :: "bool \<Rightarrow> FairQueue \<Rightarrow> queue_error + FairQueue" where
  "finish_turn lane f =
     (if \<not> active_turn f lane then Inl (RuntimeError ''body memory wait turn underflow'')
      else Inr (promote lane (f\<lparr>active_turn := (active_turn f)(lane := False)\<rparr>)))"

definition block_until_release :: "bool \<Rightarrow> FairQueue \<Rightarrow> FairQueue" where
  "block_until_release lane f = f\<lparr>promotion_enabled := (promotion_enabled f)(lane := False)\<rparr>"

definition notify_memory_released :: "FairQueue \<Rightarrow> FairQueue" where
  "notify_memory_released f =
     promote False ((\<lambda>f1. f1\<lparr>promotion_enabled := (promotion_enabled f1)(False := True)\<rparr>)
       (promote True (f\<lparr>promotion_enabled := (promotion_enabled f)(True := True)\<rparr>)))"

definition remove_waiter :: "nat \<Rightarrow> FairQueue \<Rightarrow> queue_error + FairQueue" where
  "remove_waiter w f =
     (case waiter_state f w of
        Granted \<Rightarrow> finish_turn (small_lane f w) (f\<lparr>waiter_state := (waiter_state f)(w := Abandoned)\<rparr>)
      | Abandoned \<Rightarrow> Inr f
      | Queued \<Rightarrow>
          (let f1 = f\<lparr>waiter_state := (waiter_state f)(w := Abandoned)\<rparr>;
               lane = small_lane f w; t = tenant_key f w; qs = queues f lane in
           case map_of qs t of
             None \<Rightarrow> Inr f1
           | Some q \<Rightarrow>
               (let q' = remove1 w q;
                    c = (if w \<in> set q then waiter_count f - 1 else waiter_count f)
                in Inr (f1\<lparr>queues := (queues f)(lane := set_queue t q' qs), waiter_count := c\<rparr>))))"

text \<open>The two ways a wait ends without the turn.\<close>

definition wait_turn_timeout :: "nat \<Rightarrow> FairQueue \<Rightarrow> queue_error + FairQueue" where
  "wait_turn_timeout w f = remove_waiter w (f\<lparr>timeouts := timeouts f + 1\<rparr>)"

definition wait_turn_cancelled :: "nat \<Rightarrow> FairQueue \<Rightarrow> queue_error + FairQueue" where
  "wait_turn_cancelled w f = remove_waiter w f"

definition queue_snapshot :: "FairQueue \<Rightarrow> (string, int) dict" where
  "queue_snapshot f =
     [(''body_memory_waiters'', waiter_count f),
      (''body_memory_small_waiters'', int (count_for_lane True f)),
      (''body_memory_large_waiters'', int (count_for_lane False f)),
      (''body_memory_small_turn_active'', of_bool (active_turn f True)),
      (''body_memory_large_turn_active'', of_bool (active_turn f False)),
      (''body_memory_waiter_peak'', peak f),
      (''body_memory_wait_grants'', int (grants f)),
      (''body_memory_wait_timeouts'', int (timeouts f)),
      (''body_memory_wait_queue_full'', int (queue_full f))]"

section \<open>What a lane looks like\<close>

text \<open>
  In a well-formed lane every queue is non-empty, belongs to a tenant of the ring, and holds
  distinct waiters of that tenant and lane that still wait; and every such waiter is in its queue.
\<close>

definition lane_ok :: "FairQueue \<Rightarrow> bool \<Rightarrow> bool" where
  "lane_ok f lane \<longleftrightarrow>
     distinct_keys (queues f lane) \<and>
     (\<forall>t q. map_of (queues f lane) t = Some q \<longrightarrow>
        q \<noteq> [] \<and> t \<in> set (tenant_round_robin f lane) \<and> distinct q \<and>
        (\<forall>w \<in> set q. waiter_state f w = Queued \<and> \<not> future_done f w \<and>
           tenant_key f w = t \<and> small_lane f w = lane)) \<and>
     (\<forall>w. waiter_state f w = Queued \<and> small_lane f w = lane \<longrightarrow>
        (\<exists>q. map_of (queues f lane) (tenant_key f w) = Some q \<and> w \<in> set q))"

definition queue_core :: "FairQueue \<Rightarrow> bool" where
  "queue_core f \<longleftrightarrow>
     (\<forall>lane. lane_ok f lane) \<and> (\<forall>w. next_waiter f \<le> w \<longrightarrow> waiter_state f w = Abandoned) \<and>
     waiter_count f = int (count_for_lane True f) + int (count_for_lane False f) \<and>
     (\<forall>l. limit f = Some l \<longrightarrow> waiter_count f \<le> l)"

lemma lane_queue:
  "lane_ok f lane \<Longrightarrow> map_of (queues f lane) t = Some q \<Longrightarrow>
     q \<noteq> [] \<and> t \<in> set (tenant_round_robin f lane) \<and> distinct q \<and>
     (\<forall>w \<in> set q. waiter_state f w = Queued \<and> \<not> future_done f w \<and>
        tenant_key f w = t \<and> small_lane f w = lane)"
  unfolding lane_ok_def by blast

lemma lane_waiter:
  "lane_ok f l \<Longrightarrow> waiter_state f w = Queued \<Longrightarrow> small_lane f w = l \<Longrightarrow>
     \<exists>q. map_of (queues f l) (tenant_key f w) = Some q \<and> w \<in> set q"
  unfolding lane_ok_def by blast

lemma lane_ok_cong:
  assumes ok: "lane_ok f l"
    and "queues g l = queues f l" "tenant_round_robin g l = tenant_round_robin f l"
    and same: "\<And>x. waiter_state g x = Queued \<and> small_lane g x = l \<or>
        waiter_state f x = Queued \<and> small_lane f x = l \<Longrightarrow>
      small_lane g x = small_lane f x \<and> tenant_key g x = tenant_key f x \<and>
      waiter_state g x = waiter_state f x \<and> future_done g x = future_done f x"
  shows "lane_ok g l"
  unfolding lane_ok_def assms(2,3)
proof (intro conjI; (intro allI impI)?)
  show "distinct_keys (queues f l)" using ok by (simp add: lane_ok_def)
  show "q \<noteq> [] \<and> t \<in> set (tenant_round_robin f l) \<and> distinct q \<and>
     (\<forall>w \<in> set q. waiter_state g w = Queued \<and> \<not> future_done g w \<and>
        tenant_key g w = t \<and> small_lane g w = l)" if "map_of (queues f l) t = Some q" for t q
  proof -
    note q = lane_queue [OF ok that]
    have "waiter_state g w = Queued \<and> \<not> future_done g w \<and> tenant_key g w = t \<and> small_lane g w = l"
      if "w \<in> set q" for w
      using q that same [of w] by simp
    with q show ?thesis by blast
  qed
  show "\<exists>q. map_of (queues f l) (tenant_key g w) = Some q \<and> w \<in> set q"
    if "waiter_state g w = Queued \<and> small_lane g w = l" for w
    using lane_waiter [OF ok, of w] same [of w] that by simp
qed

text \<open>No lost wake-up: an idle lane that may promote has nobody waiting.\<close>

definition lane_ready :: "FairQueue \<Rightarrow> bool \<Rightarrow> bool" where
  "lane_ready f lane \<longleftrightarrow> (promotion_enabled f lane \<and> \<not> active_turn f lane \<longrightarrow> queues f lane = [])"

definition queue_inv :: "FairQueue \<Rightarrow> bool" where
  "queue_inv f \<longleftrightarrow> queue_core f \<and> (\<forall>lane. lane_ready f lane)"

text \<open>What the loop finds when every queued waiter waits: the first tenant of the ring with a queue.\<close>

lemma pick_waiter_first:
  assumes "\<forall>t q. map_of qs t = Some q \<longrightarrow> q \<noteq> [] \<and> (\<forall>w \<in> set q. waits w)"
  shows "pick_waiter waits rr qs c =
    (case dropWhile (\<lambda>t. map_of qs t = None) rr of
       [] \<Rightarrow> (None, [], qs, c)
     | t # rest \<Rightarrow>
         (let q = the (map_of qs t) in
          (Some (hd q),
           if tl q \<noteq> [] then rest @ [t] else rest,
           set_queue t (tl q) qs,
           c - 1)))"
proof (induction rr)
  case (Cons t rr)
  show ?case
  proof (cases "map_of qs t")
    case None
    then have "AList.delete t qs = qs" by (intro delete_absent) (auto simp: map_of_eq_None_iff)
    with None Cons show ?thesis by simp
  next
    case (Some q)
    with assms obtain w q' where "q = w # q'" "waits w" by (cases q) auto
    with Some show ?thesis by (simp add: Let_def)
  qed
qed simp

lemma dropWhile_Cons_split:
  "dropWhile P xs = y # ys \<Longrightarrow> \<exists>zs. xs = zs @ y # ys \<and> (\<forall>z \<in> set zs. P z) \<and> \<not> P y"
  by (metis dropWhile_eq_Cons_conv takeWhile_dropWhile_id set_takeWhileD hd_dropWhile list.distinct(1) list.sel(1))

lemma lane_ok_pick:
  assumes ok: "lane_ok f lane" and "\<not> active_turn f lane" "promotion_enabled f lane"
  obtains (empty) "queues f lane = []"
      "promote lane f = f\<lparr>tenant_round_robin := (tenant_round_robin f)(lane := [])\<rparr>"
  | (grant) t w q rest zs where "map_of (queues f lane) t = Some (w # q)"
      "set rest \<union> {t} \<supseteq> {t. map_of (queues f lane) t \<noteq> None}"
      "promote lane f = f\<lparr>
         tenant_round_robin := (tenant_round_robin f)(lane := if q \<noteq> [] then rest @ [t] else rest),
         queues := (queues f)(lane := set_queue t q (queues f lane)),
         waiter_count := waiter_count f - 1,
         waiter_state := (waiter_state f)(w := Granted),
         active_turn := (active_turn f)(lane := True), grants := grants f + 1,
         future_done := (future_done f)(w := True)\<rparr>"
      "tenant_round_robin f lane = zs @ t # rest" "\<forall>z \<in> set zs. map_of (queues f lane) z = None"
proof -
  let ?qs = "queues f lane" and ?rr = "tenant_round_robin f lane"
  have good: "\<forall>t q. map_of ?qs t = Some q \<longrightarrow>
      q \<noteq> [] \<and> (\<forall>w \<in> set q. waiter_state f w = Queued \<and> \<not> future_done f w)"
    and ring: "\<And>t. map_of ?qs t \<noteq> None \<Longrightarrow> t \<in> set ?rr"
    using ok by (auto simp: lane_ok_def)
  note pick = pick_waiter_first [OF good, of ?rr "waiter_count f"]
  show thesis
  proof (cases "dropWhile (\<lambda>t. map_of ?qs t = None) ?rr")
    case Nil
    then have "\<forall>t \<in> set ?rr. map_of ?qs t = None" by (simp add: dropWhile_eq_Nil_conv)
    then have none: "map_of ?qs = (\<lambda>_. None)" using ring by blast
    have qs: "?qs = []" using none by (simp add: map_of_eq_empty_iff)
    have "pick_waiter (\<lambda>w. waiter_state f w = Queued \<and> \<not> future_done f w) ?rr ?qs (waiter_count f) =
        (None, [], ?qs, waiter_count f)" using pick Nil by simp
    with assms(2,3) show thesis by (intro empty [OF qs]) (simp add: promote_def)
  next
    case (Cons t rest)
    from dropWhile_Cons_split [OF this] obtain zs where
      zs: "?rr = zs @ t # rest" "\<forall>z \<in> set zs. map_of ?qs z = None" "map_of ?qs t \<noteq> None" by auto
    with good obtain w q where t: "map_of ?qs t = Some (w # q)" by (metis list.exhaust not_Some_eq)
    have "set rest \<union> {t} \<supseteq> {t. map_of ?qs t \<noteq> None}" using ring zs by fastforce
    with t Cons assms(2,3) pick zs show thesis
      by (intro grant [OF t]) (auto simp: promote_def Let_def)
  qed
qed

lemma map_of_set_queue [simp]:
  "map_of (set_queue t q qs) = (map_of qs)(t := if q = [] then None else Some q)"
  by (simp add: set_queue_def update_conv' delete_conv')

lemma distinct_keys_set_queue [simp]: "distinct_keys qs \<Longrightarrow> distinct_keys (set_queue t q qs)"
  by (simp add: set_queue_def)

lemma queued_in_set_queue:
  "distinct_keys qs \<Longrightarrow> map_of qs t = Some q \<Longrightarrow> queued_in (set_queue t q' qs) + length q = queued_in qs + length q'"
  using queued_in_update [of qs t q q']
  by (induction qs) (auto simp: set_queue_def queued_in_def distinct_keys_def delete_absent split: if_splits)

lemma count_for_lane_upd [simp]:
  "count_for_lane lane (f\<lparr>queues := qs\<rparr>) = queued_in (qs lane)"
  by (simp add: count_for_lane_def)

lemma all_lanes: "(\<forall>l. P l) \<longleftrightarrow> P lane \<and> P (\<not> lane)"
proof
  assume p: "P lane \<and> P (\<not> lane)"
  show "\<forall>l. P l"
  proof
    fix l
    show "P l" using p by (cases l; cases lane) simp_all
  qed
qed simp

lemma queue_coreI:
  assumes "lane_ok f lane" "lane_ok f (\<not> lane)"
    and "\<And>w. next_waiter f \<le> w \<Longrightarrow> waiter_state f w = Abandoned"
    and "waiter_count f = int (count_for_lane lane f) + int (count_for_lane (\<not> lane) f)"
    and "\<And>l. limit f = Some l \<Longrightarrow> waiter_count f \<le> l"
  shows "queue_core f"
  unfolding queue_core_def all_lanes [of "lane_ok f" lane] using assms by (cases lane) auto

lemma queue_coreD:
  assumes "queue_core f"
  shows "lane_ok f l" "next_waiter f \<le> w \<Longrightarrow> waiter_state f w = Abandoned"
    "waiter_count f = int (count_for_lane l f) + int (count_for_lane (\<not> l) f)"
    "limit f = Some n \<Longrightarrow> waiter_count f \<le> n"
  using assms unfolding queue_core_def by (blast, blast, cases l, auto)

lemma body_promote_core:
  assumes "queue_core f"
  shows "queue_core (promote lane f) \<and> lane_ready (promote lane f) lane \<and>
    (lane_ready (promote lane f) (\<not> lane) = lane_ready f (\<not> lane))"
proof (cases "active_turn f lane \<or> \<not> promotion_enabled f lane")
  case True
  with assms show ?thesis by (auto simp: promote_def lane_ready_def)
next
  case False
  have ok: "lane_ok f l" for l using assms by (simp add: queue_core_def)
  show ?thesis
  proof (cases rule: lane_ok_pick [OF ok [of lane], case_names ina en empty grant])
    case empty
    then show ?thesis
      using assms by (auto simp: queue_core_def lane_ready_def lane_ok_def count_for_lane_def)
  next
    case (grant t w q rest zs)
    let ?f = "promote lane f"
    note waiting = lane_queue [OF ok grant(1)]
    then have w: "waiter_state f w = Queued" "small_lane f w = lane" "tenant_key f w = t" "distinct (w # q)"
      by simp_all
    have fields: "queues ?f = (queues f)(lane := set_queue t q (queues f lane))"
      "waiter_state ?f = (waiter_state f)(w := Granted)" "future_done ?f = (future_done f)(w := True)"
      "tenant_key ?f = tenant_key f" "small_lane ?f = small_lane f" "next_waiter ?f = next_waiter f"
      "waiter_count ?f = waiter_count f - 1" "limit ?f = limit f"
      "active_turn ?f = (active_turn f)(lane := True)" "promotion_enabled ?f = promotion_enabled f"
      "tenant_round_robin ?f = (tenant_round_robin f)(lane := if q \<noteq> [] then rest @ [t] else rest)"
      using grant(3) by simp_all
    have "lane_ok ?f lane"
      unfolding lane_ok_def fields
    proof (intro conjI; (intro allI impI)?)
      show "distinct_keys (((queues f)(lane := set_queue t q (queues f lane))) lane)"
        using ok [of lane] by (simp add: lane_ok_def)
    next
      fix u p assume "map_of (((queues f)(lane := set_queue t q (queues f lane))) lane) u = Some p"
      then consider (same) "u = t" "p = q" "q \<noteq> []" | (other) "u \<noteq> t" "map_of (queues f lane) u = Some p"
        by (auto split: if_splits)
      then show "p \<noteq> [] \<and>
         u \<in> set (((tenant_round_robin f)(lane := if q \<noteq> [] then rest @ [t] else rest)) lane) \<and>
         distinct p \<and> (\<forall>x \<in> set p. ((waiter_state f)(w := Granted)) x = Queued \<and>
           \<not> ((future_done f)(w := True)) x \<and> tenant_key f x = u \<and> small_lane f x = lane)"
      proof cases
        case same
        with waiting w(4) show ?thesis by auto
      next
        case other
        note p = lane_queue [OF ok other(2)]
        have "u \<in> set rest" using grant(2) other by auto
        moreover have "w \<notin> set p" using p w(3) other(1) by auto
        ultimately show ?thesis using p by auto
      qed
    next
      fix x assume x: "((waiter_state f)(w := Granted)) x = Queued \<and> small_lane f x = lane"
      then have "x \<noteq> w" by auto
      with x lane_waiter [OF ok, of x lane] obtain p where
        "map_of (queues f lane) (tenant_key f x) = Some p" "x \<in> set p" by auto
      with grant(1) \<open>x \<noteq> w\<close>
      show "\<exists>p. map_of (((queues f)(lane := set_queue t q (queues f lane))) lane) (tenant_key f x) = Some p \<and>
          x \<in> set p"
        by (cases "tenant_key f x = t") (simp_all, force)
    qed
    moreover have "lane_ok ?f (\<not> lane)"
      by (rule lane_ok_cong [OF ok]) (use w(2) in \<open>auto simp: fields\<close>)
    moreover have "queued_in (set_queue t q (queues f lane)) + 1 = queued_in (queues f lane)"
      using queued_in_set_queue [of "queues f lane" t "w # q" q] grant(1) ok [of lane]
      by (simp add: lane_ok_def)
    ultimately have "queue_core ?f"
      using queue_coreD(2,4) [OF assms] queue_coreD(3) [OF assms, of lane] w(1)
      by (intro queue_coreI [of _ lane]) (fastforce simp: count_for_lane_def fields)+
    then show ?thesis by (simp add: lane_ready_def fields)
  qed (use False in auto)
qed

lemma queue_core_abandon:
  assumes "queue_core f" and "waiter_state f w \<noteq> Queued"
  shows "queue_core (f\<lparr>waiter_state := (waiter_state f)(w := Abandoned)\<rparr>)"
proof -
  let ?f = "f\<lparr>waiter_state := (waiter_state f)(w := Abandoned)\<rparr>"
  have "lane_ok ?f l" for l
    unfolding lane_ok_def
  proof (intro conjI; (intro allI impI)?)
    show "distinct_keys (queues ?f l)" using queue_coreD(1) [OF assms(1), of l] by (simp add: lane_ok_def)
  next
    fix t q assume "map_of (queues ?f l) t = Some q"
    then have q: "map_of (queues f l) t = Some q" by simp
    note waiting = lane_queue [OF queue_coreD(1) [OF assms(1)] q]
    then have "w \<notin> set q" using assms(2) by blast
    with waiting show "q \<noteq> [] \<and> t \<in> set (tenant_round_robin ?f l) \<and> distinct q \<and>
       (\<forall>x \<in> set q. waiter_state ?f x = Queued \<and> \<not> future_done ?f x \<and>
          tenant_key ?f x = t \<and> small_lane ?f x = l)" by auto
  next
    fix x assume "waiter_state ?f x = Queued \<and> small_lane ?f x = l"
    then show "\<exists>q. map_of (queues ?f l) (tenant_key ?f x) = Some q \<and> x \<in> set q"
      using lane_waiter [OF queue_coreD(1) [OF assms(1)], of x l] by (auto split: if_splits)
  qed
  then show ?thesis
    using queue_coreD(2,4) [OF assms(1)] queue_coreD(3) [OF assms(1), of True]
    by (intro queue_coreI [of _ True]) (auto simp: count_for_lane_def)
qed

lemma queue_core_fields:
  assumes "queue_core f"
    and "queues g = queues f" "tenant_round_robin g = tenant_round_robin f" "tenant_key g = tenant_key f"
      "small_lane g = small_lane f" "waiter_state g = waiter_state f" "future_done g = future_done f"
      "next_waiter g = next_waiter f" "waiter_count g = waiter_count f" "limit g = limit f"
  shows "queue_core g"
proof (rule queue_coreI [of g True])
  show "lane_ok g True" "lane_ok g (\<not> True)"
    using lane_ok_cong [OF queue_coreD(1) [OF assms(1)], of g] assms(2-) by simp_all
qed (use queue_coreD(2,4) [OF assms(1)] queue_coreD(3) [OF assms(1), of True] assms(2-)
  in \<open>simp_all add: count_for_lane_def\<close>)

section \<open>The operations keep the queue well-formed\<close>

lemma queue_invI: "queue_core f \<Longrightarrow> lane_ready f lane \<Longrightarrow> lane_ready f (\<not> lane) \<Longrightarrow> queue_inv f"
  by (simp add: queue_inv_def all_lanes [of _ lane])

lemma promote_inv:
  "queue_core f \<Longrightarrow> lane_ready f (\<not> lane) \<Longrightarrow> queue_inv (promote lane f)"
  by (rule queue_invI [of _ lane]) (blast dest: body_promote_core)+

lemma new_queue_inv [inv_rules]: "new_queue bound = Inr f \<Longrightarrow> queue_inv f"
  by (auto simp: new_queue_def queue_inv_def queue_core_def lane_ok_def lane_ready_def
    count_for_lane_def queued_in_def split: if_splits option.splits)

lemma finish_turn_inv [inv_rules]:
  assumes "queue_core f" "lane_ready f (\<not> lane)" "finish_turn lane f = Inr g"
  shows "queue_inv g"
proof -
  let ?f = "f\<lparr>active_turn := (active_turn f)(lane := False)\<rparr>"
  have "queue_core ?f" by (rule queue_core_fields [OF assms(1)]) simp_all
  moreover have "lane_ready ?f (\<not> lane)" using assms(2) by (simp add: lane_ready_def)
  ultimately show ?thesis using assms(3) promote_inv by (auto simp: finish_turn_def split: if_splits)
qed

lemma block_until_release_inv [inv_rules]:
  assumes "queue_inv f" shows "queue_inv (block_until_release lane f)"
proof -
  have "queue_core (block_until_release lane f)"
    by (rule queue_core_fields [of f]) (use assms in \<open>simp_all add: queue_inv_def block_until_release_def\<close>)
  then show ?thesis using assms by (simp add: queue_inv_def lane_ready_def block_until_release_def)
qed

lemma notify_memory_released_inv [inv_rules]:
  assumes "queue_inv f" shows "queue_inv (notify_memory_released f)"
proof -
  have enable: "queue_core (f\<lparr>promotion_enabled := (promotion_enabled f)(l := True)\<rparr>)"
    "lane_ready (f\<lparr>promotion_enabled := (promotion_enabled f)(l := True)\<rparr>) (\<not> l)"
    if "queue_inv f" for f l
    using that by (auto simp: queue_inv_def lane_ready_def intro!: queue_core_fields [of f])
  show ?thesis
    unfolding notify_memory_released_def
    using promote_inv [OF enable [OF promote_inv [OF enable [OF assms, of True]], of False]] by simp
qed

text \<open>What joining a lane does before the promotion.\<close>

definition enqueue :: "string \<Rightarrow> bool \<Rightarrow> FairQueue \<Rightarrow> FairQueue" where
  "enqueue t lane f =
     (let w = next_waiter f; qs = queues f lane; rr = tenant_round_robin f lane;
          (qs', rr') = (case map_of qs t of
                          None \<Rightarrow> (AList.update t [w] qs, rr @ [t])
                        | Some q \<Rightarrow> (AList.update t (q @ [w]) qs, rr))
      in f\<lparr>queues := (queues f)(lane := qs'),
           tenant_round_robin := (tenant_round_robin f)(lane := rr'),
           waiter_count := waiter_count f + 1, peak := max (peak f) (waiter_count f + 1),
           next_waiter := w + 1, tenant_key := (tenant_key f)(w := t),
           small_lane := (small_lane f)(w := lane),
           waiter_state := (waiter_state f)(w := Queued),
           future_done := (future_done f)(w := False)\<rparr>)"

lemma wait_turn_begin_eq:
  "wait_turn_begin tenant lane timeout f =
     (if timeout \<le> 0 then (Inl TimeoutError, f)
      else if (case limit f of Some l \<Rightarrow> l \<le> waiter_count f | None \<Rightarrow> False)
      then (Inl TimeoutError, f\<lparr>queue_full := queue_full f + 1\<rparr>)
      else (Inr (next_waiter f), promote lane (enqueue (normalized_tenant tenant) lane f)))"
  by (simp add: wait_turn_begin_def enqueue_def Let_def split: prod.split)

lemma enqueue_fields:
  fixes f lane t
  defines "old \<equiv> dget [] (queues f lane) t" and "g \<equiv> enqueue t lane f"
  shows "map_of (queues g lane) = (map_of (queues f lane))(t \<mapsto> old @ [next_waiter f])"
    "distinct_keys (queues f lane) \<Longrightarrow> distinct_keys (queues g lane)"
    "queued_in (queues g lane) = queued_in (queues f lane) + 1"
    "queues g (\<not> lane) = queues f (\<not> lane)"
    "tenant_round_robin g (\<not> lane) = tenant_round_robin f (\<not> lane)"
    "set (tenant_round_robin g lane) \<supseteq> set (tenant_round_robin f lane)"
    "map_of (queues f lane) t = None \<Longrightarrow> t \<in> set (tenant_round_robin g lane)"
    "waiter_count g = waiter_count f + 1" "limit g = limit f" "next_waiter g = next_waiter f + 1"
    "tenant_key g = (tenant_key f)(next_waiter f := t)"
    "small_lane g = (small_lane f)(next_waiter f := lane)"
    "waiter_state g = (waiter_state f)(next_waiter f := Queued)"
    "future_done g = (future_done f)(next_waiter f := False)"
    "active_turn g = active_turn f" "promotion_enabled g = promotion_enabled f"
proof -
  have *: "queued_in (AList.update t [next_waiter f] qs) = queued_in qs + 1" if "map_of qs t = None" for qs
    using that by (induction qs) (auto simp: queued_in_def split: if_splits)
  have **: "queued_in (AList.update t (q @ [next_waiter f]) qs) = queued_in qs + 1" if "map_of qs t = Some q" for q qs
    using queued_in_update [OF that, of "q @ [next_waiter f]"] by simp
  show "map_of (queues g lane) = (map_of (queues f lane))(t \<mapsto> old @ [next_waiter f])"
    "distinct_keys (queues f lane) \<Longrightarrow> distinct_keys (queues g lane)"
    "queued_in (queues g lane) = queued_in (queues f lane) + 1"
    "queues g (\<not> lane) = queues f (\<not> lane)"
    "tenant_round_robin g (\<not> lane) = tenant_round_robin f (\<not> lane)"
    "set (tenant_round_robin g lane) \<supseteq> set (tenant_round_robin f lane)"
    "map_of (queues f lane) t = None \<Longrightarrow> t \<in> set (tenant_round_robin g lane)"
    using * ** by (auto simp: g_def enqueue_def old_def dget_def Let_def update_conv' split: option.split)
qed (auto simp: g_def enqueue_def Let_def split: prod.split)

lemma body_enqueue_core:
  assumes core: "queue_core f" and room: "\<And>l. limit f = Some l \<Longrightarrow> waiter_count f < l"
  shows "queue_core (enqueue t lane f)"
proof (rule queue_coreI [of _ lane])
  let ?g = "enqueue t lane f" and ?w = "next_waiter f"
  note fields = enqueue_fields [where f = f and lane = lane and t = t] and ok = queue_coreD(1) [OF core]
  have fresh: "?w \<notin> set q" if "map_of (queues f l) u = Some q" for l u q
    using lane_queue [OF ok that] queue_coreD(2) [OF core, of ?w] by force
  show "lane_ok ?g lane"
    unfolding lane_ok_def
  proof (intro conjI; (intro allI impI)?)
    show "distinct_keys (queues ?g lane)"
      using ok [of lane] fields(2) by (simp add: lane_ok_def)
  next
    fix u q assume q: "map_of (queues ?g lane) u = Some q"
    show "q \<noteq> [] \<and> u \<in> set (tenant_round_robin ?g lane) \<and> distinct q \<and>
       (\<forall>x \<in> set q. waiter_state ?g x = Queued \<and> \<not> future_done ?g x \<and>
          tenant_key ?g x = u \<and> small_lane ?g x = lane)"
    proof (cases "map_of (queues f lane) u")
      case None
      with q fields(1) have "u = t" "q = [?w]" by (auto simp: dget_def split: if_splits)
      with fields(7) None show ?thesis by (simp add: fields(11-14))
    next
      case (Some p)
      note waiting = lane_queue [OF ok Some] and new = fresh [OF Some]
      have "q = (if u = t then p @ [?w] else p)"
        using q fields(1) Some by (auto simp: dget_def split: if_splits)
      with waiting new fields(6) show ?thesis by (auto simp: fields(11-14))
    qed
  next
    fix x assume x: "waiter_state ?g x = Queued \<and> small_lane ?g x = lane"
    show "\<exists>q. map_of (queues ?g lane) (tenant_key ?g x) = Some q \<and> x \<in> set q"
    proof (cases "x = ?w")
      case False
      with x have "waiter_state f x = Queued" "small_lane f x = lane" by (simp_all add: fields(11-14))
      with lane_waiter [OF ok] obtain q where "map_of (queues f lane) (tenant_key f x) = Some q" "x \<in> set q"
        by blast
      with False show ?thesis by (auto simp: fields(1,11) dget_def)
    qed (simp add: fields(1,11))
  qed
  show "lane_ok ?g (\<not> lane)"
  proof (rule lane_ok_cong [OF ok fields(4,5)])
    fix x assume "waiter_state ?g x = Queued \<and> small_lane ?g x = (\<not> lane) \<or>
      waiter_state f x = Queued \<and> small_lane f x = (\<not> lane)"
    then have "x \<noteq> ?w" using queue_coreD(2) [OF core, of ?w] by (auto simp: fields(12))
    then show "small_lane ?g x = small_lane f x \<and> tenant_key ?g x = tenant_key f x \<and>
      waiter_state ?g x = waiter_state f x \<and> future_done ?g x = future_done f x"
      by (simp add: fields)
  qed
  show "waiter_state ?g x = Abandoned" if "next_waiter ?g \<le> x" for x
    using that queue_coreD(2) [OF core, of x] by (simp add: fields)
  show "waiter_count ?g = int (count_for_lane lane ?g) + int (count_for_lane (\<not> lane) ?g)"
    using queue_coreD(3) [OF core, of lane] by (simp add: count_for_lane_def fields(3,4,8))
  show "waiter_count ?g \<le> l" if "limit ?g = Some l" for l
    using room [of l] that by (simp add: fields(8,9))
qed

lemma wait_turn_begin_inv [inv_rules]:
  assumes "queue_inv f"
  shows "queue_inv (snd (wait_turn_begin tenant lane timeout f))"
proof -
  have core: "queue_core f" using assms by (simp add: queue_inv_def)
  have "queue_core (f\<lparr>queue_full := n\<rparr>)" for n by (rule queue_core_fields [OF core]) simp_all
  then have full: "queue_inv (f\<lparr>queue_full := n\<rparr>)" for n
    using assms by (simp add: queue_inv_def lane_ready_def)
  have "queue_inv (promote lane (enqueue t lane f))" if "\<And>l. limit f = Some l \<Longrightarrow> waiter_count f < l" for t
  proof (rule promote_inv [OF body_enqueue_core [OF core that]])
    have "lane_ready f (\<not> lane)" using assms by (simp add: queue_inv_def)
    then show "lane_ready (enqueue t lane f) (\<not> lane)"
      by (simp add: lane_ready_def enqueue_fields(4,15,16))
  qed
  with full assms show ?thesis by (auto simp: wait_turn_begin_eq split: option.splits)
qed

lemma remove_queued_core:
  assumes core: "queue_core f" and queued: "waiter_state f w = Queued" and removed: "remove_waiter w f = Inr g"
  shows "queue_core g \<and> active_turn g = active_turn f \<and> promotion_enabled g = promotion_enabled f \<and>
    (\<forall>l. queues f l = [] \<longrightarrow> queues g l = [])"
proof -
  define lane t qs where "lane = small_lane f w" and "t = tenant_key f w" and "qs = queues f lane"
  note ok = queue_coreD(1) [OF core]
  from lane_waiter [OF ok queued, of lane] obtain q where q: "map_of qs t = Some q" "w \<in> set q"
    by (auto simp: lane_def t_def qs_def)
  note in_q = lane_queue [OF ok q(1) [unfolded qs_def]]
  have g: "g = f\<lparr>waiter_state := (waiter_state f)(w := Abandoned),
      queues := (queues f)(lane := set_queue t (remove1 w q) qs), waiter_count := waiter_count f - 1\<rparr>"
    using removed queued q by (simp add: remove_waiter_def Let_def lane_def t_def qs_def)
  have "queue_core g"
  proof (rule queue_coreI [of _ lane])
    show "lane_ok g lane"
      unfolding lane_ok_def
    proof (intro conjI; (intro allI impI)?)
      show "distinct_keys (queues g lane)" using ok [of lane] by (simp add: g lane_ok_def qs_def)
    next
      fix u p assume p: "map_of (queues g lane) u = Some p"
      show "p \<noteq> [] \<and> u \<in> set (tenant_round_robin g lane) \<and> distinct p \<and>
         (\<forall>x \<in> set p. waiter_state g x = Queued \<and> \<not> future_done g x \<and>
            tenant_key g x = u \<and> small_lane g x = lane)"
      proof (cases "u = t")
        case True
        with p have "p = remove1 w q" "p \<noteq> []" by (auto simp: g split: if_splits)
        with in_q True show ?thesis by (auto simp: g)
      next
        case False
        with p have u: "map_of (queues f lane) u = Some p" by (simp add: g qs_def)
        note in_p = lane_queue [OF ok u]
        then have "w \<notin> set p" using False t_def by auto
        with in_p show ?thesis by (auto simp: g)
      qed
    next
      fix x assume x: "waiter_state g x = Queued \<and> small_lane g x = lane"
      then have "x \<noteq> w" "waiter_state f x = Queued" "small_lane f x = lane" by (auto simp: g split: if_splits)
      moreover obtain p where p: "map_of (queues f lane) (tenant_key f x) = Some p" "x \<in> set p"
        using lane_waiter [OF ok, of x lane] calculation by blast
      moreover have "remove1 w p \<noteq> []" "x \<in> set (remove1 w p)"
        using p(2) \<open>x \<noteq> w\<close> in_set_remove1 [of x w p] by (auto intro: in_set_remove1 [THEN iffD2] elim: list.set_cases) (metis empty_iff in_set_remove1 list.set(1))
      ultimately show "\<exists>q. map_of (queues g lane) (tenant_key g x) = Some q \<and> x \<in> set q"
        using q(1) by (cases "tenant_key f x = t") (simp_all add: g qs_def)
    qed
    show "lane_ok g (\<not> lane)"
      by (rule lane_ok_cong [OF ok]) (auto simp: g lane_def)
    show "waiter_state g x = Abandoned" if "next_waiter g \<le> x" for x
      using that queue_coreD(2) [OF core] by (simp add: g)
    show "waiter_count g = int (count_for_lane lane g) + int (count_for_lane (\<not> lane) g)"
    proof -
      have "distinct_keys qs" using ok [of lane] by (simp add: lane_ok_def qs_def)
      moreover have "length (remove1 w q) + 1 = length q"
        using q(2) length_pos_if_in_set [OF q(2)] by (simp add: length_remove1 del: length_greater_0_conv)
      ultimately have "queued_in (set_queue t (remove1 w q) qs) + 1 = queued_in qs"
        using queued_in_set_queue [OF _ q(1), of "remove1 w q"] by simp
      then show ?thesis
        using queue_coreD(3) [OF core, of lane] by (simp add: g count_for_lane_def qs_def)
    qed
    show "waiter_count g \<le> l" if "limit g = Some l" for l
      using that queue_coreD(4) [OF core, of l] by (simp add: g)
  qed
  then show ?thesis using q by (auto simp: g qs_def)
qed

lemma remove_waiter_inv [inv_rules]:
  assumes inv: "queue_inv f" and removed: "remove_waiter w f = Inr g"
  shows "queue_inv g"
proof (cases "waiter_state f w")
  case Queued
  from remove_queued_core [OF _ Queued removed] inv show ?thesis by (simp add: queue_inv_def lane_ready_def)
next
  case Granted
  let ?f = "f\<lparr>waiter_state := (waiter_state f)(w := Abandoned)\<rparr>"
  have "queue_core ?f" using inv Granted queue_core_abandon by (simp add: queue_inv_def)
  moreover have "lane_ready ?f l" for l using inv by (simp add: queue_inv_def lane_ready_def)
  ultimately show ?thesis
    using finish_turn_inv removed Granted by (simp add: remove_waiter_def)
next
  case Abandoned
  with inv removed show ?thesis by (simp add: remove_waiter_def)
qed

lemma timeouts_inv: "queue_inv f \<Longrightarrow> queue_inv (f\<lparr>timeouts := n\<rparr>)"
  unfolding queue_inv_def lane_ready_def by (auto intro: queue_core_fields)

section \<open>Runs\<close>

text \<open>
  The calls of the gate, and what it owes the queue: only a holder of the turn finishes it, and a
  granted waiter that gives up still holds the turn.
\<close>

datatype queue_op =
    Join string bool time
  | Finish bool
  | Block bool
  | Notify
  | TimeOut nat
  | Cancel nat

definition queue_ok :: "queue_op \<Rightarrow> FairQueue \<Rightarrow> bool" where
  "queue_ok op f =
     (case op of
        Finish lane \<Rightarrow> active_turn f lane
      | TimeOut w \<Rightarrow> waiter_state f w = Granted \<longrightarrow> active_turn f (small_lane f w)
      | Cancel w \<Rightarrow> waiter_state f w = Granted \<longrightarrow> active_turn f (small_lane f w)
      | _ \<Rightarrow> True)"

definition or_unchanged :: "FairQueue \<Rightarrow> queue_error + FairQueue \<Rightarrow> FairQueue" where
  "or_unchanged f r = (case r of Inl _ \<Rightarrow> f | Inr g \<Rightarrow> g)"

definition queue_step :: "queue_op \<Rightarrow> FairQueue \<Rightarrow> FairQueue" where
  "queue_step op f =
     (case op of
        Join tenant lane timeout \<Rightarrow> snd (wait_turn_begin tenant lane timeout f)
      | Finish lane \<Rightarrow> or_unchanged f (finish_turn lane f)
      | Block lane \<Rightarrow> block_until_release lane f
      | Notify \<Rightarrow> notify_memory_released f
      | TimeOut w \<Rightarrow> or_unchanged f (wait_turn_timeout w f)
      | Cancel w \<Rightarrow> or_unchanged f (wait_turn_cancelled w f))"

lemma or_unchanged_inv:
  "queue_inv f \<Longrightarrow> (\<And>g. r = Inr g \<Longrightarrow> queue_inv g) \<Longrightarrow> queue_inv (or_unchanged f r)"
  by (cases r) (simp_all add: or_unchanged_def)

lemma queue_step_inv: "queue_inv f \<Longrightarrow> queue_inv (queue_step op f)"
proof (cases op)
  case (Finish lane)
  assume inv: "queue_inv f"
  then have "queue_core f" "lane_ready f (\<not> lane)" by (simp_all add: queue_inv_def)
  then show ?thesis using inv finish_turn_inv by (auto simp: queue_step_def Finish intro!: or_unchanged_inv)
qed (auto simp: queue_step_def wait_turn_timeout_def wait_turn_cancelled_def
  intro!: or_unchanged_inv wait_turn_begin_inv block_until_release_inv notify_memory_released_inv
  intro: remove_waiter_inv timeouts_inv)

interpretation body_queue: invariant_machine queue_ok queue_step queue_inv
  by unfold_locales (rule queue_step_inv)

lemma queue_run_inv:
  "new_queue bound = Inr f0 \<Longrightarrow> legal queue_ok queue_step ops f0 \<Longrightarrow> queue_inv (fold queue_step ops f0)"
  by (rule body_queue.run_inv [OF new_queue_inv])

lemma promote_limit [simp]: "limit (promote lane f) = limit f"
  by (simp add: promote_def Let_def split: prod.split option.split)

lemma finish_turn_limit: "finish_turn lane f = Inr g \<Longrightarrow> limit g = limit f"
  by (auto simp: finish_turn_def split: if_splits)

lemma remove_waiter_limit: "remove_waiter w f = Inr g \<Longrightarrow> limit g = limit f"
  by (auto simp: remove_waiter_def Let_def dest: finish_turn_limit
    split: body_waiter_state.splits option.splits)

lemma enqueue_limit [simp]: "limit (enqueue t lane f) = limit f"
  by (simp add: enqueue_def Let_def split: prod.split)

lemma or_unchanged_limit:
  "(\<And>g. r = Inr g \<Longrightarrow> limit g = limit f) \<Longrightarrow> limit (or_unchanged f r) = limit f"
  by (cases r) (simp_all add: or_unchanged_def)

lemma queue_step_limit: "limit (queue_step op f) = limit f"
proof (cases op)
  case (Join tenant lane timeout)
  then show ?thesis by (simp add: queue_step_def wait_turn_begin_eq)
qed (auto simp: queue_step_def wait_turn_timeout_def wait_turn_cancelled_def block_until_release_def
  notify_memory_released_def intro!: or_unchanged_limit dest: finish_turn_limit remove_waiter_limit)

lemma queue_run_limit: "new_queue bound = Inr f0 \<Longrightarrow> limit (fold queue_step ops f0) = bound"
proof -
  assume "new_queue bound = Inr f0"
  then have "limit f0 = bound" by (auto simp: new_queue_def split: if_splits)
  then show ?thesis by (induction ops arbitrary: f0) (simp_all add: queue_step_limit)
qed

text \<open>
  C6. No lost wake-up and a bounded queue, whatever the sequence of joins, turns, releases, time-outs
  and cancellations: while a waiter of a lane waits, the turn of that lane is held or the lane is
  blocked until memory is released; the counter is the number of queued waiters and keeps the limit.
\<close>

theorem body_queue_no_lost_wakeup:
  assumes "new_queue bound = Inr f0" and "legal queue_ok queue_step ops f0"
    and "f = fold queue_step ops f0"
  shows "(\<forall>w. waiter_state f w = Queued \<longrightarrow>
            active_turn f (small_lane f w) \<or> \<not> promotion_enabled f (small_lane f w)) \<and>
         waiter_count f = int (count_for_lane True f) + int (count_for_lane False f) \<and>
         (\<forall>l. bound = Some l \<longrightarrow> waiter_count f \<le> l)"
proof (intro conjI allI impI)
  have inv: "queue_inv f" unfolding assms(3) by (rule queue_run_inv [OF assms(1,2)])
  then have core: "queue_core f" by (simp add: queue_inv_def)
  show "waiter_count f = int (count_for_lane True f) + int (count_for_lane False f)"
    using queue_coreD(3) [OF core, of True] by simp
  show "waiter_count f \<le> l" if "bound = Some l" for l
    using queue_coreD(4) [OF core, of l] that queue_run_limit [OF assms(1), of ops] assms(3) by simp
  show "active_turn f (small_lane f w) \<or> \<not> promotion_enabled f (small_lane f w)"
    if w: "waiter_state f w = Queued" for w
  proof -
    have "queues f (small_lane f w) \<noteq> []"
      using lane_waiter [OF queue_coreD(1) [OF core] w refl] by auto
    with inv show ?thesis by (auto simp: queue_inv_def lane_ready_def)
  qed
qed

definition unbounded_queue :: FairQueue where
  "unbounded_queue = (case new_queue None of Inr f \<Rightarrow> f)"

lemmas queue_eval = unbounded_queue_def new_queue_def queue_step_def wait_turn_begin_def promote_def
  set_queue_def normalized_tenant_def or_unchanged_def finish_turn_def wait_turn_timeout_def
  wait_turn_cancelled_def remove_waiter_def block_until_release_def notify_memory_released_def Let_def

text \<open>Two tenants join the small lane, the second one gives up, and the first finishes its turn.\<close>

theorem body_queue_no_lost_wakeup_witness:
  "let f = fold queue_step [Join ''a'' True 5, Join ''b'' True 5, TimeOut 1, Finish True] unbounded_queue in
   waiter_count f = int (count_for_lane True f) + int (count_for_lane False f)"
proof -
  have "new_queue None = Inr unbounded_queue" by (simp add: queue_eval)
  moreover have "legal queue_ok queue_step [Join ''a'' True 5, Join ''b'' True 5, TimeOut 1, Finish True]
      unbounded_queue"
    by (simp add: queue_ok_def queue_eval)
  ultimately show ?thesis
    unfolding Let_def by (rule body_queue_no_lost_wakeup [THEN conjunct2, THEN conjunct1, OF _ _ refl])
qed

section \<open>Turns go round the tenants\<close>

text \<open>The waiters of a lane that get the turn while a run goes on, in the order of the steps.\<close>

definition newly_granted :: "bool \<Rightarrow> FairQueue \<Rightarrow> FairQueue \<Rightarrow> nat list" where
  "newly_granted lane f g =
     filter (\<lambda>x. small_lane g x = lane \<and> waiter_state g x = Granted \<and> waiter_state f x \<noteq> Granted) [0..<next_waiter g]"

fun turns_given :: "bool \<Rightarrow> queue_op list \<Rightarrow> FairQueue \<Rightarrow> nat list" where
  "turns_given lane [] f = []"
| "turns_given lane (op # ops) f =
     newly_granted lane f (queue_step op f) @ turns_given lane ops (queue_step op f)"

text \<open>The waiter is the first of its tenant, whose name stands in the ring behind at most \<open>p\<close> others.\<close>

definition in_turn :: "FairQueue \<Rightarrow> bool \<Rightarrow> string \<Rightarrow> nat \<Rightarrow> nat \<Rightarrow> bool" where
  "in_turn f lane t w p \<longleftrightarrow>
     (\<exists>q. map_of (queues f lane) t = Some (w # q)) \<and>
     (\<exists>pre post. tenant_round_robin f lane = pre @ t # post \<and> length pre \<le> p)"

text \<open>
  Since the state \<open>f\<close>, the waiter left the queue, or it has moved up by as many places as turns were given.
\<close>

definition moved_up :: "bool \<Rightarrow> string \<Rightarrow> nat \<Rightarrow> nat \<Rightarrow> FairQueue \<Rightarrow> FairQueue \<Rightarrow> bool" where
  "moved_up lane t w p f g \<longleftrightarrow> waiter_state g w \<noteq> Queued \<or>
     (\<exists>p' N. in_turn g lane t w p' \<and> finite N \<and> p' + card N \<le> p \<and>
        (\<forall>x. small_lane g x = lane \<and> waiter_state g x = Granted \<and> waiter_state f x \<noteq> Granted \<longrightarrow> x \<in> N))"

lemma moved_up_fields:
  "moved_up lane t w p f g \<Longrightarrow> queues h = queues g \<Longrightarrow> tenant_round_robin h = tenant_round_robin g \<Longrightarrow>
   waiter_state h = waiter_state g \<Longrightarrow> small_lane h = small_lane g \<Longrightarrow> moved_up lane t w p f h"
  by (simp add: moved_up_def in_turn_def)

lemma in_turn_next:
  assumes t: "map_of qs t = Some (w # q)" and ring: "ring = pre @ t # post" "length pre \<le> p"
    and served: "ring = zs @ u # rest" "\<forall>z \<in> set zs. map_of qs z = None" "u \<noteq> t"
  shows "\<exists>pre post. rest @ tail = pre @ t # post \<and> length pre + 1 \<le> p"
proof -
  have "t \<notin> set zs" using t served(2) by auto
  with ring(1) served(1,3) have "\<exists>mid. pre = zs @ u # mid \<and> rest = mid @ t # post"
    by (auto simp: append_eq_append_conv2 Cons_eq_append_conv append_eq_Cons_conv)
  with ring(2) show ?thesis by fastforce
qed

lemma promote_moved_up:
  assumes core: "queue_core g" and moved: "moved_up lane t w p f g"
  shows "moved_up lane t w p f (promote l g)"
proof (cases "active_turn g l \<or> \<not> promotion_enabled g l")
  case True
  with moved show ?thesis by (auto simp: promote_def)
next
  case False
  note ok = queue_coreD(1) [OF core]
  show ?thesis
  proof (cases rule: lane_ok_pick [OF ok [of l], case_names ina en empty grant])
    case empty
    have fields: "queues (promote l g) = queues g" "small_lane (promote l g) = small_lane g"
      "waiter_state (promote l g) = waiter_state g"
      "tenant_round_robin (promote l g) = (tenant_round_robin g)(l := [])" unfolding empty(2) by simp_all
    show ?thesis
    proof (cases "l = lane")
      case True
      then have "\<not> in_turn g lane t w p'" for p' using empty(1) by (simp add: in_turn_def)
      with moved show ?thesis by (simp add: moved_up_def fields)
    next
      case False
      then have "tenant_round_robin (promote l g) lane = tenant_round_robin g lane"
        unfolding fields by (intro fun_upd_other) blast
      with moved show ?thesis by (simp add: moved_up_def in_turn_def fields)
    qed
  next
    case (grant u x q rest zs)
    let ?g = "promote l g"
    have x: "waiter_state g x = Queued" "small_lane g x = l" using lane_queue [OF ok grant(1)] by auto
    have fields: "queues ?g = (queues g)(l := set_queue u q (queues g l))" "small_lane ?g = small_lane g"
      "tenant_round_robin ?g = (tenant_round_robin g)(l := if q \<noteq> [] then rest @ [u] else rest)"
      "waiter_state ?g = (waiter_state g)(x := Granted)" using grant(3) by simp_all
    show ?thesis
    proof (cases "waiter_state g w = Queued \<and> x \<noteq> w")
      case True
      then obtain p' N where at: "in_turn g lane t w p'" "finite N" "p' + card N \<le> p"
        "\<forall>y. small_lane g y = lane \<and> waiter_state g y = Granted \<and> waiter_state f y \<noteq> Granted \<longrightarrow> y \<in> N"
        using moved unfolding moved_up_def by blast
      show ?thesis
      proof (cases "l = lane")
        case False
        then have own: "queues ?g lane = queues g lane" "tenant_round_robin ?g lane = tenant_round_robin g lane"
          unfolding fields by (intro fun_upd_other; blast)+
        have "in_turn ?g lane t w p'" using at(1) unfolding in_turn_def own .
        moreover have "\<forall>y. small_lane ?g y = lane \<and> waiter_state ?g y = Granted \<and> waiter_state f y \<noteq> Granted \<longrightarrow> y \<in> N"
          using at(4) x(2) False unfolding fields fun_upd_apply by metis
        ultimately show ?thesis using at(2,3) unfolding moved_up_def by blast
      next
        case own: True
        obtain r pre post where r: "map_of (queues g lane) t = Some (w # r)"
          "tenant_round_robin g lane = pre @ t # post" "length pre \<le> p'" using at(1) by (auto simp: in_turn_def)
        have "u \<noteq> t" using r(1) grant(1) True own by auto
        with in_turn_next [OF r(1,2,3), of zs u rest "if q \<noteq> [] then [u] else []"] grant(4,5) own
        have "\<exists>pre post. (if q \<noteq> [] then rest @ [u] else rest) = pre @ t # post \<and> length pre + 1 \<le> p'" by (simp split: if_splits)
        then have turn: "in_turn ?g lane t w (p' - 1)" "0 < p'"
          using r(1) own \<open>u \<noteq> t\<close> unfolding in_turn_def fields by fastforce+
        have "card (insert x N) \<le> card N + 1" using at(2) by (simp add: card_insert_if)
        with turn at(2,3) have "finite (insert x N)" "p' - 1 + card (insert x N) \<le> p" by simp_all
        moreover have "\<forall>y. small_lane ?g y = lane \<and> waiter_state ?g y = Granted \<and> waiter_state f y \<noteq> Granted \<longrightarrow> y \<in> insert x N"
          using at(4) by (simp add: fields)
        ultimately show ?thesis using turn(1) unfolding moved_up_def by blast
      qed
    qed (auto simp: moved_up_def fields)
  qed (use False in auto)
qed

lemma moved_up_start:
  assumes "queue_core f" "in_turn f lane t w p"
  shows "moved_up lane t w p f f"
  using assms(2) unfolding moved_up_def by (intro disjI2 exI [of _ p] exI [of _ "{}"]) simp

lemma enqueue_moved_up:
  assumes core: "queue_core f" and turn: "in_turn f lane t w p"
  shows "moved_up lane t w p f (enqueue u l f)"
proof -
  let ?g = "enqueue u l f"
  obtain q pre post where q: "map_of (queues f lane) t = Some (w # q)"
    "tenant_round_robin f lane = pre @ t # post" "length pre \<le> p" using turn by (auto simp: in_turn_def)
  have "in_turn ?g lane t w p"
  proof (cases "l = lane")
    case True
    have "\<exists>tail. tenant_round_robin ?g lane = tenant_round_robin f lane @ tail"
      by (simp add: enqueue_def Let_def True split: option.split)
    with q(2) have "\<exists>post. tenant_round_robin ?g lane = pre @ t # post" by auto
    moreover have "\<exists>q. map_of (queues ?g lane) t = Some (w # q)"
      using q(1) enqueue_fields(1) [of u lane f] True by (auto simp: dget_def)
    ultimately show ?thesis using q(3) by (auto simp: in_turn_def)
  next
    case False
    then have "lane = (\<not> l)" by simp
    with turn enqueue_fields(4,5) [of u l f] show ?thesis by (simp add: in_turn_def)
  qed
  moreover have "\<forall>x. waiter_state ?g x = Granted \<longrightarrow> waiter_state f x = Granted"
    by (simp add: enqueue_fields(13))
  ultimately show ?thesis unfolding moved_up_def by (intro disjI2 exI [of _ p] exI [of _ "{}"]) auto
qed

lemma finish_moved_up:
  assumes "queue_core g" "moved_up lane t w p f g" "finish_turn l g = Inr h"
  shows "moved_up lane t w p f h"
proof -
  let ?g = "g\<lparr>active_turn := (active_turn g)(l := False)\<rparr>"
  have "queue_core ?g" "moved_up lane t w p f ?g"
    by (rule queue_core_fields [OF assms(1)], simp_all) (rule moved_up_fields [OF assms(2)], simp_all)
  from promote_moved_up [OF this, of l] assms(3) show ?thesis by (auto simp: finish_turn_def split: if_splits)
qed

lemma notify_moved_up:
  assumes core: "queue_core f" and turn: "in_turn f lane t w p"
  shows "moved_up lane t w p f (notify_memory_released f)"
proof -
  have enable: "queue_core (g\<lparr>promotion_enabled := (promotion_enabled g)(l := True)\<rparr>)"
      "moved_up lane t w p f (g\<lparr>promotion_enabled := (promotion_enabled g)(l := True)\<rparr>)"
    if "queue_core g" "moved_up lane t w p f g" for g l
    by (rule queue_core_fields [OF that(1)], simp_all) (rule moved_up_fields [OF that(2)], simp_all)
  have promoted: "queue_core (promote l g)" "moved_up lane t w p f (promote l g)"
    if "queue_core g" "moved_up lane t w p f g" for g l
    using body_promote_core [OF that(1)] promote_moved_up [OF that] by blast+
  show ?thesis
    unfolding notify_memory_released_def
    by (intro promoted enable core moved_up_start [OF core turn])
qed

lemma remove_moved_up:
  assumes core: "queue_core f" and turn: "in_turn f lane t w p" and removed: "remove_waiter x (f\<lparr>timeouts := n\<rparr>) = Inr g"
  shows "moved_up lane t w p f g"
proof (cases "waiter_state f x")
  case Queued
  note ok = queue_coreD(1) [OF core]
  obtain q where q: "map_of (queues f (small_lane f x)) (tenant_key f x) = Some q" "x \<in> set q"
    using lane_waiter [OF ok Queued refl] by blast
  obtain r where r: "map_of (queues f lane) t = Some (w # r)" using turn by (auto simp: in_turn_def)
  have w: "tenant_key f w = t" "small_lane f w = lane" using lane_queue [OF ok r] by simp_all
  have g: "waiter_state g = (waiter_state f)(x := Abandoned)" "small_lane g = small_lane f"
      "tenant_round_robin g = tenant_round_robin f"
      "queues g = (queues f)(small_lane f x := set_queue (tenant_key f x) (remove1 x q) (queues f (small_lane f x)))"
    using removed Queued q by (auto simp: remove_waiter_def Let_def)
  show ?thesis
  proof (cases "x = w")
    case False
    have "\<exists>r. map_of (queues g lane) t = Some (w # r)"
    proof (cases "small_lane f x = lane \<and> tenant_key f x = t")
      case True
      with r q(1) have "q = w # r" by simp
      with True False show ?thesis by (simp add: g(4))
    next
      case other: False
      with r show ?thesis by (cases "small_lane f x = lane") (simp_all add: g(4))
    qed
    with turn have "in_turn g lane t w p" by (simp add: in_turn_def g(3))
    then show ?thesis unfolding moved_up_def by (intro disjI2 exI [of _ p] exI [of _ "{}"]) (simp add: g(1))
  qed (simp add: moved_up_def g(1))
next
  case Granted
  let ?f = "f\<lparr>timeouts := n, waiter_state := (waiter_state f)(x := Abandoned)\<rparr>"
  have "queue_core (f\<lparr>timeouts := n\<rparr>)" by (rule queue_core_fields [OF core]) simp_all
  from queue_core_abandon [OF this, of x] Granted have "queue_core ?f" by simp
  moreover have "moved_up lane t w p f ?f"
    using turn unfolding moved_up_def by (intro disjI2 exI [of _ p] exI [of _ "{}"]) (auto simp: in_turn_def)
  ultimately show ?thesis using finish_moved_up removed Granted by (simp add: remove_waiter_def)
next
  case Abandoned
  with removed have "g = f\<lparr>timeouts := n\<rparr>" by (simp add: remove_waiter_def)
  with moved_up_fields [OF moved_up_start [OF core turn]] show ?thesis by simp
qed

lemma queue_step_moved_up:
  assumes core: "queue_core f" and turn: "in_turn f lane t w p"
  shows "moved_up lane t w p f (queue_step op f)"
proof (cases op)
  case (Join tenant l timeout)
  have "moved_up lane t w p f (promote l (enqueue u l f))" if "\<And>n. limit f = Some n \<Longrightarrow> waiter_count f < n" for u
    by (rule promote_moved_up [OF body_enqueue_core [OF core that] enqueue_moved_up [OF core turn]])
  then show ?thesis using moved_up_fields [OF moved_up_start [OF core turn]]
    by (auto simp: queue_step_def Join wait_turn_begin_eq split: option.splits)
next
  case (Finish l)
  then show ?thesis using finish_moved_up [OF core moved_up_start [OF core turn]] moved_up_start [OF core turn]
    by (auto simp: queue_step_def or_unchanged_def split: sum.splits)
next
  case (Block l)
  then show ?thesis using moved_up_fields [OF moved_up_start [OF core turn]]
    by (simp add: queue_step_def block_until_release_def)
next
  case Notify
  then show ?thesis using notify_moved_up [OF core turn] by (simp add: queue_step_def)
next
  case (TimeOut x)
  then show ?thesis using remove_moved_up [OF core turn] moved_up_start [OF core turn]
    by (auto simp: queue_step_def wait_turn_timeout_def or_unchanged_def split: sum.splits)
next
  case (Cancel x)
  have "f\<lparr>timeouts := timeouts f\<rparr> = f" by simp
  with Cancel show ?thesis
    using remove_moved_up [OF core turn, of x "timeouts f"] moved_up_start [OF core turn]
    by (auto simp: queue_step_def wait_turn_cancelled_def or_unchanged_def split: sum.splits)
qed

lemma newly_granted_length:
  assumes "finite N" "\<forall>x. small_lane g x = lane \<and> waiter_state g x = Granted \<and> waiter_state f x \<noteq> Granted \<longrightarrow> x \<in> N"
  shows "length (newly_granted lane f g) \<le> card N"
proof -
  have "length (newly_granted lane f g) = card (set (newly_granted lane f g))"
    by (rule distinct_card [symmetric]) (simp add: newly_granted_def)
  also have "\<dots> \<le> card N" using assms by (intro card_mono) (auto simp: newly_granted_def)
  finally show ?thesis .
qed

text \<open>A waiter that left its queue never comes back to one.\<close>

definition settled :: "FairQueue \<Rightarrow> FairQueue \<Rightarrow> bool" where
  "settled f g \<longleftrightarrow> next_waiter f \<le> next_waiter g \<and>
     (\<forall>w < next_waiter f. waiter_state g w = Queued \<longrightarrow> waiter_state f w = Queued)"

lemma settled_trans: "settled f g \<Longrightarrow> settled g h \<Longrightarrow> settled f h"
  unfolding settled_def by (meson le_trans less_le_trans)

lemma settled_fields:
  "next_waiter g = next_waiter f \<Longrightarrow> (\<And>w. waiter_state g w = Queued \<Longrightarrow> waiter_state f w = Queued) \<Longrightarrow> settled f g"
  by (simp add: settled_def)

lemma promote_settled: "settled f (promote lane f)"
  by (rule settled_fields)
    (auto simp: promote_def Let_def fun_upd_def split: prod.splits option.splits if_splits)

lemma finish_settled: "finish_turn lane f = Inr g \<Longrightarrow> settled f g"
  using promote_settled [of "f\<lparr>active_turn := (active_turn f)(lane := False)\<rparr>" lane]
  by (auto simp: finish_turn_def settled_def split: if_splits)

lemma remove_settled:
  assumes "remove_waiter x f = Inr g"
  shows "settled f g"
proof -
  let ?f = "f\<lparr>waiter_state := (waiter_state f)(x := Abandoned)\<rparr>"
  have "settled f ?f" by (rule settled_fields) (auto split: if_splits)
  with assms show ?thesis
    by (auto simp: remove_waiter_def Let_def settled_def split: body_waiter_state.splits option.splits if_splits
        dest!: finish_settled)
qed

lemma queue_step_settled: "settled f (queue_step op f)"
proof (cases op)
  case (Join tenant l timeout)
  have "settled f (enqueue t l f)" for t by (simp add: settled_def enqueue_fields(10,13))
  from settled_trans [OF this promote_settled] show ?thesis
    by (auto simp: queue_step_def Join wait_turn_begin_eq split: option.split intro: settled_fields)
next
  case (Block l)
  show ?thesis by (simp add: Block queue_step_def block_until_release_def settled_def)
next
  case Notify
  let ?on = "\<lambda>l g. g\<lparr>promotion_enabled := (promotion_enabled g)(l := True)\<rparr>"
  have on: "settled g (promote l (?on l g))" for l g
    by (rule settled_trans [OF settled_fields promote_settled]) simp_all
  show ?thesis unfolding Notify queue_step_def queue_op.case notify_memory_released_def
    by (rule settled_trans [OF on on])
next
  case (TimeOut x)
  then show ?thesis using remove_settled [of x "f\<lparr>timeouts := timeouts f + 1\<rparr>"]
    by (auto simp: queue_step_def wait_turn_timeout_def or_unchanged_def settled_def split: sum.split)
qed (auto simp: queue_step_def wait_turn_cancelled_def or_unchanged_def settled_fields
  dest: finish_settled remove_settled split: sum.split)

lemma run_settled: "settled f (fold queue_step ops f)"
proof (induction ops arbitrary: f)
  case (Cons op ops)
  then show ?case using settled_trans [OF queue_step_settled Cons.IH] by simp
qed (simp add: settled_fields)

lemma turns_bounded:
  assumes "queue_inv f" "in_turn f lane t w p" "legal queue_ok queue_step ops f"
    "waiter_state (fold queue_step ops f) w = Queued"
  shows "length (turns_given lane ops f) \<le> p"
  using assms
proof (induction ops arbitrary: f p)
  case (Cons op ops)
  let ?g = "queue_step op f"
  have core: "queue_core f" and inv: "queue_inv ?g" using Cons.prems(1) queue_step_inv by (auto simp: queue_inv_def)
  obtain q where q: "map_of (queues f lane) t = Some (w # q)" using Cons.prems(2) by (auto simp: in_turn_def)
  have "w < next_waiter f"
    using lane_queue [OF queue_coreD(1) [OF core] q] queue_coreD(2) [OF core, of w] by (fastforce simp: not_less [symmetric])
  with queue_step_settled [of f op] have "w < next_waiter ?g" by (simp add: settled_def)
  with run_settled [of ?g ops] Cons.prems(4) have "waiter_state ?g w = Queued" by (simp add: settled_def)
  with queue_step_moved_up [OF core Cons.prems(2), of op] obtain p' N where
    N: "in_turn ?g lane t w p'" "finite N" "p' + card N \<le> p"
      "\<forall>x. small_lane ?g x = lane \<and> waiter_state ?g x = Granted \<and> waiter_state f x \<noteq> Granted \<longrightarrow> x \<in> N"
    unfolding moved_up_def by blast
  from Cons.IH [OF inv N(1)] Cons.prems(3,4) have "length (turns_given lane ops ?g) \<le> p'" by simp
  with newly_granted_length [OF N(2,4)] N(3) show ?case by simp
qed (simp add: newly_granted_def)

text \<open>\<open>take_turns k\<close>: the holder of the turn finishes it, \<open>k\<close> times.\<close>

definition take_turns :: "bool \<Rightarrow> nat \<Rightarrow> FairQueue \<Rightarrow> FairQueue" where
  "take_turns lane k = fold queue_step (replicate k (Finish lane))"

lemma take_turns_Suc [simp]: "take_turns lane (Suc k) f = take_turns lane k (queue_step (Finish lane) f)"
  "take_turns lane 0 f = f"
  by (simp_all add: take_turns_def)

lemma take_turns_add: "take_turns lane (a + b) f = take_turns lane b (take_turns lane a f)"
  by (induction a arbitrary: f) simp_all

lemma finish_serves:
  assumes core: "queue_core f" and "active_turn f lane" "promotion_enabled f lane" "queues f lane \<noteq> []"
  defines "g \<equiv> queue_step (Finish lane) f"
  shows "\<exists>x. waiter_state g = (waiter_state f)(x := Granted) \<and> waiter_state f x = Queued \<and> small_lane g x = lane"
    "active_turn g lane" "promotion_enabled g lane" "queue_core g"
proof -
  let ?f = "f\<lparr>active_turn := (active_turn f)(lane := False)\<rparr>"
  have f: "queue_core ?f" by (rule queue_core_fields [OF core]) simp_all
  have g: "g = promote lane ?f" using assms(2) by (simp add: g_def queue_step_def or_unchanged_def finish_turn_def)
  have now: "\<not> active_turn ?f lane" "promotion_enabled ?f lane" using assms(3) by simp_all
  have "(\<exists>x. waiter_state g = (waiter_state f)(x := Granted) \<and> waiter_state f x = Queued \<and> small_lane g x = lane) \<and>
      active_turn g lane \<and> promotion_enabled g lane"
  proof (cases rule: lane_ok_pick [OF queue_coreD(1) [OF f] now, case_names empty grant])
    case (grant t x q rest zs)
    with lane_queue [OF queue_coreD(1) [OF f] grant(1)] assms(3) show ?thesis
      unfolding g grant(3) by auto
  qed (use assms(4) in simp)
  then show "\<exists>x. waiter_state g = (waiter_state f)(x := Granted) \<and> waiter_state f x = Queued \<and> small_lane g x = lane"
    "active_turn g lane" "promotion_enabled g lane" by blast+
  show "queue_core g" using body_promote_core [OF f, of lane] by (simp add: g)
qed

lemma turn_kept: "waiter_state f w = Granted \<Longrightarrow> waiter_state (take_turns lane k f) w = Granted"
proof (induction k arbitrary: f)
  case (Suc k)
  have "waiter_state (queue_step (Finish lane) f) w = Granted"
    using Suc.prems by (auto simp: queue_step_def or_unchanged_def finish_turn_def promote_def Let_def
        split: prod.split option.split)
  then show ?case by (simp add: Suc.IH)
qed simp

lemma turn_comes:
  assumes "queue_core f" "active_turn f lane" "promotion_enabled f lane" "in_turn f lane t w p"
  shows "waiter_state (take_turns lane (Suc p) f) w = Granted"
  using assms
proof (induction p arbitrary: f rule: less_induct)
  case (less p)
  let ?g = "queue_step (Finish lane) f"
  have "queues f lane \<noteq> []" using less.prems(4) by (auto simp: in_turn_def)
  note serves = finish_serves [OF less.prems(1-3) this]
  obtain x where x: "waiter_state ?g = (waiter_state f)(x := Granted)" "waiter_state f x = Queued" "small_lane ?g x = lane"
    using serves(1) by blast
  show ?case
  proof (cases "x = w")
    case True
    with turn_kept [of ?g w lane p] x(1) show ?thesis by simp
  next
    case False
    have "waiter_state f w = Queued"
      using less.prems(4) lane_queue [OF queue_coreD(1) [OF less.prems(1)]] by (fastforce simp: in_turn_def)
    with x(1) False have "waiter_state ?g w = Queued" by simp
    with queue_step_moved_up [OF less.prems(1,4), of "Finish lane"] obtain p' N where
      N: "in_turn ?g lane t w p'" "finite N" "p' + card N \<le> p"
        "\<forall>x. small_lane ?g x = lane \<and> waiter_state ?g x = Granted \<and> waiter_state f x \<noteq> Granted \<longrightarrow> x \<in> N"
      unfolding moved_up_def by blast
    have "x \<in> N" using N(4) x by simp
    with N(2) have "0 < card N" by (auto simp: card_gt_0_iff)
    with N(3) have less': "p' < p" by simp
    from less.IH [OF this serves(4,2,3) N(1)] have "waiter_state (take_turns lane (Suc p') ?g) w = Granted" .
    moreover have "take_turns lane p ?g = take_turns lane (p - Suc p') (take_turns lane (Suc p') ?g)"
      using less' take_turns_add [of lane "Suc p'" "p - Suc p'" ?g] by simp
    ultimately show ?thesis using turn_kept by simp
  qed
qed

text \<open>
  C30. Tenants take turns. In any reachable state, the first waiter of a tenant whose name stands in the ring of the lane
  behind \<open>p\<close> others is overtaken at most \<open>p\<close> times: as long as it waits, whatever calls follow (joins of any tenants,
  turns that end, time-outs, cancellations, released memory), the lane gives at most \<open>p\<close> turns to others; and if turns just
  end one after the other while the lane is not blocked, it has the turn after \<open>p + 1\<close> of them. This does not depend on
  how many waiters the tenants have.
\<close>

theorem body_queue_round_robin:
  assumes "new_queue bound = Inr f0" "legal queue_ok queue_step past f0" "f = fold queue_step past f0"
    and "map_of (queues f lane) t = Some (w # q)" "legal queue_ok queue_step ops f"
  defines "p \<equiv> length (takeWhile (\<lambda>u. u \<noteq> t) (tenant_round_robin f lane))"
  shows "(waiter_state (fold queue_step ops f) w = Queued \<longrightarrow> length (turns_given lane ops f) \<le> p) \<and>
    (active_turn f lane \<and> promotion_enabled f lane \<longrightarrow> waiter_state (take_turns lane (p + 1) f) w = Granted)"
proof -
  have inv: "queue_inv f" unfolding assms(3) by (rule queue_run_inv [OF assms(1,2)])
  then have core: "queue_core f" by (simp add: queue_inv_def)
  have "t \<in> set (tenant_round_robin f lane)" using lane_queue [OF queue_coreD(1) [OF core] assms(4)] by simp
  then obtain post where "dropWhile (\<lambda>u. u \<noteq> t) (tenant_round_robin f lane) = t # post"
    by (cases "dropWhile (\<lambda>u. u \<noteq> t) (tenant_round_robin f lane)") (auto simp: dropWhile_eq_Cons_conv dropWhile_eq_Nil_conv)
  then have "tenant_round_robin f lane = takeWhile (\<lambda>u. u \<noteq> t) (tenant_round_robin f lane) @ t # post"
    by (metis takeWhile_dropWhile_id)
  then have "in_turn f lane t w p" using assms(4) unfolding in_turn_def p_def by blast
  with turns_bounded [OF inv _ assms(5)] turn_comes [OF core] show ?thesis by simp
qed

text \<open>
  Tenant b waits twice and tenant c once while tenant a has the turn: the waiter of c (number 3) has the turn after two,
  although a third waiter of b joins.
\<close>

theorem body_queue_round_robin_witness:
  "let f = fold queue_step [Join ''a'' True 5, Join ''b'' True 5, Join ''b'' True 5, Join ''c'' True 5] unbounded_queue in
   length (turns_given True [Join ''b'' True 5, Finish True] f) \<le> 1 \<and> waiter_state (take_turns True 2 f) 3 = Granted"
proof -
  let ?past = "[Join ''a'' True 5, Join ''b'' True 5, Join ''b'' True 5, Join ''c'' True 5]"
  let ?ops = "[Join ''b'' True 5, Finish True]"
  define f where "f = fold queue_step ?past unbounded_queue"
  have new: "new_queue None = Inr unbounded_queue" by (simp add: queue_eval)
  have past: "legal queue_ok queue_step ?past unbounded_queue" by (simp add: queue_ok_def)
  have f: "active_turn f True" "promotion_enabled f True" "tenant_round_robin f True = [''b'', ''c'']"
    "map_of (queues f True) ''c'' = Some [3]" by (simp_all add: f_def queue_eval)
  have ops: "legal queue_ok queue_step ?ops f" "waiter_state (fold queue_step ?ops f) 3 = Queued"
    by (simp_all add: f_def queue_eval queue_ok_def)
  from body_queue_round_robin [OF new past f_def f(4) ops(1)] f ops(2)
  show ?thesis unfolding Let_def f_def [symmetric] by (simp add: numeral_2_eq_2)
qed

text \<open>
  The ring keeps the name of a tenant whose last waiter gave up, and takes the name again when the
  tenant returns: tenant b is then served twice before tenant c is served at all, although the queue
  is meant to take the tenants in turn.
\<close>

lemma tenant_served_twice_after_timeout:
  "let f = fold queue_step
     [Join ''a'' True 5, Join ''b'' True 5, TimeOut 1, Join ''b'' True 5, Join ''b'' True 5,
      Join ''c'' True 5] unbounded_queue
   in tenant_round_robin f True = [''b'', ''b'', ''c''] \<and>
      map (waiter_state (take_turns True 2 f)) [2, 3, 4] = [Granted, Granted, Queued]"
  by (simp add: queue_eval take_turns_def numeral_2_eq_2)

end
