(* ===== verification/ByteBudget.thy ===== *)
theory ByteBudget
  imports Py_Prelude
begin

text \<open>
  The interface of a budget of bytes: \<open>reserve\<close> grants or refuses a number of bytes to a
  category, \<open>release\<close> takes back bytes that the category owns. \<open>key\<close> is the name under which a
  category is counted. The memory governor implements it, and every component that retains bytes
  (request bodies, response buffers, streams, request control memory) is a client.
\<close>

datatype 'env budget_op = Take 'env string int | Give nat

text \<open>The outstanding claims of the clients of a budget.\<close>

definition claimed :: "(string \<Rightarrow> string) \<Rightarrow> (string \<times> int) list \<Rightarrow> string \<Rightarrow> int" where
  "claimed key cs k = sum_list (map snd (filter (\<lambda>(c, n). key c = key k) cs))"

fun budget_step ::
  "('env \<Rightarrow> string \<Rightarrow> int \<Rightarrow> 'g \<Rightarrow> 'e + bool \<times> 'g) \<Rightarrow> (string \<Rightarrow> int \<Rightarrow> 'g \<Rightarrow> 'e + 'w \<times> 'g)
   \<Rightarrow> 'env budget_op \<Rightarrow> (string \<times> int) list \<times> 'g \<Rightarrow> 'e + (string \<times> int) list \<times> 'g" where
  "budget_step reserve release (Take env c n) (cs, g) =
     (case reserve env c n g of
        Inl e \<Rightarrow> Inl e
      | Inr (b, g') \<Rightarrow> Inr (if b then (c, n) # cs else cs, g'))"
| "budget_step reserve release (Give i) (cs, g) =
     (if i < length cs then
        (case release (fst (cs ! i)) (snd (cs ! i)) g of
           Inl e \<Rightarrow> Inl e
         | Inr (r, g') \<Rightarrow> Inr (take i cs @ drop (Suc i) cs, g'))
      else Inr (cs, g))"

fun budget_run ::
  "('env \<Rightarrow> string \<Rightarrow> int \<Rightarrow> 'g \<Rightarrow> 'e + bool \<times> 'g) \<Rightarrow> (string \<Rightarrow> int \<Rightarrow> 'g \<Rightarrow> 'e + 'w \<times> 'g)
   \<Rightarrow> 'env budget_op list \<Rightarrow> (string \<times> int) list \<times> 'g \<Rightarrow> 'e + (string \<times> int) list \<times> 'g" where
  "budget_run reserve release [] s = Inr s"
| "budget_run reserve release (op # ops) s =
     (case budget_step reserve release op s of
        Inl e \<Rightarrow> Inl e
      | Inr s' \<Rightarrow> budget_run reserve release ops s')"

fun takes_nonneg :: "'env budget_op list \<Rightarrow> bool" where
  "takes_nonneg [] = True"
| "takes_nonneg (Take env c n # ops) = (0 \<le> n \<and> takes_nonneg ops)"
| "takes_nonneg (Give i # ops) = takes_nonneg ops"

lemma claimed_Cons [simp]:
  "claimed key ((c, n) # cs) k = (if key c = key k then n else 0) + claimed key cs k"
  by (simp add: claimed_def)

lemma claimed_Nil [simp]: "claimed key [] k = 0"
  by (simp add: claimed_def)

lemma claimed_append [simp]: "claimed key (as @ bs) k = claimed key as k + claimed key bs k"
  by (simp add: claimed_def)

lemma claimed_nonneg: "\<forall>(c, n) \<in> set cs. 0 \<le> n \<Longrightarrow> 0 \<le> claimed key cs k"
  by (induction cs) auto

lemma claimed_drop_nth:
  assumes "i < length cs"
  shows "claimed key (take i cs @ drop (Suc i) cs) k =
    claimed key cs k - (if key (fst (cs ! i)) = key k then snd (cs ! i) else 0)"
proof -
  have "claimed key cs k = claimed key (take i cs @ cs ! i # drop (Suc i) cs) k"
    using id_take_nth_drop [OF assms] by simp
  then show ?thesis by (cases "cs ! i") simp
qed

locale byte_budget =
  fixes owned :: "'g \<Rightarrow> string \<Rightarrow> int"
    and key :: "string \<Rightarrow> string"
    and reserve :: "'env \<Rightarrow> string \<Rightarrow> int \<Rightarrow> 'g \<Rightarrow> 'e + bool \<times> 'g"
    and release :: "string \<Rightarrow> int \<Rightarrow> 'g \<Rightarrow> 'e + 'w \<times> 'g"
    and budget_ok :: "'g \<Rightarrow> bool"
  assumes reserve_law:
      "budget_ok g \<Longrightarrow> 0 \<le> n \<Longrightarrow> \<exists>b g'. reserve env c n g = Inr (b, g') \<and> budget_ok g' \<and>
         (\<forall>k. owned g' k = owned g k + (if b \<and> key c = key k then n else 0))"
    and release_law:
      "budget_ok g \<Longrightarrow> 0 \<le> n \<Longrightarrow> n \<le> owned g c \<Longrightarrow> \<exists>r g'. release c n g = Inr (r, g') \<and> budget_ok g' \<and>
         (\<forall>k. owned g' k = owned g k - (if key c = key k then n else 0))"
begin

definition balanced :: "(string \<times> int) list \<Rightarrow> 'g \<Rightarrow> bool" where
  "balanced cs g \<longleftrightarrow> budget_ok g \<and> (\<forall>(c, n) \<in> set cs. 0 \<le> n) \<and> (\<forall>k. owned g k = claimed key cs k)"

lemma claim_owned:
  assumes "balanced cs g" "i < length cs"
  shows "0 \<le> snd (cs ! i) \<and> snd (cs ! i) \<le> owned g (fst (cs ! i))"
proof -
  have "\<forall>(c, n) \<in> set (take i cs @ drop (Suc i) cs). 0 \<le> n"
    using assms by (auto simp: balanced_def dest: in_set_takeD in_set_dropD)
  then have "0 \<le> claimed key (take i cs @ drop (Suc i) cs) (fst (cs ! i))"
    by (rule claimed_nonneg)
  moreover have "0 \<le> snd (cs ! i)"
    using assms nth_mem [OF assms(2)] by (cases "cs ! i") (auto simp: balanced_def)
  ultimately show ?thesis
    using assms claimed_drop_nth [OF assms(2), of key "fst (cs ! i)"]
    by (auto simp: balanced_def)
qed

lemma budget_step_balanced:
  assumes "balanced cs g" "takes_nonneg [op]"
  shows "\<exists>cs' g'. budget_step reserve release op (cs, g) = Inr (cs', g') \<and> balanced cs' g'"
proof (cases op)
  case (Take env c n)
  with assms(2) have n: "0 \<le> n" by simp
  have "budget_ok g" using assms(1) by (simp add: balanced_def)
  from reserve_law [OF this n, of env c] obtain b g' where
    "reserve env c n g = Inr (b, g')" "budget_ok g'"
    "\<forall>k. owned g' k = owned g k + (if b \<and> key c = key k then n else 0)" by blast
  with Take n assms(1) show ?thesis by (cases b) (auto simp: balanced_def)
next
  case (Give i)
  show ?thesis
  proof (cases "i < length cs")
    case True
    have "budget_ok g" using assms(1) by (simp add: balanced_def)
    from release_law [OF this] claim_owned [OF assms(1) True] obtain r g' where
      "release (fst (cs ! i)) (snd (cs ! i)) g = Inr (r, g')" "budget_ok g'"
      "\<forall>k. owned g' k = owned g k - (if key (fst (cs ! i)) = key k then snd (cs ! i) else 0)" by blast
    moreover from this have "balanced (take i cs @ drop (Suc i) cs) g'"
      using assms(1) claimed_drop_nth [OF True, of key]
      by (auto simp: balanced_def dest: in_set_takeD in_set_dropD)
    ultimately show ?thesis using Give True by simp
  qed (use Give assms in simp)
qed

text \<open>Clients that give back only what they hold never make the budget underflow.\<close>

lemma budget_run_balanced:
  "balanced cs g \<Longrightarrow> takes_nonneg ops \<Longrightarrow>
     \<exists>cs' g'. budget_run reserve release ops (cs, g) = Inr (cs', g') \<and> balanced cs' g'"
proof (induction ops arbitrary: cs g)
  case (Cons op ops)
  have "takes_nonneg [op]" "takes_nonneg ops" using Cons.prems(2) by (cases op; simp)+
  with budget_step_balanced [OF Cons.prems(1)] Cons.IH show ?case by fastforce
qed auto

end

text \<open>
  The view of one client on such a budget: it grabs and gives back bytes of its own category.
\<close>

locale byte_pool =
  fixes owned :: "'g \<Rightarrow> int"
    and grab :: "nat \<Rightarrow> 'g \<Rightarrow> bool \<times> 'g"
    and give :: "nat \<Rightarrow> 'g \<Rightarrow> 'g"
    and pool_ok :: "'g \<Rightarrow> bool"
  assumes grab_law:
      "pool_ok g \<Longrightarrow> grab n g = (b, g') \<Longrightarrow> pool_ok g' \<and> owned g' = owned g + (if b then int n else 0)"
    and give_law:
      "pool_ok g \<Longrightarrow> int n \<le> owned g \<Longrightarrow> pool_ok (give n g) \<and> owned (give n g) = owned g - int n"

end
