(* ===== verification/MemoryGovernor.thy ===== *)
theory MemoryGovernor
  imports ByteBudget
begin

text \<open>
  \<open>AdaptiveMemoryGovernor\<close> of \<open>uni_api/admission/memory.py\<close>: the parent budget of every byte the
  process retains. The cgroup files are sampled (\<open>CgroupMemorySource.sample\<close>); the sampled limits
  give a soft limit, a guard and a capacity; reservations are counted by category.

  The clock and what the sampled files say are arguments of each operation (\<open>now\<close> and
  \<open>reading\<close>, which is an error text when the source raises). Every method runs under the governor's
  lock, so an operation of the model is one locked section; a waiting \<open>reserve\<close> is its registration
  and one \<open>reserve_turn\<close> per pass of its loop. \<open>client_step\<close> puts these sections, those of other clients and
  cancellations into any order.
\<close>

section \<open>Samples\<close>

record ProcessMemorySample =
  current_bytes :: "int option"
  limit_bytes :: "int option"
  high_bytes :: "int option"
  events :: "(string, int) dict option"
  source :: string

definition read_int :: "(string \<Rightarrow> string option) \<Rightarrow> string \<Rightarrow> int option" where
  "read_int files path =
     (case files path of
        None \<Rightarrow> None
      | Some value \<Rightarrow>
          (if value = [] \<or> value = ''max'' then None
           else case py_int value of
                  None \<Rightarrow> None
                | Some parsed \<Rightarrow> if 0 \<le> parsed then Some parsed else None))"

definition partition_space :: "string \<Rightarrow> (string \<times> string) option" where
  "partition_space line =
     (let name = takeWhile (\<lambda>c. c \<noteq> CHR '' '') line in
      if length name < length line then Some (name, drop (length name + 1) line) else None)"

definition read_events :: "(string \<Rightarrow> string list option) \<Rightarrow> string \<Rightarrow> (string, int) dict" where
  "read_events file_lines path =
     (case file_lines path of
        None \<Rightarrow> []
      | Some ls \<Rightarrow>
          fold (\<lambda>line ev.
            (case partition_space line of
               None \<Rightarrow> ev
             | Some (name, value) \<Rightarrow>
                 (case py_int value of None \<Rightarrow> ev | Some n \<Rightarrow> AList.update name n ev))) ls [])"

text \<open>
  \<open>CgroupMemorySource.sample\<close>; \<open>files\<close> and \<open>file_lines\<close> are the contents of the files below the
  two cgroup roots (stripped, \<open>None\<close> when a file cannot be read) and \<open>rss\<close> is \<open>/proc/self/status\<close>.
\<close>

definition cgroup_sample ::
  "(string \<Rightarrow> string option) \<Rightarrow> (string \<Rightarrow> string list option) \<Rightarrow> int option \<Rightarrow> ProcessMemorySample" where
  "cgroup_sample files file_lines rss =
     (let current = read_int files ''memory.current''; lim = read_int files ''memory.max'';
          high = read_int files ''memory.high'' in
      if current \<noteq> None \<or> lim \<noteq> None then
        \<lparr>current_bytes = current, limit_bytes = lim, high_bytes = high,
         events = Some (read_events file_lines ''memory.events''), source = ''cgroup-v2''\<rparr>
      else
        let current = read_int files ''memory.usage_in_bytes'';
            lim = read_int files ''memory.limit_in_bytes'' in
        if current \<noteq> None \<or> lim \<noteq> None then
          let lim' = (case lim of Some l \<Rightarrow> if 2 ^ 60 \<le> l then None else Some l | None \<Rightarrow> None);
              fail_count = read_int files ''memory.failcnt'' in
          \<lparr>current_bytes = current, limit_bytes = lim', high_bytes = None,
           events = Some (case fail_count of Some n \<Rightarrow> [(''max'', n)] | None \<Rightarrow> []),
           source = ''cgroup-v1''\<rparr>
        else
          \<lparr>current_bytes = rss, limit_bytes = None, high_bytes = None, events = None,
           source = ''procfs''\<rparr>)"

definition unavailable_sample :: ProcessMemorySample where
  "unavailable_sample = \<lparr>current_bytes = None, limit_bytes = None, high_bytes = None,
     events = None, source = ''unavailable''\<rparr>"

type_synonym reading = "string + ProcessMemorySample"

section \<open>State\<close>

datatype memory_error = ValueError string | RuntimeError string

record AdaptiveMemoryGovernor =
  configured_soft_limit_bytes :: "int option"
  guard_bytes :: int
  guard_ratio :: real
  fallback_budget_bytes :: int
  sample_cache_seconds :: time
  sample :: "ProcessMemorySample option"
  sampled_at :: "time option"
  sample_attempted_at :: "time option"
  sample_sequence :: nat
  sample_error :: "string option"
  reserved :: "(string, int) dict"
  rejected :: "(string, int) dict"
  peak_reserved_bytes :: int
  blocked_reservations :: int
  waiting_reservations :: int
  wait_timeouts :: int
  waiters :: "nat list"
  next_waiter :: nat

definition new_governor ::
  "int option \<Rightarrow> int \<Rightarrow> real \<Rightarrow> int \<Rightarrow> time \<Rightarrow> memory_error + AdaptiveMemoryGovernor" where
  "new_governor soft guard ratio fallback cache =
     (if (case soft of Some l \<Rightarrow> l \<le> 0 | None \<Rightarrow> False)
      then Inl (ValueError ''soft_limit_bytes must be positive when provided'')
      else if guard < 0 \<or> \<not> (0 \<le> ratio \<and> ratio < 1)
      then Inl (ValueError ''memory guard must be non-negative and below one'')
      else if fallback \<le> 0 then Inl (ValueError ''fallback_budget_bytes must be positive'')
      else if cache < 0 then Inl (ValueError ''sample_cache_seconds cannot be negative'')
      else Inr \<lparr>configured_soft_limit_bytes = soft, guard_bytes = guard, guard_ratio = ratio,
                fallback_budget_bytes = fallback, sample_cache_seconds = cache,
                sample = None, sampled_at = None, sample_attempted_at = None, sample_sequence = 0,
                sample_error = None, reserved = [], rejected = [], peak_reserved_bytes = 0,
                blocked_reservations = 0, waiting_reservations = 0, wait_timeouts = 0,
                waiters = [], next_waiter = 0\<rparr>)"

definition MIB :: int where "MIB = 1024 * 1024"
definition DEFAULT_FALLBACK_BUDGET_BYTES :: int where "DEFAULT_FALLBACK_BUDGET_BYTES = 256 * MIB"
definition DEFAULT_GUARD_BYTES :: int where "DEFAULT_GUARD_BYTES = 512 * MIB"
definition DEFAULT_GUARD_RATIO :: real where "DEFAULT_GUARD_RATIO = 1 / 4"
definition DEFAULT_SAMPLE_CACHE_SECONDS :: time where "DEFAULT_SAMPLE_CACHE_SECONDS = 1 / 20"

text \<open>
  \<open>from_environment\<close>; the environment holds integers and floats by name, \<open>None\<close> when a variable is
  unset or does not parse (then \<open>_env_int\<close> and \<open>_env_float\<close> give the default).
\<close>

definition env_or :: "('a \<Rightarrow> 'b option) \<Rightarrow> 'a \<Rightarrow> 'b \<Rightarrow> 'b" where
  "env_or env name otherwise = (case env name of Some v \<Rightarrow> v | None \<Rightarrow> otherwise)"

definition from_environment ::
  "(string \<Rightarrow> int option) \<Rightarrow> (string \<Rightarrow> real option) \<Rightarrow> memory_error + AdaptiveMemoryGovernor" where
  "from_environment env_int env_float =
     (let soft = env_or env_int ''MEMORY_SOFT_LIMIT_BYTES'' 0 in
      new_governor (if 0 < soft then Some soft else None)
        (max 0 (env_or env_int ''MEMORY_GUARD_BYTES'' DEFAULT_GUARD_BYTES))
        (min (95 / 100) (max 0 (env_or env_float ''MEMORY_GUARD_RATIO'' DEFAULT_GUARD_RATIO)))
        (max 1 (env_or env_int ''MEMORY_FALLBACK_BUDGET_BYTES'' DEFAULT_FALLBACK_BUDGET_BYTES))
        (max 0 (env_or env_float ''MEMORY_SAMPLE_CACHE_SECONDS'' DEFAULT_SAMPLE_CACHE_SECONDS)))"

section \<open>Sampling and limits\<close>

definition refresh_sample ::
  "bool \<Rightarrow> time \<Rightarrow> reading \<Rightarrow> AdaptiveMemoryGovernor \<Rightarrow> ProcessMemorySample \<times> AdaptiveMemoryGovernor" where
  "refresh_sample force now reading g =
     (case (sample g, \<not> force \<and>
            (case sample_attempted_at g of None \<Rightarrow> False | Some t \<Rightarrow> now - t < sample_cache_seconds g)) of
        (Some s, True) \<Rightarrow> (s, g)
      | _ \<Rightarrow>
          (case reading of
             Inr s \<Rightarrow>
               (s, g\<lparr>sample_attempted_at := Some now, sample := Some s, sample_error := None,
                     sampled_at := Some now, sample_sequence := sample_sequence g + 1\<rparr>)
           | Inl text \<Rightarrow>
               (let s = (case sample g of None \<Rightarrow> unavailable_sample | Some s \<Rightarrow> s) in
                (s, g\<lparr>sample_attempted_at := Some now, sample_error := Some (take 512 text),
                      sample := Some s\<rparr>))))"

definition effective_limit :: "ProcessMemorySample \<Rightarrow> int option" where
  "effective_limit s =
     (case high_bytes s of
        None \<Rightarrow> limit_bytes s
      | Some h \<Rightarrow> (case limit_bytes s of None \<Rightarrow> Some h | Some l \<Rightarrow> Some (min l h)))"

definition soft_limit_and_guard ::
  "AdaptiveMemoryGovernor \<Rightarrow> ProcessMemorySample \<Rightarrow> int option \<times> int" where
  "soft_limit_and_guard g s =
     (case configured_soft_limit_bytes g of
        Some configured \<Rightarrow>
          (let soft = (case effective_limit s of None \<Rightarrow> configured | Some l \<Rightarrow> min configured l);
               base = (case effective_limit s of None \<Rightarrow> soft | Some l \<Rightarrow> if l = 0 then soft else l)
           in (Some soft, max 0 (base - soft)))
      | None \<Rightarrow>
          (case effective_limit s of
             Some l \<Rightarrow>
               (let absolute_guard = min (guard_bytes g) (l div 2);
                    guard = max absolute_guard (trunc (real_of_int l * guard_ratio g))
                in (Some (max 1 (l - min guard (max 0 (l - 1)))), guard))
           | None \<Rightarrow> (None, guard_bytes g)))"

definition limits ::
  "AdaptiveMemoryGovernor \<Rightarrow> ProcessMemorySample \<Rightarrow> int option \<times> int \<times> int \<times> int" where
  "limits g s =
     (let (soft, guard) = soft_limit_and_guard g s;
          held = total (reserved g);
          capacity = (case (soft, current_bytes s) of
                        (Some l, Some c) \<Rightarrow> max held (l - c)
                      | _ \<Rightarrow> max held (fallback_budget_bytes g));
          capacity = (if sample_error g \<noteq> None
                      then max held (min capacity (fallback_budget_bytes g)) else capacity)
      in (soft, guard, capacity, max 0 (capacity - held)))"

definition available_bytes :: "AdaptiveMemoryGovernor \<Rightarrow> ProcessMemorySample \<Rightarrow> int" where
  "available_bytes g s = snd (snd (snd (limits g s)))"

definition maximum_capacity_bytes ::
  "time \<Rightarrow> reading \<Rightarrow> AdaptiveMemoryGovernor \<Rightarrow> int \<times> AdaptiveMemoryGovernor" where
  "maximum_capacity_bytes now reading g =
     (let (s, g') = refresh_sample True now reading g in
      ((case fst (limits g' s) of
          Some l \<Rightarrow> if l = 0 then fallback_budget_bytes g' else l
        | None \<Rightarrow> fallback_budget_bytes g'), g'))"

section \<open>Reservations\<close>

definition normalized_category :: "string \<Rightarrow> string" where
  "normalized_category c =
     (let t = strip (if c = [] then ''unknown'' else c) in if t = [] then ''unknown'' else t)"

definition add_count :: "string \<Rightarrow> int \<Rightarrow> (string, int) dict \<Rightarrow> (string, int) dict" where
  "add_count k n d = AList.update k (dget 0 d k + n) d"

record Decision =
  allowed :: bool
  category :: string
  requested_bytes :: int
  reserved_before_bytes :: int
  projected_reserved_bytes :: int
  reserved_after_bytes :: int
  decision_sample :: ProcessMemorySample
  soft_limit_bytes :: "int option"
  decision_guard_bytes :: int
  capacity_bytes :: int
  available_before_bytes :: int
  available_after_bytes :: int
  decision_sample_error :: "string option"
  decision_sample_sequence :: nat
  sampled_at_monotonic :: "time option"
  sample_age_ms :: "int option"

definition known_sampled_at :: "AdaptiveMemoryGovernor \<Rightarrow> time option" where
  "known_sampled_at g = (if 0 < sample_sequence g then sampled_at g else None)"

definition age_ms :: "time \<Rightarrow> time option \<Rightarrow> int option" where
  "age_ms now since = map_option (\<lambda>t. max 0 (py_round ((now - t) * 1000))) since"

text \<open>\<open>now'\<close> is the clock at the end of the method, read for the age of the sample.\<close>

definition reserve_nowait_decision ::
  "time \<Rightarrow> time \<Rightarrow> reading \<Rightarrow> string \<Rightarrow> int \<Rightarrow> AdaptiveMemoryGovernor
   \<Rightarrow> memory_error + Decision \<times> AdaptiveMemoryGovernor" where
  "reserve_nowait_decision now now' reading cat amount g =
     (if amount < 0 then Inl (ValueError ''memory reservation cannot be negative'')
      else
        let normalized = normalized_category cat;
            (s, g1) = refresh_sample False now reading g;
            (soft, guard, capacity, available_before) = limits g1 s;
            before = total (reserved g1);
            ok = (amount \<le> available_before);
            g2 = (if ok \<and> amount \<noteq> 0
                  then g1\<lparr>reserved := add_count normalized amount (reserved g1),
                          peak_reserved_bytes := max (peak_reserved_bytes g1) (before + amount)\<rparr>
                  else if \<not> ok then g1\<lparr>rejected := add_count normalized 1 (rejected g1)\<rparr>
                  else g1);
            since = known_sampled_at g2
        in Inr (\<lparr>allowed = ok, category = normalized, requested_bytes = amount,
                 reserved_before_bytes = before, projected_reserved_bytes = before + amount,
                 reserved_after_bytes = (if ok then before + amount else before),
                 decision_sample = s, soft_limit_bytes = soft, decision_guard_bytes = guard,
                 capacity_bytes = capacity, available_before_bytes = available_before,
                 available_after_bytes = max 0 (if ok then available_before - amount else available_before),
                 decision_sample_error = sample_error g2, decision_sample_sequence = sample_sequence g2,
                 sampled_at_monotonic = since, sample_age_ms = age_ms now' since\<rparr>, g2))"

definition reserve_nowait ::
  "time \<Rightarrow> reading \<Rightarrow> string \<Rightarrow> int \<Rightarrow> AdaptiveMemoryGovernor \<Rightarrow> memory_error + bool \<times> AdaptiveMemoryGovernor" where
  "reserve_nowait now reading cat amount g =
     (case reserve_nowait_decision now now reading cat amount g of
        Inl e \<Rightarrow> Inl e
      | Inr (d, g') \<Rightarrow> Inr (allowed d, g'))"

definition try_reserve ::
  "time \<Rightarrow> reading \<Rightarrow> string \<Rightarrow> int \<Rightarrow> bool \<Rightarrow> AdaptiveMemoryGovernor \<Rightarrow> bool \<times> AdaptiveMemoryGovernor" where
  "try_reserve now reading cat amount record_rejection g =
     (let (s, g1) = refresh_sample False now reading g in
      if available_bytes g1 s < amount
      then (False, if record_rejection then g1\<lparr>rejected := add_count cat 1 (rejected g1)\<rparr> else g1)
      else
        let res = add_count cat amount (reserved g1) in
        (True, g1\<lparr>reserved := res, peak_reserved_bytes := max (peak_reserved_bytes g1) (total res)\<rparr>))"

text \<open>\<open>reserve\<close>: an immediate answer, or the number of the waiter registered for it.\<close>

definition reserve_begin ::
  "time \<Rightarrow> reading \<Rightarrow> string \<Rightarrow> int \<Rightarrow> time \<Rightarrow> AdaptiveMemoryGovernor
   \<Rightarrow> memory_error + nat option \<times> AdaptiveMemoryGovernor" where
  "reserve_begin now reading cat amount timeout_seconds g =
     (if timeout_seconds \<le> 0 then Inl (ValueError ''timeout_seconds must be positive'')
      else if amount < 0 then Inl (ValueError ''memory reservation cannot be negative'')
      else if amount = 0 then Inr (None, g)
      else
        let (ok, g1) = try_reserve now reading (normalized_category cat) amount False g in
        if ok then Inr (None, g1)
        else Inr (Some (next_waiter g1),
               g1\<lparr>blocked_reservations := blocked_reservations g1 + 1,
                  waiting_reservations := waiting_reservations g1 + 1,
                  waiters := next_waiter g1 # waiters g1, next_waiter := next_waiter g1 + 1\<rparr>))"

definition leave_waiters :: "nat \<Rightarrow> AdaptiveMemoryGovernor \<Rightarrow> AdaptiveMemoryGovernor" where
  "leave_waiters w g = g\<lparr>waiters := removeAll w (waiters g),
     waiting_reservations := max 0 (waiting_reservations g - 1)\<rparr>"

text \<open>
  One pass of the waiting loop: the answer of \<open>reserve\<close>, after its \<open>finally\<close>, or \<open>None\<close> when the waiter sleeps on.
  Between two passes other clients run, and the task may be cancelled; then the \<open>finally\<close> alone is executed. The clients
  are \<open>client_step\<close> below.
\<close>

definition reserve_turn ::
  "nat \<Rightarrow> string \<Rightarrow> int \<Rightarrow> time \<Rightarrow> time \<Rightarrow> time \<Rightarrow> reading \<Rightarrow> AdaptiveMemoryGovernor
   \<Rightarrow> bool option \<times> AdaptiveMemoryGovernor" where
  "reserve_turn w cat amount timeout_seconds elapsed now reading g =
     (if timeout_seconds - elapsed \<le> 0
      then (Some False, leave_waiters w (g\<lparr>wait_timeouts := wait_timeouts g + 1\<rparr>))
      else
        let (ok, g1) = try_reserve now reading (normalized_category cat) amount False g in
        if ok then (Some True, leave_waiters w g1) else (None, g1))"

text \<open>\<open>release\<close> also gives the waiters whose event it sets.\<close>

definition release ::
  "string \<Rightarrow> int \<Rightarrow> AdaptiveMemoryGovernor \<Rightarrow> memory_error + nat list \<times> AdaptiveMemoryGovernor" where
  "release cat amount g =
     (if amount < 0 then Inl (ValueError ''memory release cannot be negative'')
      else if amount = 0 then Inr ([], g)
      else
        let c = normalized_category cat; held = dget 0 (reserved g) c in
        if held < amount then Inl (RuntimeError ''adaptive memory reservation underflow'')
        else Inr (waiters g,
               g\<lparr>reserved := (if held - amount = 0 then AList.delete c (reserved g)
                              else AList.update c (held - amount) (reserved g))\<rparr>))"

section \<open>Snapshots\<close>

record AdaptiveMemorySnapshot =
  snap_sample :: ProcessMemorySample
  snap_soft_limit_bytes :: "int option"
  snap_guard_bytes :: int
  snap_capacity_bytes :: int
  snap_available_bytes :: int
  reserved_bytes :: int
  snap_peak_reserved_bytes :: int
  reservations :: "(string, int) dict"
  snap_rejected :: "(string, int) dict"
  snap_waiting :: "int \<times> int \<times> int"
  snap_events :: "(string, int) dict"
  snap_sample_error :: "string option"
  snap_age :: "time option \<times> int option"

definition governor_snapshot :: "time \<Rightarrow> AdaptiveMemoryGovernor \<Rightarrow> ProcessMemorySample \<Rightarrow> AdaptiveMemorySnapshot" where
  "governor_snapshot now g s =
     (let (soft, guard, capacity, available) = limits g s; since = known_sampled_at g in
      \<lparr>snap_sample = s, snap_soft_limit_bytes = soft, snap_guard_bytes = guard,
       snap_capacity_bytes = capacity, snap_available_bytes = available,
       reserved_bytes = total (reserved g), snap_peak_reserved_bytes = peak_reserved_bytes g,
       reservations = reserved g, snap_rejected = rejected g,
       snap_waiting = (blocked_reservations g, waiting_reservations g, wait_timeouts g),
       snap_events = (case events s of None \<Rightarrow> [] | Some ev \<Rightarrow> ev),
       snap_sample_error = sample_error g, snap_age = (since, age_ms now since)\<rparr>)"

definition snapshot_cached :: "time \<Rightarrow> AdaptiveMemoryGovernor \<Rightarrow> AdaptiveMemorySnapshot" where
  "snapshot_cached now g =
     governor_snapshot now g (case sample g of None \<Rightarrow> unavailable_sample | Some s \<Rightarrow> s)"

definition governor_snapshot_fresh ::
  "bool \<Rightarrow> time \<Rightarrow> reading \<Rightarrow> AdaptiveMemoryGovernor \<Rightarrow> AdaptiveMemorySnapshot \<times> AdaptiveMemoryGovernor" where
  "governor_snapshot_fresh force now reading g =
     (let (s, g') = refresh_sample force now reading g in (governor_snapshot now g' s, g'))"

section \<open>The reservations are accounted for\<close>

definition governor_ok :: "AdaptiveMemoryGovernor \<Rightarrow> bool" where
  "governor_ok g \<longleftrightarrow> distinct_keys (reserved g) \<and> (\<forall>v \<in> snd ` set (reserved g). 0 < v) \<and>
     total (reserved g) \<le> peak_reserved_bytes g \<and> 0 < fallback_budget_bytes g \<and>
     0 \<le> guard_bytes g \<and> 0 \<le> guard_ratio g \<and> guard_ratio g < 1 \<and>
     (\<forall>l. configured_soft_limit_bytes g = Some l \<longrightarrow> 0 < l)"

definition owned_by :: "AdaptiveMemoryGovernor \<Rightarrow> string \<Rightarrow> int" where
  "owned_by g c = dget 0 (reserved g) (normalized_category c)"

lemma refresh_sample_reserved [simp]:
  "reserved (snd (refresh_sample force now reading g)) = reserved g"
  "rejected (snd (refresh_sample force now reading g)) = rejected g"
  "peak_reserved_bytes (snd (refresh_sample force now reading g)) = peak_reserved_bytes g"
  "fallback_budget_bytes (snd (refresh_sample force now reading g)) = fallback_budget_bytes g"
  "configured_soft_limit_bytes (snd (refresh_sample force now reading g)) = configured_soft_limit_bytes g"
  "guard_bytes (snd (refresh_sample force now reading g)) = guard_bytes g"
  "guard_ratio (snd (refresh_sample force now reading g)) = guard_ratio g"
  "waiters (snd (refresh_sample force now reading g)) = waiters g"
  "waiting_reservations (snd (refresh_sample force now reading g)) = waiting_reservations g"
  "next_waiter (snd (refresh_sample force now reading g)) = next_waiter g"
  by (simp_all add: refresh_sample_def Let_def split: option.split sum.split bool.split)

lemma dict_values_update:
  "(\<forall>v \<in> snd ` set d. 0 < v) \<Longrightarrow> 0 < n \<Longrightarrow> \<forall>v \<in> snd ` set (AList.update k n d). (0::int) < v"
  by (induction d) auto

lemma dict_values_delete:
  "(\<forall>v \<in> snd ` set d. 0 < v) \<Longrightarrow> \<forall>v \<in> snd ` set (AList.delete k d). (0::int) < v"
  by (induction d) auto

lemma governor_ok_refresh [simp]:
  "governor_ok (snd (refresh_sample force now reading g)) = governor_ok g"
  by (simp add: governor_ok_def)

lemma governor_ok_add:
  assumes "governor_ok g" "0 < n"
  shows "governor_ok (g\<lparr>reserved := add_count c n (reserved g),
      peak_reserved_bytes := max (peak_reserved_bytes g) (total (reserved g) + n)\<rparr>)"
    "total (add_count c n (reserved g)) = total (reserved g) + n"
proof -
  have pos: "\<forall>v \<in> snd ` set (reserved g). 0 < v" and d: "distinct_keys (reserved g)"
    using assms(1) by (simp_all add: governor_ok_def)
  have nonneg: "0 \<le> dget 0 (reserved g) c"
    using pos by (intro dget_nonneg) (blast intro: less_imp_le)
  show t: "total (add_count c n (reserved g)) = total (reserved g) + n"
    using d by (simp add: add_count_def)
  have "\<forall>v \<in> snd ` set (add_count c n (reserved g)). 0 < v"
    unfolding add_count_def using nonneg assms(2) by (intro dict_values_update [OF pos]) simp
  moreover have "distinct_keys (add_count c n (reserved g))"
    unfolding add_count_def by (rule distinct_keys_update [OF d])
  ultimately show "governor_ok (g\<lparr>reserved := add_count c n (reserved g),
      peak_reserved_bytes := max (peak_reserved_bytes g) (total (reserved g) + n)\<rparr>)"
    using assms(1) t unfolding governor_ok_def by simp
qed

lemma governor_ok_rejected [simp]: "governor_ok (g\<lparr>rejected := r\<rparr>) = governor_ok g"
  by (simp add: governor_ok_def)

lemma new_governor_ok [inv_rules]: "new_governor soft guard ratio fallback cache = Inr g \<Longrightarrow> governor_ok g"
  by (auto simp: new_governor_def governor_ok_def split: if_splits)

lemma reserve_nowait_eq:
  fixes now reading g
  defines "r \<equiv> refresh_sample False now reading g"
  shows "reserve_nowait now reading c n g =
    (if n < 0 then Inl (ValueError ''memory reservation cannot be negative'')
     else if n \<le> available_bytes (snd r) (fst r)
     then Inr (True, if n = 0 then snd r
       else (snd r)\<lparr>reserved := add_count (normalized_category c) n (reserved g),
         peak_reserved_bytes := max (peak_reserved_bytes g) (total (reserved g) + n)\<rparr>)
     else Inr (False, (snd r)\<lparr>rejected := add_count (normalized_category c) 1 (rejected g)\<rparr>))"
proof -
  obtain s h where r: "refresh_sample False now reading g = (s, h)" by fastforce
  obtain soft guard capacity av where l: "limits h s = (soft, guard, capacity, av)"
    by (cases "limits h s")
  have "reserved h = reserved g" "rejected h = rejected g" "peak_reserved_bytes h = peak_reserved_bytes g"
    using refresh_sample_reserved [of False now reading g] unfolding r by simp_all
  then show ?thesis
    unfolding reserve_nowait_def reserve_nowait_decision_def available_bytes_def r_def r
    by (simp add: l Let_def)
qed

lemma reserve_nowait_law:
  assumes "governor_ok g" "0 \<le> n"
  shows "\<exists>b g'. reserve_nowait now reading c n g = Inr (b, g') \<and> governor_ok g' \<and>
    (\<forall>k. owned_by g' k = owned_by g k + (if b \<and> normalized_category c = normalized_category k then n else 0))"
proof -
  let ?h = "snd (refresh_sample False now reading g)"
  have ok: "governor_ok ?h" using assms(1) by simp
  show ?thesis
  proof (cases "n \<le> available_bytes ?h (fst (refresh_sample False now reading g)) \<and> n \<noteq> 0")
    case True
    with governor_ok_add(1) [OF ok, of n "normalized_category c"] assms(2)
    show ?thesis by (auto simp: reserve_nowait_eq owned_by_def add_count_def)
  next
    case False
    with ok assms(2) show ?thesis
      by (cases "n \<le> available_bytes ?h (fst (refresh_sample False now reading g))")
        (auto simp: reserve_nowait_eq owned_by_def)
  qed
qed

lemma release_law:
  assumes "governor_ok g" "0 \<le> n" "n \<le> owned_by g c"
  shows "\<exists>ws g'. release c n g = Inr (ws, g') \<and> governor_ok g' \<and>
    (\<forall>k. owned_by g' k = owned_by g k - (if normalized_category c = normalized_category k then n else 0))"
proof (cases "n = 0")
  case False
  let ?c = "normalized_category c"
  let ?res = "if dget 0 (reserved g) ?c - n = 0 then AList.delete ?c (reserved g)
    else AList.update ?c (dget 0 (reserved g) ?c - n) (reserved g)"
  have "governor_ok (g\<lparr>reserved := ?res\<rparr>)"
  proof -
    have pos: "\<forall>v \<in> snd ` set (reserved g). 0 < v" and d: "distinct_keys (reserved g)"
      and g: "total (reserved g) \<le> peak_reserved_bytes g"
      using assms(1) by (simp_all add: governor_ok_def)
    have n: "n \<le> dget 0 (reserved g) ?c" using assms(3) by (simp add: owned_by_def)
    have "\<forall>v \<in> snd ` set ?res. 0 < v"
    proof (cases "dget 0 (reserved g) ?c - n = 0")
      case True
      then show ?thesis using dict_values_delete [OF pos] by simp
    next
      case False
      with n have "0 < dget 0 (reserved g) ?c - n" by simp
      from dict_values_update [OF pos this] False show ?thesis by simp
    qed
    moreover have "distinct_keys ?res" using d by simp
    moreover have "total ?res \<le> peak_reserved_bytes g" using d g n assms(2) by simp
    ultimately show ?thesis using assms(1) unfolding governor_ok_def by simp
  qed
  with assms False show ?thesis
    by (simp add: release_def owned_by_def Let_def)
qed (use assms in \<open>simp add: release_def\<close>)

interpretation governor: byte_budget owned_by normalized_category
    "\<lambda>(now, reading). reserve_nowait now reading" release governor_ok
proof (unfold_locales, goal_cases)
  case (1 g n env c)
  then show ?case using reserve_nowait_law [OF 1] by (cases env) simp
next
  case (2 g n c)
  then show ?case by (rule release_law)
qed

text \<open>
  The memory governor as the budget of the category \<open>cat\<close>; each call takes the next clock reading and
  cgroup sample. That \<open>release\<close> never raises here is part of the law (\<open>release_law\<close>).
\<close>

fun governor_grab ::
  "string \<Rightarrow> nat \<Rightarrow> AdaptiveMemoryGovernor \<times> (time \<times> reading) list
   \<Rightarrow> bool \<times> AdaptiveMemoryGovernor \<times> (time \<times> reading) list" where
  "governor_grab cat n (g, []) = (False, g, [])"
| "governor_grab cat n (g, (now, rd) # rs) =
     (case reserve_nowait now rd cat (int n) g of
        Inl e \<Rightarrow> (False, g, rs)
      | Inr (b, g') \<Rightarrow> (b, g', rs))"

fun governor_give ::
  "string \<Rightarrow> nat \<Rightarrow> AdaptiveMemoryGovernor \<times> (time \<times> reading) list
   \<Rightarrow> AdaptiveMemoryGovernor \<times> (time \<times> reading) list" where
  "governor_give cat n (g, rs) =
     (case release cat (int n) g of Inl e \<Rightarrow> (g, rs) | Inr (_, g') \<Rightarrow> (g', rs))"

interpretation governor_pool: byte_pool
  "\<lambda>(g, rs). owned_by g cat" "governor_grab cat" "governor_give cat" "\<lambda>(g, rs). governor_ok g" for cat
proof (unfold_locales, goal_cases)
  case (1 w n b w')
  obtain g rs where w: "w = (g, rs)" by fastforce
  show ?case
  proof (cases rs)
    case Nil
    with 1 w show ?thesis by auto
  next
    case (Cons env rest)
    obtain now rd where env: "env = (now, rd)" by fastforce
    from 1 w have "governor_ok g" by simp
    from reserve_nowait_law [OF this, of "int n" now rd cat] obtain b' g' where
      "reserve_nowait now rd cat (int n) g = Inr (b', g')" "governor_ok g'"
      "owned_by g' cat = owned_by g cat + (if b' then int n else 0)" by auto
    with 1 w Cons env show ?thesis by auto
  qed
next
  case (2 w n)
  then show ?case using release_law [of "fst w" "int n" cat] by (cases w) auto
qed

section \<open>Properties\<close>

lemma soft_limit_capped:
  assumes ok: "governor_ok g" and "fst (soft_limit_and_guard g s) = Some l" "effective_limit s = Some m" "1 \<le> m"
  shows "l \<le> m"
proof (cases "configured_soft_limit_bytes g")
  case None
  have "0 \<le> real_of_int m * guard_ratio g" using ok assms(4) by (simp add: governor_ok_def)
  then have "0 \<le> trunc (real_of_int m * guard_ratio g)" by (simp add: trunc_def)
  with None assms(2-4) show ?thesis by (auto simp: soft_limit_and_guard_def Let_def)
qed (use assms in \<open>auto simp: soft_limit_and_guard_def Let_def\<close>)

lemma available_bytes_pos:
  assumes "0 < n" "n \<le> available_bytes g s"
  shows "\<forall>l c. fst (limits g s) = Some l \<longrightarrow> current_bytes s = Some c \<longrightarrow> c + (total (reserved g) + n) \<le> l"
    "fst (limits g s) = None \<or> current_bytes s = None \<or> sample_error g \<noteq> None \<longrightarrow>
      total (reserved g) + n \<le> fallback_budget_bytes g"
  using assms
  by (auto simp: available_bytes_def limits_def Let_def split: prod.splits option.splits if_splits)

lemma fst_limits [simp]: "fst (limits g s) = fst (soft_limit_and_guard g s)"
  by (simp add: limits_def Let_def split: prod.split)

lemma reserve_decision_cases:
  assumes "reserve_nowait_decision now now' reading cat n g = Inr (d, g')" and "0 < n"
  obtains s h where "refresh_sample False now reading g = (s, h)" "decision_sample d = s"
    "soft_limit_bytes d = fst (limits h s)" "allowed d \<longleftrightarrow> n \<le> available_bytes h s"
    "g' = (if allowed d then h\<lparr>reserved := add_count (normalized_category cat) n (reserved h),
         peak_reserved_bytes := max (peak_reserved_bytes h) (total (reserved h) + n)\<rparr>
       else h\<lparr>rejected := add_count (normalized_category cat) 1 (rejected h)\<rparr>)"
proof -
  obtain s h where r: "refresh_sample False now reading g = (s, h)" by fastforce
  obtain soft guard capacity av where l: "limits h s = (soft, guard, capacity, av)"
    by (cases "limits h s")
  have "soft = fst (limits h s)" "av = available_bytes h s" by (simp_all only: l available_bytes_def fst_conv snd_conv)
  note sav = this
  have n: "\<not> n < 0" "n \<noteq> 0" using assms(2) by simp_all
  have "decision_sample d = s" "soft_limit_bytes d = soft" "allowed d \<longleftrightarrow> n \<le> av"
    "g' = (if allowed d then h\<lparr>reserved := add_count (normalized_category cat) n (reserved h),
         peak_reserved_bytes := max (peak_reserved_bytes h) (total (reserved h) + n)\<rparr>
       else h\<lparr>rejected := add_count (normalized_category cat) 1 (rejected h)\<rparr>)"
    using assms(1) unfolding reserve_nowait_decision_def r l Let_def prod.case if_not_P [OF n(1)]
      sum.inject prod.inject
    by (elim conjE, hypsubst, simp add: n(2))+
  with r sav show thesis by (intro that [of s h]) (simp_all only: simp_thms)
qed

text \<open>
  C11. What a grant guarantees: when bytes are granted against a sample with a known limit and usage,
  the sampled usage plus every reserved byte stays within the soft limit, which is at most the
  cgroup limits; without them, or while sampling fails, the reserved bytes stay within the finite
  fallback budget. A refusal reserves nothing.
\<close>

theorem memory_grant_within_limits:
  assumes "governor_ok g" "0 < n"
    and "reserve_nowait_decision now now' reading cat n g = Inr (d, g')"
  shows "if allowed d
    then total (reserved g') = total (reserved g) + n \<and>
      (\<forall>l c. soft_limit_bytes d = Some l \<longrightarrow> current_bytes (decision_sample d) = Some c \<longrightarrow>
         c + total (reserved g') \<le> l) \<and>
      (\<forall>l m. soft_limit_bytes d = Some l \<longrightarrow> effective_limit (decision_sample d) = Some m \<longrightarrow> 1 \<le> m \<longrightarrow> l \<le> m) \<and>
      (soft_limit_bytes d = None \<or> current_bytes (decision_sample d) = None \<or> sample_error g' \<noteq> None \<longrightarrow>
         total (reserved g') \<le> fallback_budget_bytes g)
    else reserved g' = reserved g"
  using assms(3,2)
proof (cases rule: reserve_decision_cases)
  case (1 s h)
  have h: "reserved h = reserved g" "fallback_budget_bytes h = fallback_budget_bytes g" "governor_ok h"
    using refresh_sample_reserved [of False now reading g] governor_ok_refresh [of False now reading g]
      assms(1) by (simp_all add: 1(1))
  have cap: "\<forall>l m. soft_limit_bytes d = Some l \<longrightarrow> effective_limit (decision_sample d) = Some m \<longrightarrow> 1 \<le> m \<longrightarrow> l \<le> m"
    using soft_limit_capped [OF h(3), of s] by (simp add: 1(2,3))
  show ?thesis
  proof (cases "allowed d")
    case True
    with 1(4) have n: "n \<le> available_bytes h s" by simp
    have "total (reserved g') = total (reserved g) + n" "sample_error g' = sample_error h"
      using True governor_ok_add(2) [OF h(3) assms(2)] by (simp_all add: 1(5) h)
    with True cap available_bytes_pos [OF assms(2) n] show ?thesis
      by (simp add: 1(2,3) h)
  qed (simp add: 1(5) h)
qed

text \<open>A gigabyte container with 100 MiB in use, and a request of one MiB.\<close>

definition sample_1g :: ProcessMemorySample where
  "sample_1g = \<lparr>current_bytes = Some (100 * MIB), limit_bytes = Some (1024 * MIB), high_bytes = None,
     events = None, source = ''cgroup-v2''\<rparr>"

definition default_governor :: AdaptiveMemoryGovernor where
  "default_governor = (case new_governor None DEFAULT_GUARD_BYTES DEFAULT_GUARD_RATIO
     DEFAULT_FALLBACK_BUDGET_BYTES DEFAULT_SAMPLE_CACHE_SECONDS of Inr g \<Rightarrow> g)"

lemmas governor_eval = default_governor_def new_governor_def refresh_sample_def limits_def
  soft_limit_and_guard_def effective_limit_def sample_1g_def MIB_def DEFAULT_GUARD_BYTES_def
  DEFAULT_FALLBACK_BUDGET_BYTES_def DEFAULT_GUARD_RATIO_def DEFAULT_SAMPLE_CACHE_SECONDS_def
  trunc_def Let_def total_def available_bytes_def

lemma default_governor_ok: "governor_ok default_governor"
  by (rule new_governor_ok [of None DEFAULT_GUARD_BYTES DEFAULT_GUARD_RATIO
    DEFAULT_FALLBACK_BUDGET_BYTES DEFAULT_SAMPLE_CACHE_SECONDS]) (simp add: governor_eval)

theorem memory_grant_within_limits_witness:
  "\<exists>d g'. reserve_nowait_decision 0 0 (Inr sample_1g) ''body'' MIB default_governor = Inr (d, g') \<and>
     allowed d \<and> soft_limit_bytes d = Some (512 * MIB) \<and> 100 * MIB + total (reserved g') \<le> 512 * MIB"
proof -
  have m: "(0::int) < MIB" by (simp add: MIB_def)
  obtain d g' where d: "reserve_nowait_decision 0 0 (Inr sample_1g) ''body'' MIB default_governor = Inr (d, g')"
    by (simp add: reserve_nowait_decision_def governor_eval)
  from d have f: "allowed d" "soft_limit_bytes d = Some (512 * MIB)" "current_bytes (decision_sample d) = Some (100 * MIB)"
    by (auto simp: reserve_nowait_decision_def governor_eval)
  with d memory_grant_within_limits [OF default_governor_ok m d] show ?thesis by simp
qed

text \<open>
  C29. Balance: starting from a fresh governor, clients that give back only bytes they hold never meet
  an underflow, whatever the samples say, and afterwards every category owns exactly the bytes its
  clients still hold, with the recorded peak above the total.
\<close>

theorem memory_reservations_balanced:
  assumes "new_governor soft guard ratio fallback cache = Inr g0" and "takes_nonneg ops"
  shows "\<exists>claims g. budget_run (\<lambda>(now, reading). reserve_nowait now reading) release ops ([], g0) = Inr (claims, g) \<and>
    (\<forall>c. owned_by g c = claimed normalized_category claims c) \<and>
    total (reserved g) \<le> peak_reserved_bytes g"
proof -
  have "governor.balanced [] g0"
    using assms(1) by (auto simp: governor.balanced_def new_governor_ok owned_by_def new_governor_def split: if_splits)
  from governor.budget_run_balanced [OF this assms(2)] show ?thesis
    by (auto simp: governor.balanced_def governor_ok_def)
qed

theorem memory_reservations_balanced_witness:
  "\<exists>claims g. budget_run (\<lambda>(now, reading). reserve_nowait now reading) release
      [Take (0, Inr sample_1g) ''body'' 5, Take (1, Inl ''OSError'') '' body '' 7, Give 1] ([], default_governor)
      = Inr (claims, g) \<and>
    (\<forall>c. owned_by g c = claimed normalized_category claims c) \<and>
    total (reserved g) \<le> peak_reserved_bytes g"
  by (rule memory_reservations_balanced [of None DEFAULT_GUARD_BYTES DEFAULT_GUARD_RATIO
    DEFAULT_FALLBACK_BUDGET_BYTES DEFAULT_SAMPLE_CACHE_SECONDS]) (simp_all add: governor_eval)

text \<open>
  The guard never eats the container: without a configured soft limit the soft limit of a
  positive cgroup limit is positive and at most that limit, and with a guard ratio up to one half
  at least half of the limit stays usable.
\<close>

theorem memory_soft_limit_bounds:
  assumes "governor_ok g" "configured_soft_limit_bytes g = None" "effective_limit s = Some m" "1 \<le> m"
  shows "\<exists>l. fst (soft_limit_and_guard g s) = Some l \<and> 1 \<le> l \<and> l \<le> m \<and>
    (guard_ratio g \<le> 1 / 2 \<longrightarrow> m \<le> 2 * l)"
proof -
  let ?t = "trunc (real_of_int m * guard_ratio g)"
  have r: "0 \<le> guard_ratio g" using assms(1) by (simp add: governor_ok_def)
  have half: "?t \<le> m div 2" if "guard_ratio g \<le> 1 / 2"
  proof -
    have nn: "0 \<le> real_of_int m * guard_ratio g" using r assms(4) by simp
    have "real_of_int m * guard_ratio g \<le> real_of_int m * (1 / 2)"
      using that assms(4) by (intro mult_left_mono) simp_all
    then have "\<lfloor>real_of_int m * guard_ratio g\<rfloor> \<le> \<lfloor>real_of_int m / real_of_int 2\<rfloor>"
      by (intro floor_mono) simp
    moreover have "\<lfloor>real_of_int m / real_of_int 2\<rfloor> = m div 2" by (rule floor_divide_of_int_eq)
    ultimately show ?thesis using nn by (simp add: trunc_def)
  qed
  define k where "k = min (max (min (guard_bytes g) (m div 2)) ?t) (max 0 (m - 1))"
  define l where "l = max 1 (m - k)"
  have l: "fst (soft_limit_and_guard g s) = Some l"
    unfolding l_def k_def using assms(2,3) by (simp add: soft_limit_and_guard_def Let_def)
  have "m \<le> 2 * l" if "guard_ratio g \<le> 1 / 2"
  proof -
    have "k \<le> m div 2" unfolding k_def using half [OF that] by (simp add: min_le_iff_disj)
    moreover have "2 * (m div 2) \<le> m" "m - k \<le> l" by (simp_all add: l_def)
    ultimately show ?thesis by linarith
  qed
  moreover have "1 \<le> l" by (simp add: l_def)
  ultimately show ?thesis using l soft_limit_capped [OF assms(1) l assms(3,4)] by blast
qed

text \<open>A small container of 256 MiB under the default guard of 512 MiB.\<close>

theorem memory_soft_limit_bounds_witness:
  "\<exists>l. fst (soft_limit_and_guard default_governor
      (sample_1g\<lparr>limit_bytes := Some (256 * MIB)\<rparr>)) = Some l \<and> 1 \<le> l \<and> l \<le> 256 * MIB \<and>
    256 * MIB \<le> 2 * l"
proof -
  have "effective_limit (sample_1g\<lparr>limit_bytes := Some (256 * MIB)\<rparr>) = Some (256 * MIB)"
    "configured_soft_limit_bytes default_governor = None" "guard_ratio default_governor = 1 / 4"
    "1 \<le> 256 * MIB"
    by (simp_all add: governor_eval)
  with memory_soft_limit_bounds [OF default_governor_ok this(2,1,4)] show ?thesis by auto
qed

section \<open>Waiting reservations\<close>

lemma try_reserve_ok:
  assumes "governor_ok g" "0 < n" "try_reserve now reading c n rr g = (b, g')"
  shows "governor_ok g' \<and> total (reserved g') = total (reserved g) + (if b then n else 0) \<and>
    waiters g' = waiters g \<and> waiting_reservations g' = waiting_reservations g \<and> next_waiter g' = next_waiter g"
proof -
  obtain s h where r: "refresh_sample False now reading g = (s, h)" by fastforce
  have h: "reserved h = reserved g" "peak_reserved_bytes h = peak_reserved_bytes g" "waiters h = waiters g"
    "waiting_reservations h = waiting_reservations g" "governor_ok h" "next_waiter h = next_waiter g"
    using refresh_sample_reserved [of False now reading g] governor_ok_refresh [of False now reading g]
      assms(1) by (simp_all add: r)
  note add = governor_ok_add [OF h(5) assms(2), of c]
  show ?thesis
  proof (cases "available_bytes h s < n")
    case True
    then have "b = False" "g' = (if rr then h\<lparr>rejected := add_count c 1 (rejected h)\<rparr> else h)"
      using assms(3) by (simp_all add: try_reserve_def r Let_def)
    then show ?thesis using h by simp
  next
    case False
    then have "b = True" "g' = h\<lparr>reserved := add_count c n (reserved h),
        peak_reserved_bytes := max (peak_reserved_bytes h) (total (add_count c n (reserved h)))\<rparr>"
      using assms(3) by (simp_all add: try_reserve_def r Let_def)
    then show ?thesis using h add by simp
  qed
qed

lemma owned_by_nonneg: "governor_ok g \<Longrightarrow> 0 \<le> owned_by g c"
proof -
  assume "governor_ok g"
  then have "\<forall>v \<in> snd ` set (reserved g). 0 < v" by (simp add: governor_ok_def)
  then have "\<forall>v \<in> snd ` set (reserved g). 0 \<le> v" by (blast intro: less_imp_le)
  then show ?thesis unfolding owned_by_def by (rule dget_nonneg)
qed

lemma try_reserve_owned:
  assumes "governor_ok g" "try_reserve now reading (normalized_category c) n rr g = (b, g')"
  shows "owned_by g' k = owned_by g k + (if b \<and> normalized_category c = normalized_category k then n else 0)"
proof -
  obtain s h where r: "refresh_sample False now reading g = (s, h)" by fastforce
  have "reserved h = reserved g"
    using refresh_sample_reserved(1) [of False now reading g] by (simp add: r)
  then show ?thesis
    using assms(2) by (auto simp: try_reserve_def r Let_def owned_by_def add_count_def split: if_splits)
qed

lemma leave_waiters_ok [simp]: "governor_ok (leave_waiters w g) = governor_ok g"
  by (simp add: governor_ok_def leave_waiters_def)

lemma wait_timeouts_ok [simp]: "governor_ok (g\<lparr>wait_timeouts := n\<rparr>) = governor_ok g"
  by (simp add: governor_ok_def)

lemma reserve_turn_cases:
  assumes "governor_ok g" "0 < n" "reserve_turn w c n t e now reading g = (r, g')"
  shows "governor_ok g' \<and> (\<forall>k. owned_by g' k = owned_by g k +
      (if r = Some True \<and> normalized_category c = normalized_category k then n else 0)) \<and>
    next_waiter g' = next_waiter g \<and>
    waiters g' = (if r = None then waiters g else removeAll w (waiters g)) \<and>
    waiting_reservations g' = (if r = None then waiting_reservations g else max 0 (waiting_reservations g - 1)) \<and>
    (t \<le> e \<longrightarrow> r = Some False \<and> wait_timeouts g' = wait_timeouts g + 1)"
proof (cases "t \<le> e")
  case True
  then have "r = Some False" "g' = leave_waiters w (g\<lparr>wait_timeouts := wait_timeouts g + 1\<rparr>)"
    using assms(3) by (simp_all add: reserve_turn_def)
  then show ?thesis using assms(1) by (simp add: leave_waiters_def governor_ok_def owned_by_def)
next
  case False
  obtain b h where t: "try_reserve now reading (normalized_category c) n False g = (b, h)" by fastforce
  note h = try_reserve_ok [OF assms(1,2) t]
  note owned = try_reserve_owned [OF assms(1) t]
  have "r = (if b then Some True else None)" "g' = (if b then leave_waiters w h else h)"
    using assms(3) False by (simp_all add: reserve_turn_def t split: if_splits)
  then show ?thesis using h False owned by (cases b) (simp_all add: leave_waiters_def governor_ok_def owned_by_def)
qed

text \<open>
  The clients of the governor, in any order: an immediate request, the start of a waiting one, a pass of the loop of the
  \<open>i\<close>-th waiting one when its task runs again, its cancellation, and the return of the \<open>i\<close>-th claim. The state holds
  the claims that were granted and the requests that wait, each with its waiter, category, size and time-out.
\<close>

datatype client_op =
    TryNow time reading string int
  | Reserve time reading string int time
  | Pass nat time time reading
  | Cancel nat
  | GiveBack nat

type_synonym client_state = "(string \<times> int) list \<times> (nat \<times> string \<times> int \<times> time) list \<times> AdaptiveMemoryGovernor"

definition drop_nth :: "nat \<Rightarrow> 'a list \<Rightarrow> 'a list" where
  "drop_nth i xs = take i xs @ drop (Suc i) xs"

fun client_step :: "client_op \<Rightarrow> client_state \<Rightarrow> memory_error + client_state" where
  "client_step (TryNow now reading c n) (cs, ws, g) =
     (case reserve_nowait now reading c n g of
        Inl e \<Rightarrow> Inl e
      | Inr (b, g) \<Rightarrow> Inr (if b then (c, n) # cs else cs, ws, g))"
| "client_step (Reserve now reading c n timeout) (cs, ws, g) =
     (case reserve_begin now reading c n timeout g of
        Inl e \<Rightarrow> Inl e
      | Inr (None, g) \<Rightarrow> Inr ((c, n) # cs, ws, g)
      | Inr (Some w, g) \<Rightarrow> Inr (cs, (w, c, n, timeout) # ws, g))"
| "client_step (Pass i elapsed now reading) (cs, ws, g) =
     (if i < length ws then
        (let (w, c, n, timeout) = ws ! i; (r, g) = reserve_turn w c n timeout elapsed now reading g in
         Inr (case r of
                None \<Rightarrow> (cs, ws, g)
              | Some b \<Rightarrow> (if b then (c, n) # cs else cs, drop_nth i ws, g)))
      else Inr (cs, ws, g))"
| "client_step (Cancel i) (cs, ws, g) =
     Inr (if i < length ws then (cs, drop_nth i ws, leave_waiters (fst (ws ! i)) g) else (cs, ws, g))"
| "client_step (GiveBack i) (cs, ws, g) =
     (if i < length cs then
        (case release (fst (cs ! i)) (snd (cs ! i)) g of
           Inl e \<Rightarrow> Inl e
         | Inr (_, g) \<Rightarrow> Inr (drop_nth i cs, ws, g))
      else Inr (cs, ws, g))"

fun client_run :: "client_op list \<Rightarrow> client_state \<Rightarrow> memory_error + client_state" where
  "client_run [] s = Inr s"
| "client_run (op # ops) s = (case client_step op s of Inl e \<Rightarrow> Inl e | Inr s \<Rightarrow> client_run ops s)"

fun valid_request :: "client_op \<Rightarrow> bool" where
  "valid_request (TryNow now reading c n) = (0 \<le> n)"
| "valid_request (Reserve now reading c n timeout) = (0 \<le> n \<and> 0 < timeout)"
| "valid_request _ = True"

text \<open>Balanced claims, and a register that holds exactly the requests that wait.\<close>

definition registered :: "(nat \<times> string \<times> int \<times> time) list \<Rightarrow> AdaptiveMemoryGovernor \<Rightarrow> bool" where
  "registered ws g \<longleftrightarrow> waiters g = map fst ws \<and> distinct (map fst ws) \<and> (\<forall>w \<in> set (map fst ws). w < next_waiter g) \<and>
     waiting_reservations g = int (length ws) \<and> (\<forall>(w, c, n, t) \<in> set ws. 0 < n)"

lemma registered_same:
  "registered ws g \<Longrightarrow> waiters h = waiters g \<Longrightarrow> next_waiter h = next_waiter g \<Longrightarrow>
   waiting_reservations h = waiting_reservations g \<Longrightarrow> registered ws h"
  by (simp add: registered_def)

lemma drop_nth_length: "i < length xs \<Longrightarrow> Suc (length (drop_nth i xs)) = length xs"
  by (simp add: drop_nth_def)

lemma drop_nth_removeAll: "distinct xs \<Longrightarrow> i < length xs \<Longrightarrow> removeAll (xs ! i) xs = drop_nth i xs"
proof -
  assume "distinct xs" "i < length xs"
  moreover from this have "xs = take i xs @ xs ! i # drop (Suc i) xs" by (simp add: id_take_nth_drop)
  ultimately have "removeAll (xs ! i) xs = removeAll (xs ! i) (take i xs) @ removeAll (xs ! i) (drop (Suc i) xs)"
      "xs ! i \<notin> set (take i xs)" "xs ! i \<notin> set (drop (Suc i) xs)"
    by (metis (no_types, lifting) append.simps(2) not_distinct_conv_prefix distinct_append removeAll.simps(2) removeAll_append
        disjoint_iff list.set_intros(1) distinct.simps(2))+
  then show ?thesis by (simp add: drop_nth_def)
qed

lemma map_drop_nth: "map f (drop_nth i xs) = drop_nth i (map f xs)"
  by (simp add: drop_nth_def take_map drop_map)

lemma set_drop_nth: "set (drop_nth i xs) \<subseteq> set xs"
  by (auto simp: drop_nth_def dest: in_set_takeD in_set_dropD)

lemma registered_drop:
  assumes reg: "registered ws g" and i: "i < length ws"
    and "waiters h = removeAll (fst (ws ! i)) (waiters g)" "next_waiter h = next_waiter g"
      "waiting_reservations h = max 0 (waiting_reservations g - 1)"
  shows "registered (drop_nth i ws) h"
proof -
  have d: "distinct (map fst ws)" and ws: "waiters g = map fst ws" using reg by (simp_all only: registered_def simp_thms)
  have r: "removeAll (fst (ws ! i)) (map fst ws) = drop_nth i (map fst ws)"
    using drop_nth_removeAll [OF d, of i] i by simp
  have "waiters h = map fst (drop_nth i ws)" unfolding assms(3) ws r map_drop_nth ..
  moreover have "distinct (map fst (drop_nth i ws))"
    unfolding map_drop_nth r [symmetric] by (rule distinct_removeAll [OF d])
  moreover have "waiting_reservations h = int (length (drop_nth i ws))"
    using reg assms(5) drop_nth_length [OF i] by (simp add: registered_def)
  moreover have "\<forall>w \<in> set (map fst (drop_nth i ws)). w < next_waiter h"
    using reg set_drop_nth [of i "map fst ws"] assms(4) unfolding registered_def map_drop_nth by (metis subsetD)
  moreover have "\<forall>(w, c, n, t) \<in> set (drop_nth i ws). 0 < n"
    using reg set_drop_nth [of i ws] unfolding registered_def by blast
  ultimately show ?thesis unfolding registered_def by blast
qed

lemma reserve_nowait_frame:
  "reserve_nowait now reading c n g = Inr (b, h) \<Longrightarrow>
   waiters h = waiters g \<and> next_waiter h = next_waiter g \<and> waiting_reservations h = waiting_reservations g"
  by (auto simp: reserve_nowait_eq split: if_splits)

lemma balanced_same: "governor.balanced cs g \<Longrightarrow> reserved h = reserved g \<Longrightarrow> governor_ok h \<Longrightarrow> governor.balanced cs h"
  by (simp add: governor.balanced_def owned_by_def)

lemma balanced_granted:
  "governor.balanced cs g \<Longrightarrow> governor_ok h \<Longrightarrow> 0 \<le> n \<Longrightarrow>
   (\<And>k. owned_by h k = owned_by g k + (if b \<and> normalized_category c = normalized_category k then n else 0)) \<Longrightarrow>
   governor.balanced (if b then (c, n) # cs else cs) h"
  by (simp add: governor.balanced_def)

lemma client_step_ok:
  assumes bal: "governor.balanced cs g" and reg: "registered ws g" and valid: "valid_request op"
  shows "\<exists>cs' ws' g'. client_step op (cs, ws, g) = Inr (cs', ws', g') \<and> governor.balanced cs' g' \<and> registered ws' g'"
proof (cases op)
  case (TryNow now reading c n)
  have ok: "governor_ok g" using bal by (simp add: governor.balanced_def)
  from reserve_nowait_law [OF ok, of n now reading c] valid obtain b h where
    h: "reserve_nowait now reading c n g = Inr (b, h)" "governor_ok h"
      "\<forall>k. owned_by h k = owned_by g k + (if b \<and> normalized_category c = normalized_category k then n else 0)"
    by (auto simp: TryNow)
  with balanced_granted [OF bal h(2), of n b c] registered_same [OF reg, of h] reserve_nowait_frame [OF h(1)] valid
  show ?thesis by (simp add: TryNow)
next
  case (Reserve now reading c n timeout)
  have ok: "governor_ok g" using bal by (simp add: governor.balanced_def)
  show ?thesis
  proof (cases "n = 0")
    case True
    with bal reg valid show ?thesis by (simp add: Reserve reserve_begin_def governor.balanced_def)
  next
    case False
    with valid have n: "0 < n" "0 < timeout" by (simp_all add: Reserve)
    obtain b h where t: "try_reserve now reading (normalized_category c) n False g = (b, h)" by fastforce
    note frame = try_reserve_ok [OF ok n(1) t]
    note owned = try_reserve_owned [OF ok t]
    have bal': "governor.balanced (if b then (c, n) # cs else cs) h"
      using balanced_granted [OF bal _ _ owned] frame n(1) by simp
    show ?thesis
    proof (cases b)
      case True
      with bal' registered_same [OF reg, of h] frame n t show ?thesis by (simp add: Reserve reserve_begin_def)
    next
      case False
      let ?h = "h\<lparr>blocked_reservations := blocked_reservations h + 1, waiting_reservations := waiting_reservations h + 1,
          waiters := next_waiter h # waiters h, next_waiter := next_waiter h + 1\<rparr>"
      have "governor_ok ?h" using frame by (simp add: governor_ok_def)
      then have "governor.balanced cs ?h" using bal' False by (auto intro: balanced_same [of cs h])
      moreover have "registered ((next_waiter h, c, n, timeout) # ws) ?h"
        using reg frame n(1) by (fastforce simp: registered_def)
      ultimately show ?thesis using False n t by (simp add: Reserve reserve_begin_def)
    qed
  qed
next
  case (Pass i elapsed now reading)
  show ?thesis
  proof (cases "i < length ws")
    case True
    obtain w c n timeout where w: "ws ! i = (w, c, n, timeout)" by (metis prod_cases4)
    have n: "0 < n" using reg nth_mem [OF True] by (auto simp: registered_def w)
    have ok: "governor_ok g" using bal by (simp add: governor.balanced_def)
    obtain r h where t: "reserve_turn w c n timeout elapsed now reading g = (r, h)" by fastforce
    note turn = reserve_turn_cases [OF ok n t]
    have bal': "governor.balanced (if r = Some True then (c, n) # cs else cs) h"
      using balanced_granted [OF bal, of h n "r = Some True" c] turn n by simp
    show ?thesis
    proof (cases r)
      case None
      with bal' registered_same [OF reg, of h] turn True w t show ?thesis by (simp add: Pass)
    next
      case (Some b)
      with bal' registered_drop [OF reg True, of h] turn True w t show ?thesis by (simp add: Pass)
    qed
  qed (use bal reg in \<open>simp add: Pass\<close>)
next
  case (Cancel i)
  show ?thesis
  proof (cases "i < length ws")
    case True
    let ?h = "leave_waiters (fst (ws ! i)) g"
    have "governor.balanced cs ?h"
      using bal by (auto intro: balanced_same simp: governor.balanced_def leave_waiters_def owned_by_def governor_ok_def)
    moreover have "registered (drop_nth i ws) ?h" by (rule registered_drop [OF reg True]) (simp_all add: leave_waiters_def)
    ultimately show ?thesis using True by (simp add: Cancel)
  qed (use bal reg in \<open>simp add: Cancel\<close>)
next
  case (GiveBack i)
  from governor.budget_step_balanced [OF bal, of "Give i"] obtain cs' h where
    h: "budget_step (\<lambda>(now, reading). reserve_nowait now reading) release (Give i) (cs, g) = Inr (cs', h)"
      "governor.balanced cs' h" by auto
  have "waiters h = waiters g \<and> next_waiter h = next_waiter g \<and> waiting_reservations h = waiting_reservations g"
    using h(1) by (auto simp: release_def Let_def split: if_splits sum.splits)
  with h registered_same [OF reg, of h] show ?thesis
    by (auto simp: GiveBack drop_nth_def split: if_splits sum.splits)
qed

lemma client_run_ok:
  "governor.balanced cs g \<Longrightarrow> registered ws g \<Longrightarrow> list_all valid_request ops \<Longrightarrow>
   \<exists>cs' ws' g'. client_run ops (cs, ws, g) = Inr (cs', ws', g') \<and> governor.balanced cs' g' \<and> registered ws' g'"
proof (induction ops arbitrary: cs ws g)
  case (Cons op ops)
  then obtain cs' ws' g' where "client_step op (cs, ws, g) = Inr (cs', ws', g')" "governor.balanced cs' g'" "registered ws' g'"
    using client_step_ok [OF Cons.prems(1,2), of op] by auto
  with Cons.IH [of cs' g' ws'] Cons.prems(3) show ?case by auto
qed simp

text \<open>
  C31. Waiting reservations always end and leave nothing behind. Whatever the clients do, in any order (immediate requests,
  waiting ones, passes of their loops, cancellations, releases of what they hold): the governor never meets an underflow,
  its register and its counter of waiting reservations hold exactly the requests that still wait, and every category owns
  exactly what was granted to its clients and not given back. A pass at or after its deadline ends a waiting request:
  it answers no, reserves nothing and takes the request out of the register.
\<close>

theorem memory_reserve_wait_returns:
  assumes "new_governor soft guard ratio fallback cache = Inr g0" and "list_all valid_request ops"
  shows "\<exists>cs ws g. client_run ops ([], [], g0) = Inr (cs, ws, g) \<and>
    waiters g = map fst ws \<and> distinct (waiters g) \<and> waiting_reservations g = int (length ws) \<and>
    (\<forall>c. owned_by g c = claimed normalized_category cs c) \<and>
    (\<forall>i w c n timeout elapsed now reading. i < length ws \<and> ws ! i = (w, c, n, timeout) \<and> timeout \<le> elapsed \<longrightarrow>
       (\<exists>h. client_step (Pass i elapsed now reading) (cs, ws, g) = Inr (cs, drop_nth i ws, h) \<and>
          wait_timeouts h = wait_timeouts g + 1))"
proof -
  have "governor.balanced [] g0" "registered [] g0"
    using assms(1) by (auto simp: governor.balanced_def new_governor_ok owned_by_def new_governor_def registered_def split: if_splits)
  from client_run_ok [OF this assms(2)] obtain cs ws g where
    g: "client_run ops ([], [], g0) = Inr (cs, ws, g)" "governor.balanced cs g" "registered ws g" by blast
  have "\<exists>h. client_step (Pass i elapsed now reading) (cs, ws, g) = Inr (cs, drop_nth i ws, h) \<and> wait_timeouts h = wait_timeouts g + 1"
    if "i < length ws" "ws ! i = (w, c, n, timeout)" "timeout \<le> elapsed" for i w c n timeout elapsed now reading
    using that by (simp add: reserve_turn_def leave_waiters_def)
  moreover have "waiters g = map fst ws" "distinct (waiters g)" "waiting_reservations g = int (length ws)"
    using g(3) by (simp_all add: registered_def)
  moreover have "\<forall>c. owned_by g c = claimed normalized_category cs c" using g(2) by (simp add: governor.balanced_def)
  ultimately show ?thesis using g(1) by blast
qed

text \<open>
  A request that is too large waits while another client takes and gives back some bytes; a second one is cancelled, and the
  first one ends at its deadline.
\<close>

theorem memory_reserve_wait_returns_witness:
  "\<exists>cs ws g. client_run
      [Reserve 0 (Inr sample_1g) ''stream'' (2000 * MIB) 1, TryNow 0 (Inr sample_1g) ''body'' MIB,
       Reserve 0 (Inr sample_1g) ''stream'' (3000 * MIB) 1, Pass 1 (1 / 2) (1 / 2) (Inr sample_1g), GiveBack 0, Cancel 0,
       Pass 0 1 1 (Inr sample_1g)] ([], [], default_governor) = Inr (cs, ws, g) \<and>
    waiters g = map fst ws \<and> waiting_reservations g = int (length ws)"
proof -
  have "new_governor None DEFAULT_GUARD_BYTES DEFAULT_GUARD_RATIO DEFAULT_FALLBACK_BUDGET_BYTES
      DEFAULT_SAMPLE_CACHE_SECONDS = Inr default_governor" by (simp add: governor_eval)
  from memory_reserve_wait_returns [OF this,
      of "[Reserve 0 (Inr sample_1g) ''stream'' (2000 * MIB) 1, TryNow 0 (Inr sample_1g) ''body'' MIB,
       Reserve 0 (Inr sample_1g) ''stream'' (3000 * MIB) 1, Pass 1 (1 / 2) (1 / 2) (Inr sample_1g), GiveBack 0, Cancel 0,
       Pass 0 1 1 (Inr sample_1g)]"]
  show ?thesis by (auto simp: MIB_def)
qed

end
