(* ===== verification/MemoryGate.thy ===== *)
theory MemoryGate
  imports MemoryGovernor AdmissionLease
begin

text \<open>
  \<open>MemoryResourceAdmissionGate\<close> of \<open>uni_api/admission/core.py\<close>: a request is admitted when its
  control memory fits the parent budget; the number of requests is not limited. The gate and the
  governor it shares are one state; the list of readings is what the clock and the cgroup files will
  say to the next attempts (the last one stays when the list runs out).
\<close>

record MemoryResourceAdmissionGate =
  control_memory_bytes :: int
  active :: int
  acquired_total :: nat
  cancelled_total :: nat
  gate_rejected :: "(string, int) dict"

type_synonym gate_world = "MemoryResourceAdmissionGate \<times> AdaptiveMemoryGovernor \<times> (time \<times> reading) list"

definition new_memory_gate :: "int \<Rightarrow> memory_error + MemoryResourceAdmissionGate" where
  "new_memory_gate bytes =
     (if bytes \<le> 0 then Inl (ValueError ''control_memory_bytes must be positive'')
      else Inr \<lparr>control_memory_bytes = bytes, active = 0, acquired_total = 0, cancelled_total = 0,
                gate_rejected = []\<rparr>)"

definition next_reading :: "(time \<times> reading) list \<Rightarrow> (time \<times> reading) \<times> (time \<times> reading) list" where
  "next_reading rs =
     (case rs of [] \<Rightarrow> ((0, Inl ''no sample''), []) | [r] \<Rightarrow> (r, [r]) | r # rest \<Rightarrow> (r, rest))"

definition try_acquire_nowait :: "gate_world \<Rightarrow> memory_error + bool \<times> gate_world" where
  "try_acquire_nowait = (\<lambda>(gate, gov, rs).
     (let ((now, reading), rs') = next_reading rs in
      case reserve_nowait now reading ''request_control'' (control_memory_bytes gate) gov of
        Inl e \<Rightarrow> Inl e
      | Inr (False, gov') \<Rightarrow> Inr (False, gate, gov', rs')
      | Inr (True, gov') \<Rightarrow>
          Inr (True, gate\<lparr>active := active gate + 1, acquired_total := acquired_total gate + 1\<rparr>, gov', rs')))"

text \<open>\<open>begin_acquire\<close>: a resolved future with the lease, or \<open>AdmissionRejected\<close>.\<close>

datatype gate_answer = Lease | AdmissionRejected string

definition begin_acquire :: "gate_world \<Rightarrow> memory_error + gate_answer \<times> gate_world" where
  "begin_acquire w =
     (case try_acquire_nowait w of
        Inl e \<Rightarrow> Inl e
      | Inr (True, w') \<Rightarrow> Inr (Lease, w')
      | Inr (False, gate, rest) \<Rightarrow>
          Inr (AdmissionRejected ''memory_hard_guard'',
            gate\<lparr>gate_rejected := add_count ''memory_hard_guard'' 1 (gate_rejected gate)\<rparr>, rest))"

definition release_slot :: "gate_world \<Rightarrow> memory_error + gate_world" where
  "release_slot = (\<lambda>(gate, gov, rs).
     (if active gate \<le> 0 then Inl (RuntimeError ''resource admission active count underflow'')
      else
        (case release ''request_control'' (control_memory_bytes gate) gov of
           Inl e \<Rightarrow> Inl e
         | Inr (_, gov') \<Rightarrow> Inr (gate\<lparr>active := active gate - 1\<rparr>, gov', rs))))"

definition memory_gate_snapshot :: "MemoryResourceAdmissionGate \<Rightarrow> (string, int) dict" where
  "memory_gate_snapshot gate =
     [(''active'', active gate), (''waiters'', 0),
      (''control_memory_bytes_per_request'', control_memory_bytes gate),
      (''control_memory_reserved_bytes'', active gate * control_memory_bytes gate),
      (''acquired_total'', int (acquired_total gate)),
      (''cancelled_total'', int (cancelled_total gate))]"

section \<open>The gate under its governor\<close>

text \<open>The bytes of the category of the gate are the control memory of its active requests.\<close>

definition memory_gate_ok :: "gate_world \<Rightarrow> bool" where
  "memory_gate_ok = (\<lambda>(gate, gov, rs). governor_ok gov \<and> 0 < control_memory_bytes gate \<and> 0 \<le> active gate \<and>
     owned_by gov ''request_control'' = active gate * control_memory_bytes gate)"

definition total_acquire :: "gate_world \<Rightarrow> bool \<times> gate_world" where
  "total_acquire w = (case try_acquire_nowait w of Inl e \<Rightarrow> (False, w) | Inr r \<Rightarrow> r)"

lemma try_acquire_nowait_law:
  assumes "memory_gate_ok w"
  shows "\<exists>b w'. try_acquire_nowait w = Inr (b, w') \<and> memory_gate_ok w' \<and>
    active (fst w') = active (fst w) + (if b then 1 else 0) \<and>
    control_memory_bytes (fst w') = control_memory_bytes (fst w)"
proof -
  obtain gate gov rs where w: "w = (gate, gov, rs)" by (cases w)
  obtain now reading rs' where rs: "next_reading rs = ((now, reading), rs')" by (metis surj_pair)
  have ok: "governor_ok gov" "0 < control_memory_bytes gate" "0 \<le> active gate"
    "owned_by gov ''request_control'' = active gate * control_memory_bytes gate"
    using assms by (simp_all add: memory_gate_ok_def w)
  from reserve_nowait_law [OF ok(1) less_imp_le [OF ok(2)], of now reading "''request_control''"]
  obtain b gov' where "reserve_nowait now reading ''request_control'' (control_memory_bytes gate) gov = Inr (b, gov')"
    "governor_ok gov'" "owned_by gov' ''request_control'' =
      owned_by gov ''request_control'' + (if b then control_memory_bytes gate else 0)" by auto
  with ok rs show ?thesis
    by (cases b) (auto simp: try_acquire_nowait_def w memory_gate_ok_def algebra_simps)
qed

lemma release_slot_gate_law:
  assumes "memory_gate_ok w" "0 < active (fst w)"
  shows "\<exists>w'. release_slot w = Inr w' \<and> memory_gate_ok w' \<and> active (fst w') = active (fst w) - 1 \<and>
    control_memory_bytes (fst w') = control_memory_bytes (fst w)"
proof -
  obtain gate gov rs where w: "w = (gate, gov, rs)" by (cases w)
  have ok: "governor_ok gov" "0 < control_memory_bytes gate" "0 < active gate"
    "owned_by gov ''request_control'' = active gate * control_memory_bytes gate"
    using assms by (simp_all add: memory_gate_ok_def w)
  have "1 * control_memory_bytes gate \<le> active gate * control_memory_bytes gate"
    using ok(2,3) by (intro mult_right_mono) simp_all
  then have "control_memory_bytes gate \<le> owned_by gov ''request_control''" using ok(4) by simp
  from release_law [OF ok(1) less_imp_le [OF ok(2)] this] obtain ws gov' where
    "release ''request_control'' (control_memory_bytes gate) gov = Inr (ws, gov')" "governor_ok gov'"
    "owned_by gov' ''request_control'' = owned_by gov ''request_control'' - control_memory_bytes gate" by auto
  with ok show ?thesis
    by (auto simp: release_slot_def w memory_gate_ok_def algebra_simps)
qed

interpretation memory_gate: slot_gate "\<lambda>w. active (fst w)" total_acquire release_slot memory_gate_ok
proof (unfold_locales, goal_cases)
  case (1 w b w')
  from try_acquire_nowait_law [OF 1(1)] obtain c v where
    v: "try_acquire_nowait w = Inr (c, v)" "memory_gate_ok v"
    "active (fst v) = active (fst w) + (if c then 1 else 0)" by blast
  then have "total_acquire w = (c, v)" by (simp add: total_acquire_def)
  with 1(2) v(2,3) show ?case by simp
next
  case (2 w)
  then show ?case using release_slot_gate_law by blast
qed

text \<open>
  However requests are admitted and their leases released (also more than once, and in any order),
  neither the gate nor the governor underflows: the active count is the number of leases not yet
  released and the governor holds exactly their control memory.
\<close>

theorem memory_gate_accounts_leases:
  assumes "new_memory_gate bytes = Inr gate" "governor_ok gov" "owned_by gov ''request_control'' = 0"
  shows "\<exists>ls gate' gov' rs'. lease_run total_acquire release_slot ops ([], gate, gov, rs) = Inr (ls, gate', gov', rs') \<and>
    active gate' = held ls \<and> owned_by gov' ''request_control'' = held ls * control_memory_bytes gate'"
proof -
  have "memory_gate_ok (gate, gov, rs)" "active gate = held []"
    using assms by (auto simp: new_memory_gate_def memory_gate_ok_def held_def split: if_splits)
  then show ?thesis
    using memory_gate.lease_run_account [of "(gate, gov, rs)" "[]" ops]
    by (fastforce simp: memory_gate_ok_def)
qed

theorem memory_gate_accounts_leases_witness:
  "\<exists>ls gate gov rs. lease_run total_acquire release_slot [Grab 0, Grab 1, Drop 0, Drop 0, Drop 1]
      ([], \<lparr>control_memory_bytes = 4096, active = 0, acquired_total = 0, cancelled_total = 0,
            gate_rejected = []\<rparr>, default_governor, [(0, Inr sample_1g)]) = Inr (ls, gate, gov, rs) \<and>
    active gate = held ls \<and> owned_by gov ''request_control'' = held ls * control_memory_bytes gate"
  by (rule memory_gate_accounts_leases [of 4096, OF _ default_governor_ok])
    (simp_all add: new_memory_gate_def owned_by_def governor_eval)

end
