(* ===== verification/NetworkGovernor.thy ===== *)
theory NetworkGovernor
  imports AdmissionLease
begin

text \<open>
  \<open>AdaptiveNetworkGovernor\<close> of \<open>uni_api/admission/network.py\<close>: connection attempts against the
  file descriptors and ephemeral ports the kernel still has. A provisional reservation covers an
  attempt until its headers arrive; a finished attempt keeps its charge until the next sample.

  What the four suppliers return (or the text of the exception they raise) and the clock are
  arguments. \<open>\<lfloor>x\<rfloor>\<close> and \<open>\<lceil>x\<rceil>\<close> are \<open>math.floor\<close> and \<open>math.ceil\<close>.
\<close>

datatype network_error = NetValueError string | Underflow string

type_synonym supplied = "string + int option"

record NetworkReading =
  nofile_supplier :: supplied
  open_fds_supplier :: supplied
  ephemeral_ports_supplier :: supplied
  ephemeral_occupancy_supplier :: supplied

record AdaptiveNetworkGovernor =
  fd_reserve_min :: int
  fd_reserve_ratio :: real
  ephemeral_port_utilization :: real
  net_cache_seconds :: time
  wait_poll_seconds :: time
  net_sampled_at :: "time option"
  net_sample_error :: "string option"
  nofile_soft_limit :: "int option"
  open_fds :: "int option"
  ephemeral_ports :: "int option"
  ephemeral_occupancy :: "int option"
  pending_attempts :: int
  completed_attempts_since_sample :: int
  inbound_accepts_since_sample :: int
  waiting_attempts :: int
  net_acquired_total :: nat
  blocked_total :: nat
  net_cancelled_total :: nat
  net_waiters :: "nat list"
  net_next_waiter :: nat

definition new_network_governor ::
  "int \<Rightarrow> real \<Rightarrow> real \<Rightarrow> time \<Rightarrow> time \<Rightarrow> network_error + AdaptiveNetworkGovernor" where
  "new_network_governor reserve_min ratio utilization cache poll =
     (if reserve_min < 0 then Inl (NetValueError ''fd_reserve_min cannot be negative'')
      else if \<not> (0 \<le> ratio \<and> ratio < 1) then Inl (NetValueError ''fd_reserve_ratio must be below one'')
      else if \<not> (0 < utilization \<and> utilization < 1)
      then Inl (NetValueError ''ephemeral_port_utilization must be between zero and one'')
      else if cache < 0 \<or> poll \<le> 0 then Inl (NetValueError ''network sampling intervals are invalid'')
      else Inr \<lparr>fd_reserve_min = reserve_min, fd_reserve_ratio = ratio,
                ephemeral_port_utilization = utilization, net_cache_seconds = cache,
                wait_poll_seconds = poll, net_sampled_at = None, net_sample_error = None,
                nofile_soft_limit = None, open_fds = None, ephemeral_ports = None,
                ephemeral_occupancy = None, pending_attempts = 0,
                completed_attempts_since_sample = 0, inbound_accepts_since_sample = 0,
                waiting_attempts = 0, net_acquired_total = 0, blocked_total = 0,
                net_cancelled_total = 0, net_waiters = [], net_next_waiter = 0\<rparr>)"

text \<open>
  \<open>_sample_locked\<close>: the suppliers are called in order; the first exception leaves what was read so
  far and keeps the provisional charges.
\<close>

definition net_sample ::
  "bool \<Rightarrow> time \<Rightarrow> NetworkReading \<Rightarrow> AdaptiveNetworkGovernor \<Rightarrow> AdaptiveNetworkGovernor" where
  "net_sample force now r n =
     (if \<not> force \<and> (case net_sampled_at n of None \<Rightarrow> False | Some t \<Rightarrow> now - t < net_cache_seconds n)
      then n
      else
        (case nofile_supplier r of
           Inl text \<Rightarrow> n\<lparr>net_sample_error := Some (take 512 text)\<rparr>
         | Inr v1 \<Rightarrow>
           let n = n\<lparr>nofile_soft_limit := v1\<rparr> in
           (case open_fds_supplier r of
              Inl text \<Rightarrow> n\<lparr>net_sample_error := Some (take 512 text)\<rparr>
            | Inr v2 \<Rightarrow>
              let n = n\<lparr>open_fds := v2\<rparr> in
              (case ephemeral_ports_supplier r of
                 Inl text \<Rightarrow> n\<lparr>net_sample_error := Some (take 512 text)\<rparr>
               | Inr v3 \<Rightarrow>
                 let n = n\<lparr>ephemeral_ports := v3\<rparr> in
                 (case ephemeral_occupancy_supplier r of
                    Inl text \<Rightarrow> n\<lparr>net_sample_error := Some (take 512 text)\<rparr>
                  | Inr v4 \<Rightarrow> n\<lparr>ephemeral_occupancy := v4, completed_attempts_since_sample := 0,
                                inbound_accepts_since_sample := 0, net_sample_error := None\<rparr>))))
        \<lparr>net_sampled_at := Some now\<rparr>)"

definition fd_reserve :: "AdaptiveNetworkGovernor \<Rightarrow> int option" where
  "fd_reserve n =
     (case nofile_soft_limit n of
        None \<Rightarrow> None
      | Some l \<Rightarrow> Some (max (min (fd_reserve_min n) (max 1 (l div 2)))
                           \<lceil>real_of_int l * fd_reserve_ratio n\<rceil>))"

definition headroom :: "AdaptiveNetworkGovernor \<Rightarrow> int option \<times> int option" where
  "headroom n =
     ((case (nofile_soft_limit n, open_fds n, fd_reserve n) of
         (Some l, Some fds, Some res) \<Rightarrow>
           Some (max 0 (l - res - fds - pending_attempts n
                        - completed_attempts_since_sample n - inbound_accepts_since_sample n))
       | _ \<Rightarrow> None),
      (case (ephemeral_ports n, ephemeral_occupancy n) of
         (Some ports, Some occupied) \<Rightarrow>
           Some (max 0 (\<lfloor>real_of_int ports * ephemeral_port_utilization n\<rfloor> - occupied
                        - pending_attempts n - completed_attempts_since_sample n))
       | _ \<Rightarrow> None))"

definition exhausted :: "int option \<Rightarrow> bool" where
  "exhausted h = (case h of None \<Rightarrow> False | Some v \<Rightarrow> v \<le> 0)"

definition net_try_reserve ::
  "time \<Rightarrow> NetworkReading \<Rightarrow> AdaptiveNetworkGovernor \<Rightarrow> bool \<times> AdaptiveNetworkGovernor" where
  "net_try_reserve now r n =
     (let n1 = net_sample False now r n; (fds, ports) = headroom n1 in
      if exhausted fds then (False, n1)
      else if exhausted ports then (False, n1)
      else (True, n1\<lparr>pending_attempts := pending_attempts n1 + 1,
                     net_acquired_total := net_acquired_total n1 + 1\<rparr>))"

text \<open>
  \<open>acquire\<close>: at once or by a registered waiter; one \<open>acquire_turn\<close> is one pass of its loop. An abort
  raises \<open>NetworkGovernorClosed\<close>.
\<close>

definition acquire_begin ::
  "time \<Rightarrow> NetworkReading \<Rightarrow> AdaptiveNetworkGovernor \<Rightarrow> nat option \<times> AdaptiveNetworkGovernor" where
  "acquire_begin now r n =
     (let (got, n1) = net_try_reserve now r n in
      if got then (None, n1)
      else (Some (net_next_waiter n1),
            n1\<lparr>blocked_total := blocked_total n1 + 1, waiting_attempts := waiting_attempts n1 + 1,
               net_waiters := net_next_waiter n1 # net_waiters n1,
               net_next_waiter := net_next_waiter n1 + 1\<rparr>))"

definition leave_net_waiters :: "nat \<Rightarrow> AdaptiveNetworkGovernor \<Rightarrow> AdaptiveNetworkGovernor" where
  "leave_net_waiters w n = n\<lparr>net_waiters := removeAll w (net_waiters n),
     waiting_attempts := max 0 (waiting_attempts n - 1)\<rparr>"

datatype acquire_answer = Acquired | Closed | Sleeping

definition acquire_turn ::
  "nat \<Rightarrow> bool \<Rightarrow> time \<Rightarrow> NetworkReading \<Rightarrow> AdaptiveNetworkGovernor
   \<Rightarrow> acquire_answer \<times> AdaptiveNetworkGovernor" where
  "acquire_turn w abort now r n =
     (if abort then (Closed, leave_net_waiters w n)
      else
        let (got, n1) = net_try_reserve now r n in
        if got then (Acquired, leave_net_waiters w n1) else (Sleeping, n1))"

definition acquire_cancelled :: "nat \<Rightarrow> AdaptiveNetworkGovernor \<Rightarrow> AdaptiveNetworkGovernor" where
  "acquire_cancelled w n =
     leave_net_waiters w (n\<lparr>net_cancelled_total := net_cancelled_total n + 1\<rparr>)"

definition net_release :: "AdaptiveNetworkGovernor \<Rightarrow> network_error + nat list \<times> AdaptiveNetworkGovernor" where
  "net_release n =
     (if pending_attempts n \<le> 0
      then Inl (Underflow ''network connection-attempt reservation underflow'')
      else Inr (net_waiters n,
             n\<lparr>pending_attempts := pending_attempts n - 1,
               completed_attempts_since_sample := completed_attempts_since_sample n + 1\<rparr>))"

definition allow_inbound_connection ::
  "time \<Rightarrow> NetworkReading \<Rightarrow> AdaptiveNetworkGovernor \<Rightarrow> bool \<times> AdaptiveNetworkGovernor" where
  "allow_inbound_connection now r n =
     (let n1 = net_sample False now r n in
      if exhausted (fst (headroom n1)) then (False, n1)
      else (True, n1\<lparr>inbound_accepts_since_sample := inbound_accepts_since_sample n1 + 1\<rparr>))"

section \<open>The file descriptors of a sample are not spent twice\<close>

text \<open>Everything charged against the descriptors that the last sample showed free.\<close>

definition fd_charge :: "AdaptiveNetworkGovernor \<Rightarrow> int" where
  "fd_charge n = pending_attempts n + completed_attempts_since_sample n + inbound_accepts_since_sample n"

definition port_charge :: "AdaptiveNetworkGovernor \<Rightarrow> int" where
  "port_charge n = pending_attempts n + completed_attempts_since_sample n"

lemma net_sample_pending [simp]:
  "pending_attempts (net_sample force now r n) = pending_attempts n"
  "net_waiters (net_sample force now r n) = net_waiters n"
  "waiting_attempts (net_sample force now r n) = waiting_attempts n"
  by (simp_all add: net_sample_def Let_def split: sum.split)

lemma net_sample_charges:
  "0 \<le> completed_attempts_since_sample n \<Longrightarrow> 0 \<le> completed_attempts_since_sample (net_sample force now r n)"
  "0 \<le> inbound_accepts_since_sample n \<Longrightarrow> 0 \<le> inbound_accepts_since_sample (net_sample force now r n)"
  by (simp_all add: net_sample_def Let_def split: sum.split)

definition net_ok :: "AdaptiveNetworkGovernor \<Rightarrow> bool" where
  "net_ok n \<longleftrightarrow> 0 \<le> pending_attempts n \<and> 0 \<le> completed_attempts_since_sample n \<and>
     0 \<le> inbound_accepts_since_sample n"

lemma net_ok_sample [simp]: "net_ok n \<Longrightarrow> net_ok (net_sample force now r n)"
  by (simp add: net_ok_def net_sample_charges)

lemma net_try_reserve_law:
  assumes "net_ok n" "net_try_reserve now r n = (b, n')"
  shows "net_ok n' \<and> pending_attempts n' = pending_attempts n + (if b then 1 else 0)"
proof -
  have "net_ok (net_sample False now r n)" using assms(1) by simp
  with assms(2) show ?thesis
    by (auto simp: net_try_reserve_def Let_def net_ok_def split: prod.splits if_splits)
qed

lemma net_release_law:
  "net_ok n \<Longrightarrow> 0 < pending_attempts n \<Longrightarrow>
     \<exists>ws n'. net_release n = Inr (ws, n') \<and> net_ok n' \<and> pending_attempts n' = pending_attempts n - 1"
  by (simp add: net_release_def net_ok_def)

text \<open>
  A connection attempt is an acquired reservation released once: the gate of leases again, with the
  readings that the attempts will find.
\<close>

type_synonym net_world = "AdaptiveNetworkGovernor \<times> (time \<times> NetworkReading) list"

definition net_acquire :: "net_world \<Rightarrow> bool \<times> net_world" where
  "net_acquire = (\<lambda>(n, rs).
     (case rs of
        [] \<Rightarrow> (False, n, [])
      | (now, r) # rest \<Rightarrow> (let (b, n') = net_try_reserve now r n in (b, n', rest))))"

definition net_release_slot :: "net_world \<Rightarrow> network_error + net_world" where
  "net_release_slot = (\<lambda>(n, rs). (case net_release n of Inl e \<Rightarrow> Inl e | Inr (_, n') \<Rightarrow> Inr (n', rs)))"

interpretation network_gate: slot_gate "\<lambda>w. pending_attempts (fst w)" net_acquire net_release_slot "\<lambda>w. net_ok (fst w)"
proof (unfold_locales, goal_cases)
  case (1 w b w')
  then show ?case
    by (cases w) (auto simp: net_acquire_def dest: net_try_reserve_law split: list.splits prod.splits)
next
  case (2 w)
  then show ?case
    using net_release_law [of "fst w"] by (cases w) (auto simp: net_release_slot_def)
qed

definition fds_covered :: "AdaptiveNetworkGovernor \<Rightarrow> bool" where
  "fds_covered n =
     (case (nofile_soft_limit n, open_fds n, fd_reserve n) of
        (Some l, Some fds, Some res) \<Rightarrow> fd_charge n + fds + res \<le> l
      | _ \<Rightarrow> True)"

definition ports_covered :: "AdaptiveNetworkGovernor \<Rightarrow> bool" where
  "ports_covered n =
     (case (ephemeral_ports n, ephemeral_occupancy n) of
        (Some ports, Some occupied) \<Rightarrow>
          port_charge n + occupied \<le> \<lfloor>real_of_int ports * ephemeral_port_utilization n\<rfloor>
      | _ \<Rightarrow> True)"

lemma fds_left:
  assumes "\<not> exhausted (fst (headroom n))" "nofile_soft_limit n = Some l" "open_fds n = Some fds"
    "fd_reserve n = Some res"
  shows "fd_charge n + 1 + fds + res \<le> l"
  using assms by (simp add: headroom_def exhausted_def fd_charge_def)

lemma ports_left:
  assumes "\<not> exhausted (snd (headroom n))" "ephemeral_ports n = Some ports" "ephemeral_occupancy n = Some occupied"
  shows "port_charge n + 1 + occupied \<le> \<lfloor>real_of_int ports * ephemeral_port_utilization n\<rfloor>"
  using assms by (simp add: headroom_def exhausted_def port_charge_def)

lemma fds_coveredI:
  assumes "nofile_soft_limit n' = nofile_soft_limit n" "open_fds n' = open_fds n" "fd_reserve n' = fd_reserve n"
    "fd_charge n' = fd_charge n + 1" "\<not> exhausted (fst (headroom n))"
  shows "fds_covered n'"
  unfolding fds_covered_def assms(1-4) using fds_left [OF assms(5)] by (simp split: option.split)

lemma covered_after_outbound:
  assumes "\<not> exhausted (fst (headroom n))" "\<not> exhausted (snd (headroom n))"
  shows "fds_covered (n\<lparr>pending_attempts := pending_attempts n + 1, net_acquired_total := k\<rparr>)"
    "ports_covered (n\<lparr>pending_attempts := pending_attempts n + 1, net_acquired_total := k\<rparr>)"
proof -
  let ?n = "n\<lparr>pending_attempts := pending_attempts n + 1, net_acquired_total := k\<rparr>"
  show "fds_covered ?n"
    by (rule fds_coveredI [OF _ _ _ _ assms(1)]) (simp_all add: fd_reserve_def fd_charge_def split: option.split)
  have charge: "port_charge ?n = port_charge n + 1"
    by (simp add: port_charge_def)
  show "ports_covered ?n"
    unfolding ports_covered_def charge using ports_left [OF assms(2)] by (simp split: option.split)
qed

lemma covered_after_inbound:
  assumes "\<not> exhausted (fst (headroom n))"
  shows "fds_covered (n\<lparr>inbound_accepts_since_sample := inbound_accepts_since_sample n + 1\<rparr>)"
  by (rule fds_coveredI [OF _ _ _ _ assms]) (simp_all add: fd_reserve_def fd_charge_def split: option.split)

lemma covered_after_release:
  "net_release n = Inr (ws, n') \<Longrightarrow> fds_covered n' = fds_covered n \<and> ports_covered n' = ports_covered n"
proof -
  assume rel: "net_release n = Inr (ws, n')"
  have n': "n' = n\<lparr>pending_attempts := pending_attempts n - 1,
      completed_attempts_since_sample := completed_attempts_since_sample n + 1\<rparr>"
    using rel by (simp add: net_release_def split: if_splits)
  have same: "fd_charge n' = fd_charge n" "port_charge n' = port_charge n" "fd_reserve n' = fd_reserve n"
    "nofile_soft_limit n' = nofile_soft_limit n" "open_fds n' = open_fds n"
    "ephemeral_ports n' = ephemeral_ports n" "ephemeral_occupancy n' = ephemeral_occupancy n"
    "ephemeral_port_utilization n' = ephemeral_port_utilization n"
    by (simp_all add: n' fd_charge_def port_charge_def fd_reserve_def split: option.split)
  show ?thesis unfolding fds_covered_def ports_covered_def same by simp
qed

text \<open>
  The descriptors a sample shows free are spent at most once: an admitted attempt, outbound or
  inbound, leaves the charges of pending attempts, finished attempts and accepted sockets within the
  sampled limit less the reserve and the open descriptors, and an outbound one within the usable
  ephemeral ports; finishing an attempt does not change the charge.
\<close>

theorem network_headroom_respected:
  "(fst (net_try_reserve now r n) \<longrightarrow>
      fds_covered (snd (net_try_reserve now r n)) \<and> ports_covered (snd (net_try_reserve now r n))) \<and>
   (fst (allow_inbound_connection now r n) \<longrightarrow> fds_covered (snd (allow_inbound_connection now r n))) \<and>
   (\<forall>ws n'. net_release n = Inr (ws, n') \<longrightarrow> fds_covered n' = fds_covered n \<and> ports_covered n' = ports_covered n)"
proof (intro conjI impI allI)
  assume "fst (net_try_reserve now r n)"
  then show "fds_covered (snd (net_try_reserve now r n))" "ports_covered (snd (net_try_reserve now r n))"
    using covered_after_outbound [of "net_sample False now r n"]
    by (auto simp: net_try_reserve_def Let_def split: prod.splits if_splits)
next
  assume "fst (allow_inbound_connection now r n)"
  then show "fds_covered (snd (allow_inbound_connection now r n))"
    by (auto simp: allow_inbound_connection_def Let_def intro: covered_after_inbound split: if_splits)
qed (blast dest: covered_after_release)+

text \<open>A process with 1024 descriptors, 700 of them open, and 100 ephemeral ports.\<close>

definition reading_1024 :: NetworkReading where
  "reading_1024 = \<lparr>nofile_supplier = Inr (Some 1024), open_fds_supplier = Inr (Some 700),
     ephemeral_ports_supplier = Inr (Some 100), ephemeral_occupancy_supplier = Inr (Some 79)\<rparr>"

definition default_network :: AdaptiveNetworkGovernor where
  "default_network = (case new_network_governor 256 (5 / 100) (80 / 100) (5 / 100) (1 / 10) of Inr n \<Rightarrow> n)"

lemmas network_eval = reading_1024_def default_network_def new_network_governor_def net_try_reserve_def
  net_sample_def headroom_def exhausted_def fd_reserve_def Let_def

theorem network_headroom_respected_witness:
  "fst (net_try_reserve 0 reading_1024 default_network) \<and>
   ports_covered (snd (net_try_reserve 0 reading_1024 default_network)) \<and>
   \<not> fst (net_try_reserve 0 reading_1024 (snd (net_try_reserve 0 reading_1024 default_network)))"
proof -
  have "fst (net_try_reserve 0 reading_1024 default_network)"
    "\<not> fst (net_try_reserve 0 reading_1024 (snd (net_try_reserve 0 reading_1024 default_network)))"
    by (simp_all add: network_eval)
  with network_headroom_respected [of 0 reading_1024 default_network] show ?thesis by blast
qed

text \<open>
  Attempts and their releases balance: whatever the samples show, leases taken without waiting and
  released in any order and any number of times never underflow the pending attempts, which are the
  leases not yet released.
\<close>

theorem network_attempts_balanced:
  assumes "new_network_governor reserve_min ratio utilization cache poll = Inr n"
  shows "\<exists>ls n' rs'. lease_run net_acquire net_release_slot ops ([], n, rs) = Inr (ls, n', rs') \<and>
    pending_attempts n' = held ls"
proof -
  have "net_ok n" "pending_attempts n = held []"
    using assms by (auto simp: new_network_governor_def net_ok_def held_def split: if_splits)
  then show ?thesis
    using network_gate.lease_run_account [of "(n, rs)" "[]" ops] by fastforce
qed

theorem network_attempts_balanced_witness:
  "\<exists>ls n rs. lease_run net_acquire net_release_slot [Grab 0, Drop 0, Grab 0, Drop 0]
      ([], default_network, [(0, reading_1024), (1, reading_1024)]) = Inr (ls, n, rs) \<and>
    pending_attempts n = held ls"
  by (rule network_attempts_balanced [of 256 "5 / 100" "80 / 100" "5 / 100" "1 / 10"])
    (simp add: default_network_def new_network_governor_def)

end
