(* ===== verification/StreamBudget.thy ===== *)
theory StreamBudget
  imports MemoryGovernor
begin

text \<open>
  \<open>RetainedByteBudget\<close>, \<open>RetainedByteLease\<close> and \<open>ReservedChunkBuffer\<close> of
  \<open>uni_api/streaming/bounded_queue.py\<close>: the process-wide limit of bytes retained by streams, under the
  parent budget of the memory governor.

  \<open>reserve\<close> first waits for room in the local budget, then for the parent; a failure at the parent
  rolls the local reservation back. A reservation is therefore a waiter, then a size \<open>at_parent\<close>,
  then a lease. A lease can be split, and is released once.
\<close>

section \<open>State\<close>

datatype stream_error =
    ItemTooLarge
  | BufferBudgetTimeout
  | StreamValueError string
  | StreamRuntimeError string

record RetainedByteBudget =
  budget_capacity :: int
  wait_timeout :: time
  memory_category :: string
  used :: int
  peak_used :: int
  budget_waiting :: int
  budget_blocked :: nat
  budget_wait_ms :: time
  budget_timeouts :: nat

record RetainedByteLease =
  lease_size :: int
  lease_released :: bool

text \<open>The budget with its parent (if any), the reservations under way and the leases given.\<close>

record budget_world =
  budget :: RetainedByteBudget
  parent :: "AdaptiveMemoryGovernor option"
  local_waiters :: "int list"
  at_parent :: "int list"
  leases :: "RetainedByteLease list"

definition new_budget :: "int \<Rightarrow> time \<Rightarrow> string \<Rightarrow> stream_error + RetainedByteBudget" where
  "new_budget capacity timeout cat =
     (if capacity \<le> 0 then Inl (StreamValueError ''capacity_bytes must be positive'')
      else if timeout \<le> 0 then Inl (StreamValueError ''wait_timeout_seconds must be positive'')
      else Inr \<lparr>budget_capacity = capacity, wait_timeout = timeout,
                memory_category = (if cat = [] then ''stream_buffer'' else cat), used = 0,
                peak_used = 0, budget_waiting = 0, budget_blocked = 0, budget_wait_ms = 0,
                budget_timeouts = 0\<rparr>)"

definition new_budget_world :: "RetainedByteBudget \<Rightarrow> AdaptiveMemoryGovernor option \<Rightarrow> budget_world" where
  "new_budget_world b g = \<lparr>budget = b, parent = g, local_waiters = [], at_parent = [], leases = []\<rparr>"

section \<open>Operations\<close>

definition remove_at :: "nat \<Rightarrow> 'b list \<Rightarrow> 'b list" where
  "remove_at i xs = take i xs @ drop (Suc i) xs"

text \<open>\<open>wait_and_reserve_local\<close>, without and after waiting.\<close>

definition fits :: "int \<Rightarrow> RetainedByteBudget \<Rightarrow> bool" where
  "fits n b \<longleftrightarrow> used b + n \<le> budget_capacity b"

definition take_local :: "int \<Rightarrow> RetainedByteBudget \<Rightarrow> RetainedByteBudget" where
  "take_local n b = b\<lparr>used := used b + n, peak_used := max (peak_used b) (used b + n)\<rparr>"

definition stop_budget_wait :: "RetainedByteBudget \<Rightarrow> RetainedByteBudget" where
  "stop_budget_wait b = b\<lparr>budget_waiting := max 0 (budget_waiting b - 1)\<rparr>"

definition reserve_local :: "int \<Rightarrow> budget_world \<Rightarrow> stream_error option \<times> budget_world" where
  "reserve_local n w =
     (let b = budget w in
      if n < 0 then (Some (StreamValueError ''reservation size cannot be negative''), w)
      else if budget_capacity b < n then (Some ItemTooLarge, w)
      else if fits n b then (None, w\<lparr>budget := take_local n b, at_parent := at_parent w @ [n]\<rparr>)
      else (None, w\<lparr>budget := b\<lparr>budget_blocked := budget_blocked b + 1,
                                budget_waiting := budget_waiting b + 1\<rparr>,
                    local_waiters := local_waiters w @ [n]\<rparr>))"

definition wake_local :: "nat \<Rightarrow> time \<Rightarrow> budget_world \<Rightarrow> budget_world" where
  "wake_local i waited_ms w =
     (let b = budget w; n = local_waiters w ! i in
      if i < length (local_waiters w) \<and> fits n b
      then w\<lparr>budget := (take_local n (stop_budget_wait b))\<lparr>budget_wait_ms := budget_wait_ms b + waited_ms\<rparr>,
             local_waiters := remove_at i (local_waiters w), at_parent := at_parent w @ [n]\<rparr>
      else w)"

definition time_out_local :: "nat \<Rightarrow> budget_world \<Rightarrow> stream_error option \<times> budget_world" where
  "time_out_local i w =
     (if i < length (local_waiters w)
      then (Some BufferBudgetTimeout,
            w\<lparr>budget := (stop_budget_wait (budget w))\<lparr>budget_timeouts := budget_timeouts (budget w) + 1\<rparr>,
              local_waiters := remove_at i (local_waiters w)\<rparr>)
      else (None, w))"

text \<open>
  The parent answers: at once without a governor or for no bytes, otherwise when one of the tries of
  \<open>AdaptiveMemoryGovernor.reserve\<close> succeeds.
\<close>

definition give_lease :: "nat \<Rightarrow> time \<Rightarrow> budget_world \<Rightarrow> budget_world" where
  "give_lease i waited_ms w =
     w\<lparr>budget := (budget w)\<lparr>budget_wait_ms := budget_wait_ms (budget w) + max 0 waited_ms\<rparr>,
       at_parent := remove_at i (at_parent w),
       leases := leases w @ [\<lparr>lease_size = at_parent w ! i, lease_released = False\<rparr>]\<rparr>"

definition parent_try :: "nat \<Rightarrow> time \<Rightarrow> time \<Rightarrow> reading \<Rightarrow> budget_world \<Rightarrow> budget_world" where
  "parent_try i waited_ms now reading w =
     (if i < length (at_parent w)
      then (case parent w of
              None \<Rightarrow> give_lease i 0 w
            | Some g \<Rightarrow>
                if at_parent w ! i = 0 then give_lease i waited_ms w
                else
                  (let (ok, g') = try_reserve now reading (normalized_category (memory_category (budget w)))
                                    (at_parent w ! i) False g
                   in if ok then give_lease i waited_ms (w\<lparr>parent := Some g'\<rparr>)
                      else w\<lparr>parent := Some g'\<rparr>))
      else w)"

text \<open>The parent says no, or the task is cancelled: the local bytes are given back.\<close>

definition roll_back :: "nat \<Rightarrow> bool \<Rightarrow> budget_world \<Rightarrow> stream_error option \<times> budget_world" where
  "roll_back i timed_out w =
     (if i < length (at_parent w)
      then
        (let b = budget w; n = at_parent w ! i in
         if used b < n
         then (Some (StreamRuntimeError ''stream retained-byte budget rollback underflow''), w)
         else (if timed_out then Some BufferBudgetTimeout else None,
               w\<lparr>budget := b\<lparr>used := used b - n,
                             budget_timeouts := budget_timeouts b + (if timed_out then 1 else 0)\<rparr>,
                 at_parent := remove_at i (at_parent w)\<rparr>))
      else (None, w))"

text \<open>\<open>RetainedByteLease.split\<close> and \<open>release\<close> (with \<open>RetainedByteBudget._release\<close>).\<close>

definition lease_split :: "int \<Rightarrow> RetainedByteLease \<Rightarrow> stream_error + RetainedByteLease \<times> RetainedByteLease" where
  "lease_split n l =
     (if n < 0 \<or> lease_size l < n then Inl (StreamValueError ''split size exceeds retained-byte lease'')
      else if lease_released l
      then Inl (StreamRuntimeError ''cannot split a released retained-byte lease'')
      else Inr (l\<lparr>lease_size := lease_size l - n\<rparr>, \<lparr>lease_size = n, lease_released = False\<rparr>))"

definition split_at :: "nat \<Rightarrow> int \<Rightarrow> budget_world \<Rightarrow> stream_error option \<times> budget_world" where
  "split_at i n w =
     (if i < length (leases w)
      then (case lease_split n (leases w ! i) of
              Inl e \<Rightarrow> (Some e, w)
            | Inr (l, child) \<Rightarrow> (None, w\<lparr>leases := (leases w)[i := l] @ [child]\<rparr>))
      else (None, w))"

definition budget_release ::
  "int \<Rightarrow> RetainedByteBudget \<Rightarrow> AdaptiveMemoryGovernor option
   \<Rightarrow> (stream_error + memory_error) + RetainedByteBudget \<times> AdaptiveMemoryGovernor option" where
  "budget_release n b g =
     (if used b < n then Inl (Inl (StreamRuntimeError ''stream retained-byte budget underflow''))
      else
        let b' = b\<lparr>used := used b - n\<rparr> in
        (case g of
           None \<Rightarrow> Inr (b', None)
         | Some gov \<Rightarrow>
             (case release (memory_category b) n gov of
                Inl e \<Rightarrow> Inl (Inr e)
              | Inr (_, gov') \<Rightarrow> Inr (b', Some gov'))))"

definition release_lease :: "nat \<Rightarrow> budget_world \<Rightarrow> (stream_error + memory_error) option \<times> budget_world" where
  "release_lease i w =
     (if i < length (leases w) \<and> \<not> lease_released (leases w ! i)
      then (case budget_release (lease_size (leases w ! i)) (budget w) (parent w) of
              Inl e \<Rightarrow> (Some e, w)
            | Inr (b, g) \<Rightarrow>
                (None, w\<lparr>budget := b, parent := g,
                         leases := (leases w)[i := (leases w ! i)\<lparr>lease_released := True\<rparr>]\<rparr>))
      else (None, w))"

definition budget_snapshot :: "int option \<Rightarrow> RetainedByteBudget \<Rightarrow> (string, int) dict" where
  "budget_snapshot parent_capacity b =
     [(''used_bytes'', used b), (''peak_bytes'', peak_used b),
      (''capacity_bytes'', (case parent_capacity of
          Some c \<Rightarrow> min (budget_capacity b) c | None \<Rightarrow> budget_capacity b)),
      (''waiting_reservations'', budget_waiting b), (''blocked_reservations'', int (budget_blocked b)),
      (''timeouts'', int (budget_timeouts b))]"

datatype stream_budget_op =
    Reserve int
  | Wake nat time
  | TimeOutLocal nat
  | ParentTry nat time time reading
  | RollBack nat bool
  | Split nat int
  | ReleaseLease nat

definition stream_budget_step :: "stream_budget_op \<Rightarrow> budget_world \<Rightarrow> budget_world" where
  "stream_budget_step op w =
     (case op of
        Reserve n \<Rightarrow> snd (reserve_local n w)
      | Wake i ms \<Rightarrow> wake_local i ms w
      | TimeOutLocal i \<Rightarrow> snd (time_out_local i w)
      | ParentTry i ms now reading \<Rightarrow> parent_try i ms now reading w
      | RollBack i timed_out \<Rightarrow> snd (roll_back i timed_out w)
      | Split i n \<Rightarrow> snd (split_at i n w)
      | ReleaseLease i \<Rightarrow> snd (release_lease i w))"

section \<open>The accounts\<close>

definition live :: "RetainedByteLease list \<Rightarrow> int" where
  "live ls = sum_list (map (\<lambda>l. if lease_released l then 0 else lease_size l) ls)"

definition budget_ok :: "int \<Rightarrow> budget_world \<Rightarrow> bool" where
  "budget_ok base w \<longleftrightarrow>
     used (budget w) = sum_list (at_parent w) + live (leases w) \<and>
     (\<forall>n \<in> set (local_waiters w) \<union> set (at_parent w). 0 \<le> n) \<and>
     (\<forall>l \<in> set (leases w). 0 \<le> lease_size l) \<and>
     used (budget w) \<le> peak_used (budget w) \<and> peak_used (budget w) \<le> budget_capacity (budget w) \<and>
     (\<forall>g. parent w = Some g \<longrightarrow> governor_ok g \<and>
        owned_by g (memory_category (budget w)) = base + live (leases w)) \<and> 0 \<le> base"

lemma live_simps [simp]:
  "live [] = 0" "live (l # ls) = (if lease_released l then 0 else lease_size l) + live ls"
  "live (as @ bs) = live as + live bs"
  by (simp_all add: live_def)

lemma live_update:
  "i < length ls \<Longrightarrow> live (ls[i := l]) = live ls
     - (if lease_released (ls ! i) then 0 else lease_size (ls ! i))
     + (if lease_released l then 0 else lease_size l)"
  by (induction ls arbitrary: i) (auto simp: nth_Cons split: nat.splits)

lemma live_nonneg: "\<forall>l \<in> set ls. 0 \<le> lease_size l \<Longrightarrow> 0 \<le> live ls"
  by (induction ls) auto

lemma live_ge: "\<forall>l \<in> set ls. 0 \<le> lease_size l \<Longrightarrow> i < length ls \<Longrightarrow> \<not> lease_released (ls ! i) \<Longrightarrow>
    lease_size (ls ! i) \<le> live ls"
proof (induction ls arbitrary: i)
  case (Cons l ls)
  then show ?case using live_nonneg [of ls] by (cases i) (auto, force)
qed simp

lemma sum_remove_at: "i < length xs \<Longrightarrow> sum_list (remove_at i xs) = sum_list xs - (xs ! i :: int)"
  by (induction xs arbitrary: i) (auto simp: remove_at_def nth_Cons split: nat.splits)

lemma sum_nonneg: "\<forall>n \<in> set xs. 0 \<le> n \<Longrightarrow> 0 \<le> sum_list (xs :: int list)"
  by (induction xs) auto

lemma nth_le_sum: "\<forall>n \<in> set xs. 0 \<le> n \<Longrightarrow> i < length xs \<Longrightarrow> xs ! i \<le> sum_list (xs :: int list)"
proof (induction xs arbitrary: i)
  case (Cons x xs)
  then show ?case using sum_nonneg [of xs] by (cases i) (auto, force)
qed simp

lemma set_remove_at: "set (remove_at i xs) \<subseteq> set xs"
  by (auto simp: remove_at_def dest: in_set_takeD in_set_dropD)

lemma budget_okI:
  assumes "used (budget w) = sum_list (at_parent w) + live (leases w)"
    and "\<forall>n \<in> set (local_waiters w). 0 \<le> n" "\<forall>n \<in> set (at_parent w). 0 \<le> n"
    and "\<forall>l \<in> set (leases w). 0 \<le> lease_size l"
    and "used (budget w) \<le> peak_used (budget w)" "peak_used (budget w) \<le> budget_capacity (budget w)"
    and "\<And>g. parent w = Some g \<Longrightarrow> governor_ok g \<and> owned_by g (memory_category (budget w)) = base + live (leases w)"
    and "0 \<le> base"
  shows "budget_ok base w"
  using assms by (auto simp: budget_ok_def)

lemma budget_okD:
  assumes "budget_ok base w"
  shows "used (budget w) = sum_list (at_parent w) + live (leases w)"
    "\<forall>n \<in> set (local_waiters w). 0 \<le> n" "\<forall>n \<in> set (at_parent w). 0 \<le> n"
    "\<forall>l \<in> set (leases w). 0 \<le> lease_size l"
    "used (budget w) \<le> peak_used (budget w)" "peak_used (budget w) \<le> budget_capacity (budget w)"
    "\<And>g. parent w = Some g \<Longrightarrow> governor_ok g"
    "\<And>g. parent w = Some g \<Longrightarrow> owned_by g (memory_category (budget w)) = base + live (leases w)"
    "0 \<le> base"
  using assms by (auto simp: budget_ok_def)

lemma reserve_local_ok [inv_rules]:
  assumes "budget_ok base w" shows "budget_ok base (snd (reserve_local n w))"
  using budget_okD [OF assms] assms
  by (auto simp: reserve_local_def Let_def take_local_def fits_def intro!: budget_okI)

lemma wake_local_ok [inv_rules]:
  assumes "budget_ok base w" shows "budget_ok base (wake_local i ms w)"
proof (cases "i < length (local_waiters w) \<and> fits (local_waiters w ! i) (budget w)")
  case True
  then have "0 \<le> local_waiters w ! i" using budget_okD(2) [OF assms] by simp
  with True budget_okD [OF assms] set_remove_at [of i "local_waiters w"] show ?thesis
    by (auto simp: wake_local_def Let_def take_local_def fits_def stop_budget_wait_def intro!: budget_okI)
next
  case False
  then show ?thesis using assms by (auto simp: wake_local_def Let_def)
qed

lemma time_out_local_ok [inv_rules]:
  assumes "budget_ok base w" shows "budget_ok base (snd (time_out_local i w))"
  using budget_okD [OF assms] assms set_remove_at [of i "local_waiters w"]
  by (auto simp: time_out_local_def stop_budget_wait_def intro!: budget_okI)

lemma give_lease_ok:
  assumes "budget_ok base (w\<lparr>parent := p\<rparr>)" "i < length (at_parent w)"
    and "\<And>g. parent w = Some g \<Longrightarrow> governor_ok g \<and>
      owned_by g (memory_category (budget w)) = base + live (leases w) + at_parent w ! i"
  shows "budget_ok base (give_lease i ms w)"
proof -
  note ok = budget_okD [OF assms(1), simplified]
  have "0 \<le> at_parent w ! i" using ok(3) assms(2) by simp
  with ok assms(2,3) set_remove_at [of i "at_parent w"] show ?thesis
    by (auto simp: give_lease_def sum_remove_at intro!: budget_okI)
qed

lemma parent_try_ok [inv_rules]:
  assumes ok: "budget_ok base w" shows "budget_ok base (parent_try i ms now reading w)"
proof (cases "i < length (at_parent w)")
  case i: True
  have w: "budget_ok base (w\<lparr>parent := parent w\<rparr>)" using ok by simp
  show ?thesis
  proof (cases "parent w")
    case None
    then show ?thesis using i give_lease_ok [OF w i] by (simp add: parent_try_def)
  next
    case (Some g)
    note g = budget_okD(7,8) [OF ok Some]
    let ?n = "at_parent w ! i"
    show ?thesis
    proof (cases "?n = 0")
      case True
      with i Some give_lease_ok [OF w i] g show ?thesis by (simp add: parent_try_def)
    next
      case False
      with budget_okD(3) [OF ok] i have n: "0 < ?n" by (metis nth_mem order_less_le)
      obtain b g' where t: "try_reserve now reading (normalized_category (memory_category (budget w))) ?n False g = (b, g')"
        by fastforce
      note g' = try_reserve_ok [OF g(1) n t] try_reserve_owned [OF g(1) t]
      show ?thesis
      proof (cases b)
        case True
        have "budget_ok base (give_lease i ms (w\<lparr>parent := Some g'\<rparr>))"
        proof (rule give_lease_ok [where p = "Some g"])
          have "w\<lparr>parent := Some g', parent := Some g\<rparr> = w" using Some by (cases w) simp
          then show "budget_ok base (w\<lparr>parent := Some g', parent := Some g\<rparr>)" using ok by (simp only:)
        qed (use i g g' True in simp_all)
        then show ?thesis using i Some t True False by (simp add: parent_try_def)
      next
        case False
        have "budget_ok base (w\<lparr>parent := Some g'\<rparr>)"
          using budget_okD [OF ok] g g' False by (intro budget_okI) auto
        then show ?thesis using i Some t False \<open>?n \<noteq> 0\<close> by (simp add: parent_try_def)
      qed
    qed
  qed
qed (use ok in \<open>simp add: parent_try_def\<close>)

lemma roll_back_ok [inv_rules]:
  assumes "budget_ok base w" shows "budget_ok base (snd (roll_back i timed_out w))"
proof (cases "i < length (at_parent w)")
  case True
  then have n: "0 \<le> at_parent w ! i" using budget_okD(3) [OF assms] by simp
  then have "used (budget w) - at_parent w ! i \<le> peak_used (budget w)"
    using budget_okD(5) [OF assms] by linarith
  with n True budget_okD [OF assms] assms set_remove_at [of i "at_parent w"] show ?thesis
    by (auto simp: roll_back_def Let_def sum_remove_at intro!: budget_okI)
qed (use assms in \<open>simp add: roll_back_def\<close>)

lemma roll_back_no_underflow:
  assumes "budget_ok base w" "i < length (at_parent w)"
  shows "at_parent w ! i \<le> used (budget w)"
  using budget_okD(1,3,4) [OF assms(1)] nth_le_sum [OF _ assms(2)] live_nonneg [of "leases w"] by fastforce

lemma split_at_ok [inv_rules]:
  assumes "budget_ok base w" shows "budget_ok base (snd (split_at i n w))"
proof (cases "i < length (leases w)")
  case i: True
  show ?thesis
  proof (cases "lease_split n (leases w ! i)")
    case (Inr p)
    then obtain l c where p: "lease_split n (leases w ! i) = Inr (l, c)" by (cases p) simp
    then have s: "0 \<le> n" "n \<le> lease_size (leases w ! i)" "\<not> lease_released (leases w ! i)"
      "l = (leases w ! i)\<lparr>lease_size := lease_size (leases w ! i) - n\<rparr>" "c = \<lparr>lease_size = n, lease_released = False\<rparr>"
      by (auto simp: lease_split_def split: if_splits)
    have live: "live ((leases w)[i := l] @ [c]) = live (leases w)"
      using i s by (simp add: live_update)
    have "\<forall>x \<in> set ((leases w)[i := l] @ [c]). 0 \<le> lease_size x"
      using budget_okD(4) [OF assms] s set_update_subset_insert [of "leases w" i l] by auto
    then have "budget_ok base (w\<lparr>leases := (leases w)[i := l] @ [c]\<rparr>)"
      using budget_okD [OF assms] live by (intro budget_okI) simp_all
    then show ?thesis using i p by (simp add: split_at_def)
  qed (use i assms in \<open>simp add: split_at_def\<close>)
qed (use assms in \<open>simp add: split_at_def\<close>)

lemma release_lease_ok:
  assumes ok: "budget_ok base w"
  shows "fst (release_lease i w) = None \<and> budget_ok base (snd (release_lease i w))"
proof (cases "i < length (leases w) \<and> \<not> lease_released (leases w ! i)")
  case True
  define n where "n = lease_size (leases w ! i)"
  have n: "0 \<le> n" "n \<le> live (leases w)"
    using budget_okD(4) [OF ok] True live_ge [of "leases w" i] by (auto simp: n_def)
  have nn: "0 \<le> sum_list (at_parent w)" using budget_okD(3) [OF ok] by (rule sum_nonneg)
  have u: "\<not> used (budget w) < n" using n nn budget_okD(1) [OF ok] by simp
  have live: "live ((leases w)[i := (leases w ! i)\<lparr>lease_released := True\<rparr>]) = live (leases w) - n"
    using True by (simp add: live_update n_def)
  have sizes: "\<forall>l \<in> set ((leases w)[i := (leases w ! i)\<lparr>lease_released := True\<rparr>]). 0 \<le> lease_size l"
    using budget_okD(4) [OF ok] n(1) set_update_subset_insert [of "leases w" i] by (fastforce simp: n_def)
  obtain p where p: "budget_release n (budget w) (parent w) = Inr ((budget w)\<lparr>used := used (budget w) - n\<rparr>, p)"
    "\<And>g. p = Some g \<Longrightarrow> governor_ok g \<and> owned_by g (memory_category (budget w)) = base + live (leases w) - n"
  proof (cases "parent w")
    case None
    then show thesis using that [of None] u by (simp add: budget_release_def)
  next
    case (Some g)
    note g = budget_okD(7,8) [OF ok Some]
    have "n \<le> owned_by g (memory_category (budget w))" using g(2) n budget_okD(9) [OF ok] by simp
    from release_law [OF g(1) n(1) this] obtain ws g' where
      "release (memory_category (budget w)) n g = Inr (ws, g')" "governor_ok g'"
      "owned_by g' (memory_category (budget w)) = owned_by g (memory_category (budget w)) - n" by auto
    then show thesis using that [of "Some g'"] u g Some by (simp add: budget_release_def)
  qed
  have "budget_ok base (w\<lparr>budget := (budget w)\<lparr>used := used (budget w) - n\<rparr>, parent := p,
      leases := (leases w)[i := (leases w ! i)\<lparr>lease_released := True\<rparr>]\<rparr>)"
    using budget_okD(1-6,9) [OF ok] n live sizes p(2) by (intro budget_okI) simp_all
  then show ?thesis using True p(1) by (simp add: release_lease_def n_def)
qed (use ok in \<open>auto simp: release_lease_def\<close>)

lemma stream_budget_step_ok [inv_rules]:
  assumes "budget_ok base w" shows "budget_ok base (stream_budget_step op w)"
  by (cases op) (simp_all add: stream_budget_step_def reserve_local_ok wake_local_ok time_out_local_ok
    parent_try_ok roll_back_ok split_at_ok release_lease_ok assms)

interpretation stream_budget: invariant_machine "\<lambda>_ _. True" stream_budget_step "budget_ok base"
  for base by unfold_locales (rule stream_budget_step_ok)

lemma legal_free [simp]: "legal (\<lambda>_ _. True) step ops s"
  by (induction ops arbitrary: s) simp_all

section \<open>Properties\<close>

lemma stream_budget_step_capacity:
  "budget_capacity (budget (stream_budget_step op w)) = budget_capacity (budget w)"
  by (cases op) (simp_all add: stream_budget_step_def reserve_local_def take_local_def wake_local_def
    stop_budget_wait_def time_out_local_def parent_try_def give_lease_def roll_back_def split_at_def
    release_lease_def budget_release_def Let_def split: option.split prod.split sum.split)

lemma stream_budget_run_capacity:
  "budget_capacity (budget (fold stream_budget_step ops w)) = budget_capacity (budget w)"
  by (induction ops arbitrary: w) (simp_all add: stream_budget_step_capacity)

text \<open>
  C32. The process-wide stream budget keeps its books: whatever reservations wait, are granted or fail
  at the parent, and whatever leases are split and released (also twice), the bytes used are those of
  reservations under way and of live leases, never more than the capacity; releasing never
  underflows; and the parent governor owns, in the category of the budget, the bytes it had plus
  those of the live leases.
\<close>

theorem stream_budget_accounts:
  assumes "new_budget capacity timeout cat = Inr b"
    and "\<And>g. p = Some g \<Longrightarrow> governor_ok g"
    and "w = fold stream_budget_step ops (new_budget_world b p)"
  shows "used (budget w) = sum_list (at_parent w) + live (leases w) \<and> used (budget w) \<le> capacity \<and>
    fst (release_lease i w) = None \<and>
    (\<forall>g. parent w = Some g \<longrightarrow> owned_by g (memory_category (budget w)) =
       (case p of None \<Rightarrow> 0 | Some g0 \<Rightarrow> owned_by g0 (memory_category b)) + live (leases w))"
proof -
  define base where "base = (case p of None \<Rightarrow> 0 | Some g0 \<Rightarrow> owned_by g0 (memory_category b))"
  have "0 \<le> base"
    using assms(2) by (auto simp: base_def owned_by_nonneg split: option.split)
  moreover have "used b = 0" "peak_used b = 0" "0 \<le> budget_capacity b" "budget_capacity b = capacity"
    using assms(1) by (auto simp: new_budget_def split: if_splits)
  ultimately have init: "budget_ok base (new_budget_world b p)"
    using assms(2) by (intro budget_okI) (auto simp: new_budget_world_def base_def)
  have ok: "budget_ok base w" unfolding assms(3) by (rule stream_budget.run_inv [OF init legal_free])
  have "budget_capacity (budget w) = capacity"
    using stream_budget_run_capacity [of ops "new_budget_world b p"] assms(3) \<open>budget_capacity b = capacity\<close>
    by (simp add: new_budget_world_def)
  moreover have "used (budget w) \<le> budget_capacity (budget w)" using budget_okD(5,6) [OF ok] by simp
  ultimately show ?thesis
    using budget_okD(1,8) [OF ok] release_lease_ok [OF ok, of i] by (simp add: base_def)
qed

definition budget_100 :: RetainedByteBudget where
  "budget_100 = (case new_budget 100 5 ''stream_buffer'' of Inr b \<Rightarrow> b)"

theorem stream_budget_accounts_witness:
  "let w = fold stream_budget_step [Reserve 60, ParentTry 0 0 0 (Inr sample_1g), Reserve 60, Split 0 20,
      ReleaseLease 0, ReleaseLease 0, Wake 0 4, ParentTry 0 0 1 (Inr sample_1g)]
      (new_budget_world budget_100 (Some default_governor)) in
   used (budget w) = sum_list (at_parent w) + live (leases w) \<and> used (budget w) \<le> 100 \<and>
   fst (release_lease 1 w) = None"
proof -
  have b: "new_budget 100 5 ''stream_buffer'' = Inr budget_100" by (simp add: budget_100_def new_budget_def)
  show ?thesis
    unfolding Let_def
    using stream_budget_accounts [OF b, of "Some default_governor", OF _ refl, of _ 1] default_governor_ok
    by blast
qed

section \<open>The precommit buffer\<close>

text \<open>
  \<open>ReservedChunkBuffer\<close>: chunks kept before the response is committed. \<open>lease\<close> is the answer of the
  shared budget (\<open>None\<close> without one).
\<close>

record ReservedChunkBuffer =
  buffer_max_items :: int
  buffer_max_bytes :: int
  chunks :: "(string \<times> nat option) list"
  buffer_bytes :: int

definition new_chunk_buffer :: "int \<Rightarrow> int \<Rightarrow> stream_error + ReservedChunkBuffer" where
  "new_chunk_buffer items bytes =
     (if items \<le> 0 \<or> bytes \<le> 0 then Inl (StreamValueError ''chunk buffer limits must be positive'')
      else Inr \<lparr>buffer_max_items = items, buffer_max_bytes = bytes, chunks = [], buffer_bytes = 0\<rparr>)"

definition chunk_append ::
  "string \<Rightarrow> bool \<Rightarrow> stream_error + nat option \<Rightarrow> ReservedChunkBuffer \<Rightarrow> stream_error + ReservedChunkBuffer" where
  "chunk_append chunk allow_over_limit lease b =
     (let next_items = int (length (chunks b)) + 1; next_bytes = buffer_bytes b + int (length chunk) in
      if \<not> allow_over_limit \<and> (buffer_max_items b < next_items \<or> buffer_max_bytes b < next_bytes)
      then Inl ItemTooLarge
      else (case lease of
              Inl e \<Rightarrow> Inl e
            | Inr l \<Rightarrow> Inr (b\<lparr>chunks := chunks b @ [(chunk, l)], buffer_bytes := next_bytes\<rparr>)))"

definition chunk_popleft :: "ReservedChunkBuffer \<Rightarrow> ((string \<times> nat option) \<times> ReservedChunkBuffer) option" where
  "chunk_popleft b =
     (case chunks b of
        [] \<Rightarrow> None
      | c # cs \<Rightarrow> Some (c, b\<lparr>chunks := cs, buffer_bytes := buffer_bytes b - int (length (fst c))\<rparr>))"

definition chunk_clear :: "ReservedChunkBuffer \<Rightarrow> nat list \<times> ReservedChunkBuffer" where
  "chunk_clear b = (List.map_filter snd (chunks b), b\<lparr>chunks := [], buffer_bytes := 0\<rparr>)"

definition buffer_ok :: "ReservedChunkBuffer \<Rightarrow> bool" where
  "buffer_ok b \<longleftrightarrow> buffer_bytes b = (\<Sum>c \<leftarrow> chunks b. int (length (fst c)))"

lemma chunk_buffer_ok [inv_rules]:
  "new_chunk_buffer items bytes = Inr b \<Longrightarrow> buffer_ok b"
  "buffer_ok b \<Longrightarrow> chunk_append chunk allow lease b = Inr b' \<Longrightarrow> buffer_ok b'"
  "buffer_ok b \<Longrightarrow> chunk_popleft b = Some (c, b') \<Longrightarrow> buffer_ok b'"
  "buffer_ok (snd (chunk_clear b))"
  by (auto simp: new_chunk_buffer_def chunk_append_def chunk_popleft_def chunk_clear_def buffer_ok_def Let_def
    split: if_splits list.splits sum.splits)

lemma chunk_append_bounded:
  "chunk_append chunk False lease b = Inr b' \<Longrightarrow>
     int (length (chunks b')) \<le> buffer_max_items b' \<and> buffer_bytes b' \<le> buffer_max_bytes b'"
  by (auto simp: chunk_append_def Let_def split: if_splits sum.splits)

end
