(* ===== verification/StreamQueue.thy ===== *)
theory StreamQueue
  imports Py_Prelude "HOL-Library.Multiset" "HOL-Library.Sublist"
begin

text \<open>
  \<open>ByteBoundedQueue\<close>, \<open>StreamQueueItemLease\<close> and \<open>ReservedChunkBuffer\<close> of
  \<open>uni_api/streaming/bounded_queue.py\<close>: the queue between an upstream reader and a downstream writer,
  bounded by items and by bytes, whose items stay accounted until their send completes.

  Items are values with a size; the retained-byte lease of an item is a number (\<open>None\<close> without a
  shared budget). Releasing a lease of the budget is an effect: the operations return the leases
  they release. Every section under the queue's condition is one operation; a producer that finds
  the queue full is registered and tries again when it is woken.
\<close>

datatype queue_error =
    ValueError string
  | StreamQueueItemTooLarge
  | StreamQueuePutTimeout
  | StreamQueueClosed
  | CloseError string
  | RuntimeError string

section \<open>The queue\<close>

type_synonym 'a entry = "'a \<times> int \<times> nat option"

record 'a ByteBoundedQueue =
  max_items :: int
  max_bytes :: int
  put_timeout_seconds :: "time option"
  has_budget :: bool
  queued :: "'a entry list"
  retained :: int
  inflight_items :: int
  inflight_bytes :: int
  peak_items :: int
  peak_bytes :: int
  closed :: bool
  close_error :: "string option"
  waiting_putters :: int
  blocked_puts :: nat
  put_wait_ms :: time
  put_timeouts :: nat

definition new_stream_queue ::
  "int \<Rightarrow> int \<Rightarrow> time option \<Rightarrow> bool \<Rightarrow> queue_error + 'a ByteBoundedQueue" where
  "new_stream_queue items bytes timeout budget =
     (if items \<le> 0 then Inl (ValueError ''max_items must be positive'')
      else if bytes \<le> 0 then Inl (ValueError ''max_bytes must be positive'')
      else if (case timeout of Some t \<Rightarrow> t \<le> 0 | None \<Rightarrow> False)
      then Inl (ValueError ''put_timeout_seconds must be positive when set'')
      else Inr \<lparr>max_items = items, max_bytes = bytes, put_timeout_seconds = timeout,
                has_budget = budget, queued = [], retained = 0, inflight_items = 0,
                inflight_bytes = 0, peak_items = 0, peak_bytes = 0, closed = False,
                close_error = None, waiting_putters = 0, blocked_puts = 0, put_wait_ms = 0,
                put_timeouts = 0\<rparr>)"

definition retained_items :: "'a ByteBoundedQueue \<Rightarrow> int" where
  "retained_items q = int (length (queued q)) + inflight_items q"

definition can_put :: "int \<Rightarrow> 'a ByteBoundedQueue \<Rightarrow> bool" where
  "can_put n q \<longleftrightarrow> retained_items q < max_items q \<and> retained q + n \<le> max_bytes q"

text \<open>
  The checks at the head of \<open>put\<close>; a transferred lease carries its size and whether it belongs to the
  budget of this queue.
\<close>

definition put_check :: "int \<Rightarrow> (int \<times> bool) option \<Rightarrow> 'a ByteBoundedQueue \<Rightarrow> queue_error option" where
  "put_check n transferred q =
     (if n < 0 then Some (ValueError ''item size cannot be negative'')
      else if max_bytes q < n then Some StreamQueueItemTooLarge
      else
        (case transferred of
           None \<Rightarrow> None
         | Some (lease_size, same_budget) \<Rightarrow>
             if lease_size \<noteq> n then Some (ValueError ''transferred retained-byte lease size mismatch'')
             else if \<not> has_budget q then Some (ValueError ''queue has no shared retained-byte budget'')
             else if \<not> same_budget
             then Some (ValueError ''transferred retained-byte lease uses another budget'')
             else None))"

text \<open>
  \<open>wait_and_put\<close>. \<open>Blocked\<close>: the producer waits. Otherwise the answer is what \<open>put\<close> returns or raises,
  with the leases it releases.
\<close>

datatype put_answer = Blocked | Stored time | Failed queue_error "nat option"

definition store :: "'a entry \<Rightarrow> time \<Rightarrow> 'a ByteBoundedQueue \<Rightarrow> put_answer \<times> 'a ByteBoundedQueue" where
  "store e waited_ms q =
     (if closed q then (Failed StreamQueueClosed (snd (snd e)), q)
      else
        let q1 = q\<lparr>queued := queued q @ [e], retained := retained q + fst (snd e)\<rparr> in
        (Stored waited_ms,
         q1\<lparr>peak_items := max (peak_items q) (retained_items q1),
            peak_bytes := max (peak_bytes q) (retained q1),
            put_wait_ms := put_wait_ms q + waited_ms\<rparr>))"

definition put :: "'a entry \<Rightarrow> 'a ByteBoundedQueue \<Rightarrow> put_answer \<times> 'a ByteBoundedQueue" where
  "put e q =
     (if \<not> closed q \<and> \<not> can_put (fst (snd e)) q
      then (Blocked, q\<lparr>blocked_puts := blocked_puts q + 1, waiting_putters := waiting_putters q + 1\<rparr>)
      else store e 0 q)"

definition stop_waiting :: "'a ByteBoundedQueue \<Rightarrow> 'a ByteBoundedQueue" where
  "stop_waiting q = q\<lparr>waiting_putters := max 0 (waiting_putters q - 1)\<rparr>"

definition put_woken :: "'a entry \<Rightarrow> time \<Rightarrow> 'a ByteBoundedQueue \<Rightarrow> put_answer \<times> 'a ByteBoundedQueue" where
  "put_woken e waited_ms q =
     (if closed q \<or> can_put (fst (snd e)) q then store e waited_ms (stop_waiting q) else (Blocked, q))"

definition put_timed_out :: "'a entry \<Rightarrow> 'a ByteBoundedQueue \<Rightarrow> put_answer \<times> 'a ByteBoundedQueue" where
  "put_timed_out e q =
     (Failed StreamQueuePutTimeout (snd (snd e)),
      (stop_waiting q)\<lparr>put_timeouts := put_timeouts q + 1\<rparr>)"

datatype 'a get_answer = Waiting | Got "'a entry" | Raised queue_error

definition get_lease :: "'a ByteBoundedQueue \<Rightarrow> 'a get_answer \<times> 'a ByteBoundedQueue" where
  "get_lease q =
     (case queued q of
        e # es \<Rightarrow>
          (Got e, q\<lparr>queued := es, inflight_items := inflight_items q + 1,
                    inflight_bytes := inflight_bytes q + fst (snd e)\<rparr>)
      | [] \<Rightarrow>
          if closed q
          then (Raised (case close_error q of Some err \<Rightarrow> CloseError err | None \<Rightarrow> StreamQueueClosed), q)
          else (Waiting, q))"

definition release_inflight ::
  "int \<Rightarrow> nat option \<Rightarrow> 'a ByteBoundedQueue \<Rightarrow> queue_error + nat option \<times> 'a ByteBoundedQueue" where
  "release_inflight n lease q =
     (if inflight_items q \<le> 0 \<or> inflight_bytes q < n
      then Inl (RuntimeError ''stream queue in-flight accounting underflow'')
      else Inr (lease, q\<lparr>inflight_items := inflight_items q - 1,
                         inflight_bytes := inflight_bytes q - n, retained := retained q - n\<rparr>))"

text \<open>The loop that drops every queued item; it gives the leases to release.\<close>

fun discard_items :: "'a entry list \<Rightarrow> int \<Rightarrow> int \<times> nat list" where
  "discard_items [] bytes = (bytes, [])"
| "discard_items ((x, n, lease) # es) bytes =
     (let (bytes', ls) = discard_items es (bytes - n)
      in (bytes', case lease of Some l \<Rightarrow> l # ls | None \<Rightarrow> ls))"

definition close ::
  "string option \<Rightarrow> bool \<Rightarrow> 'a ByteBoundedQueue \<Rightarrow> nat list \<times> 'a ByteBoundedQueue" where
  "close err discard q =
     (let q1 = (if closed q
                then (if close_error q = None \<and> err \<noteq> None then q\<lparr>close_error := err\<rparr> else q)
                else q\<lparr>closed := True, close_error := err\<rparr>)
      in if discard
         then (let (bytes, ls) = discard_items (queued q1) (retained q1)
               in (ls, q1\<lparr>queued := [], retained := bytes\<rparr>))
         else ([], q1))"

definition stream_queue_snapshot :: "'a ByteBoundedQueue \<Rightarrow> (string, int) dict" where
  "stream_queue_snapshot q =
     [(''items'', retained_items q), (''bytes'', retained q),
      (''queued_items'', int (length (queued q))), (''queued_bytes'', retained q - inflight_bytes q),
      (''inflight_items'', inflight_items q), (''inflight_bytes'', inflight_bytes q),
      (''peak_items'', peak_items q), (''peak_bytes'', peak_bytes q),
      (''max_items'', max_items q), (''max_bytes'', max_bytes q), (''closed'', of_bool (closed q)),
      (''waiting_putters'', waiting_putters q), (''blocked_puts'', int (blocked_puts q)),
      (''put_timeouts'', int (put_timeouts q))]"

section \<open>The queue among its producers and consumers\<close>

text \<open>
  Producers in \<open>put\<close>, item leases held by consumers (with their \<open>released\<close> flag), and what happened so
  far: the items accepted, the items handed out, the budget leases the queue took charge of (those of
  a \<open>put\<close> that passed its checks; before that they are the caller's) and those it released.
\<close>

record 'a stream_world =
  stream :: "'a ByteBoundedQueue"
  producers :: "'a entry list"
  item_leases :: "('a entry \<times> bool) list"
  accepted :: "'a list"
  handed_out :: "'a list"
  taken :: "nat multiset"
  freed :: "nat multiset"
  discarded :: bool

datatype 'a stream_op =
    Put "'a entry"
  | Woken nat time
  | TimedOut nat
  | Get
  | ReleaseItem nat
  | Close "string option" bool

definition remove_nth :: "nat \<Rightarrow> 'b list \<Rightarrow> 'b list" where
  "remove_nth i xs = take i xs @ drop (Suc i) xs"

definition lease_mset :: "nat option \<Rightarrow> nat multiset" where
  "lease_mset lease = (case lease of Some l \<Rightarrow> {#l#} | None \<Rightarrow> {#})"

definition after_put ::
  "'a entry \<Rightarrow> put_answer \<times> 'a ByteBoundedQueue \<Rightarrow> 'a stream_world \<Rightarrow> 'a stream_world" where
  "after_put e answer w =
     (case answer of
        (Blocked, q) \<Rightarrow> w\<lparr>stream := q, producers := producers w @ [e]\<rparr>
      | (Stored ms, q) \<Rightarrow> w\<lparr>stream := q, accepted := accepted w @ [fst e]\<rparr>
      | (Failed err lease, q) \<Rightarrow> w\<lparr>stream := q, freed := freed w + lease_mset lease\<rparr>)"

definition stream_step :: "'a stream_op \<Rightarrow> 'a stream_world \<Rightarrow> 'a stream_world" where
  "stream_step op w =
     (case op of
        Put e \<Rightarrow>
          (case put_check (fst (snd e)) None (stream w) of
             Some err \<Rightarrow> w
           | None \<Rightarrow> after_put e (put e (stream w)) (w\<lparr>taken := taken w + lease_mset (snd (snd e))\<rparr>))
      | Woken i ms \<Rightarrow>
          (if i < length (producers w)
           then after_put (producers w ! i) (put_woken (producers w ! i) ms (stream w))
                  (w\<lparr>producers := remove_nth i (producers w)\<rparr>)
           else w)
      | TimedOut i \<Rightarrow>
          (if i < length (producers w)
           then after_put (producers w ! i) (put_timed_out (producers w ! i) (stream w))
                  (w\<lparr>producers := remove_nth i (producers w)\<rparr>)
           else w)
      | Get \<Rightarrow>
          (case get_lease (stream w) of
             (Got e, q) \<Rightarrow> w\<lparr>stream := q, item_leases := item_leases w @ [(e, False)],
                              handed_out := handed_out w @ [fst e]\<rparr>
           | (_, q) \<Rightarrow> w\<lparr>stream := q\<rparr>)
      | ReleaseItem i \<Rightarrow>
          (if i < length (item_leases w)
           then (case item_leases w ! i of
                   (e, True) \<Rightarrow> w
                 | (e, False) \<Rightarrow>
                     (case release_inflight (fst (snd e)) (snd (snd e)) (stream w) of
                        Inl err \<Rightarrow> w
                      | Inr (lease, q) \<Rightarrow>
                          w\<lparr>stream := q, item_leases := (item_leases w)[i := (e, True)],
                            freed := freed w + lease_mset lease\<rparr>))
           else w)
      | Close err discard \<Rightarrow>
          (let (ls, q) = close err discard (stream w)
           in w\<lparr>stream := q, freed := freed w + mset ls, discarded := discarded w \<or> discard\<rparr>))"

definition new_world :: "'a ByteBoundedQueue \<Rightarrow> 'a stream_world" where
  "new_world q = \<lparr>stream = q, producers = [], item_leases = [], accepted = [], handed_out = [],
     taken = {#}, freed = {#}, discarded = False\<rparr>"

section \<open>The invariant\<close>

definition bytes_of :: "'a entry list \<Rightarrow> int" where
  "bytes_of es = sum_list (map (\<lambda>e. fst (snd e)) es)"

definition leases_of :: "'a entry list \<Rightarrow> nat multiset" where
  "leases_of es = sum_list (map (\<lambda>e. lease_mset (snd (snd e))) es)"

definition unreleased :: "('a entry \<times> bool) list \<Rightarrow> 'a entry list" where
  "unreleased ls = map fst (filter (\<lambda>l. \<not> snd l) ls)"

lemma bytes_of_simps [simp]:
  "bytes_of [] = 0" "bytes_of (e # es) = fst (snd e) + bytes_of es"
  "bytes_of (as @ bs) = bytes_of as + bytes_of bs"
  by (simp_all add: bytes_of_def)

lemma leases_of_simps [simp]:
  "leases_of [] = {#}" "leases_of (e # es) = lease_mset (snd (snd e)) + leases_of es"
  "leases_of (as @ bs) = leases_of as + leases_of bs"
  by (simp_all add: leases_of_def)

lemma unreleased_simps [simp]:
  "unreleased [] = []" "unreleased (as @ bs) = unreleased as @ unreleased bs"
  "unreleased [(e, False)] = [e]" "unreleased ((e, True) # ls) = unreleased ls"
  "unreleased ((e, False) # ls) = e # unreleased ls"
  by (simp_all add: unreleased_def)

lemma bytes_of_nonneg: "\<forall>e \<in> set es. 0 \<le> fst (snd e) \<Longrightarrow> 0 \<le> bytes_of es"
  by (induction es) auto

lemma split_nth: "i < length xs \<Longrightarrow> xs = take i xs @ xs ! i # drop (Suc i) xs"
  by (rule id_take_nth_drop)

lemma leases_of_remove_nth:
  "i < length es \<Longrightarrow> leases_of es = lease_mset (snd (snd (es ! i))) + leases_of (remove_nth i es)"
  by (subst split_nth) (auto simp: remove_nth_def)

lemma set_remove_nth: "set (remove_nth i es) \<subseteq> set es"
  by (auto simp: remove_nth_def dest: in_set_takeD in_set_dropD)

lemma unreleased_update:
  assumes "i < length ls" "ls ! i = (e, False)"
  obtains as bs where "unreleased ls = as @ e # bs" "unreleased (ls[i := (e, True)]) = as @ bs"
proof
  have ls: "ls = take i ls @ (e, False) # drop (Suc i) ls"
    using split_nth [OF assms(1)] assms(2) by simp
  show "unreleased ls = unreleased (take i ls) @ e # unreleased (drop (Suc i) ls)"
    by (subst ls) simp
  show "unreleased (ls[i := (e, True)]) = unreleased (take i ls) @ unreleased (drop (Suc i) ls)"
    using upd_conv_take_nth_drop [OF assms(1), of "(e, True)"] by simp
qed

lemma discard_items_bytes [simp]: "fst (discard_items es bytes) = bytes - bytes_of es"
  by (induction es bytes rule: discard_items.induct) (simp_all add: Let_def case_prod_beta)

lemma discard_items_leases [simp]: "mset (snd (discard_items es bytes)) = leases_of es"
  by (induction es bytes rule: discard_items.induct)
    (simp_all add: Let_def case_prod_beta lease_mset_def split: option.split)

definition queue_ok :: "'a ByteBoundedQueue \<Rightarrow> 'a entry list \<Rightarrow> bool" where
  "queue_ok q held \<longleftrightarrow>
     retained q = bytes_of (queued q) + inflight_bytes q \<and>
     inflight_items q = int (length held) \<and> inflight_bytes q = bytes_of held \<and>
     (\<forall>e \<in> set (queued q) \<union> set held. 0 \<le> fst (snd e)) \<and>
     retained_items q \<le> peak_items q \<and> peak_items q \<le> max_items q \<and>
     retained q \<le> peak_bytes q \<and> peak_bytes q \<le> max_bytes q"

definition world_ok :: "'a stream_world \<Rightarrow> bool" where
  "world_ok w \<longleftrightarrow>
     queue_ok (stream w) (unreleased (item_leases w)) \<and>
     (\<forall>e \<in> set (producers w). 0 \<le> fst (snd e)) \<and>
     prefix (handed_out w @ map fst (queued (stream w))) (accepted w) \<and>
     (\<not> discarded w \<longrightarrow> accepted w = handed_out w @ map fst (queued (stream w))) \<and>
     (discarded w \<longrightarrow> closed (stream w) \<and> queued (stream w) = []) \<and>
     taken w = leases_of (producers w) + leases_of (queued (stream w))
       + leases_of (unreleased (item_leases w)) + freed w"

lemma new_world_ok [inv_rules]:
  "new_stream_queue items bytes timeout budget = Inr q \<Longrightarrow> world_ok (new_world q)"
  by (auto simp: new_stream_queue_def world_ok_def queue_ok_def new_world_def retained_items_def
    split: if_splits)

lemma store_cases:
  assumes "store e ms q = (answer, q')" "closed q \<or> can_put (fst (snd e)) q" "queue_ok q held" "0 \<le> fst (snd e)"
  obtains (closed) "answer = Failed StreamQueueClosed (snd (snd e))" "q' = q" "closed q"
  | (stored) "answer = Stored ms" "queued q' = queued q @ [e]" "queue_ok q' held" "closed q' = closed q" "\<not> closed q"
proof (cases "closed q")
  case True
  with assms(1) show thesis by (intro closed) (simp_all add: store_def)
next
  case False
  with assms(1) have q': "answer = Stored ms" "q' = q\<lparr>queued := queued q @ [e], retained := retained q + fst (snd e),
      peak_items := max (peak_items q) (retained_items q + 1),
      peak_bytes := max (peak_bytes q) (retained q + fst (snd e)),
      put_wait_ms := put_wait_ms q + ms\<rparr>"
    by (auto simp: store_def Let_def retained_items_def)
  with False assms(2-4) show thesis
    by (intro stored) (auto simp: queue_ok_def can_put_def retained_items_def)
qed

lemma stop_waiting_simps [simp]:
  "queued (stop_waiting q) = queued q" "closed (stop_waiting q) = closed q"
  "queue_ok (stop_waiting q) held = queue_ok q held" "can_put n (stop_waiting q) = can_put n q"
  by (simp_all add: stop_waiting_def queue_ok_def can_put_def retained_items_def)

section \<open>Every step keeps the invariant\<close>

lemma after_store_ok:
  assumes w: "world_ok (w\<lparr>producers := e # ps\<rparr>)" and e: "closed (stream w) \<or> can_put (fst (snd e)) (stream w)"
    and q: "queued q = queued (stream w)" "closed q = closed (stream w)"
      "queue_ok q (unreleased (item_leases w))" "can_put (fst (snd e)) q = can_put (fst (snd e)) (stream w)"
  shows "world_ok (after_put e (store e ms q) (w\<lparr>producers := ps\<rparr>))"
proof -
  obtain answer q' where s: "store e ms q = (answer, q')" by fastforce
  have pre: "closed q \<or> can_put (fst (snd e)) q" "0 \<le> fst (snd e)"
    using e q w by (auto simp: world_ok_def)
  show ?thesis
  proof (rule store_cases [OF s pre(1) q(3) pre(2)])
    assume "answer = Failed StreamQueueClosed (snd (snd e))" "q' = q" "closed q"
    with w q s show ?thesis
      by (auto simp: world_ok_def after_put_def ac_simps)
  next
    assume a: "answer = Stored ms" "queued q' = queued q @ [e]" "queue_ok q' (unreleased (item_leases w))"
      "closed q' = closed q" "\<not> closed q"
    have "\<not> discarded w" using w q a by (auto simp: world_ok_def)
    with a w q s show ?thesis
      by (auto simp: world_ok_def after_put_def ac_simps)
  qed
qed

lemma put_ok:
  assumes w: "world_ok w" and n: "0 \<le> fst (snd e)"
  shows "world_ok (after_put e (put e (stream w)) (w\<lparr>taken := taken w + lease_mset (snd (snd e))\<rparr>))"
proof -
  let ?w = "w\<lparr>taken := taken w + lease_mset (snd (snd e))\<rparr>"
  show ?thesis
  proof (cases "\<not> closed (stream w) \<and> \<not> can_put (fst (snd e)) (stream w)")
    case True
    with w n show ?thesis
      by (auto simp: put_def after_put_def world_ok_def queue_ok_def retained_items_def ac_simps)
  next
    case False
    have v: "world_ok (?w\<lparr>producers := e # producers w\<rparr>)"
      using w n by (auto simp: world_ok_def ac_simps)
    have "put e (stream w) = store e 0 (stream w)" using False by (auto simp: put_def)
    moreover have same: "?w\<lparr>producers := producers w\<rparr> = ?w" by (cases w) simp
    moreover have "world_ok (after_put e (store e 0 (stream w)) (?w\<lparr>producers := producers w\<rparr>))"
      by (rule after_store_ok [OF v]) (use False w in \<open>auto simp: world_ok_def\<close>)
    ultimately show ?thesis by (simp only:)
  qed
qed

lemma woken_ok:
  assumes w: "world_ok w" and i: "i < length (producers w)"
  defines "e \<equiv> producers w ! i" and "v \<equiv> w\<lparr>producers := remove_nth i (producers w)\<rparr>"
  shows "world_ok (after_put e (put_woken e ms (stream w)) v)"
    "world_ok (after_put e (put_timed_out e (stream w)) v)"
proof -
  have n: "0 \<le> fst (snd e)" and ps: "\<forall>e \<in> set (remove_nth i (producers w)). 0 \<le> fst (snd e)"
    using w nth_mem [OF i] set_remove_nth [of i "producers w"] by (auto simp: world_ok_def e_def)
  note ls = leases_of_remove_nth [OF i, folded e_def]
  show "world_ok (after_put e (put_timed_out e (stream w)) v)"
    using w ps ls by (auto simp: v_def put_timed_out_def after_put_def world_ok_def queue_ok_def
      retained_items_def stop_waiting_def ac_simps)
  show "world_ok (after_put e (put_woken e ms (stream w)) v)"
  proof (cases "closed (stream w) \<or> can_put (fst (snd e)) (stream w)")
    case True
    have "world_ok (w\<lparr>producers := e # remove_nth i (producers w)\<rparr>)"
      using w n ps ls by (auto simp: world_ok_def)
    moreover have "queue_ok (stream w) (unreleased (item_leases w))" using w by (simp add: world_ok_def)
    ultimately show ?thesis
      using after_store_ok [where w = w and e = e and ps = "remove_nth i (producers w)" and
        q = "stop_waiting (stream w)" and ms = ms] True
      by (simp add: put_woken_def v_def)
  next
    case False
    with w n ps ls show ?thesis
      by (auto simp: put_woken_def v_def after_put_def world_ok_def ac_simps)
  qed
qed

lemma get_ok:
  assumes "world_ok w"
  shows "world_ok (stream_step Get w)"
proof (cases "queued (stream w)")
  case (Cons e es)
  with assms show ?thesis
    by (auto simp: stream_step_def get_lease_def world_ok_def queue_ok_def retained_items_def ac_simps)
qed (use assms in \<open>auto simp: stream_step_def get_lease_def\<close>)

lemma release_item_ok:
  assumes w: "world_ok w" and i: "i < length (item_leases w)" "item_leases w ! i = (e, False)"
  shows "\<exists>q. release_inflight (fst (snd e)) (snd (snd e)) (stream w) = Inr (snd (snd e), q) \<and>
    world_ok (w\<lparr>stream := q, item_leases := (item_leases w)[i := (e, True)],
                freed := freed w + lease_mset (snd (snd e))\<rparr>)"
proof -
  obtain as bs where u: "unreleased (item_leases w) = as @ e # bs"
    "unreleased ((item_leases w)[i := (e, True)]) = as @ bs"
    using unreleased_update [OF i] .
  have ok: "queue_ok (stream w) (as @ e # bs)" using w u(1) by (simp add: world_ok_def)
  then have "0 \<le> bytes_of as" "0 \<le> bytes_of bs"
    by (auto simp: queue_ok_def intro!: bytes_of_nonneg)
  with ok have rel: "release_inflight (fst (snd e)) (snd (snd e)) (stream w) = Inr (snd (snd e),
      (stream w)\<lparr>inflight_items := inflight_items (stream w) - 1,
        inflight_bytes := inflight_bytes (stream w) - fst (snd e), retained := retained (stream w) - fst (snd e)\<rparr>)"
    by (auto simp: release_inflight_def queue_ok_def)
  have n: "0 \<le> fst (snd e)" using ok by (auto simp: queue_ok_def)
  let ?q = "(stream w)\<lparr>inflight_items := inflight_items (stream w) - 1,
        inflight_bytes := inflight_bytes (stream w) - fst (snd e), retained := retained (stream w) - fst (snd e)\<rparr>"
  have "queue_ok ?q (as @ bs)"
    using ok n unfolding queue_ok_def by (auto simp: retained_items_def)
  then have "world_ok (w\<lparr>stream := ?q, item_leases := (item_leases w)[i := (e, True)],
                freed := freed w + lease_mset (snd (snd e))\<rparr>)"
    using w unfolding world_ok_def by (simp add: u ac_simps)
  with rel show ?thesis by blast
qed

lemma close_ok:
  assumes "world_ok w"
  shows "world_ok (stream_step (Close err discard) w)"
proof -
  have nn: "0 \<le> bytes_of (queued (stream w))"
    using assms by (auto simp: world_ok_def queue_ok_def intro!: bytes_of_nonneg)
  show ?thesis
    using assms nn
    by (cases discard) (auto simp: stream_step_def close_def world_ok_def queue_ok_def retained_items_def
      Let_def case_prod_beta ac_simps dest: append_prefixD)
qed

lemma stream_step_ok [inv_rules]:
  assumes "world_ok w" shows "world_ok (stream_step op w)"
proof (cases op)
  case (Put e)
  have "0 \<le> fst (snd e)" if "put_check (fst (snd e)) None (stream w) = None"
    using that by (auto simp: put_check_def split: if_splits)
  with put_ok [OF assms, of e] assms show ?thesis
    by (auto simp: stream_step_def Put split: option.split)
next
  case (ReleaseItem i)
  show ?thesis
  proof (cases "i < length (item_leases w) \<and> \<not> snd (item_leases w ! i)")
    case True
    then obtain e where "item_leases w ! i = (e, False)" by (metis prod.collapse)
    with release_item_ok [OF assms _ this] True ReleaseItem show ?thesis by (auto simp: stream_step_def)
  next
    case False
    with assms ReleaseItem show ?thesis
      by (cases "item_leases w ! i") (auto simp: stream_step_def)
  qed
qed (use assms woken_ok [OF assms] get_ok [OF assms] close_ok [OF assms] in \<open>auto simp: stream_step_def\<close>)

interpretation stream_machine: invariant_machine "\<lambda>_ _. True" stream_step world_ok
  by unfold_locales (rule stream_step_ok)

lemma legal_True [simp]: "legal (\<lambda>_ _. True) step ops s"
  by (induction ops arbitrary: s) simp_all

lemma stream_run_ok:
  "new_stream_queue items bytes timeout budget = Inr q \<Longrightarrow> world_ok (fold stream_step ops (new_world q))"
  by (rule stream_machine.run_inv [OF new_world_ok legal_True])

lemma stream_step_limits:
  "max_items (stream (stream_step op w)) = max_items (stream w) \<and>
   max_bytes (stream (stream_step op w)) = max_bytes (stream w)"
  by (cases op) (simp_all add: stream_step_def after_put_def put_def put_woken_def put_timed_out_def
    store_def stop_waiting_def get_lease_def release_inflight_def close_def Let_def
    split: option.split prod.split put_answer.split get_answer.split list.split sum.split bool.split)

lemma stream_run_limits:
  "new_stream_queue items bytes timeout budget = Inr q \<Longrightarrow>
     max_items (stream (fold stream_step ops (new_world q))) = items \<and>
     max_bytes (stream (fold stream_step ops (new_world q))) = bytes"
proof -
  assume "new_stream_queue items bytes timeout budget = Inr q"
  then have "max_items q = items \<and> max_bytes q = bytes" by (auto simp: new_stream_queue_def split: if_splits)
  then have "max_items (stream (new_world q)) = items \<and> max_bytes (stream (new_world q)) = bytes"
    by (simp add: new_world_def)
  then show ?thesis by (induction ops arbitrary: q rule: rev_induct) (simp_all add: stream_step_limits)
qed

section \<open>Properties\<close>

text \<open>
  C16. Bounds and order: after any interleaving of producers, wake-ups, time-outs, consumers, releases
  and closing, the retained items and bytes (queued or in flight) keep the limits, as do their
  recorded peaks, and the items handed out so far are, in order, a prefix of the items accepted.
\<close>

theorem stream_queue_bounded_fifo:
  assumes "new_stream_queue items bytes timeout budget = Inr q"
    and "w = fold stream_step ops (new_world q)"
  shows "retained_items (stream w) \<le> items \<and> retained (stream w) \<le> bytes \<and>
    peak_items (stream w) \<le> items \<and> peak_bytes (stream w) \<le> bytes \<and>
    prefix (handed_out w) (accepted w)"
proof -
  have "world_ok w" unfolding assms(2) by (rule stream_run_ok [OF assms(1)])
  then show ?thesis
    using stream_run_limits [OF assms(1), of ops] assms(2)
    by (auto simp: world_ok_def queue_ok_def dest: append_prefixD)
qed

definition small_queue :: "bool \<Rightarrow> string ByteBoundedQueue" where
  "small_queue budget = (case new_stream_queue 2 10 None budget of Inr q \<Rightarrow> q)"

lemma small_queue_new: "new_stream_queue 2 10 None budget = Inr (small_queue budget)"
  by (simp add: small_queue_def new_stream_queue_def)

lemmas stream_eval = small_queue_def new_stream_queue_def stream_step_def new_world_def put_check_def
  after_put_def put_def can_put_def store_def retained_items_def get_lease_def release_inflight_def
  put_woken_def put_timed_out_def stop_waiting_def remove_nth_def close_def unreleased_def lease_mset_def

theorem stream_queue_bounded_fifo_witness:
  "let w = fold stream_step [Put (''a'', 6, None), Put (''b'', 6, None), Get, ReleaseItem 0, Woken 0 3, Get]
      (new_world (small_queue False)) in
   accepted w = [''a'', ''b''] \<and> retained (stream w) \<le> 10 \<and> prefix (handed_out w) (accepted w)"
proof -
  define w where "w = fold stream_step [Put (''a'', 6, None), Put (''b'', 6, None), Get, ReleaseItem 0, Woken 0 3, Get]
    (new_world (small_queue False))"
  have "accepted w = [''a'', ''b'']" by (simp add: w_def stream_eval)
  with stream_queue_bounded_fifo [OF small_queue_new w_def] show ?thesis
    unfolding w_def [symmetric] Let_def by simp
qed

text \<open>
  Every retained-byte lease has exactly one owner: the leases the queue took charge of are those of
  blocked producers, of queued items and of items in flight, together with those already released;
  so once nobody waits and every item is sent or discarded, each lease was released exactly once.
\<close>

theorem stream_queue_conserves_leases:
  assumes "new_stream_queue items bytes timeout budget = Inr q"
    and "w = fold stream_step ops (new_world q)"
  shows "taken w = leases_of (producers w) + leases_of (queued (stream w))
      + leases_of (unreleased (item_leases w)) + freed w \<and>
    (producers w = [] \<and> queued (stream w) = [] \<and> unreleased (item_leases w) = [] \<longrightarrow> freed w = taken w)"
  using stream_run_ok [OF assms(1), of ops] assms(2) by (simp add: world_ok_def)

theorem stream_queue_conserves_leases_witness:
  "let w = fold stream_step [Put (''a'', 6, Some 1), Put (''b'', 6, Some 2), Get, TimedOut 0,
       ReleaseItem 0, ReleaseItem 0, Put (''c'', 3, Some 3), Close None True] (new_world (small_queue True)) in
   producers w = [] \<and> freed w = {#1, 2, 3#}"
proof -
  define w where "w = fold stream_step [Put (''a'', 6, Some 1), Put (''b'', 6, Some 2), Get, TimedOut 0,
          ReleaseItem 0, ReleaseItem 0, Put (''c'', 3, Some 3), Close None True] (new_world (small_queue True))"
  have "producers w = []" "queued (stream w) = []" "unreleased (item_leases w) = []" "taken w = {#1, 2, 3#}"
    by (simp_all add: w_def stream_eval)
  moreover from this have "freed w = taken w"
    using stream_queue_conserves_leases [OF small_queue_new w_def] by blast
  ultimately have "producers w = [] \<and> freed w = {#1, 2, 3#}" by metis
  then show ?thesis unfolding w_def Let_def .
qed

end
