(* ===== verification/JsonMemory.thy ===== *)
theory JsonMemory
  imports Py_Prelude "HOL-Library.Word"
begin

text \<open>
  \<open>uni_api/admission/json_memory.py\<close>: \<open>IncrementalJSONMemoryEstimator\<close>, which bounds what a JSON document
  will cost to materialize before any parser sees it. Modelled is the Python scanner; the native
  module is not in Python (its contract is to compute the same).

  The scanner skips to the next interesting byte with a regular expression. The reference is the
  automaton that reads one byte at a time; from their equality follows that the verdict on a
  document does not depend on how the network cut it into chunks. A second reader, which knows no limits and
  skips nothing (\<open>read_byte\<close>), measures nesting, items and scalars; a refusal is justified by what it measures.
\<close>

section \<open>The estimator\<close>

type_synonym byte = "8 word"

datatype reason = MAX_DEPTH | MAX_SCALAR_BYTES | MAX_ESTIMATED_BYTES

datatype trigger_phase = CHUNK_RAW_CHARGE | STRUCTURAL_ITEM_SCAN | DEPTH_SCAN | SCALAR_SCAN

record JSONMemoryEstimator =
  raw_memory_multiplier :: int
  token_memory_bytes :: int
  max_depth :: int
  max_scalar_bytes :: int
  max_estimated_bytes :: int
  raw_bytes :: int
  tokens :: int
  depth :: int
  peak_depth :: int
  in_string :: bool
  escaped :: bool
  scalar_active :: bool
  scalar_bytes :: int

definition DEFAULT_JSON_RAW_MEMORY_MULTIPLIER :: int where "DEFAULT_JSON_RAW_MEMORY_MULTIPLIER = 5"
definition DEFAULT_JSON_TOKEN_MEMORY_BYTES :: int where "DEFAULT_JSON_TOKEN_MEMORY_BYTES = 1024"
definition DEFAULT_JSON_MAX_DEPTH :: int where "DEFAULT_JSON_MAX_DEPTH = 128"
definition DEFAULT_JSON_MAX_SCALAR_BYTES :: int where "DEFAULT_JSON_MAX_SCALAR_BYTES = 4096"
definition DEFAULT_JSON_MAX_ESTIMATED_BYTES :: int where
  "DEFAULT_JSON_MAX_ESTIMATED_BYTES = 256 * 1024 * 1024"
definition TEXT_SCAN_CHUNK_CHARACTERS :: nat where "TEXT_SCAN_CHUNK_CHARACTERS = 256 * 1024"

datatype estimator_error = ValueError string

definition new_estimator :: "int \<Rightarrow> int \<Rightarrow> int \<Rightarrow> int \<Rightarrow> int \<Rightarrow> estimator_error + JSONMemoryEstimator" where
  "new_estimator multiplier token_bytes depth_limit scalar_limit estimate_limit =
     (if multiplier \<le> 0 \<or> token_bytes \<le> 0 then Inl (ValueError ''JSON memory weights must be positive'')
      else if depth_limit \<le> 0 \<or> scalar_limit \<le> 0 \<or> estimate_limit \<le> 0
      then Inl (ValueError ''JSON complexity limits must be positive'')
      else Inr \<lparr>raw_memory_multiplier = multiplier, token_memory_bytes = token_bytes,
                max_depth = depth_limit, max_scalar_bytes = scalar_limit,
                max_estimated_bytes = estimate_limit, raw_bytes = 0, tokens = 0, depth = 0,
                peak_depth = 0, in_string = False, escaped = False, scalar_active = False,
                scalar_bytes = 0\<rparr>)"

definition estimated_bytes :: "JSONMemoryEstimator \<Rightarrow> int" where
  "estimated_bytes e = raw_bytes e * raw_memory_multiplier e + tokens e * token_memory_bytes e"

record JSONMemoryComplexityObservation =
  schema_version :: int
  obs_reason :: reason
  obs_trigger_phase :: trigger_phase
  obs_raw_bytes :: int
  structural_item_count :: int
  obs_depth :: int
  obs_peak_depth :: int
  obs_scalar_bytes :: int
  obs_estimated_bytes :: int
  configured_limit :: int
  obs_max_depth :: int
  obs_max_scalar_bytes :: int
  obs_max_estimated_bytes :: int
  obs_raw_memory_multiplier :: int
  structural_item_memory_bytes :: int

text \<open>\<open>_raise_complexity\<close>: the observation the exception carries.\<close>

definition raise_complexity ::
  "reason \<Rightarrow> trigger_phase \<Rightarrow> JSONMemoryEstimator \<Rightarrow> JSONMemoryComplexityObservation" where
  "raise_complexity r phase e =
     \<lparr>schema_version = 1, obs_reason = r, obs_trigger_phase = phase, obs_raw_bytes = raw_bytes e,
      structural_item_count = tokens e, obs_depth = depth e, obs_peak_depth = peak_depth e,
      obs_scalar_bytes = scalar_bytes e, obs_estimated_bytes = estimated_bytes e,
      configured_limit = (case r of MAX_DEPTH \<Rightarrow> max_depth e | MAX_SCALAR_BYTES \<Rightarrow> max_scalar_bytes e
                                  | MAX_ESTIMATED_BYTES \<Rightarrow> max_estimated_bytes e),
      obs_max_depth = max_depth e, obs_max_scalar_bytes = max_scalar_bytes e,
      obs_max_estimated_bytes = max_estimated_bytes e,
      obs_raw_memory_multiplier = raw_memory_multiplier e,
      structural_item_memory_bytes = token_memory_bytes e\<rparr>"

definition count_token :: "JSONMemoryEstimator \<Rightarrow> JSONMemoryComplexityObservation + JSONMemoryEstimator" where
  "count_token e =
     (let e = e\<lparr>tokens := tokens e + 1\<rparr> in
      if max_estimated_bytes e < estimated_bytes e
      then Inl (raise_complexity MAX_ESTIMATED_BYTES STRUCTURAL_ITEM_SCAN e) else Inr e)"

definition finish_scalar :: "JSONMemoryEstimator \<Rightarrow> JSONMemoryEstimator" where
  "finish_scalar e = e\<lparr>scalar_active := False, scalar_bytes := 0\<rparr>"

section \<open>The scanner\<close>

text \<open>The two byte classes of the regular expressions.\<close>

definition string_special :: "byte \<Rightarrow> bool" where
  "string_special b \<longleftrightarrow> b = 0x22 \<or> b = 0x5C"

definition outside_special :: "byte \<Rightarrow> bool" where
  "outside_special b \<longleftrightarrow> b \<in> {0x22, 0x7B, 0x7D, 0x5B, 0x5D, 0x20, 0x09, 0x0A, 0x0D, 0x2C, 0x3A}"

text \<open>A special byte outside a string; \<open>count\<close> is \<open>_count_token\<close>.\<close>

definition structural ::
  "(JSONMemoryEstimator \<Rightarrow> JSONMemoryComplexityObservation + JSONMemoryEstimator) \<Rightarrow> byte
   \<Rightarrow> JSONMemoryEstimator \<Rightarrow> JSONMemoryComplexityObservation + JSONMemoryEstimator" where
  "structural count b e =
     (if b = 0x22 then
        (case count (finish_scalar e) of Inl x \<Rightarrow> Inl x | Inr e \<Rightarrow> Inr (e\<lparr>in_string := True\<rparr>))
      else if b = 0x7B \<or> b = 0x5B then
        (case count (finish_scalar e) of
           Inl x \<Rightarrow> Inl x
         | Inr e \<Rightarrow>
             (let e = e\<lparr>depth := depth e + 1, peak_depth := max (peak_depth e) (depth e + 1)\<rparr> in
              if max_depth e < depth e then Inl (raise_complexity MAX_DEPTH DEPTH_SCAN e) else Inr e))
      else if b = 0x7D \<or> b = 0x5D then
        Inr ((finish_scalar e)\<lparr>depth := max 0 (depth e - 1)\<rparr>)
      else Inr (finish_scalar e))"

text \<open>A run of \<open>n\<close> bytes of a scalar.\<close>

definition begin_scalar ::
  "(JSONMemoryEstimator \<Rightarrow> JSONMemoryComplexityObservation + JSONMemoryEstimator)
   \<Rightarrow> JSONMemoryEstimator \<Rightarrow> JSONMemoryComplexityObservation + JSONMemoryEstimator" where
  "begin_scalar count e =
     (if scalar_active e then Inr e else count (e\<lparr>scalar_active := True, scalar_bytes := 0\<rparr>))"

definition extend_scalar :: "nat \<Rightarrow> JSONMemoryEstimator \<Rightarrow> JSONMemoryComplexityObservation + JSONMemoryEstimator" where
  "extend_scalar n e =
     (if max_scalar_bytes e < scalar_bytes e + int n
      then Inl (raise_complexity MAX_SCALAR_BYTES SCALAR_SCAN (e\<lparr>scalar_bytes := max_scalar_bytes e + 1\<rparr>))
      else Inr (e\<lparr>scalar_bytes := scalar_bytes e + int n\<rparr>))"

definition scalar_run :: "nat \<Rightarrow> JSONMemoryEstimator \<Rightarrow> JSONMemoryComplexityObservation + JSONMemoryEstimator" where
  "scalar_run n e =
     (if n = 0 then Inr e
      else (case begin_scalar count_token e of Inl x \<Rightarrow> Inl x | Inr e \<Rightarrow> extend_scalar n e))"

text \<open>The \<open>while position < length\<close> loop, on the bytes from the position on.\<close>

function scan ::
  "JSONMemoryEstimator \<Rightarrow> byte list \<Rightarrow> JSONMemoryComplexityObservation + JSONMemoryEstimator" where
  "scan e [] = Inr e"
| "scan e (b # bs) =
     (if in_string e then
        if escaped e then scan (e\<lparr>escaped := False\<rparr>) bs
        else
          (case dropWhile (\<lambda>b. \<not> string_special b) (b # bs) of
             [] \<Rightarrow> Inr e
           | c # rest \<Rightarrow>
               if c = 0x5C then
                 (case rest of [] \<Rightarrow> Inr (e\<lparr>escaped := True\<rparr>) | _ # rest' \<Rightarrow> scan e rest')
               else scan (e\<lparr>in_string := False\<rparr>) rest)
      else
        (case scalar_run (length (takeWhile (\<lambda>b. \<not> outside_special b) (b # bs))) e of
           Inl x \<Rightarrow> Inl x
         | Inr e \<Rightarrow>
             (case dropWhile (\<lambda>b. \<not> outside_special b) (b # bs) of
                [] \<Rightarrow> Inr e
              | c # rest \<Rightarrow>
                  (case structural count_token c e of Inl x \<Rightarrow> Inl x | Inr e \<Rightarrow> scan e rest))))"
  by pat_completeness auto

termination
  by (relation "measure (\<lambda>(e, bs). length bs)")
     (auto dest!: dropWhile_shorter split: if_splits)

definition feed :: "byte list \<Rightarrow> JSONMemoryEstimator \<Rightarrow> JSONMemoryComplexityObservation + JSONMemoryEstimator" where
  "feed chunk e =
     (let e = e\<lparr>raw_bytes := raw_bytes e + int (length chunk)\<rparr> in
      if max_estimated_bytes e < estimated_bytes e
      then Inl (raise_complexity MAX_ESTIMATED_BYTES CHUNK_RAW_CHARGE e)
      else scan e chunk)"

fun feed_all :: "byte list list \<Rightarrow> JSONMemoryEstimator \<Rightarrow> JSONMemoryComplexityObservation + JSONMemoryEstimator" where
  "feed_all [] e = Inr e"
| "feed_all (c # cs) e = (case feed c e of Inl x \<Rightarrow> Inl x | Inr e \<Rightarrow> feed_all cs e)"

record JSONMemorySnapshot =
  snap_raw_bytes :: int
  snap_tokens :: int
  snap_depth :: int
  snap_peak_depth :: int
  snap_scalar_bytes :: int
  snap_estimated_bytes :: int
  snap_raw_memory_multiplier :: int
  snap_structural_item_memory_bytes :: int

definition snapshot :: "JSONMemoryEstimator \<Rightarrow> JSONMemorySnapshot" where
  "snapshot e =
     \<lparr>snap_raw_bytes = raw_bytes e, snap_tokens = tokens e, snap_depth = depth e,
      snap_peak_depth = peak_depth e, snap_scalar_bytes = scalar_bytes e,
      snap_estimated_bytes = estimated_bytes e, snap_raw_memory_multiplier = raw_memory_multiplier e,
      snap_structural_item_memory_bytes = token_memory_bytes e\<rparr>"

definition estimate_json_memory_bytes ::
  "JSONMemoryEstimator \<Rightarrow> byte list \<Rightarrow> JSONMemoryComplexityObservation + JSONMemorySnapshot" where
  "estimate_json_memory_bytes e payload = map_sum id snapshot (feed payload e)"

text \<open>
  \<open>estimate_json_text_memory_bytes\<close>: the text is encoded slice by slice; \<open>encode\<close> gives the bytes of one
  character (\<open>str.encode\<close> is character-wise).
\<close>

definition estimate_json_text_memory_bytes ::
  "('c \<Rightarrow> byte list) \<Rightarrow> JSONMemoryEstimator \<Rightarrow> 'c list
   \<Rightarrow> JSONMemoryComplexityObservation + JSONMemorySnapshot" where
  "estimate_json_text_memory_bytes encode e payload =
     map_sum id snapshot
       (feed_all (map (\<lambda>s. concat (map encode s)) (slices TEXT_SCAN_CHUNK_CHARACTERS payload)) e)"

section \<open>The automaton\<close>

text \<open>One byte at a time, without regular expressions; \<open>count\<close> is what a new token does.\<close>

definition byte_step ::
  "(JSONMemoryEstimator \<Rightarrow> JSONMemoryComplexityObservation + JSONMemoryEstimator) \<Rightarrow> byte
   \<Rightarrow> JSONMemoryEstimator \<Rightarrow> JSONMemoryComplexityObservation + JSONMemoryEstimator" where
  "byte_step count b e =
     (if in_string e then
        if escaped e then Inr (e\<lparr>escaped := False\<rparr>)
        else if b = 0x5C then Inr (e\<lparr>escaped := True\<rparr>)
        else if b = 0x22 then Inr (e\<lparr>in_string := False\<rparr>)
        else Inr e
      else if outside_special b then structural count b e
      else (case begin_scalar count e of Inl x \<Rightarrow> Inl x | Inr e \<Rightarrow> extend_scalar 1 e))"

fun run ::
  "(JSONMemoryEstimator \<Rightarrow> JSONMemoryComplexityObservation + JSONMemoryEstimator) \<Rightarrow> JSONMemoryEstimator
   \<Rightarrow> byte list \<Rightarrow> JSONMemoryComplexityObservation + JSONMemoryEstimator" where
  "run count e [] = Inr e"
| "run count e (b # bs) = (case byte_step count b e of Inl x \<Rightarrow> Inl x | Inr e \<Rightarrow> run count e bs)"

lemma run_append: "run count e (as @ bs) = (case run count e as of Inl x \<Rightarrow> Inl x | Inr e \<Rightarrow> run count e bs)"
  by (induction as arbitrary: e) (auto split: sum.splits)

lemma run_in_string:
  "in_string e \<Longrightarrow> \<not> escaped e \<Longrightarrow> \<forall>b \<in> set as. \<not> string_special b \<Longrightarrow> run count e (as @ bs) = run count e bs"
  by (induction as) (auto simp: byte_step_def string_special_def)

definition scalar_ok :: "JSONMemoryEstimator \<Rightarrow> bool" where
  "scalar_ok e \<longleftrightarrow> 0 < max_scalar_bytes e \<and> scalar_bytes e \<le> max_scalar_bytes e"

lemma extend_scalar_ok: "extend_scalar n e = Inr e' \<Longrightarrow> scalar_ok e \<Longrightarrow> scalar_ok e'"
  by (auto simp: extend_scalar_def scalar_ok_def split: if_splits)

lemma extend_scalar_twice:
  assumes "scalar_ok e"
  shows "(case extend_scalar m e of Inl x \<Rightarrow> Inl x | Inr e' \<Rightarrow> extend_scalar n e') = extend_scalar (m + n) e"
proof (cases "max_scalar_bytes e < scalar_bytes e + int m")
  case True
  then have "max_scalar_bytes e < scalar_bytes e + int (m + n)" by simp
  with True show ?thesis unfolding extend_scalar_def by simp
next
  case False
  then show ?thesis by (simp add: extend_scalar_def algebra_simps raise_complexity_def estimated_bytes_def)
qed

lemma extend_scalar_frame:
  "extend_scalar n e = Inr e' \<Longrightarrow> in_string e' = in_string e \<and> scalar_active e' = scalar_active e"
  by (auto simp: extend_scalar_def split: if_splits)

lemma run_scalar_active:
  "\<not> in_string e \<Longrightarrow> scalar_active e \<Longrightarrow> scalar_ok e \<Longrightarrow> \<forall>b \<in> set bs. \<not> outside_special b \<Longrightarrow>
     run count e bs = extend_scalar (length bs) e"
proof (induction bs arbitrary: e)
  case Nil
  then show ?case by (simp add: extend_scalar_def scalar_ok_def)
next
  case (Cons b bs)
  have "run count e (b # bs) =
      (case extend_scalar 1 e of Inl x \<Rightarrow> Inl x | Inr e' \<Rightarrow> run count e' bs)"
    using Cons.prems by (simp add: byte_step_def begin_scalar_def)
  also have "\<dots> = (case extend_scalar 1 e of Inl x \<Rightarrow> Inl x | Inr e' \<Rightarrow> extend_scalar (length bs) e')"
    using Cons extend_scalar_ok [of 1 e] extend_scalar_frame [of 1 e] by (auto split: sum.split)
  also have "\<dots> = extend_scalar (length (b # bs)) e"
    using extend_scalar_twice [OF Cons.prems(3), where m = 1 and n = "length bs"] by simp
  finally show ?case .
qed

lemma count_token_Inr: "count_token e = Inr e' \<Longrightarrow> e' = e\<lparr>tokens := tokens e + 1\<rparr>"
  by (auto simp: count_token_def Let_def split: if_splits)

lemma begin_scalar_Inr:
  "begin_scalar count_token e = Inr e' \<Longrightarrow> scalar_ok e \<Longrightarrow>
     scalar_active e' \<and> in_string e' = in_string e \<and> scalar_ok e'"
  by (auto simp: begin_scalar_def scalar_ok_def split: if_splits dest!: count_token_Inr)

lemma run_scalar:
  assumes "\<not> in_string e" "scalar_ok e" "\<forall>b \<in> set bs. \<not> outside_special b"
  shows "run count_token e bs = scalar_run (length bs) e"
proof (cases bs)
  case (Cons b bs')
  show ?thesis
  proof (cases "begin_scalar count_token e")
    case (Inl x)
    with assms Cons show ?thesis by (simp add: scalar_run_def byte_step_def)
  next
    case (Inr e1)
    from begin_scalar_Inr [OF this assms(2)] assms(1)
    have e1: "scalar_active e1" "\<not> in_string e1" "scalar_ok e1" by auto
    have "run count_token e bs = run count_token e1 bs"
      using assms(1,3) Cons Inr e1(1,2) by (simp add: byte_step_def begin_scalar_def)
    also have "\<dots> = extend_scalar (length bs) e1"
      using e1 assms(3) by (intro run_scalar_active) auto
    finally show ?thesis using Inr Cons by (simp add: scalar_run_def)
  qed
qed (simp add: scalar_run_def)

lemma scalar_run_ok:
  "scalar_run n e = Inr e' \<Longrightarrow> scalar_ok e \<Longrightarrow> scalar_ok e' \<and> in_string e' = in_string e"
  using extend_scalar_ok extend_scalar_frame
  by (auto simp: scalar_run_def split: if_splits sum.splits dest!: begin_scalar_Inr)

lemma structural_ok: "structural count_token b e = Inr e' \<Longrightarrow> scalar_ok e \<Longrightarrow> scalar_ok e'"
  by (auto simp: structural_def scalar_ok_def finish_scalar_def Let_def split: if_splits sum.splits
      dest!: count_token_Inr)

lemma takeWhile_none: "b \<in> set (takeWhile P bs) \<Longrightarrow> P b"
  by (metis set_takeWhileD)

text \<open>The scanner with its skips is the automaton.\<close>

lemma scan_run: "scalar_ok e \<Longrightarrow> scan e bs = run count_token e bs"
proof (induction e bs rule: scan.induct)
  case (2 e b bs)
  let ?str = "\<lambda>b. \<not> string_special b" and ?out = "\<lambda>b. \<not> outside_special b"
  show ?case
  proof (cases "in_string e")
    case str: True
    show ?thesis
    proof (cases "escaped e")
      case True
      then have "scalar_ok (e\<lparr>escaped := False\<rparr>)" using "2.prems" by (simp add: scalar_ok_def)
      with "2.IH"(1) [OF str True] str True show ?thesis by (simp add: byte_step_def)
    next
      case False
      have skip: "run count_token e (b # bs) = run count_token e (dropWhile ?str (b # bs))"
        using run_in_string [OF str False, of "takeWhile ?str (b # bs)" count_token "dropWhile ?str (b # bs)"]
          takeWhile_none [of _ ?str "b # bs"] by (metis takeWhile_dropWhile_id)
      show ?thesis
      proof (cases "dropWhile ?str (b # bs)")
        case Nil
        then show ?thesis using str False skip by simp
      next
        case (Cons c rest)
        then have c: "c = 0x22 \<or> c = 0x5C"
          using hd_dropWhile [of ?str "b # bs"] by (simp add: string_special_def)
        have ok: "scalar_ok (e\<lparr>in_string := i\<rparr>)" for i using "2.prems" by (simp add: scalar_ok_def)
        have restore: "e\<lparr>escaped := False\<rparr> = e" using False by simp
        show ?thesis
        proof (cases "c = 0x5C")
          case True
          show ?thesis
          proof (cases rest)
            case Nil
            then show ?thesis using skip str False Cons True by (simp add: byte_step_def)
          next
            case rest: (Cons d rest')
            have "run count_token e (c # d # rest') = run count_token e rest'"
              using str False True by (simp add: byte_step_def restore)
            then show ?thesis
              using "2.IH"(2) [OF str False Cons True rest "2.prems"] skip str False Cons True rest by simp
          qed
        next
          case quote: False
          have "run count_token e (c # rest) = run count_token (e\<lparr>in_string := False\<rparr>) rest"
            using str False quote c by (simp add: byte_step_def)
          then show ?thesis
            using "2.IH"(3) [OF str False Cons quote ok] skip str False Cons quote by simp
        qed
      qed
    qed
  next
    case False
    let ?n = "length (takeWhile ?out (b # bs))"
    have skip: "run count_token e (b # bs) =
        (case scalar_run ?n e of Inl x \<Rightarrow> Inl x | Inr e \<Rightarrow> run count_token e (dropWhile ?out (b # bs)))"
      using run_append [of count_token e "takeWhile ?out (b # bs)" "dropWhile ?out (b # bs)"]
        run_scalar [OF False "2.prems", of "takeWhile ?out (b # bs)"] takeWhile_none [of _ ?out "b # bs"]
      by (metis takeWhile_dropWhile_id)
    show ?thesis
    proof (cases "scalar_run ?n e")
      case (Inl x)
      then show ?thesis using skip False by simp
    next
      case (Inr e1)
      from scalar_run_ok [OF this "2.prems"] False have e1: "scalar_ok e1" "\<not> in_string e1" by auto
      show ?thesis
      proof (cases "dropWhile ?out (b # bs)")
        case Nil
        then show ?thesis using skip False Inr by simp
      next
        case (Cons c rest)
        then have c: "outside_special c" using hd_dropWhile [of ?out "b # bs"] by simp
        have "run count_token e1 (c # rest) =
            (case structural count_token c e1 of Inl x \<Rightarrow> Inl x | Inr e2 \<Rightarrow> run count_token e2 rest)"
          using e1(2) c by (simp add: byte_step_def)
        also have "\<dots> = (case structural count_token c e1 of Inl x \<Rightarrow> Inl x | Inr e2 \<Rightarrow> scan e2 rest)"
          using "2.IH"(4) [OF False Inr Cons] structural_ok [OF _ e1(1)] by (auto split: sum.split)
        finally show ?thesis using skip False Inr Cons by simp
      qed
    qed
  qed
qed simp

section \<open>Chunks do not matter\<close>

text \<open>
  Without the estimate check the automaton only depends on the bytes (\<open>free\<close>); with it, a run succeeds
  iff the free run does and its final estimate, the largest of the run, is within the limit.
\<close>

definition free :: "JSONMemoryEstimator \<Rightarrow> JSONMemoryComplexityObservation + JSONMemoryEstimator" where
  "free e = Inr (e\<lparr>tokens := tokens e + 1\<rparr>)"

definition weights_ok :: "JSONMemoryEstimator \<Rightarrow> bool" where
  "weights_ok e \<longleftrightarrow> 0 < raw_memory_multiplier e \<and> 0 < token_memory_bytes e"

definition settings :: "JSONMemoryEstimator \<Rightarrow> int \<times> int \<times> int \<times> int \<times> int" where
  "settings e = (raw_memory_multiplier e, token_memory_bytes e, max_depth e, max_scalar_bytes e,
     max_estimated_bytes e)"

lemma extend_scalar_settings:
  "extend_scalar n e = Inr e' \<Longrightarrow> settings e' = settings e \<and> raw_bytes e' = raw_bytes e \<and> tokens e' = tokens e \<and>
     depth e' = depth e \<and> peak_depth e' = peak_depth e"
  by (auto simp: extend_scalar_def settings_def split: if_splits)

lemma byte_step_free:
  "byte_step free b e = Inr e' \<Longrightarrow> settings e' = settings e \<and> raw_bytes e' = raw_bytes e \<and> tokens e \<le> tokens e'"
  by (auto simp: byte_step_def structural_def begin_scalar_def free_def finish_scalar_def Let_def
      settings_def dest!: extend_scalar_settings split: if_splits sum.splits)

lemma count_free: "count_token e = Inr e' \<longleftrightarrow> free e = Inr e' \<and> estimated_bytes e' \<le> max_estimated_bytes e'"
  by (auto simp: count_token_def free_def Let_def)

lemma estimated_same:
  "settings e' = settings e \<Longrightarrow> raw_bytes e' = raw_bytes e \<Longrightarrow> tokens e' = tokens e \<Longrightarrow>
     estimated_bytes e' = estimated_bytes e"
  by (simp add: estimated_bytes_def settings_def)

lemma estimated_mono:
  assumes "weights_ok e" "settings e' = settings e" "raw_bytes e \<le> raw_bytes e'" "tokens e \<le> tokens e'"
  shows "estimated_bytes e \<le> estimated_bytes e'"
  using assms by (auto simp: estimated_bytes_def weights_ok_def settings_def intro!: add_mono mult_right_mono)

lemma begin_scalar_free:
  "begin_scalar count_token e = Inr e' \<longleftrightarrow>
     begin_scalar free e = Inr e' \<and> (tokens e' = tokens e \<or> estimated_bytes e' \<le> max_estimated_bytes e')"
  by (auto simp: begin_scalar_def count_free free_def)

lemma byte_step_count:
  "byte_step count_token b e = Inr e' \<longleftrightarrow>
     byte_step free b e = Inr e' \<and> (tokens e' = tokens e \<or> estimated_bytes e' \<le> max_estimated_bytes e')"
proof -
  have string: "(case count_token f of Inl x \<Rightarrow> Inl x | Inr e \<Rightarrow> Inr (e\<lparr>in_string := True\<rparr>)) = Inr e' \<longleftrightarrow>
      (case free f of Inl x \<Rightarrow> Inl x | Inr e \<Rightarrow> Inr (e\<lparr>in_string := True\<rparr>)) = Inr e' \<and>
      estimated_bytes e' \<le> max_estimated_bytes e'" for f
    by (auto simp: count_token_def free_def Let_def estimated_bytes_def)
  have nest: "(case count_token f of Inl x \<Rightarrow> Inl x | Inr e \<Rightarrow>
        (let e = e\<lparr>depth := depth e + 1, peak_depth := max (peak_depth e) (depth e + 1)\<rparr> in
         if max_depth e < depth e then Inl (raise_complexity MAX_DEPTH DEPTH_SCAN e) else Inr e)) = Inr e' \<longleftrightarrow>
      (case free f of Inl x \<Rightarrow> Inl x | Inr e \<Rightarrow>
        (let e = e\<lparr>depth := depth e + 1, peak_depth := max (peak_depth e) (depth e + 1)\<rparr> in
         if max_depth e < depth e then Inl (raise_complexity MAX_DEPTH DEPTH_SCAN e) else Inr e)) = Inr e' \<and>
      estimated_bytes e' \<le> max_estimated_bytes e'" for f
    by (auto simp: count_token_def free_def Let_def estimated_bytes_def split: if_splits)
  have more: "structural count_token b e = Inr e' \<longleftrightarrow>
      structural free b e = Inr e' \<and> (tokens e' = tokens e \<or> estimated_bytes e' \<le> max_estimated_bytes e')"
  proof -
    have tok: "tokens e' = tokens e + 1" if "b = 0x22 \<or> b = 0x7B \<or> b = 0x5B" "structural free b e = Inr e'"
      using that by (auto simp: structural_def free_def finish_scalar_def Let_def split: if_splits)
    have kinds: "structural c 0x22 e = (case c (finish_scalar e) of Inl x \<Rightarrow> Inl x | Inr e \<Rightarrow> Inr (e\<lparr>in_string := True\<rparr>))"
      "b = 0x7B \<or> b = 0x5B \<Longrightarrow> structural c b e = (case c (finish_scalar e) of Inl x \<Rightarrow> Inl x | Inr e \<Rightarrow>
        (let e = e\<lparr>depth := depth e + 1, peak_depth := max (peak_depth e) (depth e + 1)\<rparr> in
         if max_depth e < depth e then Inl (raise_complexity MAX_DEPTH DEPTH_SCAN e) else Inr e))" for c
      by (auto simp: structural_def)
    consider (quote) "b = 0x22" | (brace) "b = 0x7B \<or> b = 0x5B"
      | (other) "b \<noteq> 0x22" "b \<noteq> 0x7B" "b \<noteq> 0x5B" by blast
    then show ?thesis
    proof cases
      case quote
      with tok have "structural free b e = Inr e' \<Longrightarrow> tokens e' \<noteq> tokens e" by simp
      then show ?thesis unfolding quote kinds string by blast
    next
      case brace
      with tok have "structural free b e = Inr e' \<Longrightarrow> tokens e' \<noteq> tokens e" by simp
      then show ?thesis unfolding kinds(2) [OF brace] nest by blast
    next
      case other
      then show ?thesis by (auto simp: structural_def finish_scalar_def split: if_splits)
    qed
  qed
  have scalar: "(case begin_scalar count_token e of Inl x \<Rightarrow> Inl x | Inr e \<Rightarrow> extend_scalar 1 e) = Inr e' \<longleftrightarrow>
      (case begin_scalar free e of Inl x \<Rightarrow> Inl x | Inr e \<Rightarrow> extend_scalar 1 e) = Inr e' \<and>
      (tokens e' = tokens e \<or> estimated_bytes e' \<le> max_estimated_bytes e')" (is "?c = Inr e' \<longleftrightarrow> ?f = Inr e' \<and> ?ok e'")
  proof -
    have "?c = Inr e' \<longleftrightarrow> (\<exists>e1. begin_scalar count_token e = Inr e1 \<and> extend_scalar 1 e1 = Inr e')"
      by (auto split: sum.splits)
    also have "\<dots> \<longleftrightarrow> (\<exists>e1. begin_scalar free e = Inr e1 \<and> ?ok e1 \<and> extend_scalar 1 e1 = Inr e')"
      by (auto simp: begin_scalar_free)
    also have "\<dots> \<longleftrightarrow> (\<exists>e1. begin_scalar free e = Inr e1 \<and> ?ok e' \<and> extend_scalar 1 e1 = Inr e')"
      using extend_scalar_settings [of 1 _ e'] estimated_same [of e'] by (fastforce simp: settings_def)
    also have "\<dots> \<longleftrightarrow> ?f = Inr e' \<and> ?ok e'" by (auto split: sum.splits)
    finally show ?thesis .
  qed
  show ?thesis unfolding byte_step_def using more scalar by auto
qed

lemma run_free:
  "run free e bs = Inr e' \<Longrightarrow> settings e' = settings e \<and> raw_bytes e' = raw_bytes e \<and> tokens e \<le> tokens e'"
proof (induction bs arbitrary: e)
  case (Cons b bs)
  then obtain e1 where e1: "byte_step free b e = Inr e1" "run free e1 bs = Inr e'" by (auto split: sum.splits)
  from byte_step_free [OF e1(1)] Cons.IH [OF e1(2)] show ?case by simp
qed simp

lemma run_count:
  "weights_ok e \<Longrightarrow> run count_token e bs = Inr e' \<longleftrightarrow>
     run free e bs = Inr e' \<and> (tokens e' = tokens e \<or> estimated_bytes e' \<le> max_estimated_bytes e')"
proof (induction bs arbitrary: e)
  case (Cons b bs)
  have "run count_token e (b # bs) = Inr e' \<longleftrightarrow>
      (\<exists>e1. byte_step count_token b e = Inr e1 \<and> run count_token e1 bs = Inr e')" by (auto split: sum.splits)
  also have "\<dots> \<longleftrightarrow> (\<exists>e1. byte_step free b e = Inr e1 \<and> run free e1 bs = Inr e' \<and>
      (tokens e' = tokens e \<or> estimated_bytes e' \<le> max_estimated_bytes e'))"
  proof (rule arg_cong [where f = Ex], rule ext)
    fix e1
    show "(byte_step count_token b e = Inr e1 \<and> run count_token e1 bs = Inr e') \<longleftrightarrow>
      (byte_step free b e = Inr e1 \<and> run free e1 bs = Inr e' \<and>
        (tokens e' = tokens e \<or> estimated_bytes e' \<le> max_estimated_bytes e'))"
    proof (cases "byte_step free b e = Inr e1 \<and> run free e1 bs = Inr e'")
      case True
      note e1 = byte_step_free [of b e e1] and e' = run_free [of e1 bs e']
      have w: "weights_ok e1" using Cons.prems e1 True by (simp add: weights_ok_def settings_def)
      have limit: "max_estimated_bytes e1 = max_estimated_bytes e" "max_estimated_bytes e' = max_estimated_bytes e"
        using e1 e' True by (simp_all add: settings_def)
      have "estimated_bytes e1 \<le> estimated_bytes e'"
        using e' True by (intro estimated_mono [OF w]) auto
      moreover have "tokens e' = tokens e1 \<Longrightarrow> estimated_bytes e' = estimated_bytes e1"
        using e' True by (intro estimated_same) auto
      ultimately show ?thesis
        using True Cons.IH [OF w] e1 e' by (auto simp: byte_step_count limit)
    next
      case False
      then show ?thesis using Cons.IH [of e1] byte_step_free [of b e e1] Cons.prems
        by (auto simp: byte_step_count weights_ok_def settings_def)
    qed
  qed
  also have "\<dots> \<longleftrightarrow> run free e (b # bs) = Inr e' \<and> (tokens e' = tokens e \<or> estimated_bytes e' \<le> max_estimated_bytes e')"
    by (auto split: sum.splits)
  finally show ?case .
qed auto

lemma raw_parts:
  "structural free b e = Inr e' \<Longrightarrow> structural free b (e\<lparr>raw_bytes := r\<rparr>) = Inr (e'\<lparr>raw_bytes := r\<rparr>)"
  "begin_scalar free e = Inr e' \<Longrightarrow> begin_scalar free (e\<lparr>raw_bytes := r\<rparr>) = Inr (e'\<lparr>raw_bytes := r\<rparr>)"
  "extend_scalar n e = Inr e' \<Longrightarrow> extend_scalar n (e\<lparr>raw_bytes := r\<rparr>) = Inr (e'\<lparr>raw_bytes := r\<rparr>)"
  by (auto simp: structural_def free_def finish_scalar_def Let_def begin_scalar_def extend_scalar_def
      split: if_splits)

lemma byte_step_raw:
  assumes "byte_step free b e = Inr e'"
  shows "byte_step free b (e\<lparr>raw_bytes := r\<rparr>) = Inr (e'\<lparr>raw_bytes := r\<rparr>)"
proof (cases "in_string e \<or> outside_special b")
  case True
  then show ?thesis using assms raw_parts(1) [of b e e' r] by (auto simp: byte_step_def split: if_splits)
next
  case False
  with assms obtain e1 where "begin_scalar free e = Inr e1" "extend_scalar 1 e1 = Inr e'"
    by (auto simp: byte_step_def split: sum.splits)
  then show ?thesis using False raw_parts(2) [of e e1 r] raw_parts(3) [of 1 e1 e' r] by (simp add: byte_step_def)
qed

lemma run_raw:
  "run free e bs = Inr e' \<Longrightarrow> run free (e\<lparr>raw_bytes := r\<rparr>) bs = Inr (e'\<lparr>raw_bytes := r\<rparr>)"
proof (induction bs arbitrary: e)
  case (Cons b bs)
  then obtain e1 where "byte_step free b e = Inr e1" "run free e1 bs = Inr e'" by (auto split: sum.splits)
  with byte_step_raw [of b e e1 r] Cons.IH [of e1] show ?case by simp
qed simp

definition ready :: "JSONMemoryEstimator \<Rightarrow> bool" where
  "ready e \<longleftrightarrow> weights_ok e \<and> scalar_ok e"

lemma byte_step_scalar_ok: "byte_step free b e = Inr e' \<Longrightarrow> scalar_ok e \<Longrightarrow> scalar_ok e'"
  by (auto simp: byte_step_def structural_def begin_scalar_def extend_scalar_def free_def finish_scalar_def
      scalar_ok_def Let_def split: if_splits)

lemma run_scalar_ok: "run free e bs = Inr e' \<Longrightarrow> scalar_ok e \<Longrightarrow> scalar_ok e'"
  by (induction bs arbitrary: e) (auto split: sum.splits dest: byte_step_scalar_ok)

lemma run_ready: "run free e bs = Inr e' \<Longrightarrow> ready e \<Longrightarrow> ready e'"
  using run_scalar_ok [of e bs e'] run_free [of e bs e'] by (simp add: ready_def weights_ok_def settings_def)

lemma ready_raw [simp]: "ready (e\<lparr>raw_bytes := r\<rparr>) = ready e"
  by (simp add: ready_def weights_ok_def scalar_ok_def)

abbreviation charge :: "nat \<Rightarrow> JSONMemoryEstimator \<Rightarrow> JSONMemoryEstimator" where
  "charge n e \<equiv> e\<lparr>raw_bytes := raw_bytes e + int n\<rparr>"

text \<open>A chunk is accepted iff the free run over it succeeds and the final estimate is within the limit.\<close>

lemma feed_accepts:
  assumes "ready e"
  shows "feed c e = Inr e' \<longleftrightarrow>
     run free (charge (length c) e) c = Inr e' \<and> estimated_bytes e' \<le> max_estimated_bytes e'"
proof -
  let ?e = "charge (length c) e"
  have r: "ready ?e" using assms by simp
  then have "scan ?e c = run count_token ?e c" by (intro scan_run) (simp add: ready_def)
  then have feed: "feed c e = Inr e' \<longleftrightarrow> estimated_bytes ?e \<le> max_estimated_bytes ?e \<and> run free ?e c = Inr e' \<and>
      (tokens e' = tokens ?e \<or> estimated_bytes e' \<le> max_estimated_bytes e')"
    using run_count [of ?e c e'] r by (simp add: feed_def Let_def not_less ready_def)
  show ?thesis
  proof (cases "run free ?e c = Inr e'")
    case True
    note e' = run_free [OF True]
    have "estimated_bytes ?e \<le> estimated_bytes e'"
      using e' r by (intro estimated_mono) (auto simp: ready_def)
    moreover have "max_estimated_bytes e' = max_estimated_bytes ?e" using e' by (simp add: settings_def)
    moreover have "tokens e' = tokens ?e \<Longrightarrow> estimated_bytes e' = estimated_bytes ?e"
      using e' by (intro estimated_same) auto
    ultimately show ?thesis using feed True by auto
  qed (simp add: feed)
qed

lemma feed_ready: "feed c e = Inr e' \<Longrightarrow> ready e \<Longrightarrow> ready e'"
  using feed_accepts [of e c e'] run_ready [of "charge (length c) e" c e'] by simp

lemma feed_append:
  assumes "ready e"
  shows "feed (a @ b) e = Inr e' \<longleftrightarrow> (\<exists>e1. feed a e = Inr e1 \<and> feed b e1 = Inr e')"
proof
  assume "feed (a @ b) e = Inr e'"
  then have all: "run free (charge (length (a @ b)) e) (a @ b) = Inr e'"
    and fits: "estimated_bytes e' \<le> max_estimated_bytes e'" using feed_accepts [OF assms] by auto
  from all obtain m where m: "run free (charge (length (a @ b)) e) a = Inr m" "run free m b = Inr e'"
    by (auto simp: run_append split: sum.splits)
  define e1 where "e1 = m\<lparr>raw_bytes := raw_bytes e + int (length a)\<rparr>"
  have m_raw: "raw_bytes m = raw_bytes e + int (length a) + int (length b)" using run_free [OF m(1)] by simp
  have run1: "run free (charge (length a) e) a = Inr e1"
    using run_raw [OF m(1), of "raw_bytes e + int (length a)"] by (simp add: e1_def)
  have ready1: "ready e1" using run_ready [OF run1] assms by simp
  have "charge (length b) e1 = m" using m_raw by (simp add: e1_def)
  with m(2) have run2: "run free (charge (length b) e1) b = Inr e'" by simp
  have "estimated_bytes e1 \<le> estimated_bytes e'"
    using run_free [OF run2] ready1
    by (intro estimated_mono) (auto simp: ready_def settings_def)
  moreover have "max_estimated_bytes e' = max_estimated_bytes e1"
    using run_free [OF run2] by (simp add: settings_def)
  ultimately have "feed a e = Inr e1" using run1 fits feed_accepts [OF assms] by simp
  moreover have "feed b e1 = Inr e'" using run2 fits feed_accepts [OF ready1] by simp
  ultimately show "\<exists>e1. feed a e = Inr e1 \<and> feed b e1 = Inr e'" by blast
next
  assume "\<exists>e1. feed a e = Inr e1 \<and> feed b e1 = Inr e'"
  then obtain e1 where e1: "feed a e = Inr e1" "feed b e1 = Inr e'" by blast
  have ready1: "ready e1" using feed_ready [OF e1(1) assms] .
  from e1 have run1: "run free (charge (length a) e) a = Inr e1"
    and run2: "run free (charge (length b) e1) b = Inr e'" and fits: "estimated_bytes e' \<le> max_estimated_bytes e'"
    using feed_accepts [OF assms] feed_accepts [OF ready1] by auto
  let ?r = "raw_bytes e + int (length (a @ b))"
  have "run free (charge (length (a @ b)) e) a = Inr (e1\<lparr>raw_bytes := ?r\<rparr>)"
    using run_raw [OF run1, of ?r] by simp
  moreover have "e1\<lparr>raw_bytes := ?r\<rparr> = charge (length b) e1" using run_free [OF run1] by simp
  ultimately have "run free (charge (length (a @ b)) e) (a @ b) = Inr e'" using run2 by (simp add: run_append)
  with fits show "feed (a @ b) e = Inr e'" using feed_accepts [OF assms] by simp
qed

lemma feed_all_concat:
  "ready e \<Longrightarrow> estimated_bytes e \<le> max_estimated_bytes e \<Longrightarrow>
     feed_all cs e = Inr e' \<longleftrightarrow> feed (concat cs) e = Inr e'"
proof (induction cs arbitrary: e)
  case Nil
  then show ?case by (simp add: feed_def Let_def)
next
  case (Cons c cs)
  have "feed_all (c # cs) e = Inr e' \<longleftrightarrow> (\<exists>e1. feed c e = Inr e1 \<and> feed_all cs e1 = Inr e')"
    by (auto split: sum.splits)
  also have "\<dots> \<longleftrightarrow> (\<exists>e1. feed c e = Inr e1 \<and> feed (concat cs) e1 = Inr e')"
    using Cons.IH feed_ready [OF _ Cons.prems(1)] feed_accepts [OF Cons.prems(1)] by blast
  also have "\<dots> \<longleftrightarrow> feed (concat (c # cs)) e = Inr e'" using feed_append [OF Cons.prems(1)] by simp
  finally show ?case .
qed

lemma new_estimator_ready:
  "new_estimator m t d s l = Inr e \<Longrightarrow> ready e \<and> estimated_bytes e \<le> max_estimated_bytes e"
  by (auto simp: new_estimator_def ready_def weights_ok_def scalar_ok_def estimated_bytes_def split: if_splits)

text \<open>
  C8. The verdict on a document and the state after it do not depend on how it was cut into chunks:
  two sequences of chunks with the same bytes are both refused, or both accepted with the same
  state.
\<close>

theorem json_verdict_ignores_chunks:
  assumes "new_estimator m t d s l = Inr e" and "concat cs = concat ds"
  shows "feed_all cs e = Inr e' \<longleftrightarrow> feed_all ds e = Inr e'"
  using new_estimator_ready [OF assms(1)] feed_all_concat [of e cs e'] feed_all_concat [of e ds e'] assms(2)
  by simp

definition demo_estimator :: JSONMemoryEstimator where
  "demo_estimator =
     \<lparr>raw_memory_multiplier = 5, token_memory_bytes = 1024, max_depth = 2, max_scalar_bytes = 4,
      max_estimated_bytes = 5000, raw_bytes = 0, tokens = 0, depth = 0, peak_depth = 0,
      in_string = False, escaped = False, scalar_active = False, scalar_bytes = 0\<rparr>"

lemma demo_estimator_new: "new_estimator 5 1024 2 4 5000 = Inr demo_estimator"
  by (simp add: new_estimator_def demo_estimator_def)

definition demo_end :: JSONMemoryEstimator where
  "demo_end = demo_estimator\<lparr>raw_bytes := 8, tokens := 3, peak_depth := 1\<rparr>"

text \<open>The document \<open>["\"", 1]\<close>, whole and cut inside its escape.\<close>

lemma demo_feed: "feed_all [[0x5B, 0x22, 0x5C, 0x22, 0x22, 0x2C, 0x31, 0x5D]] demo_estimator = Inr demo_end"
  by code_simp

theorem json_verdict_ignores_chunks_witness:
  "feed_all [[0x5B, 0x22, 0x5C], [0x22, 0x22, 0x2C], [0x31, 0x5D]] demo_estimator = Inr demo_end"
  using json_verdict_ignores_chunks [OF demo_estimator_new,
      of "[[0x5B, 0x22, 0x5C], [0x22, 0x22, 0x2C], [0x31, 0x5D]]"
         "[[0x5B, 0x22, 0x5C, 0x22, 0x22, 0x2C, 0x31, 0x5D]]" demo_end] demo_feed
  by simp

section \<open>Bounds and refusals\<close>

definition depth_ok :: "JSONMemoryEstimator \<Rightarrow> bool" where
  "depth_ok e \<longleftrightarrow> 0 \<le> depth e \<and> depth e \<le> peak_depth e \<and> peak_depth e \<le> max_depth e"

lemma byte_step_depth: "byte_step free b e = Inr e' \<Longrightarrow> depth_ok e \<Longrightarrow> depth_ok e'"
proof (cases "in_string e \<or> outside_special b")
  case True
  then show "byte_step free b e = Inr e' \<Longrightarrow> depth_ok e \<Longrightarrow> depth_ok e'"
    by (auto simp: byte_step_def structural_def free_def finish_scalar_def depth_ok_def Let_def split: if_splits)
next
  case False
  assume "byte_step free b e = Inr e'" "depth_ok e"
  moreover from this False obtain e1 where "begin_scalar free e = Inr e1" "extend_scalar 1 e1 = Inr e'"
    by (auto simp: byte_step_def split: sum.splits)
  ultimately show "depth_ok e'"
    by (auto simp: begin_scalar_def extend_scalar_def free_def depth_ok_def split: if_splits)
qed

lemma run_depth: "run free e bs = Inr e' \<Longrightarrow> depth_ok e \<Longrightarrow> depth_ok e'"
proof (induction bs arbitrary: e)
  case (Cons b bs)
  then obtain e1 where "byte_step free b e = Inr e1" "run free e1 bs = Inr e'" by (auto split: sum.splits)
  with byte_step_depth Cons show ?case by blast
qed simp

lemma new_estimator_fields:
  "new_estimator m t d s l = Inr e \<Longrightarrow>
     settings e = (m, t, d, s, l) \<and> raw_bytes e = 0 \<and> tokens e = 0 \<and> depth_ok e"
  by (auto simp: new_estimator_def settings_def depth_ok_def split: if_splits)

text \<open>
  An accepted document, however it was cut, costs at most the configured estimate: every source
  byte and every token is charged, the nesting never exceeded the depth limit, and no open scalar is
  longer than its limit.
\<close>

theorem json_accepted_within_limits:
  assumes "new_estimator m t d s l = Inr e" and "feed_all cs e = Inr e'"
  shows "raw_bytes e' = int (length (concat cs)) \<and>
     raw_bytes e' * m + tokens e' * t \<le> l \<and> 0 \<le> tokens e' \<and>
     0 \<le> depth e' \<and> depth e' \<le> peak_depth e' \<and> peak_depth e' \<le> d \<and> scalar_bytes e' \<le> s"
proof -
  note start = new_estimator_ready [OF assms(1)] new_estimator_fields [OF assms(1)]
  have "feed (concat cs) e = Inr e'" using feed_all_concat [of e cs e'] start(1) assms(2) by simp
  then have run: "run free (charge (length (concat cs)) e) (concat cs) = Inr e'"
    and fits: "estimated_bytes e' \<le> max_estimated_bytes e'"
    using feed_accepts [of e "concat cs" e'] start(1) by auto
  have same: "settings e' = (m, t, d, s, l)" "raw_bytes e' = int (length (concat cs))" "0 \<le> tokens e'"
    using run_free [OF run] start(2) by (auto simp: settings_def)
  have "depth_ok e'" using run_depth [OF run] start(2) by (simp add: depth_ok_def)
  moreover have "scalar_ok e'" using run_scalar_ok [OF run] start(1) by (simp add: ready_def scalar_ok_def)
  ultimately show ?thesis
    using same fits by (simp add: settings_def estimated_bytes_def depth_ok_def scalar_ok_def)
qed

theorem json_accepted_within_limits_witness:
  "raw_bytes demo_end * 5 + tokens demo_end * 1024 \<le> 5000"
  using json_accepted_within_limits [OF demo_estimator_new demo_feed] by blast

text \<open>
  What the limits are about, without an estimator: a reader of the bytes that knows no limits and keeps whether it is inside
  a string (and behind a backslash there), how deep it is nested, how many items it has begun and how long the current
  scalar is.
\<close>

record reading =
  in_text :: bool
  after_backslash :: bool
  nesting :: int
  items :: int
  scalar_length :: int

definition read_byte :: "byte \<Rightarrow> reading \<Rightarrow> reading" where
  "read_byte b r =
     (if in_text r then
        if after_backslash r then r\<lparr>after_backslash := False\<rparr>
        else if b = 0x5C then r\<lparr>after_backslash := True\<rparr>
        else if b = 0x22 then r\<lparr>in_text := False\<rparr> else r
      else if b = 0x22 then r\<lparr>in_text := True, items := items r + 1, scalar_length := 0\<rparr>
      else if b = 0x7B \<or> b = 0x5B then r\<lparr>nesting := nesting r + 1, items := items r + 1, scalar_length := 0\<rparr>
      else if b = 0x7D \<or> b = 0x5D then r\<lparr>nesting := max 0 (nesting r - 1), scalar_length := 0\<rparr>
      else if b \<in> {0x20, 0x09, 0x0A, 0x0D, 0x2C, 0x3A} then r\<lparr>scalar_length := 0\<rparr>
      else r\<lparr>items := (if scalar_length r = 0 then items r + 1 else items r), scalar_length := scalar_length r + 1\<rparr>)"

definition read_bytes :: "byte list \<Rightarrow> reading" where
  "read_bytes bs = fold read_byte bs
     \<lparr>in_text = False, after_backslash = False, nesting = 0, items = 0, scalar_length = 0\<rparr>"

definition agrees :: "JSONMemoryEstimator \<Rightarrow> reading \<Rightarrow> bool" where
  "agrees e r \<longleftrightarrow> in_string e = in_text r \<and> escaped e = after_backslash r \<and> depth e = nesting r \<and> tokens e = items r \<and>
     scalar_bytes e = scalar_length r \<and> scalar_active e = (0 < scalar_length r) \<and> 0 \<le> scalar_length r"

lemma agrees_raw [simp]: "agrees (e\<lparr>raw_bytes := n\<rparr>) r = agrees e r"
  by (simp add: agrees_def)

lemma byte_step_agrees:
  assumes "agrees e r" "byte_step free b e = Inr e'"
  shows "agrees e' (read_byte b r)"
proof (cases "in_string e \<or> outside_special b")
  case True
  consider (string) "in_string e" | (quote) "\<not> in_string e" "b = 0x22" | (deeper) "\<not> in_string e" "b = 0x7B \<or> b = 0x5B"
    | (higher) "\<not> in_string e" "b = 0x7D \<or> b = 0x5D" | (blank) "\<not> in_string e" "b \<in> {0x20, 0x09, 0x0A, 0x0D, 0x2C, 0x3A}"
    using True by (auto simp: outside_special_def)
  then show ?thesis
  proof cases
    case string
    with assms show ?thesis by (auto simp: byte_step_def read_byte_def agrees_def split: if_splits)
  next
    case quote
    then have "e' = (finish_scalar e)\<lparr>tokens := tokens e + 1, in_string := True\<rparr>"
      using assms(2) by (simp add: byte_step_def outside_special_def structural_def free_def finish_scalar_def)
    with quote assms(1) show ?thesis by (simp add: read_byte_def agrees_def finish_scalar_def)
  next
    case deeper
    then have "e' = (finish_scalar e)\<lparr>tokens := tokens e + 1, depth := depth e + 1, peak_depth := max (peak_depth e) (depth e + 1)\<rparr>"
      using assms(2) by (auto simp: byte_step_def outside_special_def structural_def free_def finish_scalar_def Let_def split: if_splits)
    moreover have "b \<noteq> 0x22" using deeper(2) by auto
    ultimately show ?thesis using deeper assms(1) by (simp add: read_byte_def agrees_def finish_scalar_def)
  next
    case higher
    then have "e' = (finish_scalar e)\<lparr>depth := max 0 (depth e - 1)\<rparr>" "b \<notin> {0x22, 0x7B, 0x5B}"
      using assms(2) by (auto simp: byte_step_def outside_special_def structural_def finish_scalar_def)
    with higher assms(1) show ?thesis by (simp add: read_byte_def agrees_def finish_scalar_def)
  next
    case blank
    then have "e' = finish_scalar e" "b \<notin> {0x22, 0x7B, 0x5B, 0x7D, 0x5D}"
      using assms(2) by (auto simp: byte_step_def outside_special_def structural_def)
    with blank assms(1) show ?thesis by (simp add: read_byte_def agrees_def finish_scalar_def)
  qed
next
  case False
  with assms(2) obtain e1 where "begin_scalar free e = Inr e1" "extend_scalar 1 e1 = Inr e'"
    by (auto simp: byte_step_def split: sum.splits)
  with assms(1) False show ?thesis
    by (auto simp: agrees_def read_byte_def outside_special_def begin_scalar_def extend_scalar_def free_def split: if_splits)
qed

lemma run_agrees: "agrees e r \<Longrightarrow> run free e bs = Inr e' \<Longrightarrow> agrees e' (fold read_byte bs r)"
proof (induction bs arbitrary: e r)
  case (Cons b bs)
  then obtain e1 where "byte_step free b e = Inr e1" "run free e1 bs = Inr e'" by (auto split: sum.splits)
  with Cons byte_step_agrees show ?case by simp blast
qed simp

lemma feed_agrees:
  assumes "feed c e = Inr e'" "ready e" "agrees e r"
  shows "agrees e' (fold read_byte c r) \<and> raw_bytes e' = raw_bytes e + int (length c) \<and> settings e' = settings e"
proof -
  have run: "run free (charge (length c) e) c = Inr e'" using feed_accepts [OF assms(2)] assms(1) by blast
  then show ?thesis using run_agrees [OF _ run, of r] run_free [OF run] assms(3) by (simp add: settings_def)
qed

text \<open>A measurement \<open>r\<close> over a limit, with the observation that says so.\<close>

definition measured_over :: "JSONMemoryEstimator \<Rightarrow> reading \<Rightarrow> JSONMemoryComplexityObservation \<Rightarrow> bool" where
  "measured_over e r x \<longleftrightarrow> obs_raw_bytes x = raw_bytes e \<and>
     (case obs_reason x of
        MAX_DEPTH \<Rightarrow> configured_limit x = max_depth e \<and> obs_depth x = nesting r \<and> max_depth e < nesting r
      | MAX_SCALAR_BYTES \<Rightarrow>
          configured_limit x = max_scalar_bytes e \<and> obs_scalar_bytes x = scalar_length r \<and> max_scalar_bytes e < scalar_length r
      | MAX_ESTIMATED_BYTES \<Rightarrow> configured_limit x = max_estimated_bytes e \<and>
          obs_estimated_bytes x = raw_bytes e * raw_memory_multiplier e + items r * token_memory_bytes e \<and>
          max_estimated_bytes e < obs_estimated_bytes x)"

lemma count_token_over:
  "count_token f = Inl x \<Longrightarrow> settings f = settings e \<Longrightarrow> raw_bytes f = raw_bytes e \<Longrightarrow> tokens f + 1 = items r \<Longrightarrow>
   measured_over e r x"
  by (auto simp: count_token_def raise_complexity_def measured_over_def Let_def estimated_bytes_def settings_def split: if_splits)

lemma byte_step_over:
  assumes "agrees e r" "scalar_ok e" "byte_step count_token b e = Inl x"
  shows "measured_over e (read_byte b r) x"
proof (cases "in_string e \<or> outside_special b")
  case True
  with assms(3) have b: "\<not> in_string e" "b = 0x22 \<or> b = 0x7B \<or> b = 0x5B"
    by (auto simp: byte_step_def structural_def split: if_splits)
  have r: "items (read_byte b r) = items r + 1" "\<not> in_text r" "b \<noteq> 0x22 \<Longrightarrow> nesting (read_byte b r) = nesting r + 1"
    using b assms(1) by (auto simp: read_byte_def agrees_def)
  show ?thesis
  proof (cases "count_token (finish_scalar e)")
    case (Inl y)
    then have "x = y" using True b assms(3) by (auto simp: byte_step_def structural_def)
    moreover have "measured_over e (read_byte b r) y"
      by (rule count_token_over [OF Inl]) (use assms(1) r(1) in \<open>simp_all add: finish_scalar_def settings_def agrees_def\<close>)
    ultimately show ?thesis by simp
  next
    case (Inr f)
    with count_token_Inr [OF Inr] True b assms(1,3) r(3) show ?thesis
      by (auto simp: byte_step_def structural_def finish_scalar_def Let_def raise_complexity_def measured_over_def agrees_def
          split: if_splits)
  qed
next
  case False
  have r: "scalar_length (read_byte b r) = scalar_length r + 1"
    "items (read_byte b r) = (if scalar_length r = 0 then items r + 1 else items r)"
    using False assms(1) by (auto simp: read_byte_def agrees_def outside_special_def)
  show ?thesis
  proof (cases "begin_scalar count_token e")
    case (Inl y)
    then have y: "x = y" "\<not> scalar_active e" "count_token (e\<lparr>scalar_active := True, scalar_bytes := 0\<rparr>) = Inl y"
      using False assms(3) by (auto simp: byte_step_def begin_scalar_def split: if_splits)
    have "measured_over e (read_byte b r) y"
      by (rule count_token_over [OF y(3)]) (use assms(1) r(2) y(2) in \<open>auto simp: settings_def agrees_def\<close>)
    with y(1) show ?thesis by simp
  next
    case (Inr f)
    then have f: "scalar_bytes f = scalar_length r" "max_scalar_bytes f = max_scalar_bytes e" "raw_bytes f = raw_bytes e"
      using assms(1) by (auto simp: begin_scalar_def agrees_def split: if_splits dest!: count_token_Inr)
    have "extend_scalar 1 f = Inl x" using False Inr assms(3) by (simp add: byte_step_def)
    with f r(1) assms(1,2) show ?thesis
      by (auto simp: extend_scalar_def raise_complexity_def measured_over_def scalar_ok_def agrees_def split: if_splits)
  qed
qed

lemma measured_over_same:
  "measured_over f r x \<Longrightarrow> settings f = settings e \<Longrightarrow> raw_bytes f = raw_bytes e \<Longrightarrow> measured_over e r x"
  by (auto simp: measured_over_def settings_def split: reason.splits)

lemma run_over:
  "agrees e r \<Longrightarrow> scalar_ok e \<Longrightarrow> run count_token e bs = Inl x \<Longrightarrow>
   \<exists>p q. bs = p @ q \<and> measured_over e (fold read_byte p r) x"
proof (induction bs arbitrary: e r)
  case (Cons b bs)
  show ?case
  proof (cases "byte_step count_token b e")
    case (Inl y)
    then have "measured_over e (read_byte b r) x" using byte_step_over [OF Cons.prems(1,2), of b] Cons.prems(3) by simp
    then show ?thesis by (intro exI [of _ "[b]"] exI [of _ bs]) simp
  next
    case (Inr f)
    then have step: "byte_step free b e = Inr f" by (simp add: byte_step_count)
    have "run count_token f bs = Inl x" using Cons.prems(3) Inr by simp
    with Cons.IH [OF byte_step_agrees [OF Cons.prems(1) step] byte_step_scalar_ok [OF step Cons.prems(2)]]
    obtain p q where p: "bs = p @ q" "measured_over f (fold read_byte p (read_byte b r)) x" by blast
    with measured_over_same [OF p(2), of e] byte_step_free [OF step] show ?thesis
      by (intro exI [of _ "b # p"] exI [of _ q]) simp
  qed
qed simp

lemma feed_over:
  assumes "feed c e = Inl x" "ready e" "agrees e r"
  shows "\<exists>p q. c = p @ q \<and> measured_over (charge (length c) e) (fold read_byte p r) x"
proof (cases "max_estimated_bytes e < estimated_bytes (charge (length c) e)")
  case True
  then have "x = raise_complexity MAX_ESTIMATED_BYTES CHUNK_RAW_CHARGE (charge (length c) e)"
    using assms(1) by (simp add: feed_def Let_def)
  with True assms(3) have "measured_over (charge (length c) e) r x"
    by (simp add: measured_over_def raise_complexity_def estimated_bytes_def agrees_def)
  then show ?thesis by (intro exI [of _ "[]"] exI [of _ c]) simp
next
  case False
  have ok: "scalar_ok (charge (length c) e)" using assms(2) by (simp add: ready_def scalar_ok_def)
  have "run count_token (charge (length c) e) c = Inl x"
    using assms(1) False scan_run [OF ok, of c] by (simp add: feed_def Let_def)
  with run_over [OF _ ok] assms(3) show ?thesis by simp
qed

lemma feed_all_over:
  "feed_all cs e = Inl x \<Longrightarrow> ready e \<Longrightarrow> agrees e r \<Longrightarrow>
   \<exists>before c after p q. cs = before @ c # after \<and> c = p @ q \<and>
     measured_over (charge (length (concat before @ c)) e) (fold read_byte (concat before @ p) r) x"
proof (induction cs arbitrary: e r)
  case (Cons c cs)
  show ?case
  proof (cases "feed c e")
    case (Inl y)
    with Cons.prems feed_over [OF _ Cons.prems(2,3), of c x] obtain p q where
      "c = p @ q" "measured_over (charge (length c) e) (fold read_byte p r) x" by auto
    then show ?thesis by (intro exI [of _ "[]"] exI [of _ c] exI [of _ cs] exI [of _ p] exI [of _ q]) simp
  next
    case (Inr e1)
    note e1 = feed_agrees [OF Inr Cons.prems(2,3)]
    have "feed_all cs e1 = Inl x" using Cons.prems(1) Inr by simp
    from Cons.IH [OF this feed_ready [OF Inr Cons.prems(2)]] e1 obtain before d after p q where
      s: "cs = before @ d # after" "d = p @ q"
        "measured_over (charge (length (concat before @ d)) e1) (fold read_byte (concat before @ p) (fold read_byte c r)) x"
      by blast
    have "measured_over (charge (length (concat (c # before) @ d)) e) (fold read_byte (concat (c # before) @ p) r) x"
      using measured_over_same [OF s(3), of "charge (length (concat (c # before) @ d)) e"] e1 by (simp add: settings_def)
    with s(1,2) show ?thesis by (intro exI [of _ "c # before"] exI [of _ d] exI [of _ after] exI [of _ p] exI [of _ q]) simp
  qed
qed simp

text \<open>
  C33. The verdict on a document is justified by its bytes, read by a reader that knows no limits. A refusal comes after
  some prefix \<open>p\<close> of the bytes that ends in the chunk being fed (\<open>c\<close>) and carries the limit and the measured value: the
  nesting after \<open>p\<close> is above the depth limit, or the scalar at the end of \<open>p\<close> is longer than the scalar limit, or the
  bytes fed so far and the items in \<open>p\<close>, with their weights, are above the estimate limit. A document that is accepted stays
  within the depth and scalar limits after each of its prefixes, and within the estimate limit as a whole.
\<close>

theorem json_refusal_names_exceeded_limit:
  assumes "new_estimator m t d s l = Inr e"
  shows "case feed_all cs e of
      Inl x \<Rightarrow>
        (\<exists>before c after p q. cs = before @ c # after \<and> c = p @ q \<and>
          (let r = read_bytes (concat before @ p); fed = int (length (concat before @ c)) in
           obs_raw_bytes x = fed \<and>
           (case obs_reason x of
              MAX_DEPTH \<Rightarrow> configured_limit x = d \<and> obs_depth x = nesting r \<and> d < nesting r
            | MAX_SCALAR_BYTES \<Rightarrow> configured_limit x = s \<and> obs_scalar_bytes x = scalar_length r \<and> s < scalar_length r
            | MAX_ESTIMATED_BYTES \<Rightarrow>
                configured_limit x = l \<and> obs_estimated_bytes x = fed * m + items r * t \<and> l < fed * m + items r * t)))
    | Inr e' \<Rightarrow>
        (\<forall>p q. concat cs = p @ q \<longrightarrow> nesting (read_bytes p) \<le> d \<and> scalar_length (read_bytes p) \<le> s) \<and>
        int (length (concat cs)) * m + items (read_bytes (concat cs)) * t \<le> l"
proof -
  note start = new_estimator_ready [OF assms] new_estimator_fields [OF assms]
  let ?r = "\<lparr>in_text = False, after_backslash = False, nesting = 0, items = 0, scalar_length = 0\<rparr> :: reading"
  have new: "agrees e ?r" using assms by (auto simp: new_estimator_def agrees_def split: if_splits)
  show ?thesis
  proof (cases "feed_all cs e")
    case (Inl x)
    from feed_all_over [OF this _ new] start obtain before c after p q where
      "cs = before @ c # after" "c = p @ q"
      "measured_over (charge (length (concat before @ c)) e) (read_bytes (concat before @ p)) x"
      unfolding read_bytes_def by blast
    moreover have "max_depth e = d" "max_scalar_bytes e = s" "max_estimated_bytes e = l" "raw_memory_multiplier e = m"
      "token_memory_bytes e = t" "raw_bytes e = 0" using start(2) by (simp_all add: settings_def)
    ultimately show ?thesis
      unfolding Inl sum.case Let_def
      by (intro exI [of _ before] exI [of _ c] exI [of _ after] exI [of _ p] exI [of _ q] conjI)
        (auto simp: measured_over_def split: reason.splits)
  next
    case (Inr e')
    let ?e = "charge (length (concat cs)) e"
    have "feed (concat cs) e = Inr e'" using feed_all_concat [of e cs e'] start(1) Inr by simp
    then have run: "run free ?e (concat cs) = Inr e'" using feed_accepts [of e "concat cs" e'] start(1) by auto
    have within: "nesting (read_bytes p) \<le> d \<and> scalar_length (read_bytes p) \<le> s" if pq: "concat cs = p @ q" for p q
    proof -
      obtain f where f: "run free ?e p = Inr f" using run unfolding pq run_append by (auto split: sum.splits)
      have "depth_ok f" "scalar_ok f" using run_depth [OF f] run_scalar_ok [OF f] start by (simp_all add: depth_ok_def ready_def scalar_ok_def)
      moreover have "agrees f (read_bytes p)" unfolding read_bytes_def by (rule run_agrees [OF _ f]) (simp add: new)
      moreover have "settings f = (m, t, d, s, l)" using run_free [OF f] start(2) by (simp add: settings_def)
      ultimately show ?thesis by (auto simp: agrees_def depth_ok_def scalar_ok_def settings_def)
    qed
    have "agrees e' (read_bytes (concat cs))" unfolding read_bytes_def by (rule run_agrees [OF _ run]) (simp add: new)
    then have "tokens e' = items (read_bytes (concat cs))" by (simp only: agrees_def)
    moreover have "raw_bytes e' = int (length (concat cs))" "raw_bytes e' * m + tokens e' * t \<le> l"
      using json_accepted_within_limits [OF assms Inr] by blast+
    ultimately have "int (length (concat cs)) * m + items (read_bytes (concat cs)) * t \<le> l" by metis
    with within Inr show ?thesis by simp
  qed
qed

text \<open>Three opening brackets under a depth limit of two; a scalar of five bytes under a limit of four.\<close>

lemma demo_refusals:
  "map_sum obs_reason id (feed_all [[0x5B], [0x5B, 0x5B]] demo_estimator) = Inl MAX_DEPTH"
  "map_sum (\<lambda>x. (obs_reason x, obs_scalar_bytes x)) id (feed_all [[0x31, 0x31], [0x31, 0x31, 0x31]] demo_estimator) =
     Inl (MAX_SCALAR_BYTES, 5)"
  "feed_all [[0x31, 0x31], [0x31, 0x31, 0x20]] demo_estimator = Inr (demo_estimator\<lparr>raw_bytes := 5, tokens := 1\<rparr>)"
  by code_simp+

theorem json_refusal_names_exceeded_limit_witness:
  "\<exists>x p. feed_all [[0x31, 0x31], [0x31, 0x31, 0x31]] demo_estimator = Inl x \<and> obs_reason x = MAX_SCALAR_BYTES \<and>
     configured_limit x = 4 \<and> scalar_length (read_bytes p) = 5 \<and> 4 < scalar_length (read_bytes p)"
proof -
  obtain x where x: "feed_all [[0x31, 0x31], [0x31, 0x31, 0x31]] demo_estimator = Inl x" "obs_reason x = MAX_SCALAR_BYTES"
    "obs_scalar_bytes x = 5"
    using demo_refusals(2) by (cases "feed_all [[0x31, 0x31], [0x31, 0x31, 0x31]] demo_estimator") auto
  from json_refusal_names_exceeded_limit [OF demo_estimator_new, of "[[0x31, 0x31], [0x31, 0x31, 0x31]]"] x
  show ?thesis by (auto simp: Let_def)
qed

lemma encode_concat: "concat (map (\<lambda>s. concat (map f s)) xss) = concat (map f (concat xss))"
  by (induction xss) simp_all

lemma same_results:
  "(\<And>y. a = Inr y \<longleftrightarrow> b = Inr y) \<Longrightarrow> map_sum id f a = Inr z \<longleftrightarrow> map_sum id f b = Inr z"
proof (cases a)
  case (Inr y)
  assume same: "\<And>y. a = Inr y \<longleftrightarrow> b = Inr y"
  with Inr have "b = Inr y" by blast
  with Inr show ?thesis by simp
next
  case (Inl x)
  assume same: "\<And>y. a = Inr y \<longleftrightarrow> b = Inr y"
  with Inl show ?thesis by (cases b) auto
qed

text \<open>
  Scanning a text slice by slice gives the snapshot of scanning its whole encoding, for texts of
  any length.
\<close>

theorem json_text_estimate_is_byte_estimate:
  assumes "new_estimator m t d s l = Inr e"
  shows "estimate_json_text_memory_bytes encode e text = Inr snap \<longleftrightarrow>
     estimate_json_memory_bytes e (concat (map encode text)) = Inr snap"
proof -
  let ?cs = "map (\<lambda>s. concat (map encode s)) (slices TEXT_SCAN_CHUNK_CHARACTERS text)"
  have "concat ?cs = concat (map encode text)"
    by (simp add: encode_concat concat_slices TEXT_SCAN_CHUNK_CHARACTERS_def)
  then have "feed_all ?cs e = Inr e' \<longleftrightarrow> feed (concat (map encode text)) e = Inr e'" for e'
    using feed_all_concat [of e ?cs e'] new_estimator_ready [OF assms] by simp
  then show ?thesis
    unfolding estimate_json_text_memory_bytes_def estimate_json_memory_bytes_def
    by (rule same_results)
qed

theorem json_text_estimate_is_byte_estimate_witness:
  "estimate_json_text_memory_bytes (\<lambda>c. [of_nat (codepoint c)]) demo_estimator ''[1]'' =
     Inr (snapshot (demo_estimator\<lparr>raw_bytes := 3, tokens := 2, peak_depth := 1\<rparr>))"
proof -
  have "estimate_json_memory_bytes demo_estimator (concat (map (\<lambda>c. [of_nat (codepoint c)]) ''[1]'')) =
      Inr (snapshot (demo_estimator\<lparr>raw_bytes := 3, tokens := 2, peak_depth := 1\<rparr>))"
    by code_simp
  then show ?thesis
    using json_text_estimate_is_byte_estimate [OF demo_estimator_new, of "\<lambda>c. [of_nat (codepoint c)]" "''[1]''"]
    by blast
qed

end
