(* ===== verification/ReplaySpool.thy ===== *)
theory ReplaySpool
  imports MemoryGovernor "HOL-Library.Word"
begin

text \<open>
  \<open>IdempotencySpool\<close> of \<open>uni_api/middleware/idempotency_spool.py\<close>: a byte buffer that starts in memory
  and spills into a file. Which way the bytes go depends on a threshold, on the batch size and on
  what the memory governor grants; what comes back must not.

  The governor is an interface (\<open>spool_budget\<close>, interpreted on \<open>AdaptiveMemoryGovernor\<close>). The disk is a
  list of outcomes, one per system call that may fail: creating the file and writing to it; when the
  list is used up every call succeeds. Threads, the I/O semaphore and page-cache advice have no
  effect on the state and are left out. An append runs to its end: a task that is cancelled while a
  disk call is under way (the call ends in its thread, and the size is then not increased) is not modelled.

  Two properties: a sealed spool replays what was appended, and the governor owns for a spool exactly the bytes
  in its two buffers.
\<close>

section \<open>State\<close>

datatype spool_error = IdempotencySpoolError string | ValueError string

datatype disk_event = Done | Fails | Short nat

record Spool =
  memory_threshold_bytes :: nat
  memory :: "8 word list"
  memory_reserved_bytes :: nat
  pending_disk :: "8 word list"
  pending_disk_reserved_bytes :: nat
  stored_file :: "8 word list option"
  writer :: bool
  spool_size :: nat
  sealed :: bool
  spool_closed :: bool

record 'g spool_world =
  spool :: Spool
  gov :: 'g
  disk :: "disk_event list"

text \<open>A method of the spool: None when it returns, the exception otherwise; both leave a world behind.\<close>

type_synonym 'g act = "'g spool_world \<Rightarrow> spool_error option \<times> 'g spool_world"

definition ret :: "'g act" where "ret w = (None, w)"

definition fail :: "string \<Rightarrow> 'g act" where "fail text w = (Some (IdempotencySpoolError text), w)"

definition andthen :: "'g act \<Rightarrow> 'g act \<Rightarrow> 'g act" where
  "andthen a b w = (case a w of (None, w') \<Rightarrow> b w' | (Some e, w') \<Rightarrow> (Some e, w'))"

definition modify :: "(Spool \<Rightarrow> Spool) \<Rightarrow> 'g act" where
  "modify f w = (None, w\<lparr>spool := f (spool w)\<rparr>)"

definition new_spool :: "nat \<Rightarrow> Spool" where
  "new_spool threshold =
     \<lparr>memory_threshold_bytes = threshold, memory = [], memory_reserved_bytes = 0, pending_disk = [],
      pending_disk_reserved_bytes = 0, stored_file = None, writer = False, spool_size = 0, sealed = False,
      spool_closed = False\<rparr>"

definition memory_bytes :: "Spool \<Rightarrow> nat" where
  "memory_bytes s = memory_reserved_bytes s + pending_disk_reserved_bytes s"

section \<open>Operations\<close>

definition release_memory :: "(nat \<Rightarrow> 'g \<Rightarrow> 'g) \<Rightarrow> 'g act" where
  "release_memory give w =
     (let n = memory_reserved_bytes (spool w) in
      (None, w\<lparr>spool := (spool w)\<lparr>memory_reserved_bytes := 0\<rparr>, gov := if n \<noteq> 0 then give n (gov w) else gov w\<rparr>))"

definition discard_pending_disk :: "(nat \<Rightarrow> 'g \<Rightarrow> 'g) \<Rightarrow> 'g act" where
  "discard_pending_disk give w =
     (let n = pending_disk_reserved_bytes (spool w) in
      (None, w\<lparr>spool := (spool w)\<lparr>pending_disk_reserved_bytes := 0, pending_disk := []\<rparr>,
               gov := if n \<noteq> 0 then give n (gov w) else gov w\<rparr>))"

definition close_spool :: "(nat \<Rightarrow> 'g \<Rightarrow> 'g) \<Rightarrow> 'g act" where
  "close_spool give w =
     (if spool_closed (spool w) then ret w
      else
        andthen (modify (\<lambda>s. s\<lparr>spool_closed := True, writer := False\<rparr>))
          (andthen (discard_pending_disk give)
            (andthen (release_memory give) (modify (\<lambda>s. s\<lparr>memory := [], stored_file := None\<rparr>)))) w)"

definition write_file :: "8 word list \<Rightarrow> Spool \<Rightarrow> Spool" where
  "write_file bs s = s\<lparr>stored_file := Some ((case stored_file s of None \<Rightarrow> [] | Some f \<Rightarrow> f) @ bs)\<rparr>"

definition write_all :: "8 word list \<Rightarrow> 'g act" where
  "write_all payload w =
     (if \<not> writer (spool w) then fail ''idempotency spool writer is unavailable'' w
      else
        (case disk w of
           [] \<Rightarrow> modify (write_file payload) w
         | Done # ds \<Rightarrow> modify (write_file payload) (w\<lparr>disk := ds\<rparr>)
         | Fails # ds \<Rightarrow> fail ''cannot write idempotency spool'' (w\<lparr>disk := ds\<rparr>)
         | Short n # ds \<Rightarrow>
             andthen (modify (write_file (take n payload)))
               (if n < length payload then fail ''short write to idempotency spool'' else ret) (w\<lparr>disk := ds\<rparr>)))"

text \<open>\<open>mkstemp\<close> and \<open>fdopen\<close>\<close>

definition create_file :: "'g act" where
  "create_file w =
     (case disk w of
        Fails # ds \<Rightarrow> fail ''cannot create idempotency spool'' (w\<lparr>disk := ds\<rparr>)
      | ds \<Rightarrow> modify (\<lambda>s. s\<lparr>stored_file := Some [], writer := True\<rparr>) (w\<lparr>disk := tl ds\<rparr>))"

text \<open>Writing the memory to the new file; an exception closes the spool and goes on.\<close>

definition write_memory :: "(nat \<Rightarrow> 'g \<Rightarrow> 'g) \<Rightarrow> 'g act" where
  "write_memory give w =
     (if memory (spool w) = [] then ret w
      else
        (case write_all (memory (spool w)) w of
           (None, w') \<Rightarrow> (None, w')
         | (Some e, w') \<Rightarrow> (Some e, snd (close_spool give w'))))"

definition spill_to_disk :: "(nat \<Rightarrow> 'g \<Rightarrow> 'g) \<Rightarrow> 'g act" where
  "spill_to_disk give w =
     (if writer (spool w) then ret w
      else
        andthen create_file
          (andthen (write_memory give)
            (andthen (modify (\<lambda>s. s\<lparr>memory := []\<rparr>)) (release_memory give))) w)"

definition append_storage :: "(nat \<Rightarrow> 'g \<Rightarrow> 'g) \<Rightarrow> 8 word list \<Rightarrow> 'g act" where
  "append_storage give payload w =
     (if writer (spool w) then write_all payload w
      else andthen (spill_to_disk give) (write_all payload) w)"

text \<open>\<open>_flush_pending_disk\<close>; the \<open>finally\<close> gives the reservation back on both paths.\<close>

definition flush_pending_disk :: "(nat \<Rightarrow> 'g \<Rightarrow> 'g) \<Rightarrow> 'g act" where
  "flush_pending_disk give w =
     (if pending_disk (spool w) = [] then ret w
      else
        let payload = pending_disk (spool w); n = pending_disk_reserved_bytes (spool w);
            (r, w') = append_storage give payload
              (w\<lparr>spool := (spool w)\<lparr>pending_disk := [], pending_disk_reserved_bytes := 0\<rparr>\<rparr>)
        in (r, if n \<noteq> 0 then w'\<lparr>gov := give n (gov w')\<rparr> else w'))"

definition grow :: "nat \<Rightarrow> 'g act" where
  "grow n = modify (\<lambda>s. s\<lparr>spool_size := spool_size s + n\<rparr>)"

definition reserve_memory :: "(nat \<Rightarrow> 'g \<Rightarrow> bool \<times> 'g) \<Rightarrow> nat \<Rightarrow> 'g spool_world \<Rightarrow> bool \<times> 'g spool_world" where
  "reserve_memory grab n w =
     (if n = 0 then (True, w)
      else
        let (ok, g) = grab n (gov w) in
        (ok, w\<lparr>gov := g, spool := if ok then (spool w)\<lparr>memory_reserved_bytes := memory_reserved_bytes (spool w) + n\<rparr>
                              else spool w\<rparr>))"

definition reserve_pending_disk_memory ::
  "(nat \<Rightarrow> 'g \<Rightarrow> bool \<times> 'g) \<Rightarrow> nat \<Rightarrow> 'g spool_world \<Rightarrow> bool \<times> 'g spool_world" where
  "reserve_pending_disk_memory grab n w =
     (if n = 0 then (True, w)
      else
        let (ok, g) = grab n (gov w) in
        (ok, w\<lparr>gov := g,
               spool := if ok then (spool w)\<lparr>pending_disk_reserved_bytes := pending_disk_reserved_bytes (spool w) + n\<rparr>
                        else spool w\<rparr>))"

text \<open>The synchronous \<open>append\<close>.\<close>

definition spool_append ::
  "(nat \<Rightarrow> 'g \<Rightarrow> bool \<times> 'g) \<Rightarrow> (nat \<Rightarrow> 'g \<Rightarrow> 'g) \<Rightarrow> 8 word list \<Rightarrow> 'g act" where
  "spool_append grab give chunk w =
     (if sealed (spool w) \<or> spool_closed (spool w) then fail ''cannot append to a closed replay spool'' w
      else if chunk = [] then ret w
      else if writer (spool w) then andthen (write_all chunk) (grow (length chunk)) w
      else
        let fits = (length (memory (spool w)) + length chunk \<le> memory_threshold_bytes (spool w));
            (got, w') = (if fits then reserve_memory grab (length chunk) w else (False, w))
        in if got then andthen (modify (\<lambda>s. s\<lparr>memory := memory s @ chunk\<rparr>)) (grow (length chunk)) w'
           else andthen (spill_to_disk give) (andthen (write_all chunk) (grow (length chunk))) w')"

text \<open>
  \<open>append_async\<close> with the batch size \<open>batch\<close> (\<open>_SPOOL_BATCH_BYTES\<close>): the part after the attempt to
  stay in memory, and the whole.
\<close>

definition append_large :: "(nat \<Rightarrow> 'g \<Rightarrow> 'g) \<Rightarrow> 8 word list \<Rightarrow> 'g act" where
  "append_large give chunk =
     andthen (flush_pending_disk give) (andthen (append_storage give chunk) (grow (length chunk)))"

definition append_pending ::
  "nat \<Rightarrow> (nat \<Rightarrow> 'g \<Rightarrow> bool \<times> 'g) \<Rightarrow> (nat \<Rightarrow> 'g \<Rightarrow> 'g) \<Rightarrow> 8 word list \<Rightarrow> 'g act" where
  "append_pending batch grab give chunk w =
     (let (got, w') = reserve_pending_disk_memory grab (length chunk) w in
      if \<not> got then append_large give chunk w'
      else
        andthen (modify (\<lambda>s. s\<lparr>pending_disk := pending_disk s @ chunk\<rparr>))
          (andthen (grow (length chunk))
            (\<lambda>w. if batch \<le> length (pending_disk (spool w)) then flush_pending_disk give w else ret w)) w')"

definition append_to_disk ::
  "nat \<Rightarrow> (nat \<Rightarrow> 'g \<Rightarrow> bool \<times> 'g) \<Rightarrow> (nat \<Rightarrow> 'g \<Rightarrow> 'g) \<Rightarrow> 8 word list \<Rightarrow> 'g act" where
  "append_to_disk batch grab give chunk w =
     (if batch \<le> length chunk then append_large give chunk w
      else
        andthen (\<lambda>w. if batch < length (pending_disk (spool w)) + length chunk then flush_pending_disk give w else ret w)
          (append_pending batch grab give chunk) w)"

definition append_async ::
  "nat \<Rightarrow> (nat \<Rightarrow> 'g \<Rightarrow> bool \<times> 'g) \<Rightarrow> (nat \<Rightarrow> 'g \<Rightarrow> 'g) \<Rightarrow> 8 word list \<Rightarrow> 'g act" where
  "append_async batch grab give chunk w =
     (if chunk = [] then ret w
      else if sealed (spool w) \<or> spool_closed (spool w) then fail ''cannot append to a closed replay spool'' w
      else
        let stays = (\<not> writer (spool w) \<and> pending_disk (spool w) = [] \<and>
                     length (memory (spool w)) + length chunk \<le> memory_threshold_bytes (spool w));
            (got, w') = (if stays then reserve_memory grab (length chunk) w else (False, w))
        in if got then andthen (modify (\<lambda>s. s\<lparr>memory := memory s @ chunk\<rparr>)) (grow (length chunk)) w'
           else append_to_disk batch grab give chunk w')"

definition seal :: "(nat \<Rightarrow> 'g \<Rightarrow> 'g) \<Rightarrow> bool \<Rightarrow> 'g act" where
  "seal give force_disk w =
     (if spool_closed (spool w) then fail ''cannot seal a closed replay spool'' w
      else if sealed (spool w) then ret w
      else
        andthen (\<lambda>w. if force_disk \<and> \<not> writer (spool w) then spill_to_disk give w else ret w)
          (modify (\<lambda>s. s\<lparr>writer := False, sealed := True\<rparr>)) w)"

definition seal_async :: "(nat \<Rightarrow> 'g \<Rightarrow> 'g) \<Rightarrow> bool \<Rightarrow> 'g act" where
  "seal_async give force_disk w =
     (if spool_closed (spool w) then fail ''cannot seal a closed replay spool'' w
      else if sealed (spool w) then ret w
      else andthen (flush_pending_disk give) (seal give force_disk) w)"

text \<open>\<open>iter_chunks\<close>: slices of the memory, or what successive reads of the file return.\<close>

fun chunks_of :: "nat \<Rightarrow> 'a list \<Rightarrow> 'a list list" where
  "chunks_of n xs = (if n = 0 \<or> xs = [] then [] else take n xs # chunks_of n (drop n xs))"

declare chunks_of.simps [simp del]

definition iter_chunks :: "nat \<Rightarrow> Spool \<Rightarrow> spool_error + 8 word list list" where
  "iter_chunks chunk_size s =
     (if chunk_size = 0 then Inl (ValueError ''chunk_size must be positive'')
      else if \<not> sealed s \<or> spool_closed s then Inl (IdempotencySpoolError ''replay spool is not readable'')
      else Inr (chunks_of chunk_size (case stored_file s of None \<Rightarrow> memory s | Some f \<Rightarrow> f)))"

section \<open>What is read is what was appended\<close>

lemma andthen_None: "andthen a b w = (None, w') \<longleftrightarrow> (\<exists>w1. a w = (None, w1) \<and> b w1 = (None, w'))"
  by (auto simp: andthen_def split: prod.splits option.splits)

lemma modify_None: "modify f w = (None, w') \<longleftrightarrow> w' = w\<lparr>spool := f (spool w)\<rparr>"
  by (auto simp: modify_def)

lemma ret_None: "ret w = (None, w') \<longleftrightarrow> w' = w"
  by (auto simp: ret_def)

lemma fail_None [simp]: "fail t w \<noteq> (None, w')"
  by (simp add: fail_def)

lemmas spool_acts = andthen_None modify_None ret_None

text \<open>The effect of a successful call on the spool, as functions.\<close>

definition spilled :: "Spool \<Rightarrow> Spool" where
  "spilled s = (if writer s then s
     else s\<lparr>stored_file := Some (memory s), writer := True, memory := [], memory_reserved_bytes := 0\<rparr>)"

definition flushed :: "Spool \<Rightarrow> Spool" where
  "flushed s = (if pending_disk s = [] then s
     else write_file (pending_disk s) (spilled (s\<lparr>pending_disk := [], pending_disk_reserved_bytes := 0\<rparr>)))"

definition contents :: "Spool \<Rightarrow> 8 word list" where
  "contents s = (case stored_file s of None \<Rightarrow> [] | Some f \<Rightarrow> f) @ memory s @ pending_disk s"

text \<open>An open spool is either in memory or in its file.\<close>

definition spool_ok :: "Spool \<Rightarrow> bool" where
  "spool_ok s \<longleftrightarrow> \<not> spool_closed s \<and> \<not> sealed s \<and>
     (if writer s then memory s = [] \<and> stored_file s \<noteq> None else stored_file s = None)"

lemma write_all_spool:
  "write_all payload w = (None, w') \<Longrightarrow> spool w' = write_file payload (spool w) \<and> writer (spool w)"
  by (auto simp: write_all_def spool_acts split: if_splits list.splits disk_event.splits)

lemma spill_spool:
  assumes "spill_to_disk give w = (None, w')" "spool_ok (spool w)"
  shows "spool w' = spilled (spool w)"
proof (cases "writer (spool w)")
  case True
  with assms(1) show ?thesis by (simp add: spill_to_disk_def spilled_def ret_def)
next
  case False
  with assms(1) obtain w1 w2 where w: "create_file w = (None, w1)" "write_memory give w1 = (None, w2)"
    "w' = snd (release_memory give (w2\<lparr>spool := (spool w2)\<lparr>memory := []\<rparr>\<rparr>))"
    by (auto simp: spill_to_disk_def spool_acts release_memory_def Let_def)
  have w1: "spool w1 = (spool w)\<lparr>stored_file := Some [], writer := True\<rparr>"
    using w(1) by (auto simp: create_file_def spool_acts split: list.splits disk_event.splits)
  have "spool w2 = (if memory (spool w1) = [] then spool w1 else write_file (memory (spool w1)) (spool w1))"
    using w(2) write_all_spool [of "memory (spool w1)" w1]
    by (auto simp: write_memory_def ret_def split: if_splits prod.splits option.splits)
  then show ?thesis
    using False w(3) w1 by (simp add: spilled_def release_memory_def write_file_def Let_def)
qed

lemma append_storage_spool:
  "append_storage give payload w = (None, w') \<Longrightarrow> spool_ok (spool w) \<Longrightarrow>
     spool w' = write_file payload (spilled (spool w))"
  by (auto simp: append_storage_def spool_acts spilled_def dest!: write_all_spool spill_spool split: if_splits)

lemma flush_spool:
  assumes "flush_pending_disk give w = (None, w')" "spool_ok (spool w)"
  shows "spool w' = flushed (spool w)"
proof (cases "pending_disk (spool w) = []")
  case True
  with assms(1) show ?thesis by (simp add: flush_pending_disk_def flushed_def ret_def)
next
  case False
  let ?w = "w\<lparr>spool := (spool w)\<lparr>pending_disk := [], pending_disk_reserved_bytes := 0\<rparr>\<rparr>"
  have "spool_ok (spool ?w)" using assms(2) by (simp add: spool_ok_def)
  moreover obtain r w1 where w1: "append_storage give (pending_disk (spool w)) ?w = (r, w1)" by fastforce
  moreover have "r = None" "spool w' = spool w1"
    using assms(1) False w1 by (auto simp: flush_pending_disk_def Let_def split: if_splits)
  ultimately show ?thesis using append_storage_spool False by (fastforce simp: flushed_def)
qed

lemma spilled_simps [simp]:
  "spool_ok s \<Longrightarrow> spool_ok (spilled s)"
  "writer (spilled s)"
  "spool_ok s \<Longrightarrow> contents (spilled s) = contents s"
  "pending_disk (spilled s) = pending_disk s"
  "spool_size (spilled s) = spool_size s"
  "memory_threshold_bytes (spilled s) = memory_threshold_bytes s"
  "spool_ok s \<Longrightarrow> memory (spilled s) = []"
  by (auto simp: spilled_def spool_ok_def contents_def)

lemma write_file_simps [simp]:
  "spool_ok s \<Longrightarrow> writer s \<Longrightarrow> spool_ok (write_file bs s)"
  "writer (write_file bs s) = writer s"
  "pending_disk (write_file bs s) = pending_disk s"
  "spool_size (write_file bs s) = spool_size s"
  "memory_threshold_bytes (write_file bs s) = memory_threshold_bytes s"
  "memory (write_file bs s) = memory s"
  by (auto simp: write_file_def spool_ok_def split: option.splits)

lemma write_file_contents:
  "spool_ok s \<Longrightarrow> writer s \<Longrightarrow> pending_disk s = [] \<Longrightarrow> contents (write_file bs s) = contents s @ bs"
  by (auto simp: contents_def write_file_def spool_ok_def)

lemma flushed_simps [simp]:
  "spool_ok s \<Longrightarrow> spool_ok (flushed s)"
  "pending_disk (flushed s) = []"
  "spool_size (flushed s) = spool_size s"
  "memory_threshold_bytes (flushed s) = memory_threshold_bytes s"
  by (auto simp: flushed_def spool_ok_def [of "s\<lparr>pending_disk := _, pending_disk_reserved_bytes := _\<rparr>"]
      spool_ok_def [of s])

lemma flushed_contents [simp]: "spool_ok s \<Longrightarrow> contents (flushed s) = contents s"
proof (cases "pending_disk s = []")
  case False
  assume ok: "spool_ok s"
  let ?s = "s\<lparr>pending_disk := [], pending_disk_reserved_bytes := 0\<rparr>"
  have "spool_ok ?s" using ok by (simp add: spool_ok_def)
  then have "contents (flushed s) = contents ?s @ pending_disk s"
    using False by (simp add: flushed_def write_file_contents)
  also have "\<dots> = contents s" by (simp add: contents_def)
  finally show ?thesis .
qed (simp add: flushed_def)

text \<open>One successful append.\<close>

definition appended :: "8 word list \<Rightarrow> Spool \<Rightarrow> Spool \<Rightarrow> bool" where
  "appended chunk s s' \<longleftrightarrow>
     spool_ok s' \<and> contents s' = contents s @ chunk \<and> spool_size s' = spool_size s + length chunk \<and>
     memory_threshold_bytes s' = memory_threshold_bytes s"

definition resident_ok :: "nat \<Rightarrow> Spool \<Rightarrow> bool" where
  "resident_ok batch s \<longleftrightarrow>
     length (memory s) \<le> memory_threshold_bytes s \<and> length (pending_disk s) \<le> batch"

lemma grow_simps [simp]:
  "spool_ok (s\<lparr>spool_size := n\<rparr>) = spool_ok s" "contents (s\<lparr>spool_size := n\<rparr>) = contents s"
  by (simp_all add: spool_ok_def contents_def)

lemma append_large_appended:
  assumes "append_large give chunk w = (None, w')" "spool_ok (spool w)"
  shows "appended chunk (spool w) (spool w') \<and> pending_disk (spool w') = [] \<and> memory (spool w') = []"
proof -
  from assms(1) obtain w1 w2 where w: "flush_pending_disk give w = (None, w1)"
    "append_storage give chunk w1 = (None, w2)"
    "w' = w2\<lparr>spool := (spool w2)\<lparr>spool_size := spool_size (spool w2) + length chunk\<rparr>\<rparr>"
    by (auto simp: append_large_def grow_def spool_acts)
  from flush_spool [OF w(1) assms(2)] have w1: "spool w1 = flushed (spool w)" .
  with append_storage_spool [OF w(2)] assms(2) have "spool w2 = write_file chunk (spilled (flushed (spool w)))" by simp
  with w(3) assms(2) show ?thesis by (simp add: appended_def write_file_contents)
qed

lemma reserve_spool:
  "reserve_memory grab n w = (ok, w') \<Longrightarrow>
     spool w' = (spool w)\<lparr>memory_reserved_bytes := memory_reserved_bytes (spool w) + (if ok then n else 0)\<rparr>"
  "reserve_pending_disk_memory grab n w = (ok, w') \<Longrightarrow>
     spool w' = (spool w)\<lparr>pending_disk_reserved_bytes := pending_disk_reserved_bytes (spool w) + (if ok then n else 0)\<rparr>"
  by (auto simp: reserve_memory_def reserve_pending_disk_memory_def split: if_splits prod.splits)

lemma reserved_simps [simp]:
  "spool_ok (s\<lparr>memory_reserved_bytes := n\<rparr>) = spool_ok s" "contents (s\<lparr>memory_reserved_bytes := n\<rparr>) = contents s"
  "spool_ok (s\<lparr>pending_disk_reserved_bytes := n\<rparr>) = spool_ok s"
  "contents (s\<lparr>pending_disk_reserved_bytes := n\<rparr>) = contents s"
  by (simp_all add: spool_ok_def contents_def)

lemma appended_reserved [simp]:
  "appended chunk (s\<lparr>memory_reserved_bytes := n\<rparr>) s' = appended chunk s s'"
  "appended chunk (s\<lparr>pending_disk_reserved_bytes := n\<rparr>) s' = appended chunk s s'"
  by (simp_all add: appended_def)

lemma append_pending_appended:
  assumes "append_pending batch grab give chunk w = (None, w')" "spool_ok (spool w)"
    "length (memory (spool w)) \<le> memory_threshold_bytes (spool w)"
    "length (pending_disk (spool w)) + length chunk \<le> batch"
  shows "appended chunk (spool w) (spool w') \<and> resident_ok batch (spool w')"
proof -
  obtain got w1 where w1: "reserve_pending_disk_memory grab (length chunk) w = (got, w1)" by fastforce
  note s1 = reserve_spool(2) [OF w1]
  have ok1: "spool_ok (spool w1)" using assms(2) by (simp add: s1)
  show ?thesis
  proof (cases got)
    case False
    with assms(1) w1 have "append_large give chunk w1 = (None, w')" by (simp add: append_pending_def)
    from append_large_appended [OF this ok1] show ?thesis
      by (simp add: s1 appended_def resident_ok_def)
  next
    case True
    let ?s = "(spool w1)\<lparr>pending_disk := pending_disk (spool w1) @ chunk, spool_size := spool_size (spool w1) + length chunk\<rparr>"
    have ok: "spool_ok ?s" using ok1 by (simp add: spool_ok_def)
    have app: "appended chunk (spool w) ?s"
      using ok by (simp add: appended_def s1 contents_def)
    have "spool w' = (if batch \<le> length (pending_disk ?s) then flushed ?s else ?s)"
      using assms(1) w1 True ok flush_spool [of give "w1\<lparr>spool := ?s\<rparr>" w']
      by (auto simp: append_pending_def grow_def spool_acts split: if_splits)
    moreover have "resident_ok batch ?s" using assms(3,4) by (simp add: resident_ok_def s1)
    moreover have "memory (flushed ?s) = [] \<or> flushed ?s = ?s"
      using ok by (auto simp: flushed_def spool_ok_def spilled_def)
    ultimately show ?thesis using app ok by (auto simp: appended_def resident_ok_def)
  qed
qed

lemma appended_flushed: "spool_ok s \<Longrightarrow> appended chunk (flushed s) s' = appended chunk s s'"
  by (simp add: appended_def)

lemma flushed_memory: "spool_ok s \<Longrightarrow> length (memory (flushed s)) \<le> length (memory s)"
  by (auto simp: flushed_def spilled_def)

lemma append_to_disk_appended:
  assumes "append_to_disk batch grab give chunk w = (None, w')" "spool_ok (spool w)" "resident_ok batch (spool w)"
  shows "appended chunk (spool w) (spool w') \<and> resident_ok batch (spool w')"
proof (cases "batch \<le> length chunk")
  case True
  with assms(1) have "append_large give chunk w = (None, w')" by (simp add: append_to_disk_def)
  from append_large_appended [OF this assms(2)] show ?thesis by (simp add: resident_ok_def)
next
  case False
  with assms(1) obtain w1 where w1: "(if batch < length (pending_disk (spool w)) + length chunk
      then flush_pending_disk give w else ret w) = (None, w1)"
    "append_pending batch grab give chunk w1 = (None, w')" by (auto simp: append_to_disk_def spool_acts)
  show ?thesis
  proof (cases "batch < length (pending_disk (spool w)) + length chunk")
    case True
    with w1(1) flush_spool [OF _ assms(2)] have s1: "spool w1 = flushed (spool w)" by simp
    have "spool_ok (spool w1)" using s1 assms(2) by simp
    moreover have "length (memory (spool w1)) \<le> memory_threshold_bytes (spool w1)"
      using flushed_memory [OF assms(2)] assms(3) by (simp add: s1 resident_ok_def)
    ultimately have "appended chunk (spool w1) (spool w') \<and> resident_ok batch (spool w')"
      using False by (intro append_pending_appended [OF w1(2)]) (simp_all add: s1)
    then show ?thesis by (simp add: s1 appended_flushed [OF assms(2)])
  next
    case fits: False
    then have "w1 = w" using w1(1) by (simp add: ret_None)
    then show ?thesis
      using append_pending_appended [OF w1(2)] assms(2,3) fits by (simp add: resident_ok_def)
  qed
qed

lemma append_async_appended:
  assumes "append_async batch grab give chunk w = (None, w')" "spool_ok (spool w)" "resident_ok batch (spool w)"
  shows "appended chunk (spool w) (spool w') \<and> resident_ok batch (spool w')"
proof (cases "chunk = []")
  case True
  with assms show ?thesis by (simp add: append_async_def ret_None appended_def)
next
  case chunk: False
  have closed: "\<not> sealed (spool w)" "\<not> spool_closed (spool w)" using assms(2) by (simp_all add: spool_ok_def)
  define stays where "stays \<longleftrightarrow> \<not> writer (spool w) \<and> pending_disk (spool w) = [] \<and>
      length (memory (spool w)) + length chunk \<le> memory_threshold_bytes (spool w)"
  obtain got w1 where w1: "(if stays then reserve_memory grab (length chunk) w else (False, w)) = (got, w1)"
    by fastforce
  have s1: "spool w1 = (spool w)\<lparr>memory_reserved_bytes := memory_reserved_bytes (spool w) +
      (if got then length chunk else 0)\<rparr>"
    using w1 by (auto dest: reserve_spool(1) split: if_splits)
  have rest: "(if got then andthen (modify (\<lambda>s. s\<lparr>memory := memory s @ chunk\<rparr>)) (grow (length chunk)) w1
      else append_to_disk batch grab give chunk w1) = (None, w')"
    using assms(1) chunk closed w1 by (simp add: append_async_def Let_def stays_def)
  show ?thesis
  proof (cases got)
    case True
    then have stays: stays using w1 by (simp split: if_splits)
    then have no_file: "stored_file (spool w) = None" using assms(2) by (simp add: stays_def spool_ok_def)
    have "spool w' = (spool w1)\<lparr>memory := memory (spool w1) @ chunk, spool_size := spool_size (spool w1) + length chunk\<rparr>"
      using rest True by (simp add: spool_acts grow_def)
    with s1 stays no_file assms(2) show ?thesis
      by (simp add: appended_def resident_ok_def contents_def spool_ok_def stays_def)
  next
    case False
    with rest have "append_to_disk batch grab give chunk w1 = (None, w')" by simp
    moreover have "spool_ok (spool w1)" "resident_ok batch (spool w1)"
      using assms(2,3) s1 by (simp_all add: resident_ok_def)
    ultimately show ?thesis using append_to_disk_appended s1 by fastforce
  qed
qed

fun append_chunks ::
  "nat \<Rightarrow> (nat \<Rightarrow> 'g \<Rightarrow> bool \<times> 'g) \<Rightarrow> (nat \<Rightarrow> 'g \<Rightarrow> 'g) \<Rightarrow> 8 word list list \<Rightarrow> 'g act" where
  "append_chunks batch grab give [] = ret"
| "append_chunks batch grab give (c # cs) =
     andthen (append_async batch grab give c) (append_chunks batch grab give cs)"

lemma append_chunks_appended:
  "append_chunks batch grab give cs w = (None, w') \<Longrightarrow> spool_ok (spool w) \<Longrightarrow> resident_ok batch (spool w) \<Longrightarrow>
     appended (concat cs) (spool w) (spool w') \<and> resident_ok batch (spool w')"
proof (induction cs arbitrary: w)
  case Nil
  then show ?case by (simp add: ret_None appended_def)
next
  case (Cons c cs)
  then obtain w1 where w1: "append_async batch grab give c w = (None, w1)"
    "append_chunks batch grab give cs w1 = (None, w')" by (auto simp: andthen_None)
  from append_async_appended [OF w1(1) Cons.prems(2,3)]
  have a: "appended c (spool w) (spool w1)" "resident_ok batch (spool w1)" by auto
  with Cons.IH [OF w1(2)] show ?case by (auto simp: appended_def)
qed

lemma seal_async_sealed:
  assumes "seal_async give force w = (None, w')" "spool_ok (spool w)"
  shows "sealed (spool w') \<and> \<not> spool_closed (spool w') \<and> spool_size (spool w') = spool_size (spool w) \<and>
     (case stored_file (spool w') of None \<Rightarrow> memory (spool w') | Some f \<Rightarrow> f) = contents (spool w)"
proof -
  have open_spool: "\<not> sealed (spool w)" "\<not> spool_closed (spool w)" using assms(2) by (simp_all add: spool_ok_def)
  with assms(1) obtain w1 where w1: "flush_pending_disk give w = (None, w1)" "seal give force w1 = (None, w')"
    by (auto simp: seal_async_def andthen_None)
  have s1: "spool w1 = flushed (spool w)" by (rule flush_spool [OF w1(1) assms(2)])
  then have ok1: "spool_ok (spool w1)" using assms(2) by simp
  then have open1: "\<not> sealed (spool w1)" "\<not> spool_closed (spool w1)" by (simp_all add: spool_ok_def)
  with w1(2) obtain w2 where w2: "(if force \<and> \<not> writer (spool w1) then spill_to_disk give w1 else ret w1) = (None, w2)"
    "spool w' = (spool w2)\<lparr>writer := False, sealed := True\<rparr>" by (auto simp: seal_def spool_acts)
  have "spool w2 = (if force \<and> \<not> writer (spool w1) then spilled (spool w1) else spool w1)"
    using w2(1) spill_spool [OF _ ok1] by (auto simp: ret_None split: if_splits)
  then have ok2: "spool_ok (spool w2)" "contents (spool w2) = contents (spool w)"
    "pending_disk (spool w2) = []" "spool_size (spool w2) = spool_size (spool w)"
    using ok1 s1 assms(2) by simp_all
  then have "(case stored_file (spool w2) of None \<Rightarrow> memory (spool w2) | Some f \<Rightarrow> f) = contents (spool w)"
    by (auto simp: contents_def spool_ok_def split: if_splits option.splits)
  then have "(case stored_file (spool w') of None \<Rightarrow> memory (spool w') | Some f \<Rightarrow> f) = contents (spool w)"
    unfolding w2(2) by (simp split: option.splits)
  moreover have "sealed (spool w')" "\<not> spool_closed (spool w')" "spool_size (spool w') = spool_size (spool w)"
    using ok2 unfolding w2(2) by (simp_all add: spool_ok_def)
  ultimately show ?thesis by blast
qed

lemma concat_chunks_of: "0 < n \<Longrightarrow> concat (chunks_of n xs) = xs"
  by (induction n xs rule: chunks_of.induct) (subst chunks_of.simps, simp)

text \<open>
  C7. What a sealed spool replays is what was appended: for every sequence of chunks, threshold, batch
  size, governor and disk, when the appends and the sealing return, the chunks read back concatenate
  to the bytes appended and the size is their number; until then at most the threshold plus one
  batch of them is resident.
\<close>

theorem spool_replays_what_was_appended:
  assumes "append_chunks batch grab give cs \<lparr>spool = new_spool threshold, gov = g, disk = ds\<rparr> = (None, w)"
    and "seal_async give force w = (None, w')" and "0 < n"
  shows "\<exists>out. iter_chunks n (spool w') = Inr out \<and> concat out = concat cs \<and>
     spool_size (spool w') = length (concat cs) \<and>
     length (memory (spool w)) + length (pending_disk (spool w)) \<le> threshold + batch"
proof -
  have new: "spool_ok (new_spool threshold)" "resident_ok batch (new_spool threshold)"
      "contents (new_spool threshold) = []" "spool_size (new_spool threshold) = 0"
      "memory_threshold_bytes (new_spool threshold) = threshold"
    by (simp_all add: new_spool_def spool_ok_def resident_ok_def contents_def)
  from append_chunks_appended [OF assms(1)] new
  have w: "spool_ok (spool w)" "contents (spool w) = concat cs" "spool_size (spool w) = length (concat cs)"
    "length (memory (spool w)) \<le> threshold" "length (pending_disk (spool w)) \<le> batch"
    by (simp_all add: appended_def resident_ok_def)
  from seal_async_sealed [OF assms(2) w(1)] w concat_chunks_of [OF assms(3)]
  show ?thesis using assms(3) by (simp add: iter_chunks_def)
qed

text \<open>Four appends with a threshold of two bytes, a batch of four and a governor that refuses the second.\<close>

definition demo_grab :: "nat \<Rightarrow> nat \<Rightarrow> bool \<times> nat" where
  "demo_grab n g = (g \<noteq> 1, g + 1)"

lemma demo_spool:
  "append_chunks 4 demo_grab (\<lambda>_ g. g) [[1], [2], [3, 4, 5, 6], [7]]
     \<lparr>spool = new_spool 2, gov = 0, disk = [Done, Done]\<rparr> =
   (None, \<lparr>spool = \<lparr>memory_threshold_bytes = 2, memory = [], memory_reserved_bytes = 0, pending_disk = [7],
      pending_disk_reserved_bytes = 1, stored_file = Some [1, 2, 3, 4, 5, 6], writer = True, spool_size = 7,
      sealed = False, spool_closed = False\<rparr>, gov = 4, disk = []\<rparr>)"
  by code_simp

theorem spool_replays_what_was_appended_witness:
  "\<exists>w w' out. append_chunks 4 demo_grab (\<lambda>_ g. g) [[1], [2], [3, 4, 5, 6], [7]]
       \<lparr>spool = new_spool 2, gov = 0, disk = [Done, Done]\<rparr> = (None, w) \<and>
     seal_async (\<lambda>_ g. g) True w = (None, w') \<and> iter_chunks 3 (spool w') = Inr out \<and>
     concat out = [1, 2, 3, 4, 5, 6, 7]"
proof -
  obtain w where w: "append_chunks 4 demo_grab (\<lambda>_ g. g) [[1], [2], [3, 4, 5, 6], [7]]
       \<lparr>spool = new_spool 2, gov = 0, disk = [Done, Done]\<rparr> = (None, w)"
    and spool: "spool w = \<lparr>memory_threshold_bytes = 2, memory = [], memory_reserved_bytes = 0, pending_disk = [7],
      pending_disk_reserved_bytes = 1, stored_file = Some [1, 2, 3, 4, 5, 6], writer = True, spool_size = 7,
      sealed = False, spool_closed = False\<rparr>" "disk w = []" using demo_spool by auto
  obtain w' where w': "seal_async (\<lambda>_ g. g) True w = (None, w')"
    by (auto simp: seal_async_def seal_def andthen_def flush_pending_disk_def append_storage_def write_all_def
        modify_def ret_def write_file_def spool Let_def)
  from spool_replays_what_was_appended [OF w w', of 3] w w' show ?thesis by auto
qed

section \<open>The governor owns what is resident\<close>

locale spool_budget = byte_pool owned grab give budget_ok
  for owned :: "'g \<Rightarrow> int" and grab give and budget_ok :: "'g \<Rightarrow> bool"
begin

text \<open>\<open>base\<close> is what other owners of the category hold.\<close>

definition balanced :: "int \<Rightarrow> 'g spool_world \<Rightarrow> bool" where
  "balanced base w \<longleftrightarrow>
     0 \<le> base \<and> budget_ok (gov w) \<and> owned (gov w) = base + int (memory_bytes (spool w))"

definition keeps :: "'g act \<Rightarrow> bool" where
  "keeps a \<longleftrightarrow> (\<forall>base w. balanced base w \<longrightarrow> balanced base (snd (a w)))"

lemma keepsD: "keeps a \<Longrightarrow> balanced base w \<Longrightarrow> balanced base (snd (a w))"
  by (simp add: keeps_def)

lemma keeps_andthen [inv_rules]: "keeps a \<Longrightarrow> keeps b \<Longrightarrow> keeps (andthen a b)"
  by (auto simp: keeps_def andthen_def split: prod.split option.split) (metis snd_conv)+

lemma keeps_modify [inv_rules]: "(\<And>s. memory_bytes (f s) = memory_bytes s) \<Longrightarrow> keeps (modify f)"
  by (simp add: keeps_def modify_def balanced_def)

lemma keeps_basic [inv_rules]: "keeps ret" "keeps (fail t)"
  by (simp_all add: keeps_def ret_def fail_def)

lemma balanced_disk [simp]: "balanced base (w\<lparr>disk := ds\<rparr>) = balanced base w"
  by (simp add: balanced_def)

lemma memory_bytes_frame [simp]:
  "memory_bytes (write_file bs s) = memory_bytes s"
  "memory_bytes (s\<lparr>memory := m\<rparr>) = memory_bytes s"
  "memory_bytes (s\<lparr>stored_file := f\<rparr>) = memory_bytes s"
  "memory_bytes (s\<lparr>writer := b\<rparr>) = memory_bytes s"
  "memory_bytes (s\<lparr>spool_size := n\<rparr>) = memory_bytes s"
  "memory_bytes (s\<lparr>sealed := b\<rparr>) = memory_bytes s"
  "memory_bytes (s\<lparr>spool_closed := b\<rparr>) = memory_bytes s"
  "memory_bytes (s\<lparr>pending_disk := m\<rparr>) = memory_bytes s"
  by (simp_all add: memory_bytes_def write_file_def)

lemma keeps_write_all [inv_rules]: "keeps (write_all payload)"
  by (auto simp: keeps_def write_all_def fail_def modify_def andthen_def ret_def balanced_def
      split: list.split disk_event.split)

lemma keeps_create_file [inv_rules]: "keeps create_file"
  by (auto simp: keeps_def create_file_def fail_def modify_def balanced_def split: list.split disk_event.split)

lemma keeps_release_memory [inv_rules]: "keeps (release_memory give)"
proof (unfold keeps_def, intro allI impI)
  fix base w
  assume b: "balanced base w"
  let ?n = "memory_reserved_bytes (spool w)"
  have "int ?n \<le> owned (gov w)" using b by (simp add: balanced_def memory_bytes_def)
  with give_law [of "gov w" ?n] b show "balanced base (snd (release_memory give w))"
    by (auto simp: release_memory_def Let_def balanced_def memory_bytes_def)
qed

lemma keeps_discard_pending_disk [inv_rules]: "keeps (discard_pending_disk give)"
proof (unfold keeps_def, intro allI impI)
  fix base w
  assume b: "balanced base w"
  let ?n = "pending_disk_reserved_bytes (spool w)"
  have "int ?n \<le> owned (gov w)" using b by (simp add: balanced_def memory_bytes_def)
  with give_law [of "gov w" ?n] b show "balanced base (snd (discard_pending_disk give w))"
    by (auto simp: discard_pending_disk_def Let_def balanced_def memory_bytes_def)
qed

lemma keeps_if: "keeps a \<Longrightarrow> keeps b \<Longrightarrow> keeps (\<lambda>w. if P w then a w else b w)"
  by (simp add: keeps_def)

lemma keeps_close_spool [inv_rules]: "keeps (close_spool give)"
  unfolding close_spool_def by (intro keeps_if keeps_basic inv_rules) simp_all

lemma keeps_write_memory [inv_rules]: "keeps (write_memory give)"
  using keepsD [OF keeps_write_all] keepsD [OF keeps_close_spool]
  by (auto simp: keeps_def write_memory_def ret_def split: prod.split option.split) (metis snd_conv)+

lemma keeps_spill [inv_rules]: "keeps (spill_to_disk give)"
  unfolding spill_to_disk_def by (intro keeps_if keeps_basic inv_rules) simp_all

lemma keeps_append_storage [inv_rules]: "keeps (append_storage give payload)"
  unfolding append_storage_def by (intro keeps_if inv_rules)

lemma keeps_flush [inv_rules]: "keeps (flush_pending_disk give)"
proof (unfold keeps_def, intro allI impI)
  fix base w
  assume b: "balanced base w"
  let ?n = "pending_disk_reserved_bytes (spool w)"
  let ?w = "w\<lparr>spool := (spool w)\<lparr>pending_disk := [], pending_disk_reserved_bytes := 0\<rparr>\<rparr>"
  have "balanced (base + int ?n) ?w" using b by (simp add: balanced_def memory_bytes_def)
  then have "balanced (base + int ?n) (snd (append_storage give (pending_disk (spool w)) ?w))"
    by (rule keepsD [OF keeps_append_storage])
  then obtain r w1 where w1: "append_storage give (pending_disk (spool w)) ?w = (r, w1)" "balanced (base + int ?n) w1"
    by (metis prod.collapse snd_conv)
  have "int ?n \<le> owned (gov w1)" using w1(2) b by (simp add: balanced_def)
  with give_law [of "gov w1" ?n] w1(2) have "balanced base (w1\<lparr>gov := give ?n (gov w1)\<rparr>)"
    using b by (simp add: balanced_def)
  with w1 b show "balanced base (snd (flush_pending_disk give w))"
    by (auto simp: flush_pending_disk_def ret_def Let_def)
qed

lemma balanced_reserve:
  "balanced base w \<Longrightarrow> reserve_memory grab n w = (b, w') \<Longrightarrow> balanced base w'"
  "balanced base w \<Longrightarrow> reserve_pending_disk_memory grab n w = (b, w') \<Longrightarrow> balanced base w'"
  using grab_law [of "gov w" n]
  by (fastforce simp: reserve_memory_def reserve_pending_disk_memory_def balanced_def memory_bytes_def
      split: if_splits prod.splits)+

lemma keeps_append_large [inv_rules]: "keeps (append_large give chunk)"
  unfolding append_large_def grow_def by (intro inv_rules) simp

lemma keeps_append_pending [inv_rules]: "keeps (append_pending batch grab give chunk)"
proof -
  let ?tail = "andthen (modify (\<lambda>s. s\<lparr>pending_disk := pending_disk s @ chunk\<rparr>))
      (andthen (grow (length chunk))
        (\<lambda>w. if batch \<le> length (pending_disk (spool w)) then flush_pending_disk give w else ret w))"
  have "keeps ?tail" unfolding grow_def by (intro inv_rules keeps_if keeps_basic) simp_all
  then show ?thesis
    using balanced_reserve(2) keepsD [OF keeps_append_large]
    by (auto simp: keeps_def append_pending_def split: prod.split)
qed

lemma keeps_append_to_disk [inv_rules]: "keeps (append_to_disk batch grab give chunk)"
  unfolding append_to_disk_def by (intro keeps_if inv_rules keeps_basic)

lemma keeps_append_async [inv_rules]: "keeps (append_async batch grab give chunk)"
proof (unfold keeps_def, intro allI impI)
  fix base w
  assume b: "balanced base w"
  let ?stay = "andthen (modify (\<lambda>s. s\<lparr>memory := memory s @ chunk\<rparr>)) (grow (length chunk))"
  have stay: "keeps ?stay" unfolding grow_def by (intro inv_rules) simp_all
  show "balanced base (snd (append_async batch grab give chunk w))"
    using b balanced_reserve(1) [OF b] keepsD [OF stay] keepsD [OF keeps_append_to_disk]
    by (auto simp: append_async_def ret_def fail_def Let_def split: prod.split)
qed

lemma keeps_seal [inv_rules]: "keeps (seal give force)"
  unfolding seal_def by (intro keeps_if inv_rules keeps_basic) simp_all

lemma keeps_seal_async [inv_rules]: "keeps (seal_async give force)"
  unfolding seal_async_def by (intro keeps_if inv_rules keeps_basic)

end

text \<open>
  An operation on an open spool leaves it open when it returns; an exception may close it, and then
  it holds no reservation.
\<close>

definition safe :: "'g act \<Rightarrow> bool" where
  "safe a \<longleftrightarrow> (\<forall>w. \<not> spool_closed (spool w) \<longrightarrow>
     (fst (a w) = None \<longrightarrow> \<not> spool_closed (spool (snd (a w)))) \<and>
     (spool_closed (spool (snd (a w))) \<longrightarrow> memory_bytes (spool (snd (a w))) = 0))"

named_theorems safe_rules

lemma safe_andthen [safe_rules]: "safe a \<Longrightarrow> safe b \<Longrightarrow> safe (andthen a b)"
  unfolding safe_def andthen_def by (auto split: prod.split option.split)

lemma safe_modify [safe_rules]: "(\<And>s. spool_closed (f s) = spool_closed s) \<Longrightarrow> safe (modify f)"
  by (simp add: safe_def modify_def)

lemma safe_basic [safe_rules]: "safe ret" "safe (fail t)"
  by (simp_all add: safe_def ret_def fail_def)

lemma safe_if: "safe a \<Longrightarrow> safe b \<Longrightarrow> safe (\<lambda>w. if P w then a w else b w)"
  by (simp add: safe_def)

lemma closed_write_file [simp]: "spool_closed (write_file bs s) = spool_closed s"
  by (simp add: write_file_def)

lemma safe_write_all [safe_rules]: "safe (write_all payload)"
  by (auto simp: safe_def write_all_def fail_def modify_def andthen_def ret_def split: list.split disk_event.split)

lemma safe_create_file [safe_rules]: "safe create_file"
  by (auto simp: safe_def create_file_def fail_def modify_def split: list.split disk_event.split)

lemma safe_release [safe_rules]: "safe (release_memory give)" "safe (discard_pending_disk give)"
  by (simp_all add: safe_def release_memory_def discard_pending_disk_def Let_def)

lemma close_spool_closes:
  "\<not> spool_closed (spool w) \<Longrightarrow>
     spool_closed (spool (snd (close_spool give w))) \<and> memory_bytes (spool (snd (close_spool give w))) = 0"
  by (simp add: close_spool_def andthen_def modify_def discard_pending_disk_def release_memory_def Let_def
      memory_bytes_def)

lemma safe_write_memory [safe_rules]: "safe (write_memory give)"
proof (unfold safe_def, intro allI impI)
  fix w :: "'a spool_world"
  assume "\<not> spool_closed (spool w)"
  moreover obtain r w1 where w1: "write_all (memory (spool w)) w = (r, w1)" by fastforce
  moreover from this have "spool_closed (spool w1) = spool_closed (spool w)"
    by (auto simp: write_all_def fail_def modify_def andthen_def ret_def
        split: if_splits list.splits disk_event.splits)
  ultimately show "(fst (write_memory give w) = None \<longrightarrow> \<not> spool_closed (spool (snd (write_memory give w)))) \<and>
     (spool_closed (spool (snd (write_memory give w))) \<longrightarrow> memory_bytes (spool (snd (write_memory give w))) = 0)"
    using close_spool_closes [of w1 give] by (cases r) (auto simp: write_memory_def ret_def)
qed

lemma safe_spill [safe_rules]: "safe (spill_to_disk give)"
  unfolding spill_to_disk_def by (intro safe_if safe_rules) simp_all

lemma safe_append_storage [safe_rules]: "safe (append_storage give payload)"
  unfolding append_storage_def by (intro safe_if safe_rules)

lemma safe_flush [safe_rules]: "safe (flush_pending_disk give)"
proof (unfold safe_def, intro allI impI)
  fix w :: "'a spool_world"
  assume o: "\<not> spool_closed (spool w)"
  let ?w = "w\<lparr>spool := (spool w)\<lparr>pending_disk := [], pending_disk_reserved_bytes := 0\<rparr>\<rparr>"
  have "\<not> spool_closed (spool ?w)" using o by simp
  then have "(fst (append_storage give (pending_disk (spool w)) ?w) = None \<longrightarrow>
        \<not> spool_closed (spool (snd (append_storage give (pending_disk (spool w)) ?w)))) \<and>
      (spool_closed (spool (snd (append_storage give (pending_disk (spool w)) ?w))) \<longrightarrow>
        memory_bytes (spool (snd (append_storage give (pending_disk (spool w)) ?w))) = 0)"
    using safe_append_storage [unfolded safe_def] by blast
  then show "(fst (flush_pending_disk give w) = None \<longrightarrow> \<not> spool_closed (spool (snd (flush_pending_disk give w)))) \<and>
     (spool_closed (spool (snd (flush_pending_disk give w))) \<longrightarrow>
        memory_bytes (spool (snd (flush_pending_disk give w))) = 0)"
    using o by (simp add: flush_pending_disk_def ret_def split_beta Let_def)
qed

lemma safe_append_large [safe_rules]: "safe (append_large give chunk)"
  unfolding append_large_def grow_def by (intro safe_rules) simp

lemma reserve_closed:
  "spool_closed (spool (snd (reserve_memory grab n w))) = spool_closed (spool w)"
  "spool_closed (spool (snd (reserve_pending_disk_memory grab n w))) = spool_closed (spool w)"
  by (simp_all add: reserve_memory_def reserve_pending_disk_memory_def split: prod.split)

lemma safeD:
  "safe a \<Longrightarrow> \<not> spool_closed (spool w) \<Longrightarrow>
     (fst (a w) = None \<longrightarrow> \<not> spool_closed (spool (snd (a w)))) \<and>
     (spool_closed (spool (snd (a w))) \<longrightarrow> memory_bytes (spool (snd (a w))) = 0)"
  by (simp add: safe_def)

lemma safe_append_pending [safe_rules]: "safe (append_pending batch grab give chunk)"
proof -
  let ?tail = "andthen (modify (\<lambda>s. s\<lparr>pending_disk := pending_disk s @ chunk\<rparr>))
      (andthen (grow (length chunk))
        (\<lambda>w. if batch \<le> length (pending_disk (spool w)) then flush_pending_disk give w else ret w))"
  have tail: "safe ?tail" unfolding grow_def by (intro safe_rules safe_if) simp_all
  have eq: "append_pending batch grab give chunk w =
      (let (got, w') = reserve_pending_disk_memory grab (length chunk) w in
       if \<not> got then append_large give chunk w' else ?tail w')" for w
    by (simp add: append_pending_def)
  show ?thesis
    unfolding safe_def eq using reserve_closed(2) [of grab] safeD [OF tail] safeD [OF safe_append_large [of give chunk]]
    by (auto simp: split_beta Let_def)
qed

lemma safe_append_to_disk [safe_rules]: "safe (append_to_disk batch grab give chunk)"
  unfolding append_to_disk_def by (intro safe_if safe_rules)

lemma safe_append_async: "safe (append_async batch grab give chunk)"
proof -
  let ?stay = "andthen (modify (\<lambda>s. s\<lparr>memory := memory s @ chunk\<rparr>)) (grow (length chunk))"
  have stay: "safe ?stay" unfolding grow_def by (intro safe_rules) simp_all
  show ?thesis
    unfolding safe_def append_async_def
    using reserve_closed(1) [of grab] safeD [OF stay] safeD [OF safe_append_to_disk [of batch grab give chunk]]
    by (auto simp: ret_def fail_def Let_def split_beta)
qed

lemma safe_seal_async: "safe (seal_async give force)"
  unfolding seal_async_def seal_def by (intro safe_if safe_rules) simp_all

text \<open>The two reservations are the lengths of the two buffers, between the calls and after each of them.\<close>

definition exact :: "Spool \<Rightarrow> bool" where
  "exact s \<longleftrightarrow> memory_reserved_bytes s = length (memory s) \<and> pending_disk_reserved_bytes s = length (pending_disk s)"

definition keeps_exact :: "'g act \<Rightarrow> bool" where
  "keeps_exact a \<longleftrightarrow> (\<forall>w. exact (spool w) \<longrightarrow> exact (spool (snd (a w))))"

named_theorems exact_rules

lemma keeps_exactD: "keeps_exact a \<Longrightarrow> exact (spool w) \<Longrightarrow> exact (spool (snd (a w)))"
  by (simp add: keeps_exact_def)

lemma exact_andthen [exact_rules]: "keeps_exact a \<Longrightarrow> keeps_exact b \<Longrightarrow> keeps_exact (andthen a b)"
  unfolding keeps_exact_def andthen_def by (auto split: prod.split option.split)

lemma exact_modify [exact_rules]: "(\<And>s. exact (f s) = exact s) \<Longrightarrow> keeps_exact (modify f)"
  by (simp add: keeps_exact_def modify_def)

lemma exact_basic [exact_rules]: "keeps_exact ret" "keeps_exact (fail t)"
  by (simp_all add: keeps_exact_def ret_def fail_def)

lemma exact_if: "keeps_exact a \<Longrightarrow> keeps_exact b \<Longrightarrow> keeps_exact (\<lambda>w. if P w then a w else b w)"
  by (simp add: keeps_exact_def)

lemma exact_frame [simp]:
  "exact (write_file bs s) = exact s" "exact (s\<lparr>stored_file := f\<rparr>) = exact s" "exact (s\<lparr>writer := b\<rparr>) = exact s"
  "exact (s\<lparr>spool_size := n\<rparr>) = exact s" "exact (s\<lparr>sealed := b\<rparr>) = exact s" "exact (s\<lparr>spool_closed := b\<rparr>) = exact s"
  by (simp_all add: exact_def write_file_def)

lemma exact_write_all [exact_rules]: "keeps_exact (write_all payload)"
  by (auto simp: keeps_exact_def write_all_def fail_def modify_def andthen_def ret_def split: list.split disk_event.split)

lemma exact_create_file [exact_rules]: "keeps_exact create_file"
  by (auto simp: keeps_exact_def create_file_def fail_def modify_def split: list.split disk_event.split)

lemma exact_discard [exact_rules]: "keeps_exact (discard_pending_disk give)"
  by (simp add: keeps_exact_def discard_pending_disk_def exact_def Let_def)

lemma exact_close [exact_rules]: "keeps_exact (close_spool give)"
  by (simp add: keeps_exact_def close_spool_def ret_def andthen_def modify_def discard_pending_disk_def release_memory_def
      exact_def Let_def)

lemma exact_write_memory [exact_rules]: "keeps_exact (write_memory give)"
proof (unfold keeps_exact_def, intro allI impI)
  fix w :: "'a spool_world"
  assume e: "exact (spool w)"
  obtain t w1 where w1: "write_all (memory (spool w)) w = (t, w1)" by fastforce
  have e1: "exact (spool w1)" using keeps_exactD [OF exact_write_all e, of "memory (spool w)"] by (simp add: w1)
  show "exact (spool (snd (write_memory give w)))"
    using e e1 keeps_exactD [OF exact_close e1] by (simp add: write_memory_def ret_def w1 split: option.split)
qed

lemma exact_empty_memory [exact_rules]: "keeps_exact (andthen (modify (\<lambda>s. s\<lparr>memory := []\<rparr>)) (release_memory give))"
  by (simp add: keeps_exact_def andthen_def modify_def release_memory_def exact_def Let_def)

lemma exact_spill [exact_rules]: "keeps_exact (spill_to_disk give)"
  unfolding spill_to_disk_def
  by (intro exact_if exact_basic exact_andthen exact_create_file exact_write_memory exact_empty_memory)

lemma exact_append_storage [exact_rules]: "keeps_exact (append_storage give payload)"
  unfolding append_storage_def by (intro exact_if exact_rules)

lemma exact_flush [exact_rules]: "keeps_exact (flush_pending_disk give)"
proof (unfold keeps_exact_def, intro allI impI)
  fix w :: "'a spool_world"
  assume "exact (spool w)"
  then have "exact (spool (w\<lparr>spool := (spool w)\<lparr>pending_disk := [], pending_disk_reserved_bytes := 0\<rparr>\<rparr>))" by (simp add: exact_def)
  from keeps_exactD [OF exact_append_storage this] \<open>exact (spool w)\<close> show "exact (spool (snd (flush_pending_disk give w)))"
    by (simp add: flush_pending_disk_def ret_def split_beta Let_def)
qed

lemma exact_append_large [exact_rules]: "keeps_exact (append_large give chunk)"
  unfolding append_large_def grow_def by (intro exact_rules) simp

lemma exact_append_pending [exact_rules]: "keeps_exact (append_pending batch grab give chunk)"
proof (unfold keeps_exact_def, intro allI impI)
  fix w :: "'a spool_world"
  assume e: "exact (spool w)"
  obtain got w1 where w1: "reserve_pending_disk_memory grab (length chunk) w = (got, w1)" by fastforce
  note s1 = reserve_spool(2) [OF w1]
  let ?flush = "\<lambda>w. if batch \<le> length (pending_disk (spool w)) then flush_pending_disk give w else ret w"
  have tail: "keeps_exact (andthen (grow (length chunk)) ?flush)"
    unfolding grow_def by (intro exact_rules exact_if) simp_all
  show "exact (spool (snd (append_pending batch grab give chunk w)))"
  proof (cases got)
    case False
    then have "exact (spool w1)" using e by (simp add: s1 exact_def)
    from keeps_exactD [OF exact_append_large this] False w1 show ?thesis by (simp add: append_pending_def)
  next
    case True
    let ?w = "w1\<lparr>spool := (spool w1)\<lparr>pending_disk := pending_disk (spool w1) @ chunk\<rparr>\<rparr>"
    have "exact (spool ?w)" using e True by (simp add: s1 exact_def)
    from keeps_exactD [OF tail this] True w1 show ?thesis
      by (simp add: append_pending_def andthen_def [of "modify _"] modify_def)
  qed
qed

lemma exact_append_to_disk [exact_rules]: "keeps_exact (append_to_disk batch grab give chunk)"
  unfolding append_to_disk_def by (intro exact_if exact_rules)

lemma exact_append_async: "keeps_exact (append_async batch grab give chunk)"
proof (unfold keeps_exact_def, intro allI impI)
  fix w :: "'a spool_world"
  assume e: "exact (spool w)"
  show "exact (spool (snd (append_async batch grab give chunk w)))"
  proof (cases "chunk = [] \<or> sealed (spool w) \<or> spool_closed (spool w)")
    case True
    with e show ?thesis by (auto simp: append_async_def ret_def fail_def)
  next
    case False
    define stays where "stays \<longleftrightarrow> \<not> writer (spool w) \<and> pending_disk (spool w) = [] \<and>
        length (memory (spool w)) + length chunk \<le> memory_threshold_bytes (spool w)"
    obtain got w1 where w1: "(if stays then reserve_memory grab (length chunk) w else (False, w)) = (got, w1)" by fastforce
    have s1: "spool w1 = (spool w)\<lparr>memory_reserved_bytes := memory_reserved_bytes (spool w) + (if got then length chunk else 0)\<rparr>"
      using w1 by (auto dest: reserve_spool(1) split: if_splits)
    have eq: "append_async batch grab give chunk w =
        (if got then andthen (modify (\<lambda>s. s\<lparr>memory := memory s @ chunk\<rparr>)) (grow (length chunk)) w1
         else append_to_disk batch grab give chunk w1)"
      using False w1 by (simp add: append_async_def Let_def stays_def)
    show ?thesis
    proof (cases got)
      case True
      with e show ?thesis by (simp add: eq s1 exact_def andthen_def modify_def grow_def)
    next
      case False
      then have "exact (spool w1)" using e by (simp add: s1)
      from keeps_exactD [OF exact_append_to_disk this] False show ?thesis by (simp add: eq)
    qed
  qed
qed

lemma exact_seal_async: "keeps_exact (seal_async give force)"
  unfolding seal_async_def seal_def by (intro exact_if exact_rules) simp_all

text \<open>\<open>close_async\<close>, and what the owner of a spool may do, with exceptions.\<close>

definition close_async :: "(nat \<Rightarrow> 'g \<Rightarrow> 'g) \<Rightarrow> 'g act" where
  "close_async give w =
     (if spool_closed (spool w) then ret w else andthen (discard_pending_disk give) (close_spool give) w)"

datatype spool_op = Append "8 word list" | Seal bool | Close

fun spool_step ::
  "nat \<Rightarrow> (nat \<Rightarrow> 'g \<Rightarrow> bool \<times> 'g) \<Rightarrow> (nat \<Rightarrow> 'g \<Rightarrow> 'g) \<Rightarrow> spool_op \<Rightarrow> 'g spool_world \<Rightarrow> 'g spool_world" where
  "spool_step batch grab give (Append c) w = snd (append_async batch grab give c w)"
| "spool_step batch grab give (Seal force) w = snd (seal_async give force w)"
| "spool_step batch grab give Close w = snd (close_async give w)"

definition closed_empty :: "Spool \<Rightarrow> bool" where
  "closed_empty s \<longleftrightarrow> (spool_closed s \<longrightarrow> memory_bytes s = 0)"

lemma spool_step_closed_empty:
  assumes "closed_empty (spool w)"
  shows "closed_empty (spool (spool_step batch grab give op w))"
proof (cases "spool_closed (spool w)")
  case True
  with assms show ?thesis
    by (cases op) (auto simp: append_async_def seal_async_def close_async_def fail_def ret_def)
next
  case False
  show ?thesis
  proof (cases op)
    case (Append c)
    with safeD [OF safe_append_async False] show ?thesis by (simp add: closed_empty_def)
  next
    case (Seal force)
    with safeD [OF safe_seal_async False] show ?thesis by (simp add: closed_empty_def)
  next
    case Close
    let ?w = "snd (discard_pending_disk give w)"
    have "\<not> spool_closed (spool ?w)" using False by (simp add: discard_pending_disk_def Let_def)
    from close_spool_closes [OF this, of give] show ?thesis
      using False by (simp add: Close close_async_def andthen_def discard_pending_disk_def closed_empty_def Let_def)
  qed
qed

lemma spool_step_exact: "exact (spool w) \<Longrightarrow> exact (spool (spool_step batch grab give op w))"
proof (cases op)
  case Close
  have "keeps_exact (close_async give)" unfolding close_async_def by (intro exact_if exact_rules)
  then show "exact (spool w) \<Longrightarrow> ?thesis" using Close by (simp add: keeps_exact_def)
qed (simp_all add: keeps_exactD [OF exact_append_async] keeps_exactD [OF exact_seal_async])

lemma spool_run_exact: "exact (spool w) \<Longrightarrow> exact (spool (fold (spool_step batch grab give) ops w))"
  by (induction ops arbitrary: w) (simp_all add: spool_step_exact)

context spool_budget
begin

lemma spool_step_balanced: "balanced base w \<Longrightarrow> balanced base (spool_step batch grab give op w)"
proof (cases op)
  case Close
  have "keeps (close_async give)"
    unfolding close_async_def by (intro keeps_if keeps_basic inv_rules)
  then show "balanced base w \<Longrightarrow> ?thesis" using Close by (simp add: keeps_def)
qed (use keeps_append_async keeps_seal_async in \<open>simp_all add: keeps_def\<close>)

lemma spool_run_balanced:
  "balanced base w \<Longrightarrow> closed_empty (spool w) \<Longrightarrow>
     balanced base (fold (spool_step batch grab give) ops w) \<and>
     closed_empty (spool (fold (spool_step batch grab give) ops w))"
  by (induction ops arbitrary: w) (auto simp: spool_step_balanced spool_step_closed_empty)

end

interpretation spool_governor: spool_budget
  "\<lambda>(g, rs). owned_by g cat" "governor_grab cat" "governor_give cat" "\<lambda>(g, rs). governor_ok g" for cat
  by unfold_locales

text \<open>
  C34. Whatever the disk does and in whatever order a spool is appended to, sealed and closed, failed
  calls included, the governor owns for it exactly the bytes that are resident: those in memory and those that
  wait to be written; and a closed spool owns and keeps nothing.
\<close>

theorem spool_reservations_balanced:
  fixes batch :: nat and cat ops threshold rs ds
  assumes "governor_ok g"
  defines "w \<equiv> fold (spool_step batch (governor_grab cat) (governor_give cat)) ops
     \<lparr>spool = new_spool threshold, gov = (g, rs), disk = ds\<rparr>"
  shows "owned_by (fst (gov w)) cat =
       owned_by g cat + int (length (memory (spool w))) + int (length (pending_disk (spool w))) \<and>
     memory_bytes (spool w) = length (memory (spool w)) + length (pending_disk (spool w)) \<and>
     (spool_closed (spool w) \<longrightarrow> owned_by (fst (gov w)) cat = owned_by g cat \<and>
        memory (spool w) = [] \<and> pending_disk (spool w) = [])"
proof -
  let ?w = "\<lparr>spool = new_spool threshold, gov = (g, rs), disk = ds\<rparr>"
  have "0 \<le> owned_by g cat" using assms(1) by (rule owned_by_nonneg)
  then have "spool_governor.balanced cat (owned_by g cat) ?w"
    using assms(1) by (simp add: spool_governor.balanced_def memory_bytes_def new_spool_def)
  moreover have "closed_empty (spool ?w)" by (simp add: closed_empty_def new_spool_def)
  ultimately have "spool_governor.balanced cat (owned_by g cat) w \<and> closed_empty (spool w)"
    unfolding w_def by (rule spool_governor.spool_run_balanced)
  moreover have "exact (spool w)"
    unfolding w_def by (rule spool_run_exact) (simp add: exact_def new_spool_def)
  ultimately show ?thesis
    by (auto simp: spool_governor.balanced_def closed_empty_def split_beta exact_def memory_bytes_def)
qed

text \<open>The first chunk stays in memory; the second goes to the disk, which fails while the spool is sealed.\<close>

theorem spool_reservations_balanced_witness:
  "let w = fold (spool_step 4 (governor_grab ''idempotency'') (governor_give ''idempotency''))
       [Append [1, 2], Append [3, 4, 5], Seal True]
       \<lparr>spool = new_spool 2, gov = (default_governor, [(0, Inr sample_1g)]), disk = [Fails]\<rparr>
   in owned_by (fst (gov w)) ''idempotency'' = owned_by default_governor ''idempotency'' +
        int (length (memory (spool w))) + int (length (pending_disk (spool w)))"
  unfolding Let_def
  using spool_reservations_balanced [OF default_governor_ok, where cat = "''idempotency''" and batch = 4
      and ops = "[Append [1, 2], Append [3, 4, 5], Seal True]" and threshold = 2
      and rs = "[(0, Inr sample_1g)]" and ds = "[Fails]"]
  by (rule conjunct1)

end
