(* ===== verification/Idempotency.thy ===== *)
theory Idempotency
  imports Py_Prelude
begin

text \<open>
  \<open>InMemoryIdempotencyCoordinator\<close> of \<open>uni_api/middleware/idempotency.py\<close>: who executes a request that
  carries an idempotency key, who waits for it, and what is replayed.

  Entries and the accounting lists of spools are objects that outlive the dictionaries they are
  listed in (a claim holds its entry while others evict it), so both live in stores: \<open>entries\<close> and
  \<open>spools\<close> list identifiers, \<open>entry\<close> and \<open>account\<close> hold the objects. The spools themselves are
  modelled in \<open>ReplaySpool\<close>; here a call passes the \<open>memory_bytes\<close> it reads from one, and
  \<open>closed_spools\<close> records the ones the coordinator closed. The clock and the hash that makes owner tokens
  are arguments.

  Three properties: a key has one owner, the accounting is exact and bounded, and a response that is being read is kept
  (\<open>replays_running\<close> counts its readers from the calls, without the coordinator's counter).
\<close>

section \<open>State\<close>

datatype idempotency_error = ValueError string | RuntimeError string

record CachedASGIResponse =
  cached_status_code :: int
  cached_headers :: "(string \<times> string) list"
  body :: nat
  body_bytes :: int

record IdempotencyEntry =
  request_hash :: string
  owner_token :: string
  created_at :: time
  event :: bool
  response :: "CachedASGIResponse option"
  nonreplayable_reason :: "string option"
  completed_at :: "time option"
  expires_at :: "time option"
  replay_readers :: nat

definition is_complete :: "IdempotencyEntry \<Rightarrow> bool" where
  "is_complete e \<longleftrightarrow> response e \<noteq> None \<or> nonreplayable_reason e \<noteq> None"

datatype claim_kind =
    Owner nat string
  | Wait nat
  | Replay nat CachedASGIResponse
  | Conflict
  | Unavailable
  | Nonreplayable string

text \<open>An accounting list \<open>[spool, kind, bytes, memory]\<close>.\<close>

record spool_account =
  acct_kind :: string
  acct_bytes :: int
  acct_memory :: int

record Coordinator =
  ttl_seconds :: time
  max_entries :: nat
  max_stored_bytes :: int
  max_response_bytes :: int
  spool_memory_threshold_bytes :: int
  entries :: "(string, nat) dict"
  entry :: "nat \<Rightarrow> IdempotencyEntry"
  next_entry :: nat
  stored_bytes :: int
  spool_bytes :: int
  spool_peak_bytes :: int
  spool_memory_bytes :: int
  spool_memory_peak_bytes :: int
  spools :: "nat list"
  account :: "nat \<Rightarrow> spool_account"
  next_spool :: nat
  spool_bytes_by_kind :: "(string, int) dict"
  closed_spools :: "nat list"
  counters :: "(string, int) dict"

definition new_coordinator ::
  "time \<Rightarrow> int \<Rightarrow> int \<Rightarrow> int \<Rightarrow> int \<Rightarrow> idempotency_error + Coordinator" where
  "new_coordinator ttl entries_limit stored_limit response_limit threshold =
     (if ttl \<le> 0 then Inl (ValueError ''ttl_seconds must be positive'')
      else if entries_limit \<le> 0 then Inl (ValueError ''max_entries must be positive'')
      else if stored_limit \<le> 0 then Inl (ValueError ''max_stored_bytes must be positive'')
      else if response_limit \<le> 0 then Inl (ValueError ''max_response_bytes must be positive'')
      else if threshold < 0 then Inl (ValueError ''spool_memory_threshold_bytes cannot be negative'')
      else Inr \<lparr>ttl_seconds = ttl, max_entries = nat entries_limit, max_stored_bytes = stored_limit,
                max_response_bytes = response_limit, spool_memory_threshold_bytes = threshold,
                entries = [], entry = (\<lambda>_. undefined), next_entry = 0, stored_bytes = 0, spool_bytes = 0,
                spool_peak_bytes = 0, spool_memory_bytes = 0, spool_memory_peak_bytes = 0, spools = [],
                account = (\<lambda>_. undefined), next_spool = 0, spool_bytes_by_kind = [], closed_spools = [],
                counters = map (\<lambda>k. (k, 0))
                  [''owners'', ''waits'', ''replays'', ''conflicts'', ''failures_released'',
                   ''responses_not_cached'', ''capacity_rejections'', ''downstream_disconnects_detached'',
                   ''nonreplayable_completions'', ''nonreplayable_rejections'',
                   ''spool_capacity_rejections'', ''spool_write_failures'', ''completed_evictions'']\<rparr>)"

definition count :: "string \<Rightarrow> Coordinator \<Rightarrow> Coordinator" where
  "count name c = c\<lparr>counters := AList.update name (dget 0 (counters c) name + 1) (counters c)\<rparr>"

definition set_entry :: "nat \<Rightarrow> IdempotencyEntry \<Rightarrow> Coordinator \<Rightarrow> Coordinator" where
  "set_entry i e c = c\<lparr>entry := (entry c)(i := e)\<rparr>"

section \<open>Spool accounting\<close>

definition add_kind :: "string \<Rightarrow> int \<Rightarrow> (string, int) dict \<Rightarrow> (string, int) dict" where
  "add_kind kind n d = AList.update kind (dget 0 d kind + n) d"

text \<open>\<open>max(0, current - n)\<close>, and no entry when nothing remains.\<close>

definition sub_kind :: "string \<Rightarrow> int \<Rightarrow> (string, int) dict \<Rightarrow> (string, int) dict" where
  "sub_kind kind n d =
     (let remaining = max 0 (dget 0 d kind - n) in
      if remaining \<noteq> 0 then AList.update kind remaining d else AList.delete kind d)"

definition account_spool_growth :: "nat \<Rightarrow> int \<Rightarrow> Coordinator \<Rightarrow> Coordinator" where
  "account_spool_growth s n c =
     (let a = account c s in
      c\<lparr>account := (account c)(s := a\<lparr>acct_bytes := acct_bytes a + n\<rparr>),
        spool_bytes := spool_bytes c + n,
        spool_peak_bytes := max (spool_peak_bytes c) (spool_bytes c + n),
        spool_bytes_by_kind := add_kind (acct_kind a) n (spool_bytes_by_kind c)\<rparr>)"

definition account_spool_shrink :: "nat \<Rightarrow> int \<Rightarrow> Coordinator \<Rightarrow> Coordinator" where
  "account_spool_shrink s n c =
     (let a = account c s; released = min (acct_bytes a) (max 0 n) in
      c\<lparr>account := (account c)(s := a\<lparr>acct_bytes := acct_bytes a - released\<rparr>),
        spool_bytes := max 0 (spool_bytes c - released),
        spool_bytes_by_kind := sub_kind (acct_kind a) released (spool_bytes_by_kind c)\<rparr>)"

definition move_spool_kind :: "nat \<Rightarrow> string \<Rightarrow> Coordinator \<Rightarrow> Coordinator" where
  "move_spool_kind s kind c =
     (let a = account c s; new_kind = (if kind = [] then ''unknown'' else kind) in
      if acct_kind a = new_kind then c
      else c\<lparr>account := (account c)(s := a\<lparr>acct_kind := new_kind\<rparr>),
             spool_bytes_by_kind :=
               add_kind new_kind (acct_bytes a) (sub_kind (acct_kind a) (acct_bytes a) (spool_bytes_by_kind c))\<rparr>)"

text \<open>\<open>_spools.pop\<close> with the accounting that follows it; then the spool is closed.\<close>

definition forget_spool :: "nat \<Rightarrow> Coordinator \<Rightarrow> Coordinator" where
  "forget_spool s c =
     (if s \<in> set (spools c)
      then
        let c = account_spool_shrink s (acct_bytes (account c s)) (c\<lparr>spools := removeAll s (spools c)\<rparr>) in
        c\<lparr>spool_memory_bytes := max 0 (spool_memory_bytes c - acct_memory (account c s))\<rparr>
      else c)"

definition discard_spool :: "nat \<Rightarrow> Coordinator \<Rightarrow> Coordinator" where
  "discard_spool s c = (let c = forget_spool s c in c\<lparr>closed_spools := s # closed_spools c\<rparr>)"

definition close_spool :: "nat option \<Rightarrow> Coordinator \<Rightarrow> Coordinator" where
  "close_spool spool c = (case spool of None \<Rightarrow> c | Some s \<Rightarrow> discard_spool s c)"

text \<open>\<open>create_spool\<close>: the new spool and its memory threshold.\<close>

definition create_spool :: "string \<Rightarrow> Coordinator \<Rightarrow> (nat \<times> int) \<times> Coordinator" where
  "create_spool kind c =
     (let normalized = (if strip (if kind = [] then ''unknown'' else kind) = [] then ''unknown''
                        else strip (if kind = [] then ''unknown'' else kind));
          threshold = (if normalized = ''inflight_response'' \<or> normalized = ''completed_response'' then 0
                       else spool_memory_threshold_bytes c);
          s = next_spool c
      in ((s, threshold),
          c\<lparr>spools := spools c @ [s], next_spool := s + 1,
            account := (account c)(s := \<lparr>acct_kind = normalized, acct_bytes = 0, acct_memory = 0\<rparr>)\<rparr>))"

section \<open>Entries\<close>

text \<open>\<open>_discard_completed_entry_locked\<close>, also the end of \<open>_prune_expired_locked\<close> for one entry.\<close>

definition discard_completed_entry :: "nat \<Rightarrow> Coordinator \<Rightarrow> Coordinator" where
  "discard_completed_entry i c =
     (case response (entry c i) of
        None \<Rightarrow> c
      | Some r \<Rightarrow> discard_spool (body r) (c\<lparr>stored_bytes := max 0 (stored_bytes c - body_bytes r)\<rparr>))"

definition pop_entry :: "string \<Rightarrow> Coordinator \<Rightarrow> Coordinator" where
  "pop_entry k c = c\<lparr>entries := AList.delete k (entries c)\<rparr>"

definition drop_entry :: "string \<Rightarrow> nat \<Rightarrow> Coordinator \<Rightarrow> Coordinator" where
  "drop_entry k i c = discard_completed_entry i (pop_entry k c)"

definition expired :: "time \<Rightarrow> IdempotencyEntry \<Rightarrow> bool" where
  "expired now e \<longleftrightarrow> (case expires_at e of None \<Rightarrow> False | Some t \<Rightarrow> t \<le> now) \<and> replay_readers e = 0"

definition prune_expired :: "time \<Rightarrow> Coordinator \<Rightarrow> Coordinator" where
  "prune_expired now c =
     fold (\<lambda>(k, i) c. drop_entry k i c)
       (filter (\<lambda>(k, i). expired now (entry c i)) (entries c)) c"

text \<open>\<open>entry.completed_at or entry.created_at\<close>, and the completed entries nobody is reading, oldest first.\<close>

definition age_key :: "IdempotencyEntry \<Rightarrow> time" where
  "age_key e = (case completed_at e of None \<Rightarrow> created_at e | Some t \<Rightarrow> if t = 0 then created_at e else t)"

definition evictable :: "Coordinator \<Rightarrow> (string \<times> nat) list" where
  "evictable c =
     sort_key (\<lambda>(k, i). age_key (entry c i))
       (filter (\<lambda>(k, i). is_complete (entry c i) \<and> replay_readers (entry c i) = 0) (entries c))"

fun evict_while :: "(Coordinator \<Rightarrow> bool) \<Rightarrow> (string \<times> nat) list \<Rightarrow> Coordinator \<Rightarrow> Coordinator" where
  "evict_while full [] c = c"
| "evict_while full ((k, i) # rest) c =
     (if full c
      then evict_while full rest (count ''completed_evictions'' (drop_entry k i c))
      else c)"

definition make_entry_room :: "Coordinator \<Rightarrow> bool \<times> Coordinator" where
  "make_entry_room c =
     (if length (entries c) < max_entries c then (True, c)
      else
        let c = evict_while (\<lambda>c. max_entries c \<le> length (entries c)) (evictable c) c in
        (length (entries c) < max_entries c, c))"

definition make_spool_room :: "int \<Rightarrow> Coordinator \<Rightarrow> bool \<times> Coordinator" where
  "make_spool_room required c =
     (if max_stored_bytes c < required then (False, c)
      else if spool_bytes c + required \<le> max_stored_bytes c then (True, c)
      else
        let c = evict_while (\<lambda>c. max_stored_bytes c < spool_bytes c + required) (evictable c) c in
        (spool_bytes c + required \<le> max_stored_bytes c, c))"

text \<open>
  \<open>append_spool\<close>: the quota is taken under the lock; then the spool appends without it. The ownership test
  in front of the lock and the step under it are one step here: the owner of a spool does not close it while it
  appends. The answer
  None: nothing to append; Some: whether the append may go on.
\<close>

definition append_spool_begin :: "time \<Rightarrow> nat \<Rightarrow> int \<Rightarrow> Coordinator \<Rightarrow> idempotency_error + bool option \<times> Coordinator" where
  "append_spool_begin now s n c =
     (if n = 0 then Inr (None, c)
      else if s \<notin> set (spools c)
      then Inl (RuntimeError ''idempotency spool is not owned by this coordinator'')
      else
        let c = (if max_stored_bytes c < spool_bytes c + n then prune_expired now c else c);
            (room, c) = make_spool_room n c
        in if \<not> room then Inr (Some False, count ''spool_capacity_rejections'' c)
           else Inr (Some True, account_spool_growth s n c))"

definition set_spool_memory :: "nat \<Rightarrow> int \<Rightarrow> Coordinator \<Rightarrow> Coordinator" where
  "set_spool_memory s memory_after c =
     (let a = account c s in
      c\<lparr>account := (account c)(s := a\<lparr>acct_memory := memory_after\<rparr>),
        spool_memory_bytes := max 0 (spool_memory_bytes c + memory_after - acct_memory a)\<rparr>)"

definition append_spool_done :: "nat \<Rightarrow> int \<Rightarrow> Coordinator \<Rightarrow> Coordinator" where
  "append_spool_done s memory_after c =
     (let c = set_spool_memory s memory_after c in
      c\<lparr>spool_memory_peak_bytes := max (spool_memory_peak_bytes c) (spool_memory_bytes c)\<rparr>)"

definition append_spool_failed :: "nat \<Rightarrow> Coordinator \<Rightarrow> Coordinator" where
  "append_spool_failed s c = count ''spool_write_failures'' (discard_spool s c)"

section \<open>Claims and completions\<close>

definition claim ::
  "(string \<Rightarrow> string \<Rightarrow> time \<Rightarrow> string) \<Rightarrow> time \<Rightarrow> string \<Rightarrow> string \<Rightarrow> Coordinator \<Rightarrow> claim_kind \<times> Coordinator" where
  "claim token now record_key hash c =
     (let c = prune_expired now c in
      case map_of (entries c) record_key of
        Some i \<Rightarrow>
          (let e = entry c i in
           if request_hash e \<noteq> hash then (Conflict, count ''conflicts'' c)
           else
             (case response e of
                Some r \<Rightarrow>
                  (Replay i r, count ''replays'' (set_entry i (e\<lparr>replay_readers := replay_readers e + 1\<rparr>) c))
              | None \<Rightarrow>
                  (case nonreplayable_reason e of
                     Some reason \<Rightarrow> (Nonreplayable reason, count ''nonreplayable_rejections'' c)
                   | None \<Rightarrow> (Wait i, count ''waits'' c))))
      | None \<Rightarrow>
          (let (room, c) = make_entry_room c in
           if \<not> room then (Unavailable, count ''capacity_rejections'' c)
           else
             let i = next_entry c; t = token record_key hash now;
                 e = \<lparr>request_hash = hash, owner_token = t, created_at = now, event = False,
                      response = None, nonreplayable_reason = None, completed_at = None,
                      expires_at = None, replay_readers = 0\<rparr>
             in (Owner i t,
                 count ''owners''
                   (set_entry i e (c\<lparr>entries := AList.update record_key i (entries c), next_entry := i + 1\<rparr>)))))"

text \<open>\<open>_release_locked\<close>, for the entry listed under the key.\<close>

definition release_entry :: "string \<Rightarrow> nat \<Rightarrow> bool \<Rightarrow> Coordinator \<Rightarrow> Coordinator" where
  "release_entry record_key i not_cached c =
     (let c = drop_entry record_key i c;
          c = count ''failures_released'' c;
          c = (if not_cached then count ''responses_not_cached'' c else c)
      in set_entry i ((entry c i)\<lparr>event := True\<rparr>) c)"

text \<open>The entry of a key, when its owner token is the given one.\<close>

definition owned_entry :: "string \<Rightarrow> string \<Rightarrow> Coordinator \<Rightarrow> nat option" where
  "owned_entry record_key token c =
     (case map_of (entries c) record_key of
        None \<Rightarrow> None
      | Some i \<Rightarrow> if owner_token (entry c i) \<noteq> token then None else Some i)"

definition complete ::
  "time \<Rightarrow> string \<Rightarrow> string \<Rightarrow> CachedASGIResponse \<Rightarrow> int \<Rightarrow> Coordinator \<Rightarrow> bool \<times> Coordinator" where
  "complete now record_key token r memory_after c =
     (case owned_entry record_key token c of
        None \<Rightarrow> (False, c)
      | Some i \<Rightarrow>
          if max_response_bytes c < body_bytes r then (False, release_entry record_key i True c)
          else
            let c = prune_expired now c in
            if body r \<notin> set (spools c) then (False, release_entry record_key i True c)
            else
              let c = set_spool_memory (body r) memory_after c;
                  e = (entry c i)\<lparr>response := Some r, completed_at := Some now,
                                expires_at := Some (now + ttl_seconds c), event := True\<rparr>;
                  c = set_entry i e (c\<lparr>stored_bytes := stored_bytes c + body_bytes r\<rparr>)
              in (True, move_spool_kind (body r) ''completed_response'' c))"

definition complete_nonreplayable ::
  "time \<Rightarrow> string \<Rightarrow> string \<Rightarrow> string \<Rightarrow> Coordinator \<Rightarrow> bool \<times> Coordinator" where
  "complete_nonreplayable now record_key token reason c =
     (case owned_entry record_key token c of
        None \<Rightarrow> (False, c)
      | Some i \<Rightarrow>
          (let c = prune_expired now c;
               e = (entry c i)\<lparr>nonreplayable_reason :=
                        Some (List.take 120 (if reason = [] then ''capture_unavailable'' else reason)),
                      completed_at := Some now, expires_at := Some (now + ttl_seconds c), event := True\<rparr>
           in (True, set_entry i e (count ''responses_not_cached'' (count ''nonreplayable_completions'' c)))))"

definition finish_replay :: "nat \<Rightarrow> Coordinator \<Rightarrow> idempotency_error + Coordinator" where
  "finish_replay i c =
     (if replay_readers (entry c i) = 0 then Inl (RuntimeError ''idempotency replay reader underflow'')
      else Inr (set_entry i ((entry c i)\<lparr>replay_readers := replay_readers (entry c i) - 1\<rparr>) c))"

definition release_failure :: "string \<Rightarrow> string \<Rightarrow> bool \<Rightarrow> Coordinator \<Rightarrow> bool \<times> Coordinator" where
  "release_failure record_key token not_cached c =
     (case owned_entry record_key token c of
        None \<Rightarrow> (False, c)
      | Some i \<Rightarrow> (True, release_entry record_key i not_cached c))"

definition note_detached_disconnect :: "Coordinator \<Rightarrow> Coordinator" where
  "note_detached_disconnect c = count ''downstream_disconnects_detached'' c"

text \<open>The counts of \<open>snapshot\<close>: entries, in progress, completed, replayable and nonreplayable.\<close>

definition coordinator_snapshot :: "Coordinator \<Rightarrow> nat \<times> nat \<times> nat \<times> nat \<times> nat" where
  "coordinator_snapshot c =
     (let es = map (entry c \<circ> snd) (entries c); completed = length (filter is_complete es) in
      (length es, length es - completed, completed,
       length (filter (\<lambda>e. response e \<noteq> None) es), length (filter (\<lambda>e. nonreplayable_reason e \<noteq> None) es)))"

section \<open>Operations as steps\<close>

datatype idempotency_op =
    CreateSpool string
  | AppendBegin time nat int
  | AppendDone nat int
  | AppendFailed nat
  | CloseSpool "nat option"
  | Claim time string string
  | Complete time string string CachedASGIResponse int
  | CompleteNonreplayable time string string string
  | FinishReplay nat
  | ReleaseFailure string string bool
  | NoteDisconnect

text \<open>A call that raises leaves the coordinator as it is.\<close>

definition coordinator_step ::
  "(string \<Rightarrow> string \<Rightarrow> time \<Rightarrow> string) \<Rightarrow> idempotency_op \<Rightarrow> Coordinator \<Rightarrow> Coordinator" where
  "coordinator_step token op c = (case op of
       CreateSpool kind \<Rightarrow> snd (create_spool kind c)
     | AppendBegin now s n \<Rightarrow> (case append_spool_begin now s n c of Inl _ \<Rightarrow> c | Inr (_, c') \<Rightarrow> c')
     | AppendDone s m \<Rightarrow> append_spool_done s m c
     | AppendFailed s \<Rightarrow> append_spool_failed s c
     | CloseSpool s \<Rightarrow> close_spool s c
     | Claim now k h \<Rightarrow> snd (claim token now k h c)
     | Complete now k t r m \<Rightarrow> snd (complete now k t r m c)
     | CompleteNonreplayable now k t reason \<Rightarrow> snd (complete_nonreplayable now k t reason c)
     | FinishReplay i \<Rightarrow> (case finish_replay i c of Inl _ \<Rightarrow> c | Inr c' \<Rightarrow> c')
     | ReleaseFailure k t nc \<Rightarrow> snd (release_failure k t nc c)
     | NoteDisconnect \<Rightarrow> note_detached_disconnect c)"

section \<open>Frames\<close>

text \<open>What a helper leaves alone.\<close>

named_theorems frame \<open>fields a helper does not touch\<close>

lemma count_frame [simp, frame]:
  "entries (count n c) = entries c" "entry (count n c) = entry c" "next_entry (count n c) = next_entry c"
  "max_entries (count n c) = max_entries c" "spools (count n c) = spools c" "account (count n c) = account c"
  "next_spool (count n c) = next_spool c" "spool_bytes (count n c) = spool_bytes c"
  "stored_bytes (count n c) = stored_bytes c" "max_stored_bytes (count n c) = max_stored_bytes c"
  "spool_bytes_by_kind (count n c) = spool_bytes_by_kind c" "closed_spools (count n c) = closed_spools c"
  by (simp_all add: count_def)

lemma set_entry_frame [simp, frame]:
  "entries (set_entry i e c) = entries c" "entry (set_entry i e c) = (entry c)(i := e)"
  "next_entry (set_entry i e c) = next_entry c" "max_entries (set_entry i e c) = max_entries c"
  "spools (set_entry i e c) = spools c" "account (set_entry i e c) = account c"
  "next_spool (set_entry i e c) = next_spool c" "spool_bytes (set_entry i e c) = spool_bytes c"
  "stored_bytes (set_entry i e c) = stored_bytes c" "max_stored_bytes (set_entry i e c) = max_stored_bytes c"
  "spool_bytes_by_kind (set_entry i e c) = spool_bytes_by_kind c"
  "closed_spools (set_entry i e c) = closed_spools c"
  by (simp_all add: set_entry_def)

lemma set_spool_memory_frame [simp, frame]:
  "entries (set_spool_memory s m c) = entries c" "entry (set_spool_memory s m c) = entry c"
  "next_entry (set_spool_memory s m c) = next_entry c" "max_entries (set_spool_memory s m c) = max_entries c"
  "spools (set_spool_memory s m c) = spools c" "next_spool (set_spool_memory s m c) = next_spool c"
  "spool_bytes (set_spool_memory s m c) = spool_bytes c" "stored_bytes (set_spool_memory s m c) = stored_bytes c"
  "max_stored_bytes (set_spool_memory s m c) = max_stored_bytes c"
  "spool_bytes_by_kind (set_spool_memory s m c) = spool_bytes_by_kind c"
  "acct_bytes (account (set_spool_memory s m c) x) = acct_bytes (account c x)"
  "acct_kind (account (set_spool_memory s m c) x) = acct_kind (account c x)"
  "closed_spools (set_spool_memory s m c) = closed_spools c"
  "ttl_seconds (set_spool_memory s m c) = ttl_seconds c"
  by (simp_all add: set_spool_memory_def Let_def)

lemma forget_spool_frame [simp, frame]:
  "entries (forget_spool s c) = entries c" "entry (forget_spool s c) = entry c"
  "next_entry (forget_spool s c) = next_entry c" "max_entries (forget_spool s c) = max_entries c"
  "spools (forget_spool s c) = removeAll s (spools c)" "next_spool (forget_spool s c) = next_spool c"
  "stored_bytes (forget_spool s c) = stored_bytes c" "max_stored_bytes (forget_spool s c) = max_stored_bytes c"
  "x \<noteq> s \<Longrightarrow> account (forget_spool s c) x = account c x"
  "closed_spools (forget_spool s c) = closed_spools c"
  by (simp_all add: forget_spool_def account_spool_shrink_def Let_def)

lemma discard_spool_frame [simp, frame]:
  "entries (discard_spool s c) = entries c" "entry (discard_spool s c) = entry c"
  "next_entry (discard_spool s c) = next_entry c" "max_entries (discard_spool s c) = max_entries c"
  "spools (discard_spool s c) = removeAll s (spools c)" "next_spool (discard_spool s c) = next_spool c"
  "stored_bytes (discard_spool s c) = stored_bytes c" "max_stored_bytes (discard_spool s c) = max_stored_bytes c"
  "x \<noteq> s \<Longrightarrow> account (discard_spool s c) x = account c x"
  "closed_spools (discard_spool s c) = s # closed_spools c"
  by (simp_all add: discard_spool_def)

lemma discard_completed_frame [simp, frame]:
  "entries (discard_completed_entry i c) = entries c" "entry (discard_completed_entry i c) = entry c"
  "next_entry (discard_completed_entry i c) = next_entry c"
  "max_entries (discard_completed_entry i c) = max_entries c"
  "next_spool (discard_completed_entry i c) = next_spool c"
  "max_stored_bytes (discard_completed_entry i c) = max_stored_bytes c"
  by (simp_all add: discard_completed_entry_def split: option.splits)

lemma drop_entry_frame [simp, frame]:
  "entries (drop_entry k i c) = AList.delete k (entries c)" "entry (drop_entry k i c) = entry c"
  "next_entry (drop_entry k i c) = next_entry c" "max_entries (drop_entry k i c) = max_entries c"
  "next_spool (drop_entry k i c) = next_spool c" "max_stored_bytes (drop_entry k i c) = max_stored_bytes c"
  by (simp_all add: drop_entry_def pop_entry_def)

lemma move_spool_kind_frame [simp, frame]:
  "entries (move_spool_kind s k c) = entries c" "entry (move_spool_kind s k c) = entry c"
  "next_entry (move_spool_kind s k c) = next_entry c" "max_entries (move_spool_kind s k c) = max_entries c"
  "spools (move_spool_kind s k c) = spools c" "next_spool (move_spool_kind s k c) = next_spool c"
  "stored_bytes (move_spool_kind s k c) = stored_bytes c" "spool_bytes (move_spool_kind s k c) = spool_bytes c"
  "max_stored_bytes (move_spool_kind s k c) = max_stored_bytes c"
  "acct_bytes (account (move_spool_kind s k c) x) = acct_bytes (account c x)"
  "closed_spools (move_spool_kind s k c) = closed_spools c"
  by (simp_all add: move_spool_kind_def Let_def)

section \<open>Sweeps\<close>

text \<open>
  Pruning and eviction drop a list of entries one after the other. Whatever a single drop of a listed entry
  keeps, a sweep keeps, and an entry the sweep does not name stays listed.
\<close>

definition sweepable :: "(string \<times> nat) list \<Rightarrow> Coordinator \<Rightarrow> bool" where
  "sweepable xs c \<longleftrightarrow> distinct_keys xs \<and> set xs \<subseteq> set (entries c)"

lemma sweepable_filter: "distinct_keys (entries c) \<Longrightarrow> sweepable (filter P (entries c)) c"
  by (induction "entries c" arbitrary: c) (auto simp: sweepable_def distinct_keys_def distinct_map_filter)

lemma sweepable_evictable: "distinct_keys (entries c) \<Longrightarrow> sweepable (evictable c) c"
  by (auto simp: sweepable_def evictable_def distinct_keys_def distinct_map distinct_filter
      intro: inj_on_subset)

lemma set_delete: "set (AList.delete k m) = {x \<in> set m. fst x \<noteq> k}"
  by (auto simp: AList.delete_eq)

lemma sweepable_tl: "sweepable ((k, i) # xs) c \<Longrightarrow> sweepable xs (drop_entry k i c)"
  by (auto simp: sweepable_def distinct_keys_def set_delete)

lemma sweepable_count [simp]: "sweepable xs (count n c) = sweepable xs c"
  by (simp add: sweepable_def)

text \<open>Only settled entries that nobody reads are swept.\<close>

definition removable :: "IdempotencyEntry \<Rightarrow> bool" where
  "removable e \<longleftrightarrow> replay_readers e = 0 \<and> (expires_at e \<noteq> None \<or> is_complete e)"

lemma expired_removable: "expired now e \<Longrightarrow> removable e"
  by (auto simp: expired_def removable_def split: option.splits)

lemma evictable_removable: "(k, i) \<in> set (evictable c) \<Longrightarrow> removable (entry c i)"
  by (auto simp: evictable_def removable_def)

locale sweep_stable =
  fixes I :: "Coordinator \<Rightarrow> bool"
  assumes keys: "I c \<Longrightarrow> distinct_keys (entries c)"
    and counted: "I c \<Longrightarrow> I (count n c)"
    and dropped: "I c \<Longrightarrow> (k, i) \<in> set (entries c) \<Longrightarrow> removable (entry c i) \<Longrightarrow> I (drop_entry k i c)"
begin

lemma fold_drop:
  "I c \<Longrightarrow> sweepable xs c \<Longrightarrow> \<forall>(k, i) \<in> set xs. removable (entry c i) \<Longrightarrow>
   I (fold (\<lambda>(k, i) c. drop_entry k i c) xs c)"
proof (induction xs arbitrary: c)
  case (Cons x xs)
  obtain k i where x: "x = (k, i)" by (cases x)
  with Cons.prems have "(k, i) \<in> set (entries c)" "removable (entry c i)" by (auto simp: sweepable_def)
  with Cons.prems have "I (drop_entry k i c)" by (intro dropped)
  with Cons x show ?case by (auto simp: sweepable_tl)
qed simp

lemma pruned: "I c \<Longrightarrow> I (prune_expired now c)"
  unfolding prune_expired_def
  by (rule fold_drop) (auto simp: sweepable_filter keys intro: expired_removable)

lemma evict_while:
  "I c \<Longrightarrow> sweepable xs c \<Longrightarrow> \<forall>(k, i) \<in> set xs. removable (entry c i) \<Longrightarrow> I (evict_while full xs c)"
proof (induction full xs c rule: evict_while.induct)
  case (2 full k i rest c)
  then have "(k, i) \<in> set (entries c)" "removable (entry c i)" by (auto simp: sweepable_def)
  with "2.prems" have "I (count ''completed_evictions'' (drop_entry k i c))" by (intro counted dropped)
  with 2 show ?case by (auto simp: sweepable_tl)
qed simp

lemma evicted: "I c \<Longrightarrow> I (evict_while full (evictable c) c)"
  by (rule evict_while) (auto simp: sweepable_evictable keys intro: evictable_removable)

lemma entry_room: "I c \<Longrightarrow> make_entry_room c = (room, c') \<Longrightarrow> I c'"
  by (auto simp: make_entry_room_def evicted Let_def split: if_splits)

lemma spool_room: "I c \<Longrightarrow> make_spool_room n c = (room, c') \<Longrightarrow> I c'"
  by (auto simp: make_spool_room_def evicted Let_def split: if_splits)

end

lemma evict_while_frame [simp, frame]:
  "entry (evict_while full xs c) = entry c" "max_entries (evict_while full xs c) = max_entries c"
  "next_entry (evict_while full xs c) = next_entry c" "next_spool (evict_while full xs c) = next_spool c"
  "max_stored_bytes (evict_while full xs c) = max_stored_bytes c"
  by (induction full xs c rule: evict_while.induct) simp_all

lemma prune_frame [simp, frame]:
  "entry (prune_expired now c) = entry c" "max_entries (prune_expired now c) = max_entries c"
  "next_entry (prune_expired now c) = next_entry c" "next_spool (prune_expired now c) = next_spool c"
  "max_stored_bytes (prune_expired now c) = max_stored_bytes c"
proof -
  have "entry (fold (\<lambda>(k, i) c. drop_entry k i c) xs d) = entry d \<and>
        max_entries (fold (\<lambda>(k, i) c. drop_entry k i c) xs d) = max_entries d \<and>
        next_entry (fold (\<lambda>(k, i) c. drop_entry k i c) xs d) = next_entry d \<and>
        next_spool (fold (\<lambda>(k, i) c. drop_entry k i c) xs d) = next_spool d \<and>
        max_stored_bytes (fold (\<lambda>(k, i) c. drop_entry k i c) xs d) = max_stored_bytes d" for xs d
    by (induction xs arbitrary: d) auto
  then show
    "entry (prune_expired now c) = entry c" "max_entries (prune_expired now c) = max_entries c"
    "next_entry (prune_expired now c) = next_entry c" "next_spool (prune_expired now c) = next_spool c"
    "max_stored_bytes (prune_expired now c) = max_stored_bytes c"
    by (simp_all add: prune_expired_def)
qed

lemma entry_room_answer:
  assumes "make_entry_room c = (room, c')"
  shows "room = (length (entries c') < max_entries c')" "entry c' = entry c" "next_entry c' = next_entry c"
    "max_entries c' = max_entries c" "next_spool c' = next_spool c"
    "max_stored_bytes c' = max_stored_bytes c"
  using assms by (auto simp: make_entry_room_def Let_def split: if_splits)

lemma spool_room_answer:
  assumes "make_spool_room n c = (room, c')"
  shows "room \<Longrightarrow> spool_bytes c' + n \<le> max_stored_bytes c'" "entry c' = entry c"
    "next_entry c' = next_entry c" "max_entries c' = max_entries c" "next_spool c' = next_spool c"
    "max_stored_bytes c' = max_stored_bytes c"
  using assms by (auto simp: make_spool_room_def Let_def split: if_splits)

lemma evict_while_subset: "set (entries (evict_while full xs c)) \<subseteq> set (entries c)"
  by (induction full xs c rule: evict_while.induct) (auto simp: set_delete)

lemma room_subset: "make_entry_room c = (room, c') \<Longrightarrow> set (entries c') \<subseteq> set (entries c)"
  using evict_while_subset by (fastforce simp: make_entry_room_def Let_def split: if_splits)

lemma drop_entry_spools: "set (spools (drop_entry k i c)) \<subseteq> set (spools c)"
  by (auto simp: drop_entry_def discard_completed_entry_def pop_entry_def split: option.splits)

lemma pruned_spools: "set (spools (prune_expired now c)) \<subseteq> set (spools c)"
proof -
  have "set (spools (fold (\<lambda>(k, i) c. drop_entry k i c) xs d)) \<subseteq> set (spools d)" for xs d
    using drop_entry_spools by (induction xs arbitrary: d) (auto, blast)
  then show ?thesis by (simp add: prune_expired_def)
qed

section \<open>Identifiers\<close>

definition listed :: "Coordinator \<Rightarrow> nat set" where
  "listed c = snd ` set (entries c)"

definition ids_inv :: "Coordinator \<Rightarrow> bool" where
  "ids_inv c \<longleftrightarrow> distinct_keys (entries c) \<and> distinct (map snd (entries c)) \<and>
     (\<forall>i \<in> listed c. i < next_entry c)"

lemma id_unique: "ids_inv c \<Longrightarrow> (k, i) \<in> set (entries c) \<Longrightarrow> (j, i) \<in> set (entries c) \<Longrightarrow> k = j"
  unfolding ids_inv_def distinct_map inj_on_def by (metis Pair_inject snd_conv)

lemma key_unique: "ids_inv c \<Longrightarrow> (k, i) \<in> set (entries c) \<Longrightarrow> (k, j) \<in> set (entries c) \<Longrightarrow> i = j"
  unfolding ids_inv_def distinct_keys_def distinct_map inj_on_def by (metis Pair_inject fst_conv)

lemma ids_keys: "ids_inv c \<Longrightarrow> distinct_keys (entries c)"
  by (simp add: ids_inv_def)

lemma ids_map_of: "ids_inv c \<Longrightarrow> map_of (entries c) k = Some i \<longleftrightarrow> (k, i) \<in> set (entries c)"
  by (simp add: ids_inv_def distinct_keys_def)

lemma listed_delete:
  assumes "ids_inv c" "(k, i) \<in> set (entries c)"
  shows "snd ` set (AList.delete k (entries c)) = listed c - {i}"
proof (intro equalityI subsetI)
  fix j assume "j \<in> snd ` set (AList.delete k (entries c))"
  then obtain l where "(l, j) \<in> set (entries c)" "l \<noteq> k" by (auto simp: set_delete)
  then show "j \<in> listed c - {i}"
    using id_unique [OF assms(1), of l i k] assms(2) by (auto simp: listed_def intro: rev_image_eqI)
next
  fix j assume "j \<in> listed c - {i}"
  then obtain l where "(l, j) \<in> set (entries c)" "j \<noteq> i" by (auto simp: listed_def)
  then have "(l, j) \<in> set (AList.delete k (entries c))"
    using key_unique [OF assms(1), of k i j] assms(2) by (auto simp: set_delete)
  then show "j \<in> snd ` set (AList.delete k (entries c))" by (rule rev_image_eqI) simp
qed

lemma distinct_map_delete: "distinct (map f m) \<Longrightarrow> distinct (map f (AList.delete k m))"
  by (simp add: AList.delete_eq distinct_map_filter)

lemma ids_delete:
  assumes "ids_inv c" "entries c' = AList.delete k (entries c)" "next_entry c' = next_entry c"
  shows "ids_inv c'"
  using assms by (auto simp: ids_inv_def listed_def distinct_map_delete set_delete)

lemma ids_same: "ids_inv c \<Longrightarrow> entries c' = entries c \<Longrightarrow> next_entry c' = next_entry c \<Longrightarrow> ids_inv c'"
  by (simp add: ids_inv_def listed_def)

lemma update_absent: "map_of m k = None \<Longrightarrow> AList.update k v m = m @ [(k, v)]"
  by (induction m) auto

lemma ids_insert:
  assumes "ids_inv c" "map_of (entries c) k = None"
    "entries c' = AList.update k (next_entry c) (entries c)" "next_entry c' = next_entry c + 1"
  shows "ids_inv c'"
proof -
  have "entries c' = entries c @ [(k, next_entry c)]" using assms(2, 3) by (simp add: update_absent)
  moreover have "next_entry c \<notin> snd ` set (entries c)" using assms(1) by (auto simp: ids_inv_def listed_def)
  ultimately show ?thesis
    using assms by (auto simp: ids_inv_def listed_def distinct_keys_def map_of_eq_None_iff less_Suc_eq)
qed

interpretation ids: sweep_stable ids_inv
  by unfold_locales (auto intro: ids_same ids_delete ids_keys)

lemma ids_release: "ids_inv c \<Longrightarrow> ids_inv (release_entry k i nc c)"
  by (erule ids_delete [where k = k]) (simp_all add: release_entry_def Let_def)

section \<open>Spool accounting\<close>

text \<open>The accounted bytes of the registered spools whose kind satisfies a predicate.\<close>

definition kind_sum :: "Coordinator \<Rightarrow> (string \<Rightarrow> bool) \<Rightarrow> int" where
  "kind_sum c P = (\<Sum>s \<in> set (spools c). if P (acct_kind (account c s)) then acct_bytes (account c s) else 0)"

definition spool_inv :: "Coordinator \<Rightarrow> bool" where
  "spool_inv c \<longleftrightarrow> distinct (spools c) \<and>
     (\<forall>s \<in> set (spools c). s < next_spool c \<and> 0 \<le> acct_bytes (account c s)) \<and>
     (\<forall>s \<in> set (closed_spools c). s < next_spool c \<and> s \<notin> set (spools c)) \<and>
     spool_bytes c = kind_sum c (\<lambda>_. True) \<and>
     (\<forall>k. dget 0 (spool_bytes_by_kind c) k = kind_sum c (\<lambda>x. x = k)) \<and>
     spool_bytes c \<le> max_stored_bytes c"

lemma dget_add_kind [simp]: "dget 0 (add_kind k n d) j = dget 0 d j + (if j = k then n else 0)"
  by (simp add: add_kind_def)

lemma dget_sub_kind: "n \<le> dget 0 d k \<Longrightarrow> dget 0 (sub_kind k n d) j = dget 0 d j - (if j = k then n else 0)"
  by (auto simp: sub_kind_def Let_def max_def)

lemma sum_upd:
  fixes g :: "'b \<Rightarrow> int"
  assumes "finite A" "s \<in> A"
  shows "(\<Sum>x \<in> A. g ((f(s := v)) x)) = (\<Sum>x \<in> A. g (f x)) - g (f s) + g v"
proof -
  have "(\<Sum>x \<in> A - {s}. g ((f(s := v)) x)) = (\<Sum>x \<in> A - {s}. g (f x))" by (rule sum.cong) auto
  then show ?thesis
    using sum.remove [OF assms, of "\<lambda>x. g ((f(s := v)) x)"] sum.remove [OF assms, of "\<lambda>x. g (f x)"] by simp
qed

lemma kind_sum_upd:
  assumes "s \<in> set (spools c)" "spools c' = spools c" "account c' = (account c)(s := a)"
  shows "kind_sum c' P = kind_sum c P - (if P (acct_kind (account c s)) then acct_bytes (account c s) else 0)
           + (if P (acct_kind a) then acct_bytes a else 0)"
  unfolding kind_sum_def assms(2, 3)
  by (rule sum_upd [where g = "\<lambda>a. if P (acct_kind a) then acct_bytes a else 0"]) (simp_all add: assms(1))

lemma kind_sum_remove:
  assumes "s \<in> set (spools c)" "spools c' = removeAll s (spools c)" "\<And>x. x \<noteq> s \<Longrightarrow> account c' x = account c x"
  shows "kind_sum c' P = kind_sum c P - (if P (acct_kind (account c s)) then acct_bytes (account c s) else 0)"
proof -
  have "kind_sum c' P = (\<Sum>s \<in> set (spools c) - {s}.
      if P (acct_kind (account c s)) then acct_bytes (account c s) else 0)"
    unfolding kind_sum_def assms(2) by (rule sum.cong) (auto simp: assms(3))
  then show ?thesis
    using sum.remove [OF _ assms(1), of "\<lambda>s. if P (acct_kind (account c s)) then acct_bytes (account c s) else 0"]
    by (simp add: kind_sum_def)
qed

lemma kind_sum_member:
  assumes "spool_inv c" "s \<in> set (spools c)" "P (acct_kind (account c s))"
  shows "acct_bytes (account c s) \<le> kind_sum c P"
proof -
  have "0 \<le> (\<Sum>x \<in> set (spools c) - {s}. if P (acct_kind (account c x)) then acct_bytes (account c x) else 0)"
    using assms(1) by (intro sum_nonneg) (auto simp: spool_inv_def)
  then show ?thesis
    using sum.remove [OF _ assms(2), of "\<lambda>s. if P (acct_kind (account c s)) then acct_bytes (account c s) else 0"]
      assms(3) by (simp add: kind_sum_def)
qed

lemma spool_same:
  assumes "spool_inv c" "spools c' = spools c" "next_spool c' = next_spool c"
    "\<And>s. acct_bytes (account c' s) = acct_bytes (account c s)"
    "\<And>s. acct_kind (account c' s) = acct_kind (account c s)"
    "closed_spools c' = closed_spools c" "spool_bytes c' = spool_bytes c"
    "spool_bytes_by_kind c' = spool_bytes_by_kind c" "max_stored_bytes c' = max_stored_bytes c"
  shows "spool_inv c'"
proof -
  have "kind_sum c' P = kind_sum c P" for P by (simp add: kind_sum_def assms cong: if_cong)
  with assms show ?thesis by (simp add: spool_inv_def)
qed

lemma forget_amounts:
  assumes "spool_inv c" "s \<in> set (spools c)"
  shows "spool_bytes (forget_spool s c) = spool_bytes c - acct_bytes (account c s)"
    "dget 0 (spool_bytes_by_kind (forget_spool s c)) k =
       dget 0 (spool_bytes_by_kind c) k - (if k = acct_kind (account c s) then acct_bytes (account c s) else 0)"
proof -
  have "acct_bytes (account c s) \<le> spool_bytes c"
    using kind_sum_member [OF assms, of "\<lambda>_. True"] assms(1) by (simp add: spool_inv_def)
  moreover have "acct_bytes (account c s) \<le> dget 0 (spool_bytes_by_kind c) (acct_kind (account c s))"
    using kind_sum_member [OF assms, of "\<lambda>x. x = acct_kind (account c s)"] assms(1)
    by (simp add: spool_inv_def)
  moreover have "0 \<le> acct_bytes (account c s)" using assms by (simp add: spool_inv_def)
  ultimately show "spool_bytes (forget_spool s c) = spool_bytes c - acct_bytes (account c s)"
    "dget 0 (spool_bytes_by_kind (forget_spool s c)) k =
       dget 0 (spool_bytes_by_kind c) k - (if k = acct_kind (account c s) then acct_bytes (account c s) else 0)"
    using assms(2) by (simp_all add: forget_spool_def account_spool_shrink_def Let_def dget_sub_kind)
qed

lemma spool_inv_forget:
  assumes "spool_inv c"
  shows "spool_inv (forget_spool s c)"
proof (cases "s \<in> set (spools c)")
  case True
  have "kind_sum (forget_spool s c) P =
      kind_sum c P - (if P (acct_kind (account c s)) then acct_bytes (account c s) else 0)" for P
    by (rule kind_sum_remove [OF True]) simp_all
  with assms True show ?thesis
    unfolding spool_inv_def [of "forget_spool s c"]
    by (auto simp: forget_amounts spool_inv_def distinct_removeAll)
qed (use assms in \<open>simp add: forget_spool_def\<close>)

lemma spool_inv_discard: "spool_inv c \<Longrightarrow> s < next_spool c \<Longrightarrow> spool_inv (discard_spool s c)"
  using spool_inv_forget [of c s] by (auto simp: discard_spool_def spool_inv_def kind_sum_def cong: if_cong)

lemma spool_inv_growth:
  assumes "spool_inv c" "s \<in> set (spools c)" "0 \<le> n" "spool_bytes c + n \<le> max_stored_bytes c"
  shows "spool_inv (account_spool_growth s n c)"
proof -
  have "kind_sum (account_spool_growth s n c) P = kind_sum c P + (if P (acct_kind (account c s)) then n else 0)" for P
    by (subst kind_sum_upd [OF assms(2)]) (auto simp: account_spool_growth_def Let_def)
  with assms show ?thesis
    by (auto simp: spool_inv_def account_spool_growth_def Let_def)
qed

lemma spool_inv_move:
  assumes "spool_inv c" "s \<in> set (spools c)"
  shows "spool_inv (move_spool_kind s kind c)"
proof (cases "acct_kind (account c s) = (if kind = [] then ''unknown'' else kind)")
  case False
  let ?new = "if kind = [] then ''unknown'' else kind"
  have "kind_sum (move_spool_kind s kind c) P =
      kind_sum c P - (if P (acct_kind (account c s)) then acct_bytes (account c s) else 0)
        + (if P ?new then acct_bytes (account c s) else 0)" for P
    using False by (subst kind_sum_upd [OF assms(2)]) (auto simp: move_spool_kind_def Let_def)
  moreover have "acct_bytes (account c s) \<le> dget 0 (spool_bytes_by_kind c) (acct_kind (account c s))"
    using kind_sum_member [OF assms, of "\<lambda>x. x = acct_kind (account c s)"] assms(1)
    by (simp add: spool_inv_def)
  ultimately show ?thesis
    using assms False by (auto simp: spool_inv_def move_spool_kind_def Let_def dget_sub_kind)
qed (use assms in \<open>simp add: move_spool_kind_def Let_def\<close>)

section \<open>The coordinator's invariant\<close>

definition weight :: "IdempotencyEntry \<Rightarrow> int" where
  "weight e = (case response e of None \<Rightarrow> 0 | Some r \<Rightarrow> body_bytes r)"

text \<open>The entries that keep a given spool as their stored body.\<close>

definition holders :: "Coordinator \<Rightarrow> nat \<Rightarrow> nat set" where
  "holders c s = {i \<in> listed c. map_option body (response (entry c i)) = Some s}"

definition entry_ok :: "Coordinator \<Rightarrow> nat \<Rightarrow> bool" where
  "entry_ok c i \<longleftrightarrow> (expires_at (entry c i) = None) = (\<not> is_complete (entry c i)) \<and>
     (\<forall>r. response (entry c i) = Some r \<longrightarrow>
        body r \<in> set (spools c) \<and> acct_bytes (account c (body r)) = body_bytes r \<and> holders c (body r) = {i})"

definition entry_inv :: "Coordinator \<Rightarrow> bool" where
  "entry_inv c \<longleftrightarrow>
     (\<forall>i \<in> listed c. entry_ok c i) \<and> stored_bytes c = (\<Sum>i \<in> listed c. weight (entry c i))"

definition coordinator_inv :: "Coordinator \<Rightarrow> bool" where
  "coordinator_inv c \<longleftrightarrow> ids_inv c \<and> spool_inv c \<and> entry_inv c \<and> length (entries c) \<le> max_entries c"

lemma holders_empty: "holders c s = {} \<Longrightarrow> i \<in> listed c \<Longrightarrow> response (entry c i) = Some r \<Longrightarrow> body r \<noteq> s"
  by (auto simp: holders_def)

lemma finite_listed [simp]: "finite (listed c)"
  by (simp add: listed_def)

lemma entry_same:
  assumes "entry_inv c" "entries c' = entries c" "entry c' = entry c" "spools c' = spools c"
    "\<And>s. acct_bytes (account c' s) = acct_bytes (account c s)" "stored_bytes c' = stored_bytes c"
  shows "entry_inv c'"
  using assms by (simp add: entry_inv_def entry_ok_def listed_def holders_def)

lemma entry_inv_discard:
  assumes "entry_inv c" "holders c s = {}"
  shows "entry_inv (discard_spool s c)"
proof -
  have same: "listed (discard_spool s c) = listed c" "holders (discard_spool s c) = holders c"
    by (simp_all add: listed_def holders_def fun_eq_iff)
  have "entry_ok (discard_spool s c) i" if "i \<in> listed c" for i
    using assms(1) that holders_empty [OF assms(2) that]
    by (auto simp: entry_inv_def entry_ok_def same)
  then show ?thesis using assms(1) by (simp add: entry_inv_def same)
qed

lemma entry_inv_pop:
  assumes "entry_inv c" "ids_inv c" "(k, i) \<in> set (entries c)"
    and d: "d = pop_entry k c\<lparr>stored_bytes := stored_bytes c - weight (entry c i)\<rparr>"
  shows "entry_inv d" and "response (entry c i) = Some r \<Longrightarrow> holders d (body r) = {}"
proof -
  have i: "i \<in> listed c" using assms(3) by (force simp: listed_def)
  have f: "entry d = entry c" "spools d = spools c" "account d = account c"
    "stored_bytes d = stored_bytes c - weight (entry c i)"
    by (simp_all add: d pop_entry_def)
  have l: "listed d = listed c - {i}"
    using listed_delete [OF assms(2, 3)] by (simp add: listed_def pop_entry_def d)
  then have h: "holders d s = holders c s - {i}" for s by (auto simp: holders_def f)
  have "stored_bytes c = weight (entry c i) + (\<Sum>j \<in> listed c - {i}. weight (entry c j))"
    using assms(1) sum.remove [OF finite_listed i, of "\<lambda>j. weight (entry c j)"] by (simp add: entry_inv_def)
  moreover have "entry_ok d j" if "entry_ok c j" "j \<noteq> i" for j
    using that unfolding entry_ok_def h by (auto simp: f)
  ultimately show "entry_inv d"
    using assms(1) by (simp add: entry_inv_def l f)
  show "response (entry c i) = Some r \<Longrightarrow> holders d (body r) = {}"
    using assms(1) i h by (auto simp: entry_inv_def entry_ok_def)
qed

lemma weight_nonneg: "entry_inv c \<Longrightarrow> spool_inv c \<Longrightarrow> i \<in> listed c \<Longrightarrow> 0 \<le> weight (entry c i)"
  by (fastforce simp: entry_inv_def entry_ok_def spool_inv_def weight_def split: option.splits)

lemma weight_le_stored:
  "entry_inv c \<Longrightarrow> spool_inv c \<Longrightarrow> i \<in> listed c \<Longrightarrow> weight (entry c i) \<le> stored_bytes c"
  using member_le_sum [of i "listed c" "\<lambda>i. weight (entry c i)"] weight_nonneg [of c]
  by (simp add: entry_inv_def)

lemma drop_entry_inv:
  assumes "coordinator_inv c" "(k, i) \<in> set (entries c)"
  shows "coordinator_inv (drop_entry k i c)"
proof -
  let ?c = "pop_entry k c\<lparr>stored_bytes := stored_bytes c - weight (entry c i)\<rparr>"
  have inv: "ids_inv c" "spool_inv c" "entry_inv c" "length (entries c) \<le> max_entries c"
    using assms(1) by (simp_all add: coordinator_inv_def)
  have i: "i \<in> listed c" using assms(2) by (force simp: listed_def)
  have ids: "ids_inv (drop_entry k i c)" using inv(1) by (rule ids_delete) simp_all
  have len: "length (AList.delete k (entries c)) \<le> max_entries c"
    using inv(4) length_delete_le [of k "entries c"] by simp
  have sp: "spool_inv ?c" by (rule spool_same [OF inv(2)]) (simp_all add: pop_entry_def)
  show ?thesis
  proof (cases "response (entry c i)")
    case None
    then have "drop_entry k i c = ?c"
      by (simp add: drop_entry_def discard_completed_entry_def pop_entry_def weight_def)
    with ids sp entry_inv_pop(1) [OF inv(3, 1) assms(2) refl] len show ?thesis
      by (simp add: coordinator_inv_def pop_entry_def)
  next
    case (Some r)
    have w: "weight (entry c i) = body_bytes r" using Some by (simp add: weight_def)
    then have "max 0 (stored_bytes c - body_bytes r) = stored_bytes c - body_bytes r"
      using weight_le_stored [OF inv(3, 2) i] by simp
    then have eq: "drop_entry k i c = discard_spool (body r) ?c"
      using Some by (simp add: drop_entry_def discard_completed_entry_def pop_entry_def w)
    have "body r < next_spool ?c"
      using inv(2, 3) i Some by (auto simp: entry_inv_def entry_ok_def spool_inv_def pop_entry_def)
    with sp have "spool_inv (drop_entry k i c)" unfolding eq by (rule spool_inv_discard)
    moreover have "entry_inv (drop_entry k i c)"
      unfolding eq using entry_inv_pop [OF inv(3, 1) assms(2) refl] Some by (intro entry_inv_discard) simp_all
    ultimately show ?thesis using ids len by (simp add: coordinator_inv_def)
  qed
qed

lemma coordinator_count: "coordinator_inv c \<Longrightarrow> coordinator_inv (count n c)"
  unfolding coordinator_inv_def
  by (auto intro: ids_same spool_same entry_same)

lemma coordinator_keys: "coordinator_inv c \<Longrightarrow> distinct_keys (entries c)"
  by (simp add: coordinator_inv_def ids_keys)

interpretation whole: sweep_stable coordinator_inv
  by unfold_locales (erule coordinator_keys coordinator_count drop_entry_inv | assumption)+

text \<open>A spool no entry keeps, and an entry that is not removable, survive every sweep.\<close>

definition unheld :: "nat \<Rightarrow> spool_account \<Rightarrow> Coordinator \<Rightarrow> bool" where
  "unheld s a c \<longleftrightarrow> coordinator_inv c \<and> s \<in> set (spools c) \<and> holders c s = {} \<and> account c s = a"

definition kept :: "string \<Rightarrow> nat \<Rightarrow> IdempotencyEntry \<Rightarrow> Coordinator \<Rightarrow> bool" where
  "kept k i e c \<longleftrightarrow> ids_inv c \<and> (k, i) \<in> set (entries c) \<and> entry c i = e \<and> \<not> removable e"

lemma drop_entry_spool:
  assumes "i \<in> listed c" "holders c s = {}"
  shows "account (drop_entry k i c) s = account c s"
    "s \<in> set (spools (drop_entry k i c)) \<longleftrightarrow> s \<in> set (spools c)"
  using holders_empty [OF assms(2, 1)]
  by (auto simp: drop_entry_def discard_completed_entry_def pop_entry_def split: option.splits)

lemma listedI: "(k, i) \<in> set (entries c) \<Longrightarrow> i \<in> listed c"
  by (force simp: listed_def)

lemma holders_drop: "holders (drop_entry k i c) s \<subseteq> holders c s"
  by (auto simp: holders_def listed_def set_delete)

lemma unheld_drop:
  assumes "unheld s a c" "(k, i) \<in> set (entries c)"
  shows "unheld s a (drop_entry k i c)"
  using assms drop_entry_spool [OF listedI [OF assms(2)], of s k] drop_entry_inv [OF _ assms(2)]
    holders_drop [of k i c s]
  by (simp add: unheld_def)

lemma unheld_count: "unheld s a c \<Longrightarrow> unheld s a (count n c)"
  by (simp add: unheld_def coordinator_count) (simp add: holders_def listed_def)

lemma unheld_keys: "unheld s a c \<Longrightarrow> distinct_keys (entries c)"
  by (simp add: unheld_def coordinator_keys)

interpretation unheld: sweep_stable "unheld s a" for s a
  by unfold_locales (erule unheld_keys unheld_count unheld_drop | assumption)+

lemma kept_drop:
  assumes "kept k i e c" "(k', i') \<in> set (entries c)" "removable (entry c i')"
  shows "kept k i e (drop_entry k' i' c)"
proof -
  have "k \<noteq> k'" using assms key_unique [of c k i i'] by (auto simp: kept_def)
  then show ?thesis using assms(1) by (auto simp: kept_def set_delete intro: ids_delete)
qed

lemma kept_count: "kept k i e c \<Longrightarrow> kept k i e (count n c)"
  by (auto simp: kept_def intro: ids_same)

lemma kept_keys: "kept k i e c \<Longrightarrow> distinct_keys (entries c)"
  by (simp add: kept_def ids_keys)

interpretation kept: sweep_stable "kept k i e" for k i e
  by unfold_locales (erule kept_keys kept_count kept_drop | assumption)+

section \<open>Every operation keeps the invariant\<close>

lemma entry_touch:
  assumes "entry_inv c" "entries c' = entries c" "spools c' = spools c"
    "\<And>s. acct_bytes (account c' s) = acct_bytes (account c s)" "stored_bytes c' = stored_bytes c"
    "\<And>j. j \<in> listed c \<Longrightarrow> response (entry c' j) = response (entry c j) \<and>
       (expires_at (entry c' j) = None) = (\<not> is_complete (entry c' j))"
  shows "entry_inv c'"
proof -
  have l: "listed c' = listed c" using assms(2) by (simp add: listed_def)
  have h: "holders c' = holders c" using assms(6) by (auto simp: holders_def l fun_eq_iff)
  have "entry_ok c' j" if "j \<in> listed c" for j
    using assms that by (auto simp: entry_inv_def entry_ok_def h)
  moreover have "(\<Sum>i \<in> listed c. weight (entry c' i)) = (\<Sum>i \<in> listed c. weight (entry c i))"
    by (rule sum.cong) (simp_all add: assms(6) weight_def)
  ultimately show ?thesis using assms(1, 5) by (simp add: entry_inv_def l)
qed

lemma entry_store:
  assumes "entry_inv c" "i \<in> listed c" "response (entry c i) = None" "body r \<in> set (spools c)"
    "acct_bytes (account c (body r)) = body_bytes r" "holders c (body r) = {}"
    "entries c' = entries c" "spools c' = spools c"
    "\<And>s. acct_bytes (account c' s) = acct_bytes (account c s)"
    "stored_bytes c' = stored_bytes c + body_bytes r" "entry c' = (entry c)(i := e)"
    "response e = Some r" "expires_at e \<noteq> None"
  shows "entry_inv c'"
proof -
  have l: "listed c' = listed c" using assms(7) by (simp add: listed_def)
  have h: "holders c' s = (if s = body r then {i} else holders c s)" for s
    using assms(2, 3, 6, 12) by (auto simp: holders_def l assms(11))
  have "entry_ok c' j" if "j \<in> listed c" for j
  proof (cases "j = i")
    case True
    then show ?thesis using assms by (simp add: entry_ok_def h is_complete_def)
  next
    case False
    then show ?thesis
      using assms(1, 8, 9, 11) that holders_empty [OF assms(6) that]
      by (auto simp: entry_inv_def entry_ok_def h)
  qed
  moreover have "(\<Sum>i \<in> listed c. weight (entry c' i)) = (\<Sum>i \<in> listed c. weight (entry c i)) + body_bytes r"
    using sum_upd [OF finite_listed assms(2), of weight "entry c" e] assms(3, 12)
    by (simp add: assms(11) weight_def)
  ultimately show ?thesis using assms(1, 10) by (simp add: entry_inv_def l)
qed

text \<open>What the callers of the coordinator respect.\<close>

definition allowed :: "idempotency_op \<Rightarrow> Coordinator \<Rightarrow> bool" where
  "allowed op c = (case op of
       AppendBegin now s n \<Rightarrow> 0 \<le> n \<and> holders c s = {}
     | AppendFailed s \<Rightarrow> s < next_spool c \<and> holders c s = {}
     | CloseSpool (Some s) \<Rightarrow> s < next_spool c \<and> holders c s = {}
     | Complete now k t r m \<Rightarrow>
         (case owned_entry k t c of None \<Rightarrow> True | Some i \<Rightarrow> \<not> is_complete (entry c i)) \<and>
         holders c (body r) = {} \<and>
         (body r \<in> set (spools c) \<longrightarrow> acct_bytes (account c (body r)) = body_bytes r)
     | _ \<Rightarrow> True)"

lemma inv_parts:
  assumes "coordinator_inv c"
  shows "ids_inv c" "spool_inv c" "entry_inv c" "length (entries c) \<le> max_entries c"
  using assms by (simp_all add: coordinator_inv_def)

lemma inv_whole:
  "ids_inv c \<Longrightarrow> spool_inv c \<Longrightarrow> entry_inv c \<Longrightarrow> length (entries c) \<le> max_entries c \<Longrightarrow> coordinator_inv c"
  by (simp add: coordinator_inv_def)

lemma body_registered:
  "entry_inv c \<Longrightarrow> i \<in> holders c s \<Longrightarrow> s \<in> set (spools c)"
  by (auto simp: entry_inv_def entry_ok_def holders_def)

lemma create_spool_inv:
  assumes "coordinator_inv c" shows "coordinator_inv (snd (create_spool kind c))"
proof -
  let ?c = "snd (create_spool kind c)"
  have new: "next_spool c \<notin> set (spools c)" "holders c (next_spool c) = {}"
    "next_spool c \<notin> set (closed_spools c)"
    using inv_parts(2) [OF assms] body_registered [OF inv_parts(3) [OF assms]]
    by (auto simp: spool_inv_def)
  have f: "entries ?c = entries c" "entry ?c = entry c" "next_entry ?c = next_entry c"
    "max_entries ?c = max_entries c" "spools ?c = spools c @ [next_spool c]" "next_spool ?c = Suc (next_spool c)"
    "closed_spools ?c = closed_spools c" "spool_bytes ?c = spool_bytes c"
    "spool_bytes_by_kind ?c = spool_bytes_by_kind c" "max_stored_bytes ?c = max_stored_bytes c"
    "stored_bytes ?c = stored_bytes c" "acct_bytes (account ?c (next_spool c)) = 0"
    "\<And>s. s \<noteq> next_spool c \<Longrightarrow> account ?c s = account c s"
    by (simp_all add: create_spool_def Let_def)
  have old: "account ?c s = account c s" if "s \<in> set (spools c)" for s
    using that new(1) by (intro f) blast
  have "kind_sum ?c P = kind_sum c P" for P
  proof -
    have "(\<Sum>s \<in> set (spools c). if P (acct_kind (account ?c s)) then acct_bytes (account ?c s) else 0) =
        kind_sum c P"
      unfolding kind_sum_def using old by (intro sum.cong) (simp_all)
    then show ?thesis using new(1) by (simp add: kind_sum_def [of ?c] f)
  qed
  then have "spool_inv ?c"
    using inv_parts(2) [OF assms] new old by (auto simp: spool_inv_def f(5-12))
  moreover have h: "holders ?c = holders c" "listed ?c = listed c"
    by (simp_all add: holders_def listed_def f fun_eq_iff)
  have "entry_ok ?c i" if "i \<in> listed c" for i
  proof -
    have "entry_ok c i" using inv_parts(3) [OF assms] that by (simp add: entry_inv_def)
    then show ?thesis by (auto simp: entry_ok_def h f(2) f(5) old)
  qed
  then have "entry_inv ?c" using inv_parts(3) [OF assms] by (simp add: entry_inv_def h f(2) f(11))
  moreover have "ids_inv ?c"
    by (rule ids_same [OF inv_parts(1) [OF assms]]) (simp_all add: f(1,3))
  ultimately show ?thesis using inv_parts(4) [OF assms] by (intro inv_whole) (simp_all add: f(1,4))
qed

lemma growth_entry_inv:
  assumes "entry_inv c" "holders c s = {}"
  shows "entry_inv (account_spool_growth s n c)"
proof -
  have h: "holders (account_spool_growth s n c) = holders c" "listed (account_spool_growth s n c) = listed c"
    by (simp_all add: holders_def listed_def account_spool_growth_def Let_def fun_eq_iff)
  have "entry_ok (account_spool_growth s n c) i" if "i \<in> listed c" for i
    using assms(1) that holders_empty [OF assms(2) that]
    by (auto simp: entry_inv_def entry_ok_def h) (auto simp: account_spool_growth_def Let_def)
  with assms(1) show ?thesis
    by (simp add: entry_inv_def h) (simp add: account_spool_growth_def Let_def)
qed

lemma growth_inv:
  assumes "unheld s a c" "0 \<le> n" "spool_bytes c + n \<le> max_stored_bytes c"
  shows "coordinator_inv (account_spool_growth s n c)"
proof -
  have c: "coordinator_inv c" "s \<in> set (spools c)" "holders c s = {}"
    using assms(1) by (simp_all add: unheld_def)
  show ?thesis
  proof (rule inv_whole)
    show "ids_inv (account_spool_growth s n c)"
      by (rule ids_same [OF inv_parts(1) [OF c(1)]]) (simp_all add: account_spool_growth_def Let_def)
    show "length (entries (account_spool_growth s n c)) \<le> max_entries (account_spool_growth s n c)"
      using inv_parts(4) [OF c(1)] by (simp add: account_spool_growth_def Let_def)
  qed (use inv_parts [OF c(1)] c assms in \<open>simp_all add: spool_inv_growth growth_entry_inv\<close>)
qed

lemma append_begin_answer:
  assumes "append_spool_begin now s n c = Inr (ans, c')" "n \<noteq> 0"
    "make_spool_room n (if max_stored_bytes c < spool_bytes c + n then prune_expired now c else c) = (room, d)"
  shows "s \<in> set (spools c)"
    "c' = (if room then account_spool_growth s n d else count ''spool_capacity_rejections'' d)"
  using assms by (auto simp: append_spool_begin_def Let_def simp del: if_split split: if_split_asm)

lemma append_begin_inv:
  assumes "coordinator_inv c" "allowed (AppendBegin now s n) c" "append_spool_begin now s n c = Inr (ans, c')"
  shows "coordinator_inv c'"
proof (cases "n = 0")
  case False
  define c1 where "c1 = (if max_stored_bytes c < spool_bytes c + n then prune_expired now c else c)"
  obtain room d where d: "make_spool_room n c1 = (room, d)" by (cases "make_spool_room n c1")
  note answer = append_begin_answer [OF assms(3) False d [unfolded c1_def]]
  have n: "0 \<le> n" and h: "holders c s = {}" using assms(2) by (simp_all add: allowed_def)
  have "unheld s (account c s) c" using assms(1) answer(1) h by (simp add: unheld_def)
  then have "unheld s (account c s) c1" by (simp add: unheld.pruned c1_def)
  then have u: "unheld s (account c s) d" using d by (rule unheld.spool_room)
  then have inv: "coordinator_inv d" by (simp add: unheld_def)
  show ?thesis
  proof (cases room)
    case True
    then show ?thesis
      using growth_inv [OF u n] spool_room_answer(1) [OF d] answer(2) by simp
  qed (use answer(2) inv in \<open>simp add: coordinator_count\<close>)
qed (use assms in \<open>simp add: append_spool_begin_def\<close>)

lemma coordinator_same:
  assumes "coordinator_inv c" "entries c' = entries c" "entry c' = entry c" "spools c' = spools c"
    "next_entry c' = next_entry c" "max_entries c' = max_entries c" "next_spool c' = next_spool c"
    "\<And>s. acct_bytes (account c' s) = acct_bytes (account c s)"
    "\<And>s. acct_kind (account c' s) = acct_kind (account c s)" "stored_bytes c' = stored_bytes c"
    "closed_spools c' = closed_spools c" "spool_bytes c' = spool_bytes c"
    "spool_bytes_by_kind c' = spool_bytes_by_kind c" "max_stored_bytes c' = max_stored_bytes c"
  shows "coordinator_inv c'"
  using assms ids_same [of c c'] spool_same [of c c'] entry_same [of c c'] by (simp add: coordinator_inv_def)

lemma append_done_inv: "coordinator_inv c \<Longrightarrow> coordinator_inv (append_spool_done s m c)"
  by (erule coordinator_same) (simp_all add: append_spool_done_def Let_def)

lemma discard_inv:
  "coordinator_inv c \<Longrightarrow> s < next_spool c \<Longrightarrow> holders c s = {} \<Longrightarrow> coordinator_inv (discard_spool s c)"
  using ids_same [of c "discard_spool s c"] spool_inv_discard [of c s] entry_inv_discard [of c s]
  by (simp add: coordinator_inv_def)

lemma settled_iff:
  "entry_inv c \<Longrightarrow> j \<in> listed c \<Longrightarrow> (expires_at (entry c j) = None) = (\<not> is_complete (entry c j))"
  by (simp add: entry_inv_def entry_ok_def)

lemma touch_inv:
  assumes "coordinator_inv c"
    "i \<in> listed c \<Longrightarrow> response e = response (entry c i) \<and> (expires_at e = None) = (\<not> is_complete e)"
  shows "coordinator_inv (set_entry i e c)"
proof (rule inv_whole)
  note inv = inv_parts [OF assms(1)]
  show "ids_inv (set_entry i e c)" by (rule ids_same [OF inv(1)]) simp_all
  show "spool_inv (set_entry i e c)" by (rule spool_same [OF inv(2)]) simp_all
  show "length (entries (set_entry i e c)) \<le> max_entries (set_entry i e c)" using inv(4) by simp
  have "response (entry (set_entry i e c) j) = response (entry c j) \<and>
      (expires_at (entry (set_entry i e c) j) = None) = (\<not> is_complete (entry (set_entry i e c) j))"
    if "j \<in> listed c" for j
    using assms(2) settled_iff [OF inv(3) that] that by (cases "j = i") simp_all
  then show "entry_inv (set_entry i e c)" by (rule entry_touch [OF inv(3), rotated 4]) simp_all
qed

lemma release_inv:
  assumes "coordinator_inv c" "(k, i) \<in> set (entries c)"
  shows "coordinator_inv (release_entry k i nc c)"
proof -
  let ?d = "count ''failures_released'' (drop_entry k i c)"
  let ?c = "if nc then count ''responses_not_cached'' ?d else ?d"
  have "coordinator_inv ?c" using assms by (simp add: coordinator_count drop_entry_inv)
  moreover have "i \<notin> listed ?c"
    using listed_delete [of c k i] assms by (simp add: listed_def coordinator_inv_def)
  ultimately have "coordinator_inv (set_entry i ((entry ?c i)\<lparr>event := True\<rparr>) ?c)" by (intro touch_inv) auto
  then show ?thesis by (simp add: release_entry_def Let_def)
qed

lemma insert_inv:
  assumes "coordinator_inv c" "map_of (entries c) k = None" "length (entries c) < max_entries c"
    "response e = None" "nonreplayable_reason e = None" "expires_at e = None"
  shows "coordinator_inv (set_entry (next_entry c) e
           (c\<lparr>entries := AList.update k (next_entry c) (entries c), next_entry := Suc (next_entry c)\<rparr>))"
    (is "coordinator_inv ?c")
proof -
  note inv = inv_parts [OF assms(1)]
  have fresh: "next_entry c \<notin> listed c" using inv(1) by (auto simp: ids_inv_def)
  have f: "entries ?c = entries c @ [(k, next_entry c)]" "entry ?c = (entry c)(next_entry c := e)"
    "spools ?c = spools c" "account ?c = account c" "stored_bytes ?c = stored_bytes c"
    using assms(2) by (simp_all add: update_absent)
  have l: "listed ?c = insert (next_entry c) (listed c)" unfolding listed_def f(1) by simp
  have h: "holders ?c s = holders c s" for s using fresh assms(4) by (auto simp: holders_def l f(2))
  have "entry_ok ?c i" if "i \<in> listed ?c" for i
  proof (cases "i = next_entry c")
    case True
    then show ?thesis using assms(4-6) by (simp add: entry_ok_def f(2) is_complete_def)
  next
    case False
    then have "entry_ok c i" using that inv(3) by (simp add: l entry_inv_def)
    with False show ?thesis by (simp add: entry_ok_def h f(2-4))
  qed
  moreover have "(\<Sum>i \<in> listed c. weight (entry ?c i)) = (\<Sum>i \<in> listed c. weight (entry c i))"
    using fresh by (intro sum.cong) (auto simp: f(2))
  then have "(\<Sum>i \<in> listed ?c. weight (entry ?c i)) = stored_bytes c"
    using inv(3) fresh assms(4) by (simp add: l f(2) entry_inv_def weight_def)
  ultimately have "entry_inv ?c" unfolding entry_inv_def f(5) by simp
  moreover have "ids_inv ?c" by (rule ids_insert [OF inv(1) assms(2)]) simp_all
  moreover have "spool_inv ?c" by (rule spool_same [OF inv(2)]) simp_all
  moreover have "length (entries ?c) \<le> max_entries ?c" using assms(3) by (simp only: f(1)) simp
  ultimately show ?thesis by (intro inv_whole)
qed

lemma claim_inv:
  assumes "coordinator_inv c"
  shows "coordinator_inv (snd (claim token now k h c))"
proof (cases "map_of (entries (prune_expired now c)) k")
  case None
  let ?p = "prune_expired now c"
  obtain room d where d: "make_entry_room ?p = (room, d)" by (cases "make_entry_room ?p")
  have inv: "coordinator_inv d" using d by (rule whole.entry_room [OF whole.pruned [OF assms]])
  have "set (entries d) \<subseteq> set (entries ?p)" using room_subset [OF d] .
  then have "map_of (entries d) k = None" using None by (auto simp: map_of_eq_None_iff)
  then show ?thesis
    using None d inv entry_room_answer(1) [OF d]
    by (simp add: claim_def Let_def coordinator_count insert_inv)
next
  case (Some i)
  have inv: "coordinator_inv (prune_expired now c)" using assms by (rule whole.pruned)
  have "i \<in> listed (prune_expired now c)" using Some by (auto intro: listedI map_of_SomeD)
  then show ?thesis
    using Some inv settled_iff [OF inv_parts(3) [OF inv], of i]
    by (auto simp: claim_def Let_def coordinator_count is_complete_def intro!: coordinator_count touch_inv
        split: option.splits)
qed

lemma owned_entry_listed: "owned_entry k t c = Some i \<Longrightarrow> (k, i) \<in> set (entries c)"
  by (auto simp: owned_entry_def map_of_SomeD split: option.splits if_splits)

lemma pending_not_removable:
  "entry_inv c \<Longrightarrow> i \<in> listed c \<Longrightarrow> \<not> is_complete (entry c i) \<Longrightarrow> \<not> removable (entry c i)"
  using settled_iff by (auto simp: removable_def)

lemma complete_inv:
  assumes "coordinator_inv c" "allowed (Complete now k t r m) c"
  shows "coordinator_inv (snd (complete now k t r m c))"
proof (cases "owned_entry k t c")
  case (Some i)
  note listed = owned_entry_listed [OF Some]
  let ?p = "prune_expired now c"
  have pending: "\<not> is_complete (entry c i)" and free: "holders c (body r) = {}"
    using assms(2) Some by (simp_all add: allowed_def)
  have "kept k i (entry c i) c"
    using pending_not_removable [OF inv_parts(3) [OF assms(1)] listedI [OF listed] pending] listed
      inv_parts(1) [OF assms(1)]
    by (simp add: kept_def)
  then have "kept k i (entry c i) ?p" by (rule kept.pruned)
  then have still: "(k, i) \<in> set (entries ?p)" by (simp add: kept_def)
  have inv: "coordinator_inv ?p" using assms(1) by (rule whole.pruned)
  note parts = inv_parts [OF inv]
  consider (big) "max_response_bytes c < body_bytes r"
    | (gone) "\<not> max_response_bytes c < body_bytes r" "body r \<notin> set (spools ?p)"
    | (stored) "\<not> max_response_bytes c < body_bytes r" "body r \<in> set (spools ?p)" by blast
  then show ?thesis
  proof cases
    case big
    then show ?thesis using Some release_inv [OF assms(1) listed] by (simp add: complete_def)
  next
    case gone
    then show ?thesis using Some release_inv [OF inv still] by (simp add: complete_def Let_def)
  next
    case stored
    have "body r \<in> set (spools c)" using stored(2) pruned_spools by blast
    then have "unheld (body r) (account c (body r)) c" using assms(1) free by (simp add: unheld_def)
    then have "unheld (body r) (account c (body r)) ?p" by (rule unheld.pruned)
    then have body: "holders ?p (body r) = {}" "acct_bytes (account ?p (body r)) = body_bytes r"
      using assms(2) Some \<open>body r \<in> set (spools c)\<close> by (simp_all add: unheld_def allowed_def)
    define e where "e = (entry c i)\<lparr>response := Some r, completed_at := Some now,
      expires_at := Some (now + ttl_seconds ?p), event := True\<rparr>"
    have e: "response e = Some r" "expires_at e \<noteq> None" by (simp_all add: e_def)
    let ?q = "set_spool_memory (body r) m ?p"
    let ?s = "set_entry i e (?q\<lparr>stored_bytes := stored_bytes ?q + body_bytes r\<rparr>)"
    have eq: "snd (complete now k t r m c) = move_spool_kind (body r) ''completed_response'' ?s"
      using Some stored by (simp add: complete_def Let_def e_def)
    have "spool_inv ?s" by (rule spool_same [OF parts(2)]) simp_all
    then have "spool_inv (move_spool_kind (body r) ''completed_response'' ?s)"
      using stored(2) by (intro spool_inv_move) simp_all
    moreover have "entry_inv (move_spool_kind (body r) ''completed_response'' ?s)"
      using pending by (intro entry_store [where e = e, OF parts(3) listedI [OF still] _ stored(2) body(2, 1)])
        (simp_all add: is_complete_def e)
    moreover have "ids_inv (move_spool_kind (body r) ''completed_response'' ?s)"
      by (rule ids_same [OF parts(1)]) simp_all
    ultimately show ?thesis unfolding eq using parts(4) by (intro inv_whole) simp_all
  qed
qed (use assms in \<open>simp add: complete_def\<close>)

lemma complete_nonreplayable_inv:
  assumes "coordinator_inv c"
  shows "coordinator_inv (snd (complete_nonreplayable now k t reason c))"
proof (cases "owned_entry k t c")
  case (Some i)
  then show ?thesis
    using assms by (auto simp: complete_nonreplayable_def Let_def is_complete_def
        intro!: touch_inv coordinator_count whole.pruned)
qed (use assms in \<open>simp add: complete_nonreplayable_def\<close>)

lemma finish_replay_inv:
  assumes "coordinator_inv c" "finish_replay i c = Inr c'"
  shows "coordinator_inv c'"
  using assms settled_iff [OF inv_parts(3) [OF assms(1)], of i]
  by (auto simp: finish_replay_def is_complete_def split: if_splits intro!: touch_inv)

lemma release_failure_inv:
  "coordinator_inv c \<Longrightarrow> coordinator_inv (snd (release_failure k t nc c))"
  by (auto simp: release_failure_def owned_entry_listed release_inv split: option.split)

lemma coordinator_step_inv:
  assumes "coordinator_inv c" "allowed op c"
  shows "coordinator_inv (coordinator_step token op c)"
proof (cases op)
  case (AppendBegin now s n)
  then show ?thesis
    using assms append_begin_inv [of c now s n] by (auto simp: coordinator_step_def split: sum.split)
next
  case (AppendFailed s)
  then show ?thesis
    using assms by (simp add: coordinator_step_def append_spool_failed_def allowed_def coordinator_count discard_inv)
next
  case (CloseSpool s)
  then show ?thesis
    using assms by (cases s) (simp_all add: coordinator_step_def close_spool_def allowed_def discard_inv)
next
  case (FinishReplay i)
  then show ?thesis
    using assms finish_replay_inv by (auto simp: coordinator_step_def split: sum.split)
qed (use assms in \<open>simp_all add: coordinator_step_def create_spool_inv append_done_inv claim_inv complete_inv
      complete_nonreplayable_inv release_failure_inv note_detached_disconnect_def coordinator_count\<close>)

interpretation coordinator: invariant_machine allowed "coordinator_step token" coordinator_inv for token
  by unfold_locales (rule coordinator_step_inv)

lemma new_coordinator_inv: "new_coordinator ttl n b r m = Inr c \<Longrightarrow> coordinator_inv c"
  by (auto simp: new_coordinator_def coordinator_inv_def ids_inv_def listed_def spool_inv_def kind_sum_def
      entry_inv_def split: if_splits)

section \<open>One owner\<close>

text \<open>The operations with which the owner of a key ends its work.\<close>

definition settles :: "string \<Rightarrow> string \<Rightarrow> idempotency_op \<Rightarrow> bool" where
  "settles k t op = (case op of
       Complete now k' t' r m \<Rightarrow> k' = k \<and> t' = t
     | CompleteNonreplayable now k' t' reason \<Rightarrow> k' = k \<and> t' = t
     | ReleaseFailure k' t' nc \<Rightarrow> k' = k \<and> t' = t
     | _ \<Rightarrow> False)"

definition pending :: "string \<Rightarrow> IdempotencyEntry \<Rightarrow> bool" where
  "pending t e \<longleftrightarrow> owner_token e = t \<and> response e = None \<and> nonreplayable_reason e = None \<and>
     expires_at e = None \<and> replay_readers e = 0"

lemma kept_same:
  "kept k i e c \<Longrightarrow> entries c' = entries c \<Longrightarrow> entry c' i = entry c i \<Longrightarrow> next_entry c' = next_entry c \<Longrightarrow>
   kept k i e c'"
  by (auto simp: kept_def intro: ids_same)

lemma kept_other: "kept k i e c \<Longrightarrow> (k', j) \<in> set (entries c) \<Longrightarrow> k' \<noteq> k \<Longrightarrow> j \<noteq> i"
  by (auto simp: kept_def dest: id_unique)

lemma kept_set_other: "kept k i e c \<Longrightarrow> j \<noteq> i \<Longrightarrow> kept k i e (set_entry j e' c)"
  by (erule kept_same) simp_all

lemma kept_map_of: "kept k i e c \<Longrightarrow> map_of (entries c) k = Some i \<and> entry c i = e"
  by (simp add: kept_def ids_map_of)

lemma kept_release:
  assumes "kept k i e c" "(k', j) \<in> set (entries c)" "k' \<noteq> k"
  shows "kept k i e (release_entry k' j nc c)"
proof -
  have "kept k i e (drop_entry k' j c)"
    using assms by (auto simp: kept_def set_delete intro: ids_delete)
  then show ?thesis
    using kept_other [OF assms] by (simp add: release_entry_def Let_def kept_count kept_set_other)
qed

lemma kept_claim:
  assumes "kept k i e c" "response e = None" "nonreplayable_reason e = None"
  shows "kept k i e (snd (claim token now k' h c))"
proof -
  let ?p = "prune_expired now c"
  have p: "kept k i e ?p" using assms(1) by (rule kept.pruned)
  show ?thesis
  proof (cases "map_of (entries ?p) k'")
    case None
    obtain room d where d: "make_entry_room ?p = (room, d)" by (cases "make_entry_room ?p")
    have k: "kept k i e d" using p d by (rule kept.entry_room)
    have free: "map_of (entries d) k' = None"
      using None room_subset [OF d] by (auto simp: map_of_eq_None_iff)
    have "next_entry d \<noteq> i"
      using k by (auto simp: kept_def ids_inv_def dest: listedI)
    moreover have "(k, i) \<in> set (AList.update k' j (entries d))" for j
      using k free by (simp add: update_absent kept_def)
    ultimately show ?thesis
      using None d k free by (auto simp: claim_def Let_def kept_def intro: ids_insert ids_same)
  next
    case (Some j)
    then have "k' = k \<or> j \<noteq> i" using kept_other [OF p map_of_SomeD] by blast
    then show ?thesis
      using Some p assms(2, 3) kept_map_of [OF p]
      by (auto simp: claim_def Let_def kept_count kept_set_other split: option.split)
  qed
qed

lemma kept_append_begin:
  assumes "kept k i e c" "append_spool_begin now s n c = Inr (ans, c')"
  shows "kept k i e c'"
proof (cases "n = 0")
  case False
  define c1 where "c1 = (if max_stored_bytes c < spool_bytes c + n then prune_expired now c else c)"
  obtain room d where d: "make_spool_room n c1 = (room, d)" by (cases "make_spool_room n c1")
  have "kept k i e c1" using assms(1) by (simp add: kept.pruned c1_def)
  then have "kept k i e d" using d by (rule kept.spool_room)
  moreover have "kept k i e (account_spool_growth s n d)" if "kept k i e d"
    using that by (rule kept_same) (simp_all add: account_spool_growth_def Let_def)
  ultimately show ?thesis
    using append_begin_answer(2) [OF assms(2) False d [unfolded c1_def]] by (simp add: kept_count)
qed (use assms in \<open>simp add: append_spool_begin_def\<close>)

lemma owned_other: "kept k i e c \<Longrightarrow> owned_entry k' t c = Some j \<Longrightarrow> \<not> (k' = k \<and> t = owner_token e) \<Longrightarrow> k' \<noteq> k"
  using kept_map_of by (fastforce simp: owned_entry_def split: option.splits if_splits)

lemma kept_complete:
  assumes "kept k i e c" "\<not> (k' = k \<and> t = owner_token e)"
  shows "kept k i e (snd (complete now k' t r m c))"
proof (cases "owned_entry k' t c")
  case (Some j)
  note other = owned_other [OF assms(1) Some assms(2)] and here = owned_entry_listed [OF Some]
  have ji: "j \<noteq> i" using kept_other [OF assms(1) here other] .
  have p: "kept k i e (prune_expired now c)" using assms(1) by (rule kept.pruned)
  have "kept k i e (release_entry k' j nc d)" if "kept k i e d" for nc d
  proof -
    have "kept k i e (drop_entry k' j d)"
      using that other by (auto simp: kept_def set_delete intro: ids_delete)
    then show ?thesis using ji by (simp add: release_entry_def Let_def kept_count kept_set_other)
  qed
  moreover have "kept k i e (move_spool_kind s kind (set_entry j e' (set_spool_memory s m d\<lparr>stored_bytes := b\<rparr>)))"
    if "kept k i e d" for s kind e' d b
    using that by (rule kept_same) (simp_all add: ji [symmetric])
  ultimately show ?thesis using Some assms(1) p by (simp add: complete_def Let_def)
qed (use assms in \<open>simp add: complete_def\<close>)

lemma kept_step_other:
  assumes "kept k i e c" "\<not> settles k (owner_token e) op" "op \<noteq> FinishReplay i"
    "\<And>now k h. op \<noteq> Claim now k h"
  shows "kept k i e (coordinator_step token op c)"
proof (cases op)
  case (CreateSpool kind)
  show ?thesis unfolding CreateSpool by (rule kept_same [OF assms(1)]) (simp_all add: coordinator_step_def create_spool_def Let_def)
next
  case (AppendBegin now s n)
  then show ?thesis
    using assms(1) kept_append_begin by (auto simp: coordinator_step_def split: sum.split)
next
  case (AppendDone s m)
  show ?thesis unfolding AppendDone
    by (rule kept_same [OF assms(1)]) (simp_all add: coordinator_step_def append_spool_done_def Let_def)
next
  case (AppendFailed s)
  show ?thesis unfolding AppendFailed
    by (rule kept_same [OF assms(1)]) (simp_all add: coordinator_step_def append_spool_failed_def)
next
  case (CloseSpool s)
  show ?thesis unfolding CloseSpool
    by (rule kept_same [OF assms(1)]) (simp_all add: coordinator_step_def close_spool_def split: option.split)
next
  case (Complete now k' t' r m)
  then show ?thesis using assms by (auto simp: coordinator_step_def settles_def intro: kept_complete)
next
  case (CompleteNonreplayable now k' t' reason)
  then have "\<not> (k' = k \<and> t' = owner_token e)" using assms(2) by (auto simp: settles_def)
  then have "j \<noteq> i" if "owned_entry k' t' c = Some j" for j
    using that assms(1) by (blast dest: owned_other kept_other owned_entry_listed)
  then show ?thesis
    using CompleteNonreplayable assms(1)
    by (auto simp: coordinator_step_def complete_nonreplayable_def Let_def kept_count kept_set_other kept.pruned
        split: option.split)
next
  case (FinishReplay j)
  then show ?thesis
    using assms(1, 3) by (auto simp: coordinator_step_def finish_replay_def intro: kept_set_other)
next
  case (ReleaseFailure k' t' nc)
  then have "\<not> (k' = k \<and> t' = owner_token e)" using assms(2) by (auto simp: settles_def)
  then show ?thesis
    using ReleaseFailure assms(1)
    by (auto simp: coordinator_step_def release_failure_def split: option.split
        intro: kept_release dest: owned_other owned_entry_listed)
next
  case NoteDisconnect
  then show ?thesis using assms(1) by (simp add: coordinator_step_def note_detached_disconnect_def kept_count)
qed (use assms(4) in simp)

lemma kept_step:
  assumes "kept k i e c" "pending t e" "\<not> settles k t op"
  shows "kept k i e (coordinator_step token op c)"
proof -
  consider now k' h where "op = Claim now k' h" | "op = FinishReplay i"
    | "\<And>now k h. op \<noteq> Claim now k h" "op \<noteq> FinishReplay i" by blast
  then show ?thesis
  proof cases
    case 1
    then show ?thesis using assms kept_claim by (simp add: coordinator_step_def pending_def)
  next
    case 2
    then show ?thesis
      using assms kept_map_of [OF assms(1)] by (simp add: coordinator_step_def finish_replay_def pending_def)
  next
    case 3
    then show ?thesis using assms kept_step_other [of k i e c op] by (simp add: pending_def)
  qed
qed

lemma kept_run:
  "kept k i e c \<Longrightarrow> pending t e \<Longrightarrow> \<forall>op \<in> set ops. \<not> settles k t op \<Longrightarrow>
   kept k i e (fold (coordinator_step token) ops c)"
  by (induction ops arbitrary: c) (auto intro: kept_step)

lemma claim_owner:
  assumes "claim token now k h c = (Owner i t, c')" "ids_inv c"
  shows "kept k i (entry c' i) c' \<and> pending t (entry c' i) \<and> request_hash (entry c' i) = h"
proof -
  let ?p = "prune_expired now c"
  have none: "map_of (entries ?p) k = None"
    using assms(1) by (auto simp: claim_def Let_def split: option.splits if_splits prod.splits)
  obtain room d where d: "make_entry_room ?p = (room, d)" by (cases "make_entry_room ?p")
  have ids: "ids_inv d" using d by (rule ids.entry_room [OF ids.pruned [OF assms(2)]])
  have free: "map_of (entries d) k = None" using none room_subset [OF d] by (auto simp: map_of_eq_None_iff)
  have c': "entries c' = entries d @ [(k, i)]" "next_entry c' = next_entry d + 1" "i = next_entry d"
    "pending t (entry c' i)" "request_hash (entry c' i) = h"
    using assms(1) none d free by (auto simp: claim_def Let_def pending_def update_absent split: if_splits)
  then have "ids_inv c'" using ids_insert [OF ids free] free by (simp add: update_absent)
  with c' show ?thesis by (simp add: kept_def removable_def pending_def is_complete_def)
qed

lemma claim_pending:
  assumes "kept k i e c" "pending t e"
  shows "fst (claim token now k h c) = (if h = request_hash e then Wait i else Conflict)"
  using assms kept_map_of [OF kept.pruned [OF assms(1)]]
  by (auto simp: claim_def Let_def pending_def)

section \<open>Replays in progress\<close>

definition read_by_replay :: "string \<Rightarrow> nat \<Rightarrow> CachedASGIResponse \<Rightarrow> Coordinator \<Rightarrow> bool" where
  "read_by_replay k i r c \<longleftrightarrow> coordinator_inv c \<and> (k, i) \<in> set (entries c) \<and>
     response (entry c i) = Some r \<and> 0 < replay_readers (entry c i)"

lemma reading_kept:
  "read_by_replay k i r c \<longleftrightarrow> coordinator_inv c \<and> (\<exists>e. kept k i e c \<and> response e = Some r \<and> 0 < replay_readers e)"
  by (auto simp: read_by_replay_def kept_def removable_def inv_parts)

lemma reading_source_open:
  assumes "read_by_replay k i r c"
  shows "body r \<in> set (spools c) \<and> body r \<notin> set (closed_spools c)"
proof -
  have c: "coordinator_inv c" "i \<in> listed c" "response (entry c i) = Some r"
    using assms by (auto simp: read_by_replay_def intro: listedI)
  then have "body r \<in> set (spools c)"
    using inv_parts(3) [OF c(1)] by (simp add: entry_inv_def entry_ok_def)
  with inv_parts(2) [OF c(1)] show ?thesis by (auto simp: spool_inv_def)
qed

lemma reading_claim:
  assumes "read_by_replay k i r c"
  shows "read_by_replay k i r (snd (claim token now k' h c))"
proof (cases "map_of (entries (prune_expired now c)) k'")
  case None
  then have "\<not> (\<exists>j. (k', j) \<in> set (entries (prune_expired now c)))" by (force simp: map_of_eq_None_iff)
  obtain e where e: "kept k i e c" "response e = Some r" "0 < replay_readers e"
    using assms by (auto simp: reading_kept)
  let ?p = "prune_expired now c"
  obtain room d where d: "make_entry_room ?p = (room, d)" by (cases "make_entry_room ?p")
  have k: "kept k i e d" by (rule kept.entry_room [OF kept.pruned [OF e(1)] d])
  have free: "map_of (entries d) k' = None"
    using None room_subset [OF d] by (auto simp: map_of_eq_None_iff)
  have "next_entry d \<noteq> i" using k by (auto simp: kept_def ids_inv_def dest: listedI)
  then have "kept k i e (snd (claim token now k' h c))"
    using None d k free by (auto simp: claim_def Let_def kept_def update_absent intro: ids_insert ids_same)
  with e claim_inv assms show ?thesis by (auto simp: reading_kept)
next
  case (Some j)
  have p: "read_by_replay k i r (prune_expired now c)"
    using assms by (auto simp: reading_kept intro: kept.pruned whole.pruned)
  have "coordinator_inv (snd (claim token now k' h c))" using assms by (simp add: claim_inv reading_kept)
  with Some p show ?thesis
    by (auto simp: claim_def Let_def read_by_replay_def split: option.split)
qed

text \<open>The operation that takes back the execution of a key.\<close>

definition takes_back :: "string \<Rightarrow> idempotency_op \<Rightarrow> bool" where
  "takes_back k op = (case op of ReleaseFailure k' t nc \<Rightarrow> k' = k | _ \<Rightarrow> False)"

text \<open>
  The replays of entry \<open>i\<close> in progress, counted from the calls and their answers alone: a claim that answers
  \<open>replay\<close> begins one, \<open>finish_replay\<close> ends one. It does not read the coordinator's own counter.
\<close>

definition replays_after ::
  "(string \<Rightarrow> string \<Rightarrow> time \<Rightarrow> string) \<Rightarrow> nat \<Rightarrow> idempotency_op \<Rightarrow> Coordinator \<Rightarrow> nat \<Rightarrow> nat" where
  "replays_after token i op c n = (case op of
       Claim now k h \<Rightarrow> (case fst (claim token now k h c) of Replay j r \<Rightarrow> if j = i then n + 1 else n | _ \<Rightarrow> n)
     | FinishReplay j \<Rightarrow> if j = i then n - 1 else n
     | _ \<Rightarrow> n)"

fun replays_running ::
  "(string \<Rightarrow> string \<Rightarrow> time \<Rightarrow> string) \<Rightarrow> nat \<Rightarrow> idempotency_op list \<Rightarrow> Coordinator \<Rightarrow> nat \<Rightarrow> nat" where
  "replays_running token i [] c n = n"
| "replays_running token i (op # ops) c n =
     replays_running token i ops (coordinator_step token op c) (replays_after token i op c n)"

text \<open>The counter of the entry is that number.\<close>

definition counts_replays :: "nat \<Rightarrow> Coordinator \<Rightarrow> nat \<Rightarrow> bool" where
  "counts_replays i c n \<longleftrightarrow> (if i < next_entry c then replay_readers (entry c i) = n else n = 0)"

lemma entry_numbered: "coordinator_inv c \<Longrightarrow> (k, i) \<in> set (entries c) \<Longrightarrow> i < next_entry c"
  by (auto simp: coordinator_inv_def ids_inv_def dest: listedI)

lemma release_readers [simp]:
  "next_entry (release_entry k j nc c) = next_entry c"
  "replay_readers (entry (release_entry k j nc c) i) = replay_readers (entry c i)"
  by (simp_all add: release_entry_def Let_def)

lemma counts_claim:
  assumes "coordinator_inv c" "counts_replays i c n"
  shows "counts_replays i (snd (claim token now k h c)) (replays_after token i (Claim now k h) c n)"
proof (cases "map_of (entries (prune_expired now c)) k")
  case None
  obtain room d where d: "make_entry_room (prune_expired now c) = (room, d)" by fastforce
  then show ?thesis
    using None assms(2) entry_room_answer [OF d]
    by (auto simp: claim_def replays_after_def counts_replays_def Let_def)
next
  case (Some j)
  then have "j < next_entry c"
    using entry_numbered [OF whole.pruned [OF assms(1)], of k j now] by (simp add: map_of_SomeD)
  with Some assms(2) show ?thesis
    by (auto simp: claim_def replays_after_def counts_replays_def Let_def split: option.split)
qed

lemma counts_step:
  assumes "coordinator_inv c" "counts_replays i c n"
  shows "counts_replays i (coordinator_step token op c) (replays_after token i op c n)"
proof (cases op)
  case (Claim now k h)
  with counts_claim [OF assms] show ?thesis by (simp add: coordinator_step_def)
next
  case (AppendBegin now s m)
  obtain room d where d: "make_spool_room m (if max_stored_bytes c < spool_bytes c + m then prune_expired now c else c)
      = (room, d)" by fastforce
  show ?thesis
    using assms(2) spool_room_answer [OF d] AppendBegin d
    by (auto simp: coordinator_step_def append_spool_begin_def account_spool_growth_def Let_def replays_after_def
        counts_replays_def split: if_splits)
next
  case (Complete now k t r m)
  then show ?thesis
    using assms(2)
    by (auto simp: coordinator_step_def complete_def replays_after_def counts_replays_def Let_def split: option.split)
next
  case (FinishReplay j)
  then show ?thesis
    using assms(2) by (auto simp: coordinator_step_def finish_replay_def replays_after_def counts_replays_def)
next
  case (ReleaseFailure k t nc)
  then show ?thesis
    using assms(2) by (auto simp: coordinator_step_def release_failure_def replays_after_def counts_replays_def split: option.split)
qed (use assms(2) in \<open>auto simp: coordinator_step_def create_spool_def append_spool_done_def append_spool_failed_def
    close_spool_def complete_nonreplayable_def note_detached_disconnect_def replays_after_def counts_replays_def Let_def
    split: option.split\<close>)

lemma counts_run:
  "coordinator_inv c \<Longrightarrow> legal allowed (coordinator_step token) ops c \<Longrightarrow> counts_replays i c n \<Longrightarrow>
   counts_replays i (fold (coordinator_step token) ops c) (replays_running token i ops c n)"
  by (induction ops arbitrary: c n) (auto intro: counts_step coordinator_step_inv)

lemma reading_nonreplayable:
  assumes "read_by_replay k i r c"
  shows "read_by_replay k i r (snd (complete_nonreplayable now k' t reason c))"
proof (cases "owned_entry k' t c")
  case (Some j)
  have p: "read_by_replay k i r (prune_expired now c)"
    using assms by (auto simp: reading_kept intro: kept.pruned whole.pruned)
  have "coordinator_inv (snd (complete_nonreplayable now k' t reason c))"
    using assms by (simp add: complete_nonreplayable_inv reading_kept)
  with Some p show ?thesis
    by (auto simp: complete_nonreplayable_def Let_def read_by_replay_def)
qed (use assms in \<open>simp add: complete_nonreplayable_def\<close>)

lemma reading_step:
  assumes "read_by_replay k i r c" "allowed op c" "\<not> takes_back k op"
    and "0 < replays_after token i op c (replay_readers (entry c i))"
  shows "read_by_replay k i r (coordinator_step token op c)"
proof -
  obtain e where e: "kept k i e c" "response e = Some r" "0 < replay_readers e" "coordinator_inv c"
    using assms(1) by (auto simp: reading_kept)
  have own: "owned_entry k (owner_token e) c = Some i" using kept_map_of [OF e(1)] by (simp add: owned_entry_def)
  consider now k' h where "op = Claim now k' h"
    | now k' t reason where "op = CompleteNonreplayable now k' t reason"
    | "op = FinishReplay i"
    | "\<And>now k h. op \<noteq> Claim now k h" "\<And>now k t reason. op \<noteq> CompleteNonreplayable now k t reason"
      "op \<noteq> FinishReplay i" by blast
  then show ?thesis
  proof cases
    case 1
    then show ?thesis using assms(1) by (simp add: coordinator_step_def reading_claim)
  next
    case 2
    then show ?thesis using assms(1) by (simp add: coordinator_step_def reading_nonreplayable)
  next
    case 3
    with assms(4) have "1 < replay_readers (entry c i)" by (simp add: replays_after_def)
    with 3 assms(1) coordinator_step_inv [OF e(4) assms(2), of token] show ?thesis
      by (auto simp: coordinator_step_def finish_replay_def read_by_replay_def)
  next
    case 4
    have "op \<noteq> Complete now k (owner_token e) r' m" for now r' m
      using assms(2) own e(2) kept_map_of [OF e(1)] by (auto simp: allowed_def is_complete_def)
    then have "\<not> settles k (owner_token e) op"
      using assms(3) 4(2) by (auto simp: settles_def takes_back_def split: idempotency_op.splits)
    with 4(1, 3) e have "kept k i e (coordinator_step token op c)" by (intro kept_step_other)
    with e coordinator_step_inv [OF e(4) assms(2)] show ?thesis by (auto simp: reading_kept)
  qed
qed

lemma reading_run:
  assumes "read_by_replay k i r c" "legal allowed (coordinator_step token) ops c" "\<forall>op \<in> set ops. \<not> takes_back k op"
    and "counts_replays i c n" "\<forall>m \<le> length ops. 0 < replays_running token i (List.take m ops) c n"
  shows "read_by_replay k i r (fold (coordinator_step token) ops c)"
  using assms
proof (induction ops arbitrary: c n)
  case (Cons op ops)
  have inv: "coordinator_inv c" "(k, i) \<in> set (entries c)" using Cons.prems(1) by (simp_all add: read_by_replay_def)
  then have "i < next_entry c" by (rule entry_numbered)
  with Cons.prems(4) have n: "replay_readers (entry c i) = n" by (simp add: counts_replays_def)
  have later: "0 < replays_running token i (List.take m ops) (coordinator_step token op c) (replays_after token i op c n)"
    if "m \<le> length ops" for m
    using Cons.prems(5) [rule_format, of "Suc m"] that by simp
  from later [of 0] have "read_by_replay k i r (coordinator_step token op c)"
    using Cons.prems(1-3) by (intro reading_step) (simp_all add: n)
  from Cons.IH [OF this _ _ counts_step [OF inv(1) Cons.prems(4), of token op]] Cons.prems(2, 3) later
  show ?case by simp
qed simp

lemma claim_replay:
  assumes "claim token now k h c = (Replay i r, c')" "coordinator_inv c"
  shows "read_by_replay k i r c'"
proof -
  let ?p = "prune_expired now c"
  have inv: "coordinator_inv ?p" "coordinator_inv c'"
    using assms(2) claim_inv [OF assms(2), of token now k h] by (simp_all add: whole.pruned assms(1))
  obtain "map_of (entries ?p) k = Some i" "response (entry ?p i) = Some r"
    "c' = count ''replays'' (set_entry i ((entry ?p i)\<lparr>replay_readers := replay_readers (entry ?p i) + 1\<rparr>) ?p)"
    using assms(1) by (auto simp: claim_def Let_def split: option.splits if_splits prod.splits)
  then show ?thesis
    using inv(2) by (auto simp: read_by_replay_def map_of_SomeD)
qed

section \<open>Stored responses fit the spool quota\<close>

lemma config_step:
  "max_entries (coordinator_step token op c) = max_entries c \<and>
   max_stored_bytes (coordinator_step token op c) = max_stored_bytes c"
proof (cases op)
  case (AppendBegin now s n)
  obtain room d where d: "make_spool_room n (if max_stored_bytes c < spool_bytes c + n then prune_expired now c else c)
      = (room, d)" by fastforce
  show ?thesis
  proof (cases "append_spool_begin now s n c")
    case (Inr p)
    then show ?thesis
      using append_begin_answer(2) [of now s n c "fst p" "snd p" room d] d spool_room_answer(4, 6) [OF d] AppendBegin
      by (cases "n = 0") (auto simp: coordinator_step_def append_spool_begin_def account_spool_growth_def Let_def
          split: prod.splits)
  qed (simp add: coordinator_step_def AppendBegin)
next
  case (Claim now k h)
  obtain room d where d: "make_entry_room (prune_expired now c) = (room, d)"
    by (cases "make_entry_room (prune_expired now c)")
  then show ?thesis
    using entry_room_answer(4, 6) [OF d] Claim
    by (auto simp: coordinator_step_def claim_def Let_def split: option.split)
qed (auto simp: coordinator_step_def create_spool_def append_spool_done_def append_spool_failed_def close_spool_def
    complete_def complete_nonreplayable_def finish_replay_def release_failure_def release_entry_def
    note_detached_disconnect_def Let_def split: option.split)

lemma config_run:
  "max_entries (fold (coordinator_step token) ops c) = max_entries c"
  "max_stored_bytes (fold (coordinator_step token) ops c) = max_stored_bytes c"
  by (induction ops arbitrary: c) (simp_all add: config_step)

lemma stored_le_spools:
  assumes "coordinator_inv c"
  shows "stored_bytes c \<le> spool_bytes c"
proof -
  note inv = inv_parts [OF assms]
  let ?R = "{i \<in> listed c. response (entry c i) \<noteq> None}"
  let ?b = "\<lambda>i. body (the (response (entry c i)))"
  have ok: "?b i \<in> set (spools c)" "acct_bytes (account c (?b i)) = weight (entry c i)" "holders c (?b i) = {i}"
    if "i \<in> ?R" for i
    using that inv(3) by (auto simp: entry_inv_def entry_ok_def weight_def)
  have "inj_on ?b ?R" using ok(3) by (intro inj_onI) (metis singleton_inject)
  have "stored_bytes c = (\<Sum>i \<in> ?R. weight (entry c i))"
    using inv(3) by (auto simp: entry_inv_def weight_def intro!: sum.mono_neutral_right split: option.split_asm)
  also have "\<dots> = (\<Sum>i \<in> ?R. acct_bytes (account c (?b i)))" by (rule sum.cong) (simp_all add: ok(2))
  also have "\<dots> = (\<Sum>s \<in> ?b ` ?R. acct_bytes (account c s))"
    using \<open>inj_on ?b ?R\<close> by (simp add: sum.reindex)
  also have "\<dots> \<le> (\<Sum>s \<in> set (spools c). acct_bytes (account c s))"
    using ok(1) inv(2) by (intro sum_mono2) (auto simp: spool_inv_def)
  also have "\<dots> = spool_bytes c" using inv(2) by (simp add: spool_inv_def kind_sum_def)
  finally show ?thesis .
qed

section \<open>Properties\<close>

definition demo_token :: "string \<Rightarrow> string \<Rightarrow> time \<Rightarrow> string" where
  "demo_token k h now = k @ h"

definition demo_response :: CachedASGIResponse where
  "demo_response = \<lparr>cached_status_code = 200, cached_headers = [], body = 0, body_bytes = 7\<rparr>"

definition demo_start :: Coordinator where
  "demo_start = projr (new_coordinator 900 2 100 50 16)"

definition demo_execution :: "idempotency_op list" where
  "demo_execution =
     [Claim 1 ''a'' ''h'', CreateSpool ''inflight_response'', AppendBegin 2 0 7, AppendDone 0 7,
      Complete 3 ''a'' ''ah'' demo_response 7]"

text \<open>
  C5. A key has one owner. Once a claim made the caller the owner of a key, every later claim of the key, at
  whatever time, under whatever capacity pressure and after whatever other claims, completions and
  spool writes, is told to wait for that owner's entry, or that it conflicts when its request is a different
  one, until the owner itself completes or releases the key.
\<close>

theorem claim_has_one_owner:
  assumes "new_coordinator ttl n b rs m = Inr c0"
    and "legal allowed (coordinator_step token) before c0"
    and "claim token now k h (fold (coordinator_step token) before c0) = (Owner i t, c)"
    and "\<forall>op \<in> set after. \<not> settles k t op"
  shows "fst (claim token now' k h' (fold (coordinator_step token) after c)) =
    (if h' = h then Wait i else Conflict)"
proof -
  have "coordinator_inv (fold (coordinator_step token) before c0)"
    using assms(1, 2) by (intro coordinator.run_inv new_coordinator_inv)
  with assms(3) have owner: "kept k i (entry c i) c" "pending t (entry c i)" "request_hash (entry c i) = h"
    using claim_owner [of token now k h] by (simp_all add: inv_parts)
  then have "kept k i (entry c i) (fold (coordinator_step token) after c)" using assms(4) by (intro kept_run)
  then show ?thesis using owner(2, 3) by (simp add: claim_pending)
qed

lemma claim_has_one_owner_witness:
  "let c = snd (claim demo_token 5 ''b'' ''h'' (fold (coordinator_step demo_token) demo_execution demo_start)) in
   fst (claim demo_token 2000 ''b'' ''h''
     (fold (coordinator_step demo_token) [Claim 6 ''b'' ''h'', Claim 7 ''c'' ''h'', ReleaseFailure ''b'' ''x'' False] c)) =
   Wait 1"
proof -
  have "new_coordinator 900 2 100 50 16 = Inr demo_start" by (simp add: demo_start_def new_coordinator_def)
  moreover have "legal allowed (coordinator_step demo_token) demo_execution demo_start" by code_simp
  moreover have "fst (claim demo_token 5 ''b'' ''h'' (fold (coordinator_step demo_token) demo_execution demo_start)) =
      Owner 1 ''bh''" by code_simp
  then have "claim demo_token 5 ''b'' ''h'' (fold (coordinator_step demo_token) demo_execution demo_start) =
      (Owner 1 ''bh'',
       snd (claim demo_token 5 ''b'' ''h'' (fold (coordinator_step demo_token) demo_execution demo_start)))"
    by (simp add: prod_eq_iff)
  ultimately show ?thesis
    using claim_has_one_owner [of 900 2 100 50 16 demo_start demo_token demo_execution 5 "''b''" "''h''" 1 "''bh''" _
        "[Claim 6 ''b'' ''h'', Claim 7 ''c'' ''h'', ReleaseFailure ''b'' ''x'' False]" 2000 "''h''"]
    by (simp add: settles_def Let_def)
qed

text \<open>
  C15. The coordinator's accounting is exact and bounded. After every sequence of calls its callers may make, at most
  \<open>max_entries\<close> keys are listed; the spool bytes, in total and per kind, are the sum of what the registered
  spools hold; the stored bytes are the sum of the bodies of the listed responses; and the stored bytes are
  within the spool bytes, which are within \<open>max_stored_bytes\<close>.
\<close>

theorem idempotency_accounting:
  assumes "new_coordinator ttl n b rs m = Inr c0" "legal allowed (coordinator_step token) ops c0"
    "c = fold (coordinator_step token) ops c0"
  shows "length (entries c) \<le> nat n \<and>
    spool_bytes c = (\<Sum>s \<in> set (spools c). acct_bytes (account c s)) \<and>
    dget 0 (spool_bytes_by_kind c) kind =
      (\<Sum>s \<in> set (spools c). if acct_kind (account c s) = kind then acct_bytes (account c s) else 0) \<and>
    stored_bytes c = (\<Sum>i \<in> listed c. weight (entry c i)) \<and>
    stored_bytes c \<le> spool_bytes c \<and> spool_bytes c \<le> b"
proof -
  have inv: "coordinator_inv c"
    unfolding assms(3) using assms(1, 2) by (intro coordinator.run_inv new_coordinator_inv)
  have "max_entries c = nat n" "max_stored_bytes c = b"
    using assms(1) by (auto simp: assms(3) config_run new_coordinator_def split: if_splits)
  then show ?thesis
    using inv_parts [OF inv] stored_le_spools [OF inv]
    by (simp add: spool_inv_def entry_inv_def kind_sum_def)
qed

lemma idempotency_accounting_witness:
  "spool_bytes (fold (coordinator_step demo_token) demo_execution demo_start) = 7 \<and>
   stored_bytes (fold (coordinator_step demo_token) demo_execution demo_start) \<le>
   spool_bytes (fold (coordinator_step demo_token) demo_execution demo_start)"
proof
  have "new_coordinator 900 2 100 50 16 = Inr demo_start" by (simp add: demo_start_def new_coordinator_def)
  moreover have "legal allowed (coordinator_step demo_token) demo_execution demo_start" by code_simp
  ultimately show "stored_bytes (fold (coordinator_step demo_token) demo_execution demo_start) \<le>
      spool_bytes (fold (coordinator_step demo_token) demo_execution demo_start)"
    using idempotency_accounting [OF _ _ refl] by blast
  show "spool_bytes (fold (coordinator_step demo_token) demo_execution demo_start) = 7" by code_simp
qed

text \<open>
  C35. A response being replayed stays available. From a claim that answered \<open>replay\<close> on, however other readers
  of the same response begin and end, no expiry and no eviction closes the spool it is read from as long as
  more replays of it have begun than ended, counted from the calls alone; and the entry's counter is that number.
\<close>

theorem replay_source_stays_open:
  assumes "new_coordinator ttl l b rs m = Inr c0"
    and "legal allowed (coordinator_step token) before c0"
    and "claim token now k h (fold (coordinator_step token) before c0) = (Replay i r, c)"
    and "legal allowed (coordinator_step token) after c" "\<forall>op \<in> set after. \<not> takes_back k op"
    and "n = replays_running token i before c0 0 + 1"
    and "\<forall>m \<le> length after. 0 < replays_running token i (List.take m after) c n"
  shows "body r \<in> set (spools (fold (coordinator_step token) after c)) \<and>
    body r \<notin> set (closed_spools (fold (coordinator_step token) after c)) \<and>
    replay_readers (entry (fold (coordinator_step token) after c) i) = replays_running token i after c n"
proof -
  let ?b = "fold (coordinator_step token) before c0"
  let ?a = "fold (coordinator_step token) after c"
  have inv: "coordinator_inv ?b" using assms(1, 2) by (intro coordinator.run_inv new_coordinator_inv)
  with assms(3) have c: "read_by_replay k i r c" by (rule claim_replay)
  have "counts_replays i c0 0" using assms(1) by (auto simp: new_coordinator_def counts_replays_def split: if_splits)
  then have "counts_replays i ?b (replays_running token i before c0 0)"
    using assms(1, 2) by (intro counts_run new_coordinator_inv)
  from counts_claim [OF inv this, of token now k h] have n: "counts_replays i c n"
    by (simp add: replays_after_def assms(3, 6))
  have a: "read_by_replay k i r ?a" using reading_run [OF c assms(4, 5) n assms(7)] .
  have "coordinator_inv c" using c by (simp add: read_by_replay_def)
  from counts_run [OF this assms(4) n] have "counts_replays i ?a (replays_running token i after c n)" .
  moreover have "i < next_entry ?a" using a entry_numbered by (auto simp: read_by_replay_def)
  ultimately show ?thesis using reading_source_open [OF a] by (simp add: counts_replays_def)
qed

text \<open>Two readers; one of them ends while the capacity is short and the ttl is over.\<close>

definition demo_reading :: Coordinator where
  "demo_reading = snd (claim demo_token 5 ''a'' ''h'' (fold (coordinator_step demo_token) demo_execution demo_start))"

definition demo_pressure :: "idempotency_op list" where
  "demo_pressure =
     [Claim 6 ''a'' ''h'', FinishReplay 0, Claim 2000 ''b'' ''h'', Claim 2001 ''c'' ''h'', CreateSpool ''x'',
      AppendBegin 2002 1 99]"

lemma replay_source_stays_open_witness:
  "0 \<in> set (spools (fold (coordinator_step demo_token) demo_pressure demo_reading)) \<and>
   replay_readers (entry (fold (coordinator_step demo_token) demo_pressure demo_reading) 0) = 1"
proof -
  have "new_coordinator 900 2 100 50 16 = Inr demo_start" by (simp add: demo_start_def new_coordinator_def)
  moreover have "legal allowed (coordinator_step demo_token) demo_execution demo_start" by code_simp
  moreover have "fst (claim demo_token 5 ''a'' ''h'' (fold (coordinator_step demo_token) demo_execution demo_start)) =
      Replay 0 demo_response" by code_simp
  then have "claim demo_token 5 ''a'' ''h'' (fold (coordinator_step demo_token) demo_execution demo_start) =
      (Replay 0 demo_response, demo_reading)" by (simp add: prod_eq_iff demo_reading_def)
  moreover have "legal allowed (coordinator_step demo_token) demo_pressure demo_reading" by code_simp
  moreover have "\<forall>op \<in> set demo_pressure. \<not> takes_back ''a'' op" by code_simp
  moreover have "1 = replays_running demo_token 0 demo_execution demo_start 0 + 1" by code_simp
  moreover have "list_all (\<lambda>m. 0 < replays_running demo_token 0 (List.take m demo_pressure) demo_reading 1)
      [0..<Suc (length demo_pressure)]"
    by code_simp
  then have "\<forall>m \<le> length demo_pressure. 0 < replays_running demo_token 0 (List.take m demo_pressure) demo_reading 1"
    unfolding list_all_iff by (metis atLeast_upt lessThan_iff less_Suc_eq_le)
  ultimately have "body demo_response \<in> set (spools (fold (coordinator_step demo_token) demo_pressure demo_reading)) \<and>
      body demo_response \<notin> set (closed_spools (fold (coordinator_step demo_token) demo_pressure demo_reading)) \<and>
      replay_readers (entry (fold (coordinator_step demo_token) demo_pressure demo_reading) 0) =
      replays_running demo_token 0 demo_pressure demo_reading 1"
    by (rule replay_source_stays_open)
  moreover have "replays_running demo_token 0 demo_pressure demo_reading 1 = 1" by code_simp
  ultimately show ?thesis by (simp add: demo_response_def)
qed

end
