(* ===== verification/Utf8.thy ===== *)
theory Utf8
  imports Py_Prelude "HOL-Library.Word"
begin

text \<open>
  The part of Python's codec library the stream parsers use: \<open>str.encode("utf-8")\<close> and the strict incremental
  UTF-8 decoder. A text is a list of code points; a decoder's state is the bytes of a character it has not seen the
  end of (\<open>getstate\<close>). The decoder refuses a byte as soon as no character can continue with it. Encoding
  and decoding are inverse, and what is decoded does not depend on how the bytes were cut.
\<close>

type_synonym byte = "8 word"
type_synonym codepoint_list = "nat list"

text \<open>The code points that can be encoded: not the surrogates.\<close>

definition scalar :: "nat \<Rightarrow> bool" where
  "scalar c \<longleftrightarrow> c < 0x110000 \<and> \<not> (0xD800 \<le> c \<and> c \<le> 0xDFFF)"

definition encode_char :: "nat \<Rightarrow> nat list" where
  "encode_char c =
     (if c < 0x80 then [c]
      else if c < 0x800 then [0xC0 + c div 64, 0x80 + c mod 64]
      else if c < 0x10000 then [0xE0 + c div 4096, 0x80 + c div 64 mod 64, 0x80 + c mod 64]
      else [0xF0 + c div 262144, 0x80 + c div 4096 mod 64, 0x80 + c div 64 mod 64, 0x80 + c mod 64])"

definition utf8_bytes :: "codepoint_list \<Rightarrow> byte list" where
  "utf8_bytes t = map of_nat (concat (map encode_char t))"

text \<open>\<open>encode\<close> raises \<open>UnicodeEncodeError\<close> at a surrogate.\<close>

definition encode :: "codepoint_list \<Rightarrow> byte list option" where
  "encode t = (if list_all scalar t then Some (utf8_bytes t) else None)"

section \<open>The incremental decoder\<close>

definition sequence_length :: "nat \<Rightarrow> nat" where
  "sequence_length l = (if l < 224 then 2 else if l < 240 then 3 else 4)"

text \<open>The bytes that may follow the lead byte \<open>l\<close>, at the second and at later places.\<close>

definition follows :: "nat \<Rightarrow> bool \<Rightarrow> nat \<Rightarrow> bool" where
  "follows l second b \<longleftrightarrow>
     (if second \<and> l = 224 then 160 \<le> b \<and> b < 192
      else if second \<and> l = 237 then 128 \<le> b \<and> b < 160
      else if second \<and> l = 240 then 144 \<le> b \<and> b < 192
      else if second \<and> l = 244 then 128 \<le> b \<and> b < 144
      else 128 \<le> b \<and> b < 192)"

definition lead_value :: "nat \<Rightarrow> nat" where
  "lead_value l = (if l < 224 then l - 192 else if l < 240 then l - 224 else l - 240)"

definition code_of :: "nat \<Rightarrow> nat list \<Rightarrow> nat" where
  "code_of l bs = foldl (\<lambda>n b. n * 64 + (b - 128)) (lead_value l) bs"

text \<open>One byte: the characters it completes and the bytes kept, or an error.\<close>

definition push :: "nat list \<Rightarrow> nat \<Rightarrow> (codepoint_list \<times> nat list) option" where
  "push kept b =
     (case kept of
        [] \<Rightarrow> if b < 128 then Some ([b], []) else if 194 \<le> b \<and> b < 245 then Some ([], [b]) else None
      | l # bs \<Rightarrow>
          if \<not> follows l (bs = []) b then None
          else if length bs + 2 = sequence_length l then Some ([code_of l (bs @ [b])], [])
          else Some ([], l # bs @ [b]))"

fun decode :: "nat list \<Rightarrow> byte list \<Rightarrow> (codepoint_list \<times> nat list) option" where
  "decode kept [] = Some ([], kept)"
| "decode kept (b # bs) =
     (case push kept (unat b) of
        None \<Rightarrow> None
      | Some (t, kept) \<Rightarrow> (case decode kept bs of None \<Rightarrow> None | Some (u, rest) \<Rightarrow> Some (t @ u, rest)))"

text \<open>\<open>bytes.decode("utf-8")\<close>\<close>

definition decode_all :: "byte list \<Rightarrow> codepoint_list option" where
  "decode_all bs = (case decode [] bs of Some (t, []) \<Rightarrow> Some t | _ \<Rightarrow> None)"

section \<open>Cutting the bytes\<close>

lemma decode_append:
  "decode kept (xs @ ys) =
     (case decode kept xs of
        None \<Rightarrow> None
      | Some (t, k) \<Rightarrow> (case decode k ys of None \<Rightarrow> None | Some (u, rest) \<Rightarrow> Some (t @ u, rest)))"
  by (induction xs arbitrary: kept) (auto split: option.split)

section \<open>Encoding and decoding are inverse\<close>

lemma encode_char_bytes: "scalar c \<Longrightarrow> b \<in> set (encode_char c) \<Longrightarrow> b < 256"
  by (auto simp: encode_char_def scalar_def split: if_splits)

lemma unat_byte: "n < 256 \<Longrightarrow> unat (of_nat n :: byte) = n"
  by (simp add: unat_of_nat take_bit_nat_eq_self)

text \<open>A run of the decoder on byte values.\<close>

fun decode_nat :: "nat list \<Rightarrow> nat list \<Rightarrow> (codepoint_list \<times> nat list) option" where
  "decode_nat kept [] = Some ([], kept)"
| "decode_nat kept (b # bs) =
     (case push kept b of
        None \<Rightarrow> None
      | Some (t, kept) \<Rightarrow> (case decode_nat kept bs of None \<Rightarrow> None | Some (u, rest) \<Rightarrow> Some (t @ u, rest)))"

lemma decode_map: "\<forall>b \<in> set bs. b < 256 \<Longrightarrow> decode kept (map of_nat bs) = decode_nat kept bs"
  by (induction bs arbitrary: kept) (auto simp: unat_byte split: option.split)

lemma decode_two:
  assumes "2 \<le> a" "a < 32" "d < 64"
  shows "decode_nat [] [192 + a, 128 + d] = Some ([a * 64 + d], [])"
  using assms by (simp add: push_def follows_def sequence_length_def code_of_def lead_value_def)

lemma decode_three:
  assumes "a < 16" "b < 64" "d < 64" "a = 0 \<Longrightarrow> 32 \<le> b" "a = 13 \<Longrightarrow> b < 32"
  shows "decode_nat [] [224 + a, 128 + b, 128 + d] = Some ([a * 4096 + b * 64 + d], [])"
proof -
  have "push [] (224 + a) = Some ([], [224 + a])" using assms(1) by (simp add: push_def)
  moreover have "push [224 + a] (128 + b) = Some ([], [224 + a, 128 + b])"
    using assms by (simp add: push_def follows_def sequence_length_def)
  moreover have "push [224 + a, 128 + b] (128 + d) = Some ([a * 4096 + b * 64 + d], [])"
    using assms(1-3) by (simp add: push_def follows_def sequence_length_def code_of_def lead_value_def)
  ultimately show ?thesis by simp
qed

lemma decode_four:
  assumes "a < 5" "b < 64" "d < 64" "e < 64" "a = 0 \<Longrightarrow> 16 \<le> b" "a = 4 \<Longrightarrow> b < 16"
  shows "decode_nat [] [240 + a, 128 + b, 128 + d, 128 + e] = Some ([a * 262144 + b * 4096 + d * 64 + e], [])"
proof -
  have "push [] (240 + a) = Some ([], [240 + a])" using assms(1) by (simp add: push_def)
  moreover have "push [240 + a] (128 + b) = Some ([], [240 + a, 128 + b])"
    using assms by (simp add: push_def follows_def sequence_length_def)
  moreover have "push [240 + a, 128 + b] (128 + d) = Some ([], [240 + a, 128 + b, 128 + d])"
    using assms(1-3) by (simp add: push_def follows_def sequence_length_def)
  moreover have "push [240 + a, 128 + b, 128 + d] (128 + e) = Some ([a * 262144 + b * 4096 + d * 64 + e], [])"
    using assms(1-4) by (simp add: push_def follows_def sequence_length_def code_of_def lead_value_def)
  ultimately show ?thesis by simp
qed

lemma mid_digit: "c div m = c div (64 * m) * 64 + c div m mod 64" for c m :: nat
  by (metis div_mult_mod_eq div_mult2_eq mult.commute)

lemma digits_three: "c div 4096 * 4096 + c div 64 mod 64 * 64 + c mod 64 = c" for c :: nat
proof -
  have "c div 64 = c div 4096 * 64 + c div 64 mod 64" using mid_digit [of c 64] by simp
  moreover have "c div 64 * 64 + c mod 64 = c" by (rule div_mult_mod_eq)
  ultimately show ?thesis by linarith
qed

lemma digits_four:
  "c div 262144 * 262144 + c div 4096 mod 64 * 4096 + c div 64 mod 64 * 64 + c mod 64 = c" for c :: nat
proof -
  have "c div 4096 = c div 262144 * 64 + c div 4096 mod 64" using mid_digit [of c 4096] by simp
  then show ?thesis using digits_three [of c] by linarith
qed

lemma decode_char: "scalar c \<Longrightarrow> decode_nat [] (encode_char c) = Some ([c], [])"
proof -
  assume c: "scalar c"
  consider "c < 128" | "128 \<le> c" "c < 2048" | "2048 \<le> c" "c < 65536" | "65536 \<le> c" "c < 1114112"
    using c by (force simp: scalar_def)
  then show ?thesis
  proof cases
    case 1
    then show ?thesis by (simp add: encode_char_def push_def)
  next
    case 2
    then have "decode_nat [] [192 + c div 64, 128 + c mod 64] = Some ([c div 64 * 64 + c mod 64], [])"
      by (intro decode_two) auto
    with 2 show ?thesis by (simp add: encode_char_def)
  next
    case 3
    have "decode_nat [] [224 + c div 4096, 128 + c div 64 mod 64, 128 + c mod 64] =
        Some ([c div 4096 * 4096 + c div 64 mod 64 * 64 + c mod 64], [])"
    proof (rule decode_three)
      show "32 \<le> c div 64 mod 64" if "c div 4096 = 0" using 3 mid_digit [of c 64] that by simp
      show "c div 64 mod 64 < 32" if "c div 4096 = 13"
      proof -
        have "c < 55296 \<or> 57343 < c" using c by (auto simp: scalar_def)
        moreover have "c < 57344" using that by simp
        ultimately have "c div 64 < 864" by simp
        with that mid_digit [of c 64] show ?thesis by simp
      qed
    qed (use 3 in auto)
    with 3 show ?thesis by (simp add: encode_char_def digits_three)
  next
    case 4
    have "decode_nat [] [240 + c div 262144, 128 + c div 4096 mod 64, 128 + c div 64 mod 64, 128 + c mod 64] =
        Some ([c div 262144 * 262144 + c div 4096 mod 64 * 4096 + c div 64 mod 64 * 64 + c mod 64], [])"
    proof (rule decode_four)
      show "16 \<le> c div 4096 mod 64" if "c div 262144 = 0" using 4 mid_digit [of c 4096] that by simp
      show "c div 4096 mod 64 < 16" if "c div 262144 = 4"
      proof -
        have "c div 4096 < 272" using 4 by simp
        with that mid_digit [of c 4096] show ?thesis by simp
      qed
    qed (use 4 in auto)
    with 4 show ?thesis by (simp add: encode_char_def digits_four)
  qed
qed

lemma utf8_bytes_simps [simp]:
  "utf8_bytes [] = []" "utf8_bytes (c # t) = map of_nat (encode_char c) @ utf8_bytes t"
  "utf8_bytes (t @ u) = utf8_bytes t @ utf8_bytes u"
  by (simp_all add: utf8_bytes_def)

lemma decode_encoded: "list_all scalar t \<Longrightarrow> decode [] (utf8_bytes t @ bs) =
    (case decode [] bs of None \<Rightarrow> None | Some (u, rest) \<Rightarrow> Some (t @ u, rest))"
proof (induction t)
  case (Cons c t)
  then have "decode [] (map of_nat (encode_char c)) = Some ([c], [])"
    by (subst decode_map) (auto simp: encode_char_bytes decode_char)
  with Cons show ?case by (simp add: decode_append split: option.split)
qed (simp split: option.split)

lemma decode_all_bytes [simp]: "list_all scalar t \<Longrightarrow> decode_all (utf8_bytes t) = Some t"
  using decode_encoded [of t "[]"] by (simp add: decode_all_def)

text \<open>What a decoder may keep: the start of a character.\<close>

fun partial :: "nat list \<Rightarrow> bool" where
  "partial [] = True"
| "partial [l] = (194 \<le> l \<and> l < 245)"
| "partial [l, b] = (224 \<le> l \<and> l < 245 \<and> follows l True b)"
| "partial [l, b, d] = (240 \<le> l \<and> l < 245 \<and> follows l True b \<and> follows l False d)"
| "partial _ = False"

lemma encode_two:
  assumes "2 \<le> a" "a < 32" "d < 64"
  shows "encode_char (a * 64 + d) = [192 + a, 128 + d] \<and> scalar (a * 64 + d)"
  using assms by (simp add: encode_char_def scalar_def)

lemma last_digit: "d < 64 \<Longrightarrow> (x * 64 + d) mod 64 = d \<and> (x * 64 + d) div 64 = x" for x d :: nat
  by simp

lemma encode_three:
  assumes "a < 16" "b < 64" "d < 64" "a = 0 \<Longrightarrow> 32 \<le> b" "a = 13 \<Longrightarrow> b < 32"
  shows "encode_char ((a * 64 + b) * 64 + d) = [224 + a, 128 + b, 128 + d] \<and> scalar ((a * 64 + b) * 64 + d)"
proof -
  let ?c = "(a * 64 + b) * 64 + d"
  have "?c div 64 = a * 64 + b" "?c mod 64 = d" using last_digit [OF assms(3), of "a * 64 + b"] by blast+
  moreover have "?c div 4096 = a" using assms(2, 3) by simp
  moreover have "2048 \<le> ?c" using assms(4) by (cases "a = 0") auto
  moreover have "?c < 65536" using assms(1-3) by simp
  moreover have "\<not> (55296 \<le> ?c \<and> ?c \<le> 57343)"
    using assms(2, 3, 5) by (cases "a = 13") auto
  ultimately show ?thesis using assms(2) by (simp add: encode_char_def scalar_def)
qed

lemma encode_four:
  assumes "a < 5" "b < 64" "d < 64" "e < 64" "a = 0 \<Longrightarrow> 16 \<le> b" "a = 4 \<Longrightarrow> b < 16"
  shows "encode_char (((a * 64 + b) * 64 + d) * 64 + e) = [240 + a, 128 + b, 128 + d, 128 + e] \<and>
    scalar (((a * 64 + b) * 64 + d) * 64 + e)"
proof -
  let ?c = "((a * 64 + b) * 64 + d) * 64 + e"
  have "?c div 64 = (a * 64 + b) * 64 + d" "?c mod 64 = e"
    using last_digit [OF assms(4), of "(a * 64 + b) * 64 + d"] by blast+
  moreover have "?c div 4096 = a * 64 + b" using assms(3, 4) by simp
  moreover have "?c div 262144 = a" using assms(2-4) by simp
  moreover have "65536 \<le> ?c" using assms(5) by (cases "a = 0") auto
  moreover have "?c < 1114112" using assms(1-4, 6) by (cases "a = 4") auto
  moreover have "((a * 64 + b) * 64 + d) mod 64 = d" using last_digit [OF assms(3)] by blast
  moreover have "(a * 64 + b) mod 64 = b" using last_digit [OF assms(2)] by blast
  ultimately show ?thesis by (simp add: encode_char_def scalar_def)
qed

lemma push_second:
  assumes "194 \<le> l" "l < 245" "push [l] b = Some (t, k)"
  shows "partial k \<and> list_all scalar t \<and> concat (map encode_char t) @ k = [l, b]"
proof (cases "l < 224")
  case True
  then show ?thesis
    using assms encode_two [of "l - 192" "b - 128"]
    by (auto simp: push_def follows_def sequence_length_def code_of_def lead_value_def split: if_splits)
next
  case False
  then show ?thesis
    using assms by (auto simp: push_def sequence_length_def split: if_splits)
qed

lemma push_third:
  assumes "224 \<le> l" "l < 245" "follows l True b" "push [l, b] d = Some (t, k)"
  shows "partial k \<and> list_all scalar t \<and> concat (map encode_char t) @ k = [l, b, d]"
proof (cases "l < 240")
  case True
  then show ?thesis
    using assms encode_three [of "l - 224" "b - 128" "d - 128"]
    by (auto simp: push_def follows_def sequence_length_def code_of_def lead_value_def split: if_splits)
next
  case False
  then show ?thesis
    using assms by (auto simp: push_def sequence_length_def split: if_splits)
qed

lemma push_fourth:
  assumes "240 \<le> l" "l < 245" "follows l True b" "follows l False d" "push [l, b, d] e = Some (t, k)"
  shows "partial k \<and> list_all scalar t \<and> concat (map encode_char t) @ k = [l, b, d, e]"
  using assms encode_four [of "l - 240" "b - 128" "d - 128" "e - 128"]
  by (auto simp: push_def follows_def sequence_length_def code_of_def lead_value_def split: if_splits)

lemma push_bytes:
  assumes "partial kept" "push kept b = Some (t, k)"
  shows "partial k \<and> list_all scalar t \<and> concat (map encode_char t) @ k = kept @ [b]"
  using assms
proof (cases kept rule: partial.cases)
  case 1
  then show ?thesis using assms by (auto simp: push_def encode_char_def scalar_def split: if_splits)
next
  case (2 l)
  with assms push_second [of l b t k] show ?thesis by simp
next
  case (3 l c)
  with assms push_third [of l c b t k] show ?thesis by simp
next
  case (4 l c d)
  with assms push_fourth [of l c d b t k] show ?thesis by simp
qed auto

lemma decode_bytes:
  "partial kept \<Longrightarrow> decode kept bs = Some (t, k) \<Longrightarrow>
     partial k \<and> list_all scalar t \<and> utf8_bytes t @ map of_nat k = map of_nat kept @ bs"
proof (induction bs arbitrary: kept t)
  case (Cons b bs)
  then obtain u k1 v where d: "push kept (unat b) = Some (u, k1)" "decode k1 bs = Some (v, k)" "t = u @ v"
    by (auto split: option.splits)
  from push_bytes [OF Cons.prems(1) d(1)] have p: "partial k1" "list_all scalar u"
    "concat (map encode_char u) @ k1 = kept @ [unat b]" by simp_all
  have "utf8_bytes u @ map of_nat k1 = (map of_nat (concat (map encode_char u) @ k1) :: byte list)"
    by (simp add: utf8_bytes_def)
  also have "\<dots> = map of_nat kept @ [b]" unfolding p(3) by simp
  finally have e: "utf8_bytes u @ map of_nat k1 = map of_nat kept @ [b]" .
  from Cons.IH [OF p(1) d(2)] have "partial k" "list_all scalar v"
    "utf8_bytes v @ map of_nat k = map of_nat k1 @ bs" by simp_all
  moreover have "utf8_bytes u @ map of_nat k1 @ bs = map of_nat kept @ b # bs"
    using e by (metis append.assoc append_Cons append_Nil)
  ultimately show ?case using p(2) d(3) by simp
qed (simp add: list_all_def)

end
