(* ===== verification/SseParser.thy ===== *)
theory SseParser
  imports ByteBudget Utf8
begin

text \<open>
  The stream parsers of \<open>uni_api/streaming/sse.py\<close>: the retained-byte budget every parser is charged to, and
  \<open>IncrementalSSEParser\<close>, which cuts the bytes of an upstream stream into event frames while the network
  delivers them in arbitrary chunks.

  A budget is a pair of its own counters and the state of the governor above it; \<open>grab\<close> and \<open>give\<close> are the
  governor's \<open>reserve_nowait\<close> and \<open>release\<close> for the parsers' category. A frame that the parser returned keeps
  its bytes until its last reference goes; the frames of a call that raises go with it. The digest of the
  failure diagnostics is represented by the bytes it is computed from.
\<close>

section \<open>The retained-byte budget\<close>

record ParserBudget =
  parser_capacity_bytes :: nat
  used_bytes :: nat
  peak_bytes :: nat
  rejected_count :: nat

definition new_parser_budget :: "nat \<Rightarrow> ParserBudget" where
  "new_parser_budget capacity =
     \<lparr>parser_capacity_bytes = capacity, used_bytes = 0, peak_bytes = 0, rejected_count = 0\<rparr>"

text \<open>False: \<open>StreamParserBufferBudgetExhausted\<close> is raised.\<close>

definition budget_reserve ::
  "(nat \<Rightarrow> 'g \<Rightarrow> bool \<times> 'g) \<Rightarrow> (nat \<Rightarrow> 'g \<Rightarrow> 'g) \<Rightarrow> nat \<Rightarrow> ParserBudget \<times> 'g \<Rightarrow> bool \<times> ParserBudget \<times> 'g" where
  "budget_reserve grab give n bg =
     (let (b, g) = bg in
      if n = 0 then (True, b, g)
      else
        let (granted, g) = grab n g in
        if \<not> granted then (False, b\<lparr>rejected_count := rejected_count b + 1\<rparr>, g)
        else if parser_capacity_bytes b < used_bytes b + n
        then (False, b\<lparr>rejected_count := rejected_count b + 1\<rparr>, give n g)
        else (True, b\<lparr>used_bytes := used_bytes b + n, peak_bytes := max (peak_bytes b) (used_bytes b + n)\<rparr>, g))"

text \<open>None: \<open>RuntimeError\<close>, more is released than is used.\<close>

definition budget_release ::
  "(nat \<Rightarrow> 'g \<Rightarrow> 'g) \<Rightarrow> nat \<Rightarrow> ParserBudget \<times> 'g \<Rightarrow> (ParserBudget \<times> 'g) option" where
  "budget_release give n bg =
     (let (b, g) = bg in
      if n = 0 then Some (b, g)
      else if used_bytes b < n then None
      else Some (b\<lparr>used_bytes := used_bytes b - n\<rparr>, give n g))"

text \<open>A release inside the parsers, which is never the one that raises (\<open>parser_pool\<close> below).\<close>

definition budget_give :: "(nat \<Rightarrow> 'g \<Rightarrow> 'g) \<Rightarrow> nat \<Rightarrow> ParserBudget \<times> 'g \<Rightarrow> ParserBudget \<times> 'g" where
  "budget_give give n bg = (case budget_release give n bg of None \<Rightarrow> bg | Some bg \<Rightarrow> bg)"

text \<open>\<open>StreamParserRetainedLease\<close> over a budget.\<close>

datatype lease_error = ValueError string | RuntimeError string | BudgetExhausted

record RetainedLease =
  lease_size :: nat
  lease_released :: bool

definition new_lease :: RetainedLease where
  "new_lease = \<lparr>lease_size = 0, lease_released = False\<rparr>"

definition lease_grow ::
  "(nat \<Rightarrow> 'b \<Rightarrow> bool \<times> 'b) \<Rightarrow> int \<Rightarrow> RetainedLease \<times> 'b \<Rightarrow> lease_error option \<times> RetainedLease \<times> 'b" where
  "lease_grow reserve n lb =
     (let (l, b) = lb in
      if n < 0 then (Some (ValueError ''parser reservation cannot grow by a negative size''), l, b)
      else if lease_released l then (Some (RuntimeError ''parser reservation is released''), l, b)
      else
        let (granted, b) = reserve (nat n) b in
        if \<not> granted then (Some BudgetExhausted, l, b)
        else (None, l\<lparr>lease_size := lease_size l + nat n\<rparr>, b))"

definition lease_shrink ::
  "(nat \<Rightarrow> 'b \<Rightarrow> 'b) \<Rightarrow> int \<Rightarrow> RetainedLease \<times> 'b \<Rightarrow> lease_error option \<times> RetainedLease \<times> 'b" where
  "lease_shrink release n lb =
     (let (l, b) = lb in
      if n < 0 \<or> int (lease_size l) < n then (Some (ValueError ''invalid parser reservation shrink''), l, b)
      else if lease_released l then (Some (RuntimeError ''parser reservation is released''), l, b)
      else (None, l\<lparr>lease_size := lease_size l - nat n\<rparr>, release (nat n) b))"

definition lease_release :: "(nat \<Rightarrow> 'b \<Rightarrow> 'b) \<Rightarrow> RetainedLease \<times> 'b \<Rightarrow> RetainedLease \<times> 'b" where
  "lease_release release lb =
     (let (l, b) = lb in
      if lease_released l then (l, b)
      else (l\<lparr>lease_released := True, lease_size := 0\<rparr>, release (lease_size l) b))"

section \<open>The parser's state\<close>

datatype sse_error =
    SSEValueError string
  | SSEProtocolError string
  | SSEBufferOverflowError string nat nat
  | SSEOutputLimitError string nat nat
  | SSEIncompleteEventError nat
  | StreamParserBufferBudgetExhausted
  | SSERuntimeError string

record SSEParser =
  max_pending_bytes :: nat
  max_event_bytes :: nat
  max_events_per_feed :: nat
  max_feed_bytes :: nat
  undecoded :: "nat list"
  event_bytes :: "byte list"
  pending_budget_bytes :: nat
  trailing_cr :: bool
  finished :: bool
  failed :: bool
  at_stream_start :: bool
  failure_pending :: "byte list option"

definition new_sse_parser :: "int \<Rightarrow> int \<Rightarrow> int \<Rightarrow> int \<Rightarrow> sse_error + SSEParser" where
  "new_sse_parser pending event_limit events feed =
     (if pending < 0 then Inl (SSEValueError ''max_pending_bytes cannot be negative'')
      else if event_limit < 0 then Inl (SSEValueError ''max_event_bytes cannot be negative'')
      else if events \<le> 0 then Inl (SSEValueError ''max_events_per_feed must be greater than zero'')
      else if feed < 0 then Inl (SSEValueError ''max_feed_bytes cannot be negative'')
      else Inr \<lparr>max_pending_bytes = nat pending, max_event_bytes = nat event_limit,
                max_events_per_feed = nat events, max_feed_bytes = nat feed, undecoded = [],
                event_bytes = [], pending_budget_bytes = 0, trailing_cr = False, finished = False,
                failed = False, at_stream_start = True, failure_pending = None\<rparr>)"

datatype chunk = Text codepoint_list | Bytes "byte list"

text \<open>A frame with the bytes it retains.\<close>

record frame =
  frame_text :: codepoint_list
  frame_retained :: nat

record 'b sse_world =
  parser :: SSEParser
  pool :: 'b

definition pending_size_bytes :: "SSEParser \<Rightarrow> nat" where
  "pending_size_bytes p = length (event_bytes p) + length (undecoded p)"

definition can_bypass_complete_frame :: "SSEParser \<Rightarrow> bool" where
  "can_bypass_complete_frame p \<longleftrightarrow>
     \<not> finished p \<and> \<not> failed p \<and> \<not> at_stream_start p \<and> event_bytes p = [] \<and> undecoded p = [] \<and> \<not> trailing_cr p"

text \<open>The normalized partial event and the undecoded bytes; a trailing CR is handed on as it came.\<close>

definition pending_data :: "SSEParser \<Rightarrow> byte list" where
  "pending_data p =
     (let pending = event_bytes p;
          pending = (if trailing_cr p \<and> pending \<noteq> [] \<and> last pending = 10 then butlast pending @ [13] else pending)
      in pending @ map of_nat (undecoded p))"

definition clear_pending_event :: "(nat \<Rightarrow> 'b \<Rightarrow> 'b) \<Rightarrow> 'b sse_world \<Rightarrow> 'b sse_world" where
  "clear_pending_event give w =
     (let n = pending_budget_bytes (parser w) in
      w\<lparr>parser := (parser w)\<lparr>event_bytes := [], pending_budget_bytes := 0\<rparr>,
        pool := if n \<noteq> 0 then give n (pool w) else pool w\<rparr>)"

definition discard :: "(nat \<Rightarrow> 'b \<Rightarrow> 'b) \<Rightarrow> 'b sse_world \<Rightarrow> 'b sse_world" where
  "discard give w = clear_pending_event give (w\<lparr>parser := (parser w)\<lparr>failed := True, finished := True\<rparr>\<rparr>)"

definition capture_failure :: "SSEParser \<Rightarrow> SSEParser" where
  "capture_failure p =
     (case failure_pending p of
        None \<Rightarrow> p\<lparr>failure_pending := Some (event_bytes p @ map of_nat (undecoded p))\<rparr>
      | Some _ \<Rightarrow> p)"

text \<open>The \<open>except BaseException\<close> of \<open>feed\<close> and \<open>finish\<close>.\<close>

definition fail_parser :: "(nat \<Rightarrow> 'b \<Rightarrow> 'b) \<Rightarrow> 'b sse_world \<Rightarrow> 'b sse_world" where
  "fail_parser give w = clear_pending_event give (w\<lparr>parser := capture_failure ((parser w)\<lparr>failed := True\<rparr>)\<rparr>)"

text \<open>Frames whose last reference goes.\<close>

definition drop_frames :: "(nat \<Rightarrow> 'b \<Rightarrow> 'b) \<Rightarrow> frame list \<Rightarrow> 'b sse_world \<Rightarrow> 'b sse_world" where
  "drop_frames give fs w = w\<lparr>pool := fold (\<lambda>f. give (frame_retained f)) fs (pool w)\<rparr>"

section \<open>From chunks to normalized text\<close>

definition UNITS :: nat where "UNITS = 256 * 1024"

definition decode_chunk :: "chunk \<Rightarrow> SSEParser \<Rightarrow> sse_error + codepoint_list \<times> SSEParser" where
  "decode_chunk c p =
     (case c of
        Text t \<Rightarrow>
          if undecoded p \<noteq> []
          then Inl (SSEProtocolError ''cannot feed text while a UTF-8 byte sequence is incomplete'')
          else Inr (t, p)
      | Bytes bs \<Rightarrow>
          (case decode (undecoded p) bs of
             None \<Rightarrow> Inl (SSEProtocolError ''SSE stream contains invalid UTF-8'')
           | Some (t, kept) \<Rightarrow> Inr (t, p\<lparr>undecoded := kept\<rparr>)))"

definition remove_bom :: "codepoint_list \<Rightarrow> codepoint_list" where
  "remove_bom t = (case t of c # r \<Rightarrow> if c = 0xFEFF then r else t | [] \<Rightarrow> [])"

definition strip_initial_bom :: "bool \<Rightarrow> codepoint_list \<Rightarrow> SSEParser \<Rightarrow> codepoint_list \<times> SSEParser" where
  "strip_initial_bom final t p =
     (if \<not> at_stream_start p then (t, p)
      else if t = [] \<and> \<not> final then (t, p)
      else (remove_bom t, p\<lparr>at_stream_start := False\<rparr>))"

text \<open>\<open>text.replace("\r\n", "\n").replace("\r", "\n")\<close>\<close>

fun replace_crlf :: "codepoint_list \<Rightarrow> codepoint_list" where
  "replace_crlf [] = []"
| "replace_crlf [c] = [c]"
| "replace_crlf (c # d # t) = (if c = 13 \<and> d = 10 then 10 # replace_crlf t else c # replace_crlf (d # t))"

definition replace_cr :: "codepoint_list \<Rightarrow> codepoint_list" where
  "replace_cr t = map (\<lambda>c. if c = 13 then 10 else c) t"

definition normalize_newlines :: "bool \<Rightarrow> codepoint_list \<Rightarrow> SSEParser \<Rightarrow> codepoint_list \<times> SSEParser" where
  "normalize_newlines final t p =
     (let swallow = (trailing_cr p \<and> (t \<noteq> [] \<or> final));
          cr = (trailing_cr p \<and> \<not> swallow);
          t = (if swallow \<and> t \<noteq> [] \<and> hd t = 10 then tl t else t);
          cr = (if \<not> final \<and> t \<noteq> [] \<and> last t = 13 then True else cr)
      in (replace_cr (replace_crlf t), p\<lparr>trailing_cr := cr\<rparr>))"

section \<open>Frames\<close>

definition validate_complete_event :: "SSEParser \<Rightarrow> sse_error option" where
  "validate_complete_event p =
     (if max_event_bytes p \<noteq> 0 \<and> max_event_bytes p < length (event_bytes p)
      then Some (SSEBufferOverflowError ''event'' (max_event_bytes p) (length (event_bytes p))) else None)"

definition validate_pending_size :: "SSEParser \<Rightarrow> sse_error option" where
  "validate_pending_size p =
     (if max_pending_bytes p \<noteq> 0 \<and> max_pending_bytes p < pending_size_bytes p
      then Some (SSEBufferOverflowError ''pending buffer'' (max_pending_bytes p) (pending_size_bytes p))
      else if max_event_bytes p \<noteq> 0 \<and> max_event_bytes p < pending_size_bytes p
      then Some (SSEBufferOverflowError ''event'' (max_event_bytes p) (pending_size_bytes p))
      else None)"

text \<open>Bytes move from the reserved credit into the pending event.\<close>

definition append_pending :: "byte list \<Rightarrow> SSEParser \<Rightarrow> SSEParser" where
  "append_pending bs p =
     p\<lparr>event_bytes := event_bytes p @ bs, pending_budget_bytes := pending_budget_bytes p + length bs\<rparr>"

text \<open>
  A blank line ends the event: its second LF stays in the credit, its first one is released. Some: the
  exception.
\<close>

definition end_event ::
  "(nat \<Rightarrow> 'b \<Rightarrow> 'b) \<Rightarrow> frame list \<Rightarrow> 'b sse_world \<Rightarrow> (sse_error + frame) \<times> 'b sse_world" where
  "end_event give events w =
     (let p = (parser w)\<lparr>event_bytes := butlast (event_bytes (parser w))\<rparr>; w = w\<lparr>parser := p\<rparr> in
      if pending_budget_bytes p < 1
      then (Inl (SSERuntimeError ''SSE parser pending-byte budget underflow''), w)
      else
        let p = p\<lparr>pending_budget_bytes := pending_budget_bytes p - 1\<rparr>;
            w = w\<lparr>parser := p, pool := give 1 (pool w)\<rparr>
        in (case validate_complete_event p of
              Some e \<Rightarrow> (Inl e, w)
            | None \<Rightarrow>
                if max_events_per_feed p \<le> length events
                then (Inl (SSEOutputLimitError ''events'' (max_events_per_feed p) (max_events_per_feed p + 1)), w)
                else
                  (case decode_all (event_bytes p) of
                     None \<Rightarrow> (Inl (SSEProtocolError ''UnicodeDecodeError''), clear_pending_event give w)
                   | Some t \<Rightarrow>
                       (Inr \<lparr>frame_text = t, frame_retained = pending_budget_bytes p\<rparr>,
                        w\<lparr>parser := p\<lparr>event_bytes := [], pending_budget_bytes := 0\<rparr>\<rparr>))))"

text \<open>The \<open>while True\<close> of \<open>_extract_events\<close>; it answers the exception, the frames, the credit and the world.\<close>

function extract_loop ::
  "(nat \<Rightarrow> 'b \<Rightarrow> 'b) \<Rightarrow> byte list \<Rightarrow> nat \<Rightarrow> frame list \<Rightarrow> 'b sse_world
   \<Rightarrow> sse_error option \<times> frame list \<times> nat \<times> 'b sse_world" where
  "extract_loop give bs credit events w =
     (let segment = takeWhile (\<lambda>b. b \<noteq> 10) bs; rest = dropWhile (\<lambda>b. b \<noteq> 10) bs;
          w = w\<lparr>parser := append_pending segment (parser w)\<rparr>;
          credit = credit - length segment
      in case (if segment = [] then None else validate_complete_event (parser w)) of
           Some e \<Rightarrow> (Some e, events, credit, w)
         | None \<Rightarrow>
             (case rest of
                [] \<Rightarrow> (None, events, credit, w)
              | _ # rest \<Rightarrow>
                  if event_bytes (parser w) \<noteq> [] \<and> last (event_bytes (parser w)) = 10
                  then
                    (case end_event give events w of
                       (Inl e, w) \<Rightarrow> (Some e, events, credit, w)
                     | (Inr f, w) \<Rightarrow> extract_loop give rest credit (events @ [f]) w)
                  else
                    extract_loop give rest (credit - 1) events (w\<lparr>parser := append_pending [10] (parser w)\<rparr>)))"
  by pat_completeness auto
termination
  by (relation "measure (\<lambda>(give, bs, credit, events, w). length bs)")
     (auto dest!: dropWhile_shorter [OF sym])

declare extract_loop.simps [simp del]

text \<open>The four ways one turn of the loop goes on.\<close>

lemma extract_loop_turn:
  fixes bs :: "byte list" and w :: "'b sse_world"
  defines "segment \<equiv> takeWhile (\<lambda>b. b \<noteq> 10) bs"
  defines "w1 \<equiv> w\<lparr>parser := append_pending segment (parser w)\<rparr>"
  defines "over \<equiv> (if segment = [] then None else validate_complete_event (parser w1))"
  defines "blank \<equiv> (event_bytes (parser w1) \<noteq> [] \<and> last (event_bytes (parser w1)) = 10)"
  shows "over = Some e \<Longrightarrow>
      extract_loop give bs credit evs w = (Some e, evs, credit - length segment, w1)"
    and "over = None \<Longrightarrow> dropWhile (\<lambda>b. b \<noteq> 10) bs = [] \<Longrightarrow>
      extract_loop give bs credit evs w = (None, evs, credit - length segment, w1)"
    and "over = None \<Longrightarrow> dropWhile (\<lambda>b. b \<noteq> 10) bs = b # rest \<Longrightarrow> blank \<Longrightarrow>
      extract_loop give bs credit evs w =
        (case end_event give evs w1 of
           (Inl e, w) \<Rightarrow> (Some e, evs, credit - length segment, w)
         | (Inr f, w) \<Rightarrow> extract_loop give rest (credit - length segment) (evs @ [f]) w)"
    and "over = None \<Longrightarrow> dropWhile (\<lambda>b. b \<noteq> 10) bs = b # rest \<Longrightarrow> \<not> blank \<Longrightarrow>
      extract_loop give bs credit evs w =
        extract_loop give rest (credit - length segment - 1) evs (w1\<lparr>parser := append_pending [10] (parser w1)\<rparr>)"
proof -
  have turn: "extract_loop give bs credit evs w =
    (case over of
       Some e \<Rightarrow> (Some e, evs, credit - length segment, w1)
     | None \<Rightarrow>
         (case dropWhile (\<lambda>b. b \<noteq> 10) bs of
            [] \<Rightarrow> (None, evs, credit - length segment, w1)
          | _ # rest \<Rightarrow>
              if blank
              then
                (case end_event give evs w1 of
                   (Inl e, w) \<Rightarrow> (Some e, evs, credit - length segment, w)
                 | (Inr f, w) \<Rightarrow> extract_loop give rest (credit - length segment) (evs @ [f]) w)
              else
                extract_loop give rest (credit - length segment - 1) evs
                  (w1\<lparr>parser := append_pending [10] (parser w1)\<rparr>)))"
    unfolding assms by (subst extract_loop.simps) (simp only: Let_def)
  show "over = Some e \<Longrightarrow>
      extract_loop give bs credit evs w = (Some e, evs, credit - length segment, w1)"
    by (simp only: turn option.case)
  show "over = None \<Longrightarrow> dropWhile (\<lambda>b. b \<noteq> 10) bs = [] \<Longrightarrow>
      extract_loop give bs credit evs w = (None, evs, credit - length segment, w1)"
    by (simp only: turn option.case list.case)
  show "over = None \<Longrightarrow> dropWhile (\<lambda>b. b \<noteq> 10) bs = b # rest \<Longrightarrow> blank \<Longrightarrow>
      extract_loop give bs credit evs w =
        (case end_event give evs w1 of
           (Inl e, w) \<Rightarrow> (Some e, evs, credit - length segment, w)
         | (Inr f, w) \<Rightarrow> extract_loop give rest (credit - length segment) (evs @ [f]) w)"
    by (simp only: turn option.case list.case if_True)
  show "over = None \<Longrightarrow> dropWhile (\<lambda>b. b \<noteq> 10) bs = b # rest \<Longrightarrow> \<not> blank \<Longrightarrow>
      extract_loop give bs credit evs w =
        extract_loop give rest (credit - length segment - 1) evs (w1\<lparr>parser := append_pending [10] (parser w1)\<rparr>)"
    by (simp only: turn option.case list.case if_False)
qed

definition extract_events ::
  "(nat \<Rightarrow> 'b \<Rightarrow> bool \<times> 'b) \<Rightarrow> (nat \<Rightarrow> 'b \<Rightarrow> 'b) \<Rightarrow> codepoint_list \<Rightarrow> 'b sse_world
   \<Rightarrow> (sse_error + frame list) \<times> 'b sse_world" where
  "extract_events reserve give t w =
     (if t = [] then (Inr [], w)
      else
        (case encode t of
           None \<Rightarrow> (Inl (SSEProtocolError ''SSE text contains an invalid Unicode scalar''), w)
         | Some bs \<Rightarrow>
             (let (granted, b) = reserve (length bs) (pool w); w = w\<lparr>pool := b\<rparr> in
              if \<not> granted then (Inl StreamParserBufferBudgetExhausted, w)
              else
                let (e, fs, credit, w) = extract_loop give bs (length bs) [] w;
                    w = (if credit \<noteq> 0 then w\<lparr>pool := give credit (pool w)\<rparr> else w)
                in (case e of None \<Rightarrow> (Inr fs, w) | Some e \<Rightarrow> (Inl e, drop_frames give fs w)))))"

section \<open>Feeding\<close>

definition feed_pieces :: "chunk \<Rightarrow> chunk list" where
  "feed_pieces c = (case c of Text t \<Rightarrow> map Text (slices UNITS t) | Bytes bs \<Rightarrow> map Bytes (slices UNITS bs))"

text \<open>\<open>_bounded_utf8_size\<close> on the slices of a text; None: \<open>UnicodeEncodeError\<close>.\<close>

fun bounded_utf8_size :: "nat \<Rightarrow> nat \<Rightarrow> codepoint_list list \<Rightarrow> nat option" where
  "bounded_utf8_size limit observed [] = Some observed"
| "bounded_utf8_size limit observed (t # ts) =
     (case encode t of
        None \<Rightarrow> None
      | Some bs \<Rightarrow>
          if limit < observed + length bs then Some (observed + length bs)
          else bounded_utf8_size limit (observed + length bs) ts)"

definition validate_feed_size :: "chunk \<Rightarrow> SSEParser \<Rightarrow> sse_error option" where
  "validate_feed_size c p =
     (if max_feed_bytes p = 0 then None
      else
        (case (case c of Text t \<Rightarrow> bounded_utf8_size (max_feed_bytes p) 0 (slices UNITS t)
                       | Bytes bs \<Rightarrow> Some (length bs)) of
           None \<Rightarrow> Some (SSEProtocolError ''SSE text contains an invalid Unicode scalar'')
         | Some observed \<Rightarrow>
             if max_feed_bytes p < observed
             then Some (SSEBufferOverflowError ''input chunk'' (max_feed_bytes p) observed) else None))"

text \<open>One turn of the loop of \<open>feed\<close>, and the loop; a call that raises drops its frames.\<close>

definition feed_piece ::
  "(nat \<Rightarrow> 'b \<Rightarrow> bool \<times> 'b) \<Rightarrow> (nat \<Rightarrow> 'b \<Rightarrow> 'b) \<Rightarrow> chunk \<Rightarrow> frame list \<Rightarrow> 'b sse_world
   \<Rightarrow> (sse_error + frame list) \<times> 'b sse_world" where
  "feed_piece reserve give c events w =
     (case decode_chunk c (parser w) of
        Inl e \<Rightarrow> (Inl e, drop_frames give events w)
      | Inr (t, p) \<Rightarrow>
          (let (t, p) = strip_initial_bom False t p; (t, p) = normalize_newlines False t p in
           case extract_events reserve give t (w\<lparr>parser := p\<rparr>) of
             (Inl e, w) \<Rightarrow> (Inl e, drop_frames give events w)
           | (Inr extracted, w) \<Rightarrow>
               if max_events_per_feed (parser w) < length events + length extracted
               then (Inl (SSEOutputLimitError ''events'' (max_events_per_feed (parser w))
                       (length events + length extracted)),
                     drop_frames give (events @ extracted) w)
               else
                 (case validate_pending_size (parser w) of
                    Some e \<Rightarrow> (Inl e, drop_frames give (events @ extracted) w)
                  | None \<Rightarrow> (Inr (events @ extracted), w))))"

fun feed_loop ::
  "(nat \<Rightarrow> 'b \<Rightarrow> bool \<times> 'b) \<Rightarrow> (nat \<Rightarrow> 'b \<Rightarrow> 'b) \<Rightarrow> chunk list \<Rightarrow> frame list \<Rightarrow> 'b sse_world
   \<Rightarrow> (sse_error + frame list) \<times> 'b sse_world" where
  "feed_loop reserve give [] events w = (Inr events, w)"
| "feed_loop reserve give (c # cs) events w =
     (case feed_piece reserve give c events w of
        (Inl e, w) \<Rightarrow> (Inl e, w)
      | (Inr events, w) \<Rightarrow> feed_loop reserve give cs events w)"

definition feed ::
  "(nat \<Rightarrow> 'b \<Rightarrow> bool \<times> 'b) \<Rightarrow> (nat \<Rightarrow> 'b \<Rightarrow> 'b) \<Rightarrow> chunk \<Rightarrow> 'b sse_world
   \<Rightarrow> (sse_error + frame list) \<times> 'b sse_world" where
  "feed reserve give c w =
     (if finished (parser w) then (Inl (SSEProtocolError ''cannot feed an SSE parser after finish()''), w)
      else if failed (parser w) then (Inl (SSEProtocolError ''cannot feed an SSE parser after a parse failure''), w)
      else
        (case validate_feed_size c (parser w) of
           Some e \<Rightarrow> (Inl e, fail_parser give w)
         | None \<Rightarrow>
             (case feed_loop reserve give (feed_pieces c) [] w of
                (Inl e, w) \<Rightarrow> (Inl e, fail_parser give w)
              | (Inr events, w) \<Rightarrow> (Inr events, w))))"

definition finish ::
  "(nat \<Rightarrow> 'b \<Rightarrow> bool \<times> 'b) \<Rightarrow> (nat \<Rightarrow> 'b \<Rightarrow> 'b) \<Rightarrow> 'b sse_world \<Rightarrow> (sse_error + frame list) \<times> 'b sse_world" where
  "finish reserve give w =
     (if failed (parser w)
      then (Inl (SSEProtocolError ''cannot finish an SSE parser after a parse failure''), w)
      else if finished (parser w) then (Inr [], w)
      else
        let w = w\<lparr>parser := (parser w)\<lparr>finished := True\<rparr>\<rparr> in
        if undecoded (parser w) \<noteq> []
        then (Inl (SSEProtocolError ''SSE stream ended with an incomplete UTF-8 sequence''), fail_parser give w)
        else
          let (t, p) = strip_initial_bom True [] (parser w); (t, p) = normalize_newlines True t p in
          case extract_events reserve give t (w\<lparr>parser := p\<rparr>) of
            (Inl e, w) \<Rightarrow> (Inl e, fail_parser give w)
          | (Inr events, w) \<Rightarrow>
              (case validate_pending_size (parser w) of
                 Some e \<Rightarrow> (Inl e, fail_parser give (drop_frames give events w))
               | None \<Rightarrow>
                   if event_bytes (parser w) \<noteq> []
                   then (Inl (SSEIncompleteEventError (pending_size_bytes (parser w))),
                         fail_parser give (drop_frames give events w))
                   else (Inr events, w)))"

text \<open>\<open>iter_sse_events\<close>: the frames it yields, and the exception that ends it, if any.\<close>

fun iter_sse_events ::
  "(nat \<Rightarrow> 'b \<Rightarrow> bool \<times> 'b) \<Rightarrow> (nat \<Rightarrow> 'b \<Rightarrow> 'b) \<Rightarrow> chunk list \<Rightarrow> 'b sse_world
   \<Rightarrow> frame list \<times> sse_error option \<times> 'b sse_world" where
  "iter_sse_events reserve give [] w =
     (case finish reserve give w of
        (Inl e, w) \<Rightarrow> ([], Some e, discard give w)
      | (Inr fs, w) \<Rightarrow> (fs, None, discard give w))"
| "iter_sse_events reserve give (c # cs) w =
     (case feed reserve give c w of
        (Inl e, w) \<Rightarrow> ([], Some e, discard give w)
      | (Inr fs, w) \<Rightarrow> (let (gs, e, w) = iter_sse_events reserve give cs w in (fs @ gs, e, w)))"

section \<open>The reference\<close>

text \<open>Normalization with the memory of a CR, over a whole text.\<close>

fun norm :: "bool \<Rightarrow> codepoint_list \<Rightarrow> codepoint_list" where
  "norm cr [] = []"
| "norm cr (c # t) =
     (if cr \<and> c = 10 then norm False t
      else if c = 13 then 10 # norm True t
      else c # norm False t)"

definition ends_cr :: "bool \<Rightarrow> codepoint_list \<Rightarrow> bool" where
  "ends_cr cr t = (if t = [] then cr else last t = 13)"

lemma norm_append: "norm cr (s @ t) = norm cr s @ norm (ends_cr cr s) t"
  by (induction s arbitrary: cr) (auto simp: ends_cr_def)

lemma norm_replace: "replace_cr (replace_crlf t) = norm False t"
proof (induction t rule: replace_crlf.induct)
  case (3 c d t)
  then show ?case by (auto simp: replace_cr_def)
qed (auto simp: replace_cr_def)

lemma norm_True: "norm True t = (if t \<noteq> [] \<and> hd t = 10 then norm False (tl t) else norm False t)"
  by (cases t) auto

lemma normalize_norm:
  "normalize_newlines False t p = (norm (trailing_cr p) t, p\<lparr>trailing_cr := ends_cr (trailing_cr p) t\<rparr>)"
proof (cases "trailing_cr p \<and> t \<noteq> [] \<and> hd t = 10")
  case True
  then obtain r where "t = 10 # r" by (cases t) auto
  with True show ?thesis by (auto simp: normalize_newlines_def norm_replace ends_cr_def Let_def)
next
  case False
  then show ?thesis
    by (cases t) (auto simp: normalize_newlines_def norm_replace norm_True ends_cr_def Let_def)
qed

text \<open>Cutting at blank lines.\<close>

fun blank_split :: "'a \<Rightarrow> 'a list \<Rightarrow> 'a list \<Rightarrow> 'a list list \<times> 'a list" where
  "blank_split lf ev [] = ([], ev)"
| "blank_split lf ev (b # bs) =
     (if b = lf \<and> ev \<noteq> [] \<and> last ev = lf
      then (butlast ev # fst (blank_split lf [] bs), snd (blank_split lf [] bs))
      else blank_split lf (ev @ [b]) bs)"

lemma blank_split_append:
  "blank_split lf ev (s @ t) =
     (fst (blank_split lf ev s) @ fst (blank_split lf (snd (blank_split lf ev s)) t),
      snd (blank_split lf (snd (blank_split lf ev s)) t))"
  by (induction lf ev s rule: blank_split.induct) auto

lemma blank_split_segment: "lf \<notin> set s \<Longrightarrow> blank_split lf ev (s @ t) = blank_split lf (ev @ s) t"
  by (induction s arbitrary: ev) auto

text \<open>No byte of the encoding of another character is an LF.\<close>

lemma encode_lf: "encode_char 10 = [10]"
  by (simp add: encode_char_def)

lemma encode_other: "c \<noteq> 10 \<Longrightarrow> scalar c \<Longrightarrow> 10 \<notin> set (map of_nat (encode_char c) :: byte list)"
proof
  assume c: "c \<noteq> 10" "scalar c" and "10 \<in> set (map of_nat (encode_char c) :: byte list)"
  then obtain b where b: "b \<in> set (encode_char c)" "(10 :: byte) = of_nat b" by auto
  have "b = 10" using arg_cong [OF b(2), of unat] encode_char_bytes [OF c(2) b(1)] by (simp add: unat_byte)
  with b(1) c(1) show False by (auto simp: encode_char_def split: if_splits)
qed

lemma encode_char_nonempty: "encode_char c \<noteq> []"
  by (simp add: encode_char_def)

lemma utf8_last:
  assumes "list_all scalar ev" "ev \<noteq> []"
  shows "last (utf8_bytes ev) = 10 \<longleftrightarrow> last ev = 10"
proof -
  obtain e c where ev: "ev = e @ [c]" using assms(2) by (cases ev rule: rev_cases) auto
  show ?thesis
  proof (cases "c = 10")
    case True
    then show ?thesis by (simp add: ev encode_lf)
  next
    case False
    have "last (map of_nat (encode_char c) :: byte list) \<in> set (map of_nat (encode_char c))"
      using encode_char_nonempty by (intro last_in_set) simp
    then have "last (map of_nat (encode_char c) :: byte list) \<noteq> 10"
      using encode_other [OF False] assms(1) ev by auto
    then show ?thesis using False by (simp add: ev encode_char_nonempty)
  qed
qed

lemma utf8_empty [simp]: "utf8_bytes t = [] \<longleftrightarrow> t = []"
  by (cases t) (simp_all add: encode_char_nonempty)

lemma utf8_butlast: "ev \<noteq> [] \<Longrightarrow> last ev = 10 \<Longrightarrow> butlast (utf8_bytes ev) = utf8_bytes (butlast ev)"
  by (cases ev rule: rev_cases) (simp_all add: encode_lf butlast_append)

lemma blank_split_utf8:
  assumes "list_all scalar ev" "list_all scalar t"
  shows "blank_split 10 (utf8_bytes ev) (utf8_bytes t) =
    (map utf8_bytes (fst (blank_split 10 ev t)), utf8_bytes (snd (blank_split 10 ev t)))"
  using assms
proof (induction "10 :: nat" ev t rule: blank_split.induct)
  case (2 ev c t)
  note scalars = "2.prems" and IH = "2.hyps"
  show ?case
  proof (cases "c = 10 \<and> ev \<noteq> [] \<and> last ev = 10")
    case True
    with IH scalars utf8_last [OF scalars(1)] show ?thesis by (simp add: encode_lf utf8_butlast)
  next
    case False
    have "list_all scalar (ev @ [c])" using scalars by simp
    with IH(3) False scalars have step: "blank_split 10 (utf8_bytes (ev @ [c])) (utf8_bytes t) =
      (map utf8_bytes (fst (blank_split 10 (ev @ [c]) t)), utf8_bytes (snd (blank_split 10 (ev @ [c]) t)))"
      by simp
    show ?thesis
    proof (cases "c = 10")
      case True
      with step False utf8_last [OF scalars(1)] show ?thesis by (auto simp: encode_lf)
    next
      case other: False
      have "blank_split 10 (utf8_bytes ev) (map of_nat (encode_char c) @ utf8_bytes t) =
          blank_split 10 (utf8_bytes ev @ map of_nat (encode_char c)) (utf8_bytes t)"
        using scalars(2) by (intro blank_split_segment encode_other [OF other]) simp
      with step other show ?thesis by simp
    qed
  qed
qed simp

lemma blank_split_elements:
  "(\<forall>f \<in> set (fst (blank_split lf ev t)). set f \<subseteq> set ev \<union> set t) \<and> set (snd (blank_split lf ev t)) \<subseteq> set ev \<union> set t"
proof (induction lf ev t rule: blank_split.induct)
  case (2 lf ev b bs)
  show ?case
  proof (cases "b = lf \<and> ev \<noteq> [] \<and> last ev = lf")
    case True
    moreover have "set (butlast ev) \<subseteq> set ev" by (auto dest: in_set_butlastD)
    ultimately show ?thesis using "2.IH"(1) by auto
  next
    case False
    then show ?thesis using "2.IH"(3) by auto
  qed
qed simp

lemma blank_split_scalar:
  "list_all scalar ev \<Longrightarrow> list_all scalar t \<Longrightarrow>
   (\<forall>f \<in> set (fst (blank_split lf ev t)). list_all scalar f) \<and> list_all scalar (snd (blank_split lf ev t))"
  using blank_split_elements [of lf ev t] by (fastforce simp: list_all_iff)

section \<open>Extraction follows the reference\<close>

lemma append_pending_frame [simp]:
  "event_bytes (append_pending bs p) = event_bytes p @ bs"
  "pending_budget_bytes (append_pending bs p) = pending_budget_bytes p + length bs"
  "max_event_bytes (append_pending bs p) = max_event_bytes p"
  "max_pending_bytes (append_pending bs p) = max_pending_bytes p"
  "max_events_per_feed (append_pending bs p) = max_events_per_feed p"
  "max_feed_bytes (append_pending bs p) = max_feed_bytes p"
  "undecoded (append_pending bs p) = undecoded p"
  "trailing_cr (append_pending bs p) = trailing_cr p"
  "finished (append_pending bs p) = finished p" "failed (append_pending bs p) = failed p"
  "at_stream_start (append_pending bs p) = at_stream_start p"
  "failure_pending (append_pending bs p) = failure_pending p"
  by (simp_all add: append_pending_def)

text \<open>The parser apart from its event.\<close>

definition outside :: "SSEParser \<Rightarrow> SSEParser" where
  "outside p = p\<lparr>event_bytes := [], pending_budget_bytes := 0\<rparr>"

lemma outside_simps [simp]:
  "outside (append_pending bs p) = outside p"
  "outside (p\<lparr>event_bytes := e\<rparr>) = outside p" "outside (p\<lparr>pending_budget_bytes := n\<rparr>) = outside p"
  by (simp_all add: outside_def append_pending_def)

lemma outside_sel:
  "undecoded (outside p) = undecoded p" "trailing_cr (outside p) = trailing_cr p"
  "finished (outside p) = finished p" "failed (outside p) = failed p"
  "at_stream_start (outside p) = at_stream_start p" "max_event_bytes (outside p) = max_event_bytes p"
  "max_pending_bytes (outside p) = max_pending_bytes p"
  "max_events_per_feed (outside p) = max_events_per_feed p"
  "max_feed_bytes (outside p) = max_feed_bytes p" "failure_pending (outside p) = failure_pending p"
  by (simp_all add: outside_def)

lemma outside_fields:
  assumes "outside p = outside q"
  shows "undecoded p = undecoded q" "trailing_cr p = trailing_cr q" "finished p = finished q"
    "failed p = failed q" "at_stream_start p = at_stream_start q" "max_event_bytes p = max_event_bytes q"
    "max_pending_bytes p = max_pending_bytes q" "max_events_per_feed p = max_events_per_feed q"
    "max_feed_bytes p = max_feed_bytes q" "failure_pending p = failure_pending q"
  using arg_cong [OF assms, of undecoded] arg_cong [OF assms, of trailing_cr] arg_cong [OF assms, of finished]
    arg_cong [OF assms, of failed] arg_cong [OF assms, of at_stream_start] arg_cong [OF assms, of max_event_bytes]
    arg_cong [OF assms, of max_pending_bytes] arg_cong [OF assms, of max_events_per_feed]
    arg_cong [OF assms, of max_feed_bytes] arg_cong [OF assms, of failure_pending]
  by (simp_all add: outside_sel)

lemma end_event_frame:
  assumes "end_event give events w = (Inr f, w')"
  shows "decode_all (butlast (event_bytes (parser w))) = Some (frame_text f)" "event_bytes (parser w') = []"
    "outside (parser w') = outside (parser w)" "pending_budget_bytes (parser w') = 0"
    "frame_retained f + 1 = pending_budget_bytes (parser w)" "pool w' = give 1 (pool w)"
    "length events < max_events_per_feed (parser w)"
    "max_event_bytes (parser w) \<noteq> 0 \<Longrightarrow> length (butlast (event_bytes (parser w))) \<le> max_event_bytes (parser w)"
  using assms unfolding end_event_def Let_def validate_complete_event_def
  by (simp_all split: if_split_asm option.split_asm, safe, simp_all)

lemma extract_loop_frames:
  "extract_loop give bs credit events w = (None, fs, credit', w') \<Longrightarrow>
   \<exists>gs. fs = events @ gs \<and>
     map decode_all (fst (blank_split 10 (event_bytes (parser w)) bs)) = map (Some \<circ> frame_text) gs \<and>
     event_bytes (parser w') = snd (blank_split 10 (event_bytes (parser w)) bs) \<and>
     outside (parser w') = outside (parser w)"
proof (induction give bs credit events w arbitrary: fs credit' w' rule: extract_loop.induct)
  case (1 give bs credit events w)
  let ?seg = "takeWhile (\<lambda>b. b \<noteq> 10) bs" and ?rest = "dropWhile (\<lambda>b. b \<noteq> 10) bs"
  let ?w = "w\<lparr>parser := append_pending ?seg (parser w)\<rparr>"
  have seg: "blank_split 10 (event_bytes (parser w)) bs = blank_split 10 (event_bytes (parser ?w)) ?rest"
    using blank_split_segment [of 10 ?seg "event_bytes (parser w)" ?rest]
    by (auto dest: set_takeWhileD)
  have ok: "(if ?seg = [] then None else validate_complete_event (parser ?w)) = None"
    using "1.prems" by (subst (asm) extract_loop.simps) (auto simp: Let_def split: option.splits)
  show ?case
  proof (cases ?rest)
    case Nil
    then have "blank_split 10 (event_bytes (parser w)) bs = ([], event_bytes (parser ?w))"
      unfolding seg by (simp only: blank_split.simps)
    moreover have "fs = events" "w' = ?w"
      using "1.prems" ok Nil by (subst (asm) extract_loop.simps, simp add: Let_def)+
    ultimately show ?thesis by simp
  next
    case (Cons b rest)
    have b: "b = 10" using hd_dropWhile [of "\<lambda>b. b \<noteq> 10" bs] Cons by auto
    show ?thesis
    proof (cases "event_bytes (parser ?w) \<noteq> [] \<and> last (event_bytes (parser ?w)) = 10")
      case True
      then obtain f w1 where e: "end_event give events ?w = (Inr f, w1)"
        and r: "extract_loop give rest (credit - length ?seg) (events @ [f]) w1 = (None, fs, credit', w')"
        using "1.prems" ok Cons
        by (subst (asm) extract_loop.simps) (auto simp: Let_def split: prod.splits sum.splits)
      note f = end_event_frame [OF e]
      from "1.IH"(1) [OF refl refl refl refl ok Cons True e [symmetric] refl r] obtain gs where
        "fs = (events @ [f]) @ gs"
        "map decode_all (fst (blank_split 10 (event_bytes (parser w1)) rest)) = map (Some \<circ> frame_text) gs"
        "event_bytes (parser w') = snd (blank_split 10 (event_bytes (parser w1)) rest)"
        "outside (parser w') = outside (parser w1)" by blast
      with f True b Cons show ?thesis by (auto simp: seg)
    next
      case False
      then have r: "extract_loop give rest (credit - length ?seg - 1) events
          (?w\<lparr>parser := append_pending [10] (parser ?w)\<rparr>) = (None, fs, credit', w')"
        using "1.prems" ok Cons by (subst (asm) extract_loop.simps) (auto simp: Let_def)
      from "1.IH"(2) [OF refl refl refl refl ok Cons False r] False b Cons show ?thesis by (auto simp: seg)
    qed
  qed
qed

lemma drop_frames_parser [simp]: "parser (drop_frames give fs w) = parser w"
  by (simp add: drop_frames_def)

lemma extract_events_frames:
  assumes "extract_events reserve give t w = (Inr fs, w')"
    and "event_bytes (parser w) = utf8_bytes ev" "list_all scalar ev"
  shows "list_all scalar t" "map frame_text fs = fst (blank_split 10 ev t)"
    "event_bytes (parser w') = utf8_bytes (snd (blank_split 10 ev t))"
    "outside (parser w') = outside (parser w)"
proof -
  have all: "list_all scalar t \<and> map frame_text fs = fst (blank_split 10 ev t) \<and>
    event_bytes (parser w') = utf8_bytes (snd (blank_split 10 ev t)) \<and> outside (parser w') = outside (parser w)"
  proof (cases "t = []")
    case True
    with assms show ?thesis by (simp add: extract_events_def)
  next
    case False
    from assms(1) False have t: "list_all scalar t"
      by (auto simp: extract_events_def encode_def split: if_splits)
    with assms(1) False obtain b credit w1 where
      loop: "extract_loop give (utf8_bytes t) (length (utf8_bytes t)) [] (w\<lparr>pool := b\<rparr>) = (None, fs, credit, w1)"
      and w': "parser w' = parser w1"
      by (auto simp: extract_events_def encode_def Let_def split: prod.splits if_splits option.splits)
    from extract_loop_frames [OF loop] blank_split_utf8 [OF assms(3) t] blank_split_scalar [OF assms(3) t]
    have f: "map decode_all (map utf8_bytes (fst (blank_split 10 ev t))) = map (Some \<circ> frame_text) fs"
      "event_bytes (parser w1) = utf8_bytes (snd (blank_split 10 ev t))" "outside (parser w1) = outside (parser w)"
      by (auto simp: assms(2))
    have "map decode_all (map utf8_bytes (fst (blank_split 10 ev t))) = map Some (fst (blank_split 10 ev t))"
      using blank_split_scalar [OF assms(3) t] by simp
    with f(1) have "map Some (map frame_text fs) = map Some (fst (blank_split 10 ev t))" by simp
    then have "map frame_text fs = fst (blank_split 10 ev t)"
      by (rule map_injective) (simp add: inj_def)
    with f t w' show ?thesis by simp
  qed
  show "list_all scalar t" "map frame_text fs = fst (blank_split 10 ev t)"
    "event_bytes (parser w') = utf8_bytes (snd (blank_split 10 ev t))"
    "outside (parser w') = outside (parser w)" using all by simp_all
qed

section \<open>Feeding follows the stream\<close>

text \<open>The text of a chunk after the bytes kept so far, and of a list of chunks.\<close>

definition chunk_text :: "nat list \<Rightarrow> chunk \<Rightarrow> (codepoint_list \<times> nat list) option" where
  "chunk_text kept c = (case c of Text t \<Rightarrow> if kept = [] \<or> t = [] then Some (t, kept) else None
                          | Bytes bs \<Rightarrow> decode kept bs)"

fun stream_text :: "nat list \<Rightarrow> chunk list \<Rightarrow> (codepoint_list \<times> nat list) option" where
  "stream_text kept [] = Some ([], kept)"
| "stream_text kept (c # cs) =
     (case chunk_text kept c of
        None \<Rightarrow> None
      | Some (t, kept) \<Rightarrow> (case stream_text kept cs of None \<Rightarrow> None | Some (u, rest) \<Rightarrow> Some (t @ u, rest)))"

text \<open>The frames of a whole text and what is left of it.\<close>

definition normalized :: "codepoint_list \<Rightarrow> codepoint_list" where
  "normalized t = norm False (remove_bom t)"

definition sse_frames :: "codepoint_list \<Rightarrow> codepoint_list list" where
  "sse_frames t = fst (blank_split 10 [] (normalized t))"

definition sse_rest :: "codepoint_list \<Rightarrow> codepoint_list" where
  "sse_rest t = snd (blank_split 10 [] (normalized t))"

definition has_read :: "codepoint_list \<Rightarrow> nat list \<Rightarrow> SSEParser \<Rightarrow> bool" where
  "has_read t kept p \<longleftrightarrow> list_all scalar t \<and> partial kept \<and> undecoded p = kept \<and>
     at_stream_start p = (t = []) \<and> trailing_cr p = ends_cr False (remove_bom t) \<and>
     event_bytes p = utf8_bytes (sse_rest t)"

lemma remove_bom_append: "t \<noteq> [] \<Longrightarrow> remove_bom (t @ u) = remove_bom t @ u"
  by (cases t) (simp_all add: remove_bom_def)

lemma scalar_remove_bom: "list_all scalar (remove_bom t) = list_all scalar t"
  by (cases t) (auto simp: remove_bom_def scalar_def)

lemma scalar_norm: "list_all scalar (norm cr t) = list_all scalar t"
  by (induction cr t rule: norm.induct) (auto simp: scalar_def)

lemma scalar_rest: "list_all scalar t \<Longrightarrow> list_all scalar (sse_rest t)"
  using blank_split_scalar [of "[]" "normalized t"]
  by (simp add: sse_rest_def normalized_def scalar_norm scalar_remove_bom)

lemma strip_bom_text:
  assumes "at_stream_start p = (t = [])"
  shows "strip_initial_bom False u p =
    (if t = [] then remove_bom u else u, p\<lparr>at_stream_start := (t @ u = [])\<rparr>)"
  using assms by (cases u; cases t) (simp_all add: strip_initial_bom_def remove_bom_def)

lemma normalized_append:
  "normalized (t @ u) = normalized t @ norm (ends_cr False (remove_bom t)) (if t = [] then remove_bom u else u)"
  by (cases "t = []") (simp_all add: normalized_def remove_bom_append norm_append, simp add: remove_bom_def ends_cr_def)

lemma ends_cr_append:
  "ends_cr False (remove_bom (t @ u)) = ends_cr (ends_cr False (remove_bom t)) (if t = [] then remove_bom u else u)"
  by (cases "t = []") (simp_all add: remove_bom_append ends_cr_def, simp add: remove_bom_def)

lemma feed_piece_frames:
  assumes "feed_piece reserve give c events w = (Inr fs, w')" and "has_read t kept (parser w)"
  shows "\<exists>u kept' gs. chunk_text kept c = Some (u, kept') \<and> has_read (t @ u) kept' (parser w') \<and>
    fs = events @ gs \<and> sse_frames (t @ u) = sse_frames t @ map frame_text gs \<and>
    finished (parser w') = finished (parser w) \<and> failed (parser w') = failed (parser w)"
proof -
  let ?p = "parser w"
  have p: "undecoded ?p = kept" "at_stream_start ?p = (t = [])" "trailing_cr ?p = ends_cr False (remove_bom t)"
    "event_bytes ?p = utf8_bytes (sse_rest t)" "list_all scalar t" "partial kept"
    using assms(2) by (simp_all add: has_read_def)
  obtain u p1 where u: "decode_chunk c ?p = Inr (u, p1)"
    using assms(1) by (auto simp: feed_piece_def split: sum.splits)
  then obtain kept' where k: "chunk_text kept c = Some (u, kept')" "p1 = ?p\<lparr>undecoded := kept'\<rparr>"
    using p(1) by (auto simp: decode_chunk_def chunk_text_def split: chunk.splits if_splits option.splits)
  have kept': "partial kept'"
    using k(1) p(6) decode_bytes [OF p(6)] by (auto simp: chunk_text_def split: chunk.splits if_splits)
  let ?u = "if t = [] then remove_bom u else u"
  let ?n = "norm (trailing_cr ?p) ?u"
  let ?p2 = "p1\<lparr>at_stream_start := (t @ u = []), trailing_cr := ends_cr (trailing_cr ?p) ?u\<rparr>"
  have n: "normalize_newlines False ?u (p1\<lparr>at_stream_start := (t @ u = [])\<rparr>) = (?n, ?p2)"
    by (simp add: normalize_norm k(2))
  have "strip_initial_bom False u p1 = (?u, p1\<lparr>at_stream_start := (t @ u = [])\<rparr>)"
    by (rule strip_bom_text) (simp add: k(2) p(2))
  with assms(1) u n obtain gs w1 where
    x: "extract_events reserve give ?n (w\<lparr>parser := ?p2\<rparr>) = (Inr gs, w1)" and fs: "fs = events @ gs" "w' = w1"
    by (auto simp: feed_piece_def Let_def split: prod.splits sum.splits if_splits option.splits)
  have "event_bytes (parser (w\<lparr>parser := ?p2\<rparr>)) = utf8_bytes (sse_rest t)" by (simp add: k(2) p(4))
  note e = extract_events_frames [OF x this scalar_rest [OF p(5)]]
  note out = outside_fields [OF e(4)]
  have "normalized (t @ u) = normalized t @ ?n" by (simp add: normalized_append p(3))
  then have split: "sse_frames (t @ u) = sse_frames t @ map frame_text gs"
      "event_bytes (parser w') = utf8_bytes (sse_rest (t @ u))"
    using e(2, 3) fs(2) by (simp_all add: sse_frames_def sse_rest_def blank_split_append)
  have "list_all scalar u"
    using e(1) by (simp add: scalar_norm scalar_remove_bom split: if_splits)
  then have "has_read (t @ u) kept' (parser w')"
    using p(5) kept' split(2) out fs(2) by (simp add: has_read_def ends_cr_append k(2) p(3))
  with k(1) fs split(1) out show ?thesis by (auto simp: k(2))
qed

lemma feed_loop_frames:
  "feed_loop reserve give cs events w = (Inr fs, w') \<Longrightarrow> has_read t kept (parser w) \<Longrightarrow>
   \<exists>u kept' gs. stream_text kept cs = Some (u, kept') \<and> has_read (t @ u) kept' (parser w') \<and>
     fs = events @ gs \<and> sse_frames (t @ u) = sse_frames t @ map frame_text gs \<and>
     finished (parser w') = finished (parser w) \<and> failed (parser w') = failed (parser w)"
proof (induction cs arbitrary: events w t kept)
  case (Cons c cs)
  from Cons.prems(1) obtain ev w1 where s: "feed_piece reserve give c events w = (Inr ev, w1)"
    and r: "feed_loop reserve give cs ev w1 = (Inr fs, w')"
    by (auto split: prod.splits sum.splits)
  from feed_piece_frames [OF s Cons.prems(2)] obtain u k gs where
    1: "chunk_text kept c = Some (u, k)" "has_read (t @ u) k (parser w1)" "ev = events @ gs"
      "sse_frames (t @ u) = sse_frames t @ map frame_text gs"
      "finished (parser w1) = finished (parser w)" "failed (parser w1) = failed (parser w)" by blast
  from Cons.IH [OF r 1(2)] obtain v k' hs where
    "stream_text k cs = Some (v, k')" "has_read ((t @ u) @ v) k' (parser w')" "fs = ev @ hs"
    "sse_frames ((t @ u) @ v) = sse_frames (t @ u) @ map frame_text hs"
    "finished (parser w') = finished (parser w1)" "failed (parser w') = failed (parser w1)" by blast
  with 1 show ?case by auto
qed simp

lemma stream_text_append:
  "stream_text kept (cs @ ds) =
     (case stream_text kept cs of
        None \<Rightarrow> None
      | Some (t, k) \<Rightarrow> (case stream_text k ds of None \<Rightarrow> None | Some (u, rest) \<Rightarrow> Some (t @ u, rest)))"
  by (induction cs arbitrary: kept) (auto split: option.split)

lemma stream_text_bytes: "stream_text kept (map Bytes bss) = decode kept (concat bss)"
  by (induction bss arbitrary: kept) (simp_all add: chunk_text_def decode_append split: option.split)

lemma stream_text_texts:
  "kept = [] \<or> (\<forall>t \<in> set ts. t = []) \<Longrightarrow> stream_text kept (map Text ts) = Some (concat ts, kept)"
  by (induction ts arbitrary: kept) (auto simp: chunk_text_def)

lemma stream_text_stuck: "\<forall>t \<in> set ts. t \<noteq> [] \<Longrightarrow> kept \<noteq> [] \<Longrightarrow> ts \<noteq> [] \<Longrightarrow> stream_text kept (map Text ts) = None"
  by (cases ts) (auto simp: chunk_text_def)

lemma feed_pieces_text: "stream_text kept (feed_pieces c) = chunk_text kept c"
proof (cases c)
  case (Text t)
  show ?thesis
  proof (cases "kept = [] \<or> t = []")
    case True
    then show ?thesis using stream_text_texts [of kept "slices UNITS t"] concat_slices [of UNITS t]
      by (auto simp: Text feed_pieces_def chunk_text_def UNITS_def)
  next
    case False
    then have "slices UNITS t \<noteq> []" using concat_slices [of UNITS t] by (auto simp: UNITS_def)
    with False slices_nonempty [of UNITS t] show ?thesis
      by (simp add: Text feed_pieces_def chunk_text_def stream_text_stuck UNITS_def)
  qed
next
  case (Bytes bs)
  then show ?thesis using concat_slices [of UNITS bs]
    by (simp add: feed_pieces_def chunk_text_def stream_text_bytes UNITS_def)
qed

lemma feed_frames:
  assumes "feed reserve give c w = (Inr fs, w')" "has_read t kept (parser w)"
  shows "\<exists>u kept'. chunk_text kept c = Some (u, kept') \<and> has_read (t @ u) kept' (parser w') \<and>
     sse_frames (t @ u) = sse_frames t @ map frame_text fs \<and>
     finished (parser w') = finished (parser w) \<and> failed (parser w') = failed (parser w)"
proof -
  have "feed_loop reserve give (feed_pieces c) [] w = (Inr fs, w')"
    using assms(1) by (auto simp: feed_def split: if_splits option.splits prod.splits sum.splits)
  from feed_loop_frames [OF this assms(2)] show ?thesis by (auto simp: feed_pieces_text)
qed

lemma finish_frames:
  assumes "finish reserve give w = (Inr fs, w')" "has_read t kept (parser w)" "\<not> finished (parser w)"
  shows "kept = [] \<and> sse_rest t = [] \<and> fs = []"
proof -
  have k: "kept = []" using assms by (auto simp: finish_def has_read_def Let_def split: if_splits)
  define p1 where "p1 = snd (strip_initial_bom True [] ((parser w)\<lparr>finished := True\<rparr>))"
  have p1: "strip_initial_bom True [] ((parser w)\<lparr>finished := True\<rparr>) = ([], p1)" "event_bytes p1 = event_bytes (parser w)"
    by (auto simp: p1_def strip_initial_bom_def remove_bom_def)
  define p2 where "p2 = snd (normalize_newlines True [] p1)"
  have p2: "normalize_newlines True [] p1 = ([], p2)" "event_bytes p2 = event_bytes (parser w)"
    using p1(2) by (auto simp: p2_def normalize_newlines_def replace_cr_def Let_def)
  have "fs = []" "event_bytes p2 = []"
    using assms(1, 3) p1(1) p2(1) by (auto simp: finish_def extract_events_def Let_def split: if_splits option.splits)
  moreover have "utf8_bytes (sse_rest t) = event_bytes p2" using p2(2) assms(2) by (simp add: has_read_def)
  ultimately show ?thesis using k by simp
qed

text \<open>What \<open>iter_sse_events\<close> yields from a parser that has read a text.\<close>

lemma iter_frames:
  "iter_sse_events reserve give cs w = (fs, e, w') \<Longrightarrow> has_read t kept (parser w) \<Longrightarrow> \<not> finished (parser w) \<Longrightarrow>
   \<exists>n u kept'. n \<le> length cs \<and> stream_text kept (take n cs) = Some (u, kept') \<and>
     sse_frames (t @ u) = sse_frames t @ map frame_text fs \<and>
     (e = None \<longrightarrow> n = length cs \<and> kept' = [] \<and> sse_rest (t @ u) = [])"
proof (induction cs arbitrary: w t kept fs e w')
  case Nil
  then show ?case
    by (auto split: prod.splits sum.splits dest: finish_frames intro!: exI [of _ 0])
next
  case (Cons c cs)
  show ?case
  proof (cases "feed reserve give c w")
    case (Pair r w1)
    show ?thesis
    proof (cases r)
      case (Inl x)
      then show ?thesis using Cons.prems(1) Pair by (auto intro!: exI [of _ 0])
    next
      case (Inr gs)
      obtain hs e1 w2 where i: "iter_sse_events reserve give cs w1 = (hs, e1, w2)"
        by (cases "iter_sse_events reserve give cs w1")
      with Cons.prems(1) Pair Inr have f: "fs = gs @ hs" "e = e1" by auto
      from feed_frames [OF Pair [unfolded Inr] Cons.prems(2)] obtain u k where
        1: "chunk_text kept c = Some (u, k)" "has_read (t @ u) k (parser w1)"
          "sse_frames (t @ u) = sse_frames t @ map frame_text gs" "finished (parser w1) = finished (parser w)"
        by blast
      from Cons.IH [OF i 1(2)] Cons.prems(3) 1(4) obtain n v k' where
        "n \<le> length cs" "stream_text k (take n cs) = Some (v, k')"
        "sse_frames ((t @ u) @ v) = sse_frames (t @ u) @ map frame_text hs"
        "e1 = None \<longrightarrow> n = length cs \<and> k' = [] \<and> sse_rest ((t @ u) @ v) = []" by auto
      with 1 f show ?thesis by (intro exI [of _ "Suc n"]) auto
    qed
  qed
qed

lemma new_parser_read: "new_sse_parser a b c d = Inr p \<Longrightarrow> has_read [] [] p \<and> \<not> finished p \<and> \<not> failed p"
  by (auto simp: new_sse_parser_def has_read_def remove_bom_def ends_cr_def sse_rest_def normalized_def split: if_splits)

text \<open>The reference is the decomposition of the text at its blank lines.\<close>

definition no_blank :: "codepoint_list \<Rightarrow> bool" where
  "no_blank t \<longleftrightarrow> (\<forall>a b. t \<noteq> a @ [10, 10] @ b)"

lemma no_blank_snoc: "no_blank (ev @ [c]) \<longleftrightarrow> no_blank ev \<and> \<not> (c = 10 \<and> ev \<noteq> [] \<and> last ev = 10)"
proof
  assume n: "no_blank (ev @ [c])"
  have "no_blank ev" using n unfolding no_blank_def by (metis append.assoc)
  moreover have "\<not> (c = 10 \<and> ev \<noteq> [] \<and> last ev = 10)"
  proof
    assume c: "c = 10 \<and> ev \<noteq> [] \<and> last ev = 10"
    then have "ev @ [c] = butlast ev @ [10, 10] @ []" by (cases ev rule: rev_cases) auto
    with n show False unfolding no_blank_def by blast
  qed
  ultimately show "no_blank ev \<and> \<not> (c = 10 \<and> ev \<noteq> [] \<and> last ev = 10)" ..
next
  assume n: "no_blank ev \<and> \<not> (c = 10 \<and> ev \<noteq> [] \<and> last ev = 10)"
  show "no_blank (ev @ [c])"
    unfolding no_blank_def
  proof (intro allI notI)
    fix a b :: codepoint_list
    assume e: "ev @ [c] = a @ [10, 10] @ b"
    show False
    proof (cases b rule: rev_cases)
      case Nil
      then have "ev = a @ [10]" "c = 10" using e by (auto simp: append_eq_append_conv2 Cons_eq_append_conv)
      with n show False by simp
    next
      case (snoc b' d)
      then have "ev = a @ [10, 10] @ b'" using e by simp
      with n show False unfolding no_blank_def by blast
    qed
  qed
qed

lemma blank_split_decomposes:
  "no_blank ev \<Longrightarrow> ev @ t = concat (map (\<lambda>f. f @ [10, 10]) (fst (blank_split 10 ev t))) @ snd (blank_split 10 ev t) \<and>
     (\<forall>f \<in> set (fst (blank_split 10 ev t)). no_blank (f @ [10])) \<and> no_blank (snd (blank_split 10 ev t))"
proof (induction "10 :: nat" ev t rule: blank_split.induct)
  case (2 ev c t)
  show ?case
  proof (cases "c = 10 \<and> ev \<noteq> [] \<and> last ev = 10")
    case True
    then have ev: "ev = butlast ev @ [10]" by (metis append_butlast_last_id)
    have "no_blank []" by (simp add: no_blank_def)
    with True 2 have "t = concat (map (\<lambda>f. f @ [10, 10]) (fst (blank_split 10 [] t))) @ snd (blank_split 10 [] t)"
      "\<forall>f \<in> set (fst (blank_split 10 [] t)). no_blank (f @ [10])" "no_blank (snd (blank_split 10 [] t))" by auto
    moreover have "ev @ c # t = butlast ev @ [10, 10] @ t" using True ev by (metis append.assoc append_Cons append_Nil)
    moreover have "no_blank (butlast ev @ [10])" using 2(4) ev by simp
    ultimately show ?thesis using True by simp
  next
    case False
    with 2 have "no_blank (ev @ [c])" by (simp add: no_blank_snoc)
    moreover have "blank_split 10 ev (c # t) = blank_split 10 (ev @ [c]) t" using False by auto
    ultimately show ?thesis using 2(3) [OF False] by simp
  qed
qed simp

end
