(* ===== verification/SseStream.thy ===== *)
theory SseStream
  imports SseParser MemoryGovernor
begin

text \<open>
  What \<open>IncrementalSSEParser\<close> (theory \<open>SseParser\<close>) guarantees: the frames it yields are those of the stream,
  however the network cut it; within its limits; and every byte it holds, in the pending event or in a frame that is
  still referenced, is charged to the retained-byte budget and through it to the memory governor.
\<close>

section \<open>Accounting\<close>

definition retained :: "frame list \<Rightarrow> nat" where
  "retained fs = sum_list (map frame_retained fs)"

lemma retained_simps [simp]:
  "retained [] = 0" "retained (f # fs) = frame_retained f + retained fs"
  "retained (fs @ gs) = retained fs + retained gs"
  by (simp_all add: retained_def)

datatype sse_op = Feed chunk | Finish | Discard | DropFrame nat

text \<open>A parser with its consumer, who holds the frames it has not let go of.\<close>

fun sse_step ::
  "(nat \<Rightarrow> 'b \<Rightarrow> bool \<times> 'b) \<Rightarrow> (nat \<Rightarrow> 'b \<Rightarrow> 'b) \<Rightarrow> sse_op \<Rightarrow> 'b sse_world \<times> frame list \<Rightarrow> 'b sse_world \<times> frame list" where
  "sse_step reserve give (Feed c) (w, live) =
     (case feed reserve give c w of (Inl e, w) \<Rightarrow> (w, live) | (Inr fs, w) \<Rightarrow> (w, live @ fs))"
| "sse_step reserve give Finish (w, live) =
     (case finish reserve give w of (Inl e, w) \<Rightarrow> (w, live) | (Inr fs, w) \<Rightarrow> (w, live @ fs))"
| "sse_step reserve give Discard (w, live) = (discard give w, live)"
| "sse_step reserve give (DropFrame i) (w, live) =
     (if i < length live
      then (drop_frames give [live ! i] w, take i live @ drop (Suc i) live) else (w, live))"

context byte_pool
begin

text \<open>The pool owns \<open>base\<close> and what the pending event retains.\<close>

definition charged :: "int \<Rightarrow> 'g sse_world \<Rightarrow> bool" where
  "charged base w \<longleftrightarrow> 0 \<le> base \<and> pool_ok (pool w) \<and>
     owned (pool w) = base + int (pending_budget_bytes (parser w)) \<and>
     length (event_bytes (parser w)) = pending_budget_bytes (parser w)"

lemma charged_parser:
  "charged base w \<Longrightarrow> event_bytes p = event_bytes (parser w) \<Longrightarrow>
   pending_budget_bytes p = pending_budget_bytes (parser w) \<Longrightarrow> charged base (w\<lparr>parser := p\<rparr>)"
  by (simp add: charged_def)

lemma charged_give:
  "charged (base + int n) w \<Longrightarrow> 0 \<le> base \<Longrightarrow> charged base (w\<lparr>pool := give n (pool w)\<rparr>)"
  using give_law [of "pool w" n] by (simp add: charged_def)

lemma charged_clear: "charged base w \<Longrightarrow> charged base (clear_pending_event give w)"
  using give_law [of "pool w" "pending_budget_bytes (parser w)"]
  by (auto simp: charged_def clear_pending_event_def Let_def)

lemma charged_fail: "charged base w \<Longrightarrow> charged base (fail_parser give w)"
  unfolding fail_parser_def
  by (intro charged_clear charged_parser) (auto simp: capture_failure_def split: option.split)

lemma charged_discard: "charged base w \<Longrightarrow> charged base (discard give w)"
  unfolding discard_def by (intro charged_clear charged_parser) auto

lemma charged_drop: "charged (base + int (retained fs)) w \<Longrightarrow> 0 \<le> base \<Longrightarrow> charged base (drop_frames give fs w)"
proof (induction fs arbitrary: w)
  case (Cons f fs)
  have "charged ((base + int (retained fs)) + int (frame_retained f)) w"
    using Cons.prems(1) by (simp add: algebra_simps)
  then have "charged (base + int (retained fs)) (w\<lparr>pool := give (frame_retained f) (pool w)\<rparr>)"
    using Cons.prems(2) by (intro charged_give) auto
  with Cons.IH [OF this Cons.prems(2)] show ?case by (simp add: drop_frames_def)
qed (simp add: drop_frames_def)

lemma charged_append:
  assumes "charged (base + int credit) w" "length bs \<le> credit" "0 \<le> base"
  shows "charged (base + int (credit - length bs)) (w\<lparr>parser := append_pending bs (parser w)\<rparr>)"
  using assms by (simp add: charged_def of_nat_diff)

lemma charged_end_event:
  assumes "charged base w" "event_bytes (parser w) \<noteq> []" "end_event give evs w = (r, w')"
  shows "case r of Inl _ \<Rightarrow> charged base w' | Inr f \<Rightarrow> charged (base + int (frame_retained f)) w'"
proof -
  let ?n = "pending_budget_bytes (parser w)"
  have n: "1 \<le> ?n" using assms(1, 2) by (cases "event_bytes (parser w)") (auto simp: charged_def)
  let ?p = "(parser w)\<lparr>event_bytes := butlast (event_bytes (parser w)), pending_budget_bytes := ?n - 1\<rparr>"
  let ?w = "w\<lparr>parser := ?p, pool := give 1 (pool w)\<rparr>"
  have c: "charged base ?w"
    using assms(1) n give_law [of "pool w" 1] by (simp add: charged_def of_nat_diff)
  have "end_event give evs w =
     (case validate_complete_event ?p of
        Some e \<Rightarrow> (Inl e, ?w)
      | None \<Rightarrow>
          if max_events_per_feed ?p \<le> length evs
          then (Inl (SSEOutputLimitError ''events'' (max_events_per_feed ?p) (max_events_per_feed ?p + 1)), ?w)
          else
            (case decode_all (event_bytes ?p) of
               None \<Rightarrow> (Inl (SSEProtocolError ''UnicodeDecodeError''), clear_pending_event give ?w)
             | Some t \<Rightarrow>
                 (Inr \<lparr>frame_text = t, frame_retained = pending_budget_bytes ?p\<rparr>,
                  ?w\<lparr>parser := ?p\<lparr>event_bytes := [], pending_budget_bytes := 0\<rparr>\<rparr>)))"
    using n by (simp add: end_event_def Let_def cong: option.case_cong if_cong)
  moreover have "charged (base + int (?n - 1)) (?w\<lparr>parser := ?p\<lparr>event_bytes := [], pending_budget_bytes := 0\<rparr>\<rparr>)"
    using c by (simp add: charged_def)
  ultimately show ?thesis
    using assms(3) c charged_clear [OF c] by (auto split: option.splits if_splits)
qed

lemma charged_loop:
  "extract_loop give bs credit evs w = (e, fs, credit', w') \<Longrightarrow>
   charged (base + int (retained evs) + int credit) w \<Longrightarrow> length bs \<le> credit \<Longrightarrow> 0 \<le> base \<Longrightarrow>
   charged (base + int (retained fs) + int credit') w'"
proof (induction "length bs" arbitrary: bs credit evs w rule: less_induct)
  case less
  let ?seg = "takeWhile (\<lambda>b. b \<noteq> 10) bs" and ?rest = "dropWhile (\<lambda>b. b \<noteq> 10) bs"
  let ?w = "w\<lparr>parser := append_pending ?seg (parser w)\<rparr>" and ?credit = "credit - length ?seg"
  let ?base = "base + int (retained evs)"
  have len: "length ?seg + length ?rest = length bs" by (metis length_append takeWhile_dropWhile_id)
  have w: "charged (?base + int ?credit) ?w"
    using less.prems len by (intro charged_append) auto
  show ?case
  proof (cases "if ?seg = [] then None else validate_complete_event (parser ?w)")
    case (Some x)
    then show ?thesis using less.prems(1) w extract_loop_turn(1) by fastforce
  next
    case ok: None
    show ?thesis
    proof (cases ?rest)
      case Nil
      from extract_loop_turn(2) [OF ok Nil] less.prems(1) w show ?thesis by simp
    next
      case (Cons b rest)
      show ?thesis
      proof (cases "event_bytes (parser ?w) \<noteq> [] \<and> last (event_bytes (parser ?w)) = 10")
        case True
        obtain r w1 where r: "end_event give evs ?w = (r, w1)" by fastforce
        note c = charged_end_event [OF w conjunct1 [OF True] r]
        show ?thesis
        proof (cases r)
          case (Inl x)
          with extract_loop_turn(3) [OF ok Cons True] less.prems(1) c r show ?thesis by simp
        next
          case (Inr f)
          then have "extract_loop give rest ?credit (evs @ [f]) w1 = (e, fs, credit', w')"
            using extract_loop_turn(3) [OF ok Cons True] less.prems(1) r by simp
          moreover have "charged (base + int (retained (evs @ [f])) + int ?credit) w1"
            using c Inr by (simp add: algebra_simps)
          moreover have "length rest \<le> ?credit" using less.prems(3) len Cons by simp
          ultimately show ?thesis
            using less.hyps [OF dropWhile_shorter [OF Cons]] less.prems(4) by blast
        qed
      next
        case False
        let ?v = "?w\<lparr>parser := append_pending [10] (parser ?w)\<rparr>"
        have "extract_loop give rest (?credit - 1) evs ?v = (e, fs, credit', w')"
          using extract_loop_turn(4) [OF ok Cons False] less.prems(1) by simp
        moreover have "1 \<le> ?credit" "length rest \<le> ?credit - 1" using less.prems(3) len Cons by simp_all
        moreover from this have "charged (?base + int (?credit - length [10 :: byte])) ?v"
          using less.prems(4) by (intro charged_append [OF w]) auto
        ultimately show ?thesis
          using less.hyps [OF dropWhile_shorter [OF Cons]] less.prems(4) by simp
      qed
    qed
  qed
qed

lemma charged_extract:
  assumes "charged base w" "extract_events grab give t w = (r, w')"
  shows "case r of Inl _ \<Rightarrow> charged base w' | Inr fs \<Rightarrow> charged (base + int (retained fs)) w'"
proof (cases "t = [] \<or> encode t = None")
  case True
  with assms show ?thesis by (auto simp: extract_events_def split: if_splits)
next
  case False
  then obtain bs where bs: "t \<noteq> []" "encode t = Some bs" by auto
  obtain granted b where g: "grab (length bs) (pool w) = (granted, b)" by fastforce
  have b0: "0 \<le> base" "pool_ok (pool w)" using assms(1) by (simp_all add: charged_def)
  note law = grab_law [OF b0(2) g]
  show ?thesis
  proof (cases granted)
    case no: False
    with assms law bs g show ?thesis by (auto simp: extract_events_def charged_def)
  next
    case yes: True
    obtain e fs credit w1 where l: "extract_loop give bs (length bs) [] (w\<lparr>pool := b\<rparr>) = (e, fs, credit, w1)"
      by (cases "extract_loop give bs (length bs) [] (w\<lparr>pool := b\<rparr>)")
    have "charged (base + int (retained []) + int (length bs)) (w\<lparr>pool := b\<rparr>)"
      using assms(1) law yes by (simp add: charged_def)
    from charged_loop [OF l this] b0(1) have "charged ((base + int (retained fs)) + int credit) w1" by simp
    then have c: "charged (base + int (retained fs)) (if credit \<noteq> 0 then w1\<lparr>pool := give credit (pool w1)\<rparr> else w1)"
      using b0(1) charged_give [of "base + int (retained fs)" credit w1] by auto
    show ?thesis
      using assms(2) bs g yes l c charged_drop [OF c b0(1)]
      by (cases e) (auto simp: extract_events_def Let_def)
  qed
qed

lemma charged_piece:
  assumes "charged (base + int (retained evs)) w" "0 \<le> base" "feed_piece grab give c evs w = (r, w')"
  shows "case r of Inl _ \<Rightarrow> charged base w' | Inr fs \<Rightarrow> charged (base + int (retained fs)) w'"
proof (cases "decode_chunk c (parser w)")
  case (Inl e)
  with assms show ?thesis by (auto simp: feed_piece_def charged_drop)
next
  case (Inr tp)
  obtain t p where tp: "tp = (t, p)" by fastforce
  obtain t1 p1 where 1: "strip_initial_bom False t p = (t1, p1)" by fastforce
  obtain t2 p2 where 2: "normalize_newlines False t1 p1 = (t2, p2)" by fastforce
  have "event_bytes p = event_bytes (parser w)" "pending_budget_bytes p = pending_budget_bytes (parser w)"
    using Inr tp by (auto simp: decode_chunk_def split: chunk.splits if_splits option.splits)
  then have "event_bytes p2 = event_bytes (parser w)" "pending_budget_bytes p2 = pending_budget_bytes (parser w)"
    using 1 2 by (auto simp: strip_initial_bom_def normalize_newlines_def Let_def split: if_splits)
  then have c: "charged (base + int (retained evs)) (w\<lparr>parser := p2\<rparr>)" by (intro charged_parser assms(1))
  obtain x w1 where x: "extract_events grab give t2 (w\<lparr>parser := p2\<rparr>) = (x, w1)" by fastforce
  note e = charged_extract [OF c x]
  have eq: "feed_piece grab give c evs w =
    (case x of
       Inl e \<Rightarrow> (Inl e, drop_frames give evs w1)
     | Inr extracted \<Rightarrow>
         if max_events_per_feed (parser w1) < length evs + length extracted
         then (Inl (SSEOutputLimitError ''events'' (max_events_per_feed (parser w1)) (length evs + length extracted)),
               drop_frames give (evs @ extracted) w1)
         else
           (case validate_pending_size (parser w1) of
              Some e \<Rightarrow> (Inl e, drop_frames give (evs @ extracted) w1)
            | None \<Rightarrow> (Inr (evs @ extracted), w1)))"
    unfolding feed_piece_def Inr tp sum.case prod.case 1 2 Let_def x by (cases x) simp_all
  show ?thesis
  proof (cases x)
    case (Inl _)
    with e eq assms(2, 3) show ?thesis by (auto intro: charged_drop)
  next
    case (Inr extracted)
    have c1: "charged (base + int (retained (evs @ extracted))) w1" using e Inr by (simp add: algebra_simps)
    from charged_drop [OF c1 assms(2)] c1 eq Inr assms(3) show ?thesis
      by (auto split: if_splits option.splits)
  qed
qed

lemma charged_feed_loop:
  "charged (base + int (retained evs)) w \<Longrightarrow> 0 \<le> base \<Longrightarrow> feed_loop grab give cs evs w = (r, w') \<Longrightarrow>
   case r of Inl _ \<Rightarrow> charged base w' | Inr fs \<Rightarrow> charged (base + int (retained fs)) w'"
proof (induction cs arbitrary: evs w)
  case (Cons c cs)
  obtain x w1 where x: "feed_piece grab give c evs w = (x, w1)" by fastforce
  from charged_piece [OF Cons.prems(1,2) x] Cons x show ?case by (cases x) auto
qed auto

lemma charged_feed:
  assumes "charged base w" "feed grab give c w = (r, w')"
  shows "case r of Inl _ \<Rightarrow> charged base w' | Inr fs \<Rightarrow> charged (base + int (retained fs)) w'"
proof -
  obtain x w1 where x: "feed_loop grab give (feed_pieces c) [] w = (x, w1)" by fastforce
  have "0 \<le> base" using assms(1) by (simp add: charged_def)
  with charged_feed_loop [of base "[]" w _ x w1] x assms(1)
  have "case x of Inl _ \<Rightarrow> charged base w1 | Inr fs \<Rightarrow> charged (base + int (retained fs)) w1" by simp
  then show ?thesis
    using assms x charged_fail by (cases x) (auto simp: feed_def split: if_splits option.splits)
qed

lemma charged_finish:
  assumes "charged base w" "finish grab give w = (r, w')"
  shows "case r of Inl _ \<Rightarrow> charged base w' | Inr fs \<Rightarrow> charged (base + int (retained fs)) w'"
proof -
  let ?w = "w\<lparr>parser := (parser w)\<lparr>finished := True\<rparr>\<rparr>"
  have c: "charged base ?w" using assms(1) by (intro charged_parser) auto
  obtain t1 p1 where 1: "strip_initial_bom True [] (parser ?w) = (t1, p1)" by fastforce
  obtain t2 p2 where 2: "normalize_newlines True t1 p1 = (t2, p2)" by fastforce
  have "event_bytes p2 = event_bytes (parser w)" "pending_budget_bytes p2 = pending_budget_bytes (parser w)"
    using 1 2 by (auto simp: strip_initial_bom_def normalize_newlines_def Let_def split: if_splits)
  then have c2: "charged base (?w\<lparr>parser := p2\<rparr>)" using assms(1) by (simp add: charged_def)
  obtain x w1 where x: "extract_events grab give t2 (?w\<lparr>parser := p2\<rparr>) = (x, w1)" by fastforce
  note e = charged_extract [OF c2 x]
  have b: "0 \<le> base" using assms(1) by (simp add: charged_def)
  have eq: "\<not> failed (parser w) \<Longrightarrow> \<not> finished (parser w) \<Longrightarrow> undecoded (parser w) = [] \<Longrightarrow> finish grab give w =
    (case x of
       Inl e \<Rightarrow> (Inl e, fail_parser give w1)
     | Inr evs \<Rightarrow>
         (case validate_pending_size (parser w1) of
            Some e \<Rightarrow> (Inl e, fail_parser give (drop_frames give evs w1))
          | None \<Rightarrow>
              if event_bytes (parser w1) \<noteq> []
              then (Inl (SSEIncompleteEventError (pending_size_bytes (parser w1))),
                    fail_parser give (drop_frames give evs w1))
              else (Inr evs, w1)))"
    using 1 2 x by (simp add: finish_def Let_def split: sum.split)
  show ?thesis
  proof (cases "failed (parser w) \<or> finished (parser w) \<or> undecoded (parser w) \<noteq> []")
    case True
    with assms c charged_fail [OF c] show ?thesis by (auto simp: finish_def Let_def split: if_splits)
  next
    case False
    show ?thesis
    proof (cases x)
      case (Inl _)
      with e eq False assms(2) show ?thesis by (auto intro: charged_fail)
    next
      case (Inr fs)
      have c1: "charged (base + int (retained fs)) w1" using e Inr by simp
      from charged_fail [OF charged_drop [OF c1 b]] c1 eq False Inr assms(2) show ?thesis
        by (auto split: if_splits option.splits)
    qed
  qed
qed

lemma charged_step:
  assumes "charged (base + int (retained live)) w" "0 \<le> base" "sse_step grab give op (w, live) = (w', live')"
  shows "charged (base + int (retained live')) w'"
proof (cases op)
  case (Feed c)
  obtain r w1 where r: "feed grab give c w = (r, w1)" by fastforce
  from charged_feed [OF assms(1) r] r Feed assms(3) show ?thesis by (cases r) (auto simp: algebra_simps)
next
  case Finish
  obtain r w1 where r: "finish grab give w = (r, w1)" by fastforce
  from charged_finish [OF assms(1) r] r Finish assms(3) show ?thesis by (cases r) (auto simp: algebra_simps)
next
  case Discard
  with assms charged_discard show ?thesis by auto
next
  case (DropFrame i)
  show ?thesis
  proof (cases "i < length live")
    case True
    let ?rest = "take i live @ drop (Suc i) live"
    have "retained live = retained (take i live @ live ! i # drop (Suc i) live)"
      using id_take_nth_drop [OF True] by simp
    then have "charged ((base + int (retained ?rest)) + int (retained [live ! i])) w"
      using assms(1) by (simp add: algebra_simps)
    then have "charged (base + int (retained ?rest)) (drop_frames give [live ! i] w)"
      using assms(2) by (intro charged_drop) auto
    with True DropFrame assms(3) show ?thesis by auto
  qed (use DropFrame assms in auto)
qed

lemma charged_run:
  "charged (base + int (retained live)) w \<Longrightarrow> 0 \<le> base \<Longrightarrow>
   case fold (sse_step grab give) ops (w, live) of (w', live') \<Rightarrow> charged (base + int (retained live')) w'"
proof (induction ops arbitrary: w live)
  case (Cons op ops)
  obtain w1 live1 where s: "sse_step grab give op (w, live) = (w1, live1)" by fastforce
  from Cons.IH [OF charged_step [OF Cons.prems s] Cons.prems(2)] s show ?case by simp
qed simp

end

section \<open>Limits\<close>

definition small_frames :: "SSEParser \<Rightarrow> frame list \<Rightarrow> bool" where
  "small_frames p fs \<longleftrightarrow> length fs \<le> max_events_per_feed p \<and>
     (max_event_bytes p \<noteq> 0 \<longrightarrow> (\<forall>f \<in> set fs. length (utf8_bytes (frame_text f)) \<le> max_event_bytes p))"

text \<open>A refusal names a limit and an observation that exceeds it.\<close>

definition truthful :: "sse_error \<Rightarrow> bool" where
  "truthful e = (case e of
       SSEBufferOverflowError name limit observed \<Rightarrow> 0 < limit \<and> limit < observed
     | SSEOutputLimitError name limit observed \<Rightarrow> limit < observed
     | SSEIncompleteEventError pending \<Rightarrow> 0 < pending
     | _ \<Rightarrow> True)"

lemma small_outside: "outside p = outside q \<Longrightarrow> small_frames p fs = small_frames q fs"
  using outside_fields(6, 8) [of p q] by (simp add: small_frames_def)

lemma truthful_validate:
  "validate_complete_event p = Some e \<Longrightarrow> truthful e" "validate_pending_size p = Some e \<Longrightarrow> truthful e"
  "validate_feed_size c p = Some e \<Longrightarrow> truthful e"
  by (auto simp: validate_complete_event_def validate_pending_size_def validate_feed_size_def truthful_def
      split: if_splits option.splits chunk.splits)

lemma decode_all_length: "decode_all bs = Some t \<Longrightarrow> length (utf8_bytes t) = length bs"
  using decode_bytes [of "[]" bs] by (auto simp: decode_all_def split: option.splits list.splits)

lemma end_event_outside: "end_event give evs w = (r, w') \<Longrightarrow> outside (parser w') = outside (parser w)"
  by (auto simp: end_event_def clear_pending_event_def Let_def split: if_splits option.splits)

lemma end_event_truthful: "end_event give evs w = (Inl e, w') \<Longrightarrow> truthful e"
  unfolding end_event_def Let_def
  by (auto simp: truthful_def [of "SSEProtocolError _"] truthful_def [of "SSERuntimeError _"]
      truthful_def [of "SSEOutputLimitError _ _ _"] truthful_validate split: if_splits option.splits)

lemma extract_loop_limits:
  "extract_loop give bs credit evs w = (e, fs, credit', w') \<Longrightarrow> small_frames (parser w) evs \<Longrightarrow>
   small_frames (parser w') fs \<and> outside (parser w') = outside (parser w) \<and> (\<forall>x. e = Some x \<longrightarrow> truthful x)"
proof (induction "length bs" arbitrary: bs credit evs w rule: less_induct)
  case less
  let ?seg = "takeWhile (\<lambda>b. b \<noteq> 10) bs" and ?rest = "dropWhile (\<lambda>b. b \<noteq> 10) bs"
  let ?w = "w\<lparr>parser := append_pending ?seg (parser w)\<rparr>"
  have o: "outside (parser ?w) = outside (parser w)" by simp
  have small: "small_frames (parser ?w) evs" using less.prems(2) small_outside [OF o] by simp
  show ?case
  proof (cases "if ?seg = [] then None else validate_complete_event (parser ?w)")
    case (Some x)
    then have "truthful x" using truthful_validate(1) by (auto split: if_splits)
    with extract_loop_turn(1) [OF Some, of give credit evs] less.prems(1) small o show ?thesis by simp
  next
    case ok: None
    show ?thesis
    proof (cases ?rest)
      case Nil
      from extract_loop_turn(2) [OF ok Nil, of give credit evs] less.prems(1) small o show ?thesis by simp
    next
      case (Cons b rest)
      note IH = less.hyps [OF dropWhile_shorter [OF Cons]]
      show ?thesis
      proof (cases "event_bytes (parser ?w) \<noteq> [] \<and> last (event_bytes (parser ?w)) = 10")
        case True
        obtain r w1 where r: "end_event give evs ?w = (r, w1)" by fastforce
        note o1 = end_event_outside [OF r]
        have small1: "small_frames (parser w1) evs" using small small_outside [OF o1] by simp
        note turn = extract_loop_turn(3) [OF ok Cons True, of give credit evs]
        show ?thesis
        proof (cases r)
          case (Inl x)
          with turn less.prems(1) r o o1 small1 end_event_truthful show ?thesis by auto
        next
          case (Inr f)
          note f = end_event_frame [OF r [unfolded Inr]]
          have "length (utf8_bytes (frame_text f)) \<le> max_event_bytes (parser ?w)" if "max_event_bytes (parser ?w) \<noteq> 0"
            using f(8) [OF that] decode_all_length [OF f(1)] by simp
          then have "small_frames (parser ?w) (evs @ [f])" using small f(7) by (auto simp: small_frames_def)
          then have "small_frames (parser w1) (evs @ [f])" using small_outside [OF o1] by simp
          with IH turn less.prems(1) r Inr o o1 show ?thesis by fastforce
        qed
      next
        case False
        from extract_loop_turn(4) [OF ok Cons False, of give credit evs] less.prems
        have "extract_loop give rest (credit - length ?seg - 1) evs (?w\<lparr>parser := append_pending [10] (parser ?w)\<rparr>) =
          (e, fs, credit', w')" by simp
        from IH [OF this] small o show ?thesis
          using small_outside [of "append_pending [10] (parser ?w)" "parser ?w"] by simp
      qed
    qed
  qed
qed

lemma extract_events_limits:
  assumes "extract_events reserve give t w = (r, w')"
  shows "outside (parser w') = outside (parser w)" "r = Inr fs \<Longrightarrow> small_frames (parser w') fs"
    "r = Inl e \<Longrightarrow> truthful e"
proof -
  have "outside (parser w') = outside (parser w) \<and> (\<forall>fs. r = Inr fs \<longrightarrow> small_frames (parser w') fs) \<and>
    (\<forall>e. r = Inl e \<longrightarrow> truthful e)"
  proof (cases "t = [] \<or> encode t = None")
    case True
    with assms show ?thesis by (auto simp: extract_events_def small_frames_def truthful_def split: if_splits)
  next
    case False
    then obtain bs where bs: "t \<noteq> []" "encode t = Some bs" by auto
    obtain granted b where g: "reserve (length bs) (pool w) = (granted, b)" by fastforce
    obtain e fs credit w1 where l: "extract_loop give bs (length bs) [] (w\<lparr>pool := b\<rparr>) = (e, fs, credit, w1)"
      by (cases "extract_loop give bs (length bs) [] (w\<lparr>pool := b\<rparr>)")
    from extract_loop_limits [OF l] have "small_frames (parser w1) fs" "outside (parser w1) = outside (parser w)"
      "\<forall>x. e = Some x \<longrightarrow> truthful x" by (simp_all add: small_frames_def)
    with assms bs g l show ?thesis
      by (cases granted; cases e) (auto simp: extract_events_def Let_def truthful_def [of StreamParserBufferBudgetExhausted])
  qed
  then show "outside (parser w') = outside (parser w)" "r = Inr fs \<Longrightarrow> small_frames (parser w') fs"
    "r = Inl e \<Longrightarrow> truthful e" by blast+
qed

text \<open>The limits a parser was made with.\<close>

definition limits_of :: "SSEParser \<Rightarrow> nat \<times> nat \<times> nat \<times> nat" where
  "limits_of p = (max_pending_bytes p, max_event_bytes p, max_events_per_feed p, max_feed_bytes p)"

lemma limits_outside: "outside p = outside q \<Longrightarrow> limits_of p = limits_of q"
  using outside_fields [of p q] by (simp add: limits_of_def)

lemma small_limits: "limits_of p = limits_of q \<Longrightarrow> small_frames p fs = small_frames q fs"
  by (simp add: limits_of_def small_frames_def)

lemma decode_chunk_limits: "decode_chunk c p = Inr (t, q) \<Longrightarrow> limits_of q = limits_of p"
  by (auto simp: decode_chunk_def limits_of_def split: chunk.splits if_splits option.splits)

lemma text_steps_limits:
  "strip_initial_bom final t p = (t', q) \<Longrightarrow> limits_of q = limits_of p"
  "normalize_newlines final t p = (t', q) \<Longrightarrow> limits_of q = limits_of p"
  by (auto simp: strip_initial_bom_def normalize_newlines_def limits_of_def Let_def split: if_splits)

lemma feed_piece_limits:
  assumes "feed_piece reserve give c evs w = (r, w')" "small_frames (parser w) evs"
  shows "limits_of (parser w') = limits_of (parser w) \<and>
    (\<forall>fs. r = Inr fs \<longrightarrow> small_frames (parser w') fs \<and> validate_pending_size (parser w') = None) \<and>
    (\<forall>e. r = Inl e \<longrightarrow> truthful e)"
proof (cases "decode_chunk c (parser w)")
  case (Inl e)
  then have "truthful e"
    by (auto simp: decode_chunk_def truthful_def split: chunk.splits if_splits option.splits)
  with Inl assms show ?thesis by (auto simp: feed_piece_def)
next
  case (Inr tp)
  obtain t p where tp: "tp = (t, p)" by fastforce
  obtain t1 p1 where 1: "strip_initial_bom False t p = (t1, p1)" by fastforce
  obtain t2 p2 where 2: "normalize_newlines False t1 p1 = (t2, p2)" by fastforce
  have p2: "limits_of p2 = limits_of (parser w)"
    using decode_chunk_limits [OF Inr [unfolded tp]] text_steps_limits(1) [OF 1] text_steps_limits(2) [OF 2] by simp
  obtain x w1 where x: "extract_events reserve give t2 (w\<lparr>parser := p2\<rparr>) = (x, w1)" by fastforce
  note e = extract_events_limits [OF x]
  have w1: "limits_of (parser w1) = limits_of (parser w)" using limits_outside [OF e(1)] p2 by simp
  have eq: "feed_piece reserve give c evs w =
    (case x of
       Inl e \<Rightarrow> (Inl e, drop_frames give evs w1)
     | Inr extracted \<Rightarrow>
         if max_events_per_feed (parser w1) < length evs + length extracted
         then (Inl (SSEOutputLimitError ''events'' (max_events_per_feed (parser w1)) (length evs + length extracted)),
               drop_frames give (evs @ extracted) w1)
         else
           (case validate_pending_size (parser w1) of
              Some e \<Rightarrow> (Inl e, drop_frames give (evs @ extracted) w1)
            | None \<Rightarrow> (Inr (evs @ extracted), w1)))"
    unfolding feed_piece_def Inr tp sum.case prod.case 1 2 Let_def x by (cases x) simp_all
  show ?thesis
  proof (cases x)
    case (Inl _)
    with eq e(3) assms(1) w1 show ?thesis by auto
  next
    case (Inr extracted)
    have "small_frames (parser w1) evs" using small_limits [OF w1] assms(2) by simp
    with e(2) [OF Inr] have small: "length evs + length extracted \<le> max_events_per_feed (parser w1) \<Longrightarrow>
        small_frames (parser w1) (evs @ extracted)"
      by (auto simp: small_frames_def)
    show ?thesis
    proof (cases "max_events_per_feed (parser w1) < length evs + length extracted")
      case True
      with eq Inr assms(1) w1 show ?thesis by (auto simp: truthful_def)
    next
      case False
      with eq Inr assms(1) w1 small truthful_validate(2) show ?thesis by (auto split: option.splits)
    qed
  qed
qed

lemma feed_loop_limits:
  "feed_loop reserve give cs evs w = (r, w') \<Longrightarrow> small_frames (parser w) evs \<Longrightarrow>
   limits_of (parser w') = limits_of (parser w) \<and>
   (\<forall>fs. r = Inr fs \<longrightarrow> small_frames (parser w') fs \<and>
      (cs \<noteq> [] \<or> validate_pending_size (parser w) = None \<longrightarrow> validate_pending_size (parser w') = None)) \<and>
   (\<forall>e. r = Inl e \<longrightarrow> truthful e)"
proof (induction cs arbitrary: evs w)
  case (Cons c cs)
  obtain x w1 where x: "feed_piece reserve give c evs w = (x, w1)" by fastforce
  note l = feed_piece_limits [OF x Cons.prems(2)]
  show ?case
  proof (cases x)
    case (Inl e)
    with x l Cons.prems(1) show ?thesis by auto
  next
    case (Inr fs)
    with x Cons.prems(1) have "feed_loop reserve give cs fs w1 = (r, w')" by simp
    from Cons.IH [OF this] l Inr show ?thesis by auto
  qed
qed auto

section \<open>The budget over the memory governor\<close>

interpretation parser_pool: byte_pool "\<lambda>(b, _). int (used_bytes b)"
  "budget_reserve (governor_grab cat) (governor_give cat)" "budget_give (governor_give cat)"
  "\<lambda>(b, g, rs). governor_ok g \<and> 0 \<le> other \<and> owned_by g cat = other + int (used_bytes b) \<and>
     used_bytes b \<le> parser_capacity_bytes b" for cat other
proof (unfold_locales, goal_cases)
  case (1 w n granted w')
  obtain b g rs where w: "w = (b, g, rs)" by (cases w)
  show ?case
  proof (cases "n = 0")
    case True
    with 1 w show ?thesis by (auto simp: budget_reserve_def)
  next
    case False
    obtain ok g1 rs1 where g: "governor_grab cat n (g, rs) = (ok, g1, rs1)" by (cases "governor_grab cat n (g, rs)")
    have "governor_ok g1 \<and> owned_by g1 cat = owned_by g cat + (if ok then int n else 0)"
      using governor_pool.grab_law [of "(g, rs)" cat n ok "(g1, rs1)"] g 1 w by simp
    moreover obtain g2 rs2 where g2: "governor_give cat n (g1, rs1) = (g2, rs2)"
      by (cases "governor_give cat n (g1, rs1)")
    moreover have "ok \<Longrightarrow> governor_ok g2 \<and> owned_by g2 cat = owned_by g1 cat - int n"
      using governor_pool.give_law [of "(g1, rs1)" n cat] g2 1 w calculation(1) by simp
    ultimately show ?thesis
      using 1 w False g by (cases ok) (auto simp: budget_reserve_def split: if_splits simp del: governor_grab.simps governor_give.simps)
  qed
next
  case (2 w n)
  obtain b g rs where w: "w = (b, g, rs)" by (cases w)
  have b: "governor_ok g" "0 \<le> other" "owned_by g cat = other + int (used_bytes b)" "n \<le> used_bytes b"
    "used_bytes b \<le> parser_capacity_bytes b"
    using 2 w by simp_all
  obtain g2 rs2 where g2: "governor_give cat n (g, rs) = (g2, rs2)" by (cases "governor_give cat n (g, rs)")
  have "governor_ok g2 \<and> owned_by g2 cat = owned_by g cat - int n"
    using governor_pool.give_law [of "(g, rs)" n cat] g2 b by simp
  with b g2 show ?case
    by (auto simp: w budget_give_def budget_release_def simp del: governor_give.simps)
qed

section \<open>Acceptance\<close>

text \<open>A parser without byte limits whose budget is in step with its event.\<close>

definition unbounded :: "SSEParser \<Rightarrow> bool" where
  "unbounded p \<longleftrightarrow> max_pending_bytes p = 0 \<and> max_event_bytes p = 0 \<and> max_feed_bytes p = 0 \<and>
     length (event_bytes p) = pending_budget_bytes p"

definition granting :: "(nat \<Rightarrow> 'b \<Rightarrow> bool \<times> 'b) \<Rightarrow> bool" where
  "granting reserve \<longleftrightarrow> (\<forall>n b. fst (reserve n b))"

lemma unbounded_parser:
  "unbounded p \<Longrightarrow> limits_of q = limits_of p \<Longrightarrow> event_bytes q = event_bytes p \<Longrightarrow>
   pending_budget_bytes q = pending_budget_bytes p \<Longrightarrow> unbounded q"
  by (simp add: unbounded_def limits_of_def)

lemma unbounded_append: "unbounded p \<Longrightarrow> unbounded (append_pending bs p)"
  by (simp add: unbounded_def)

lemma end_event_ok:
  assumes "unbounded (parser w)" "event_bytes (parser w) \<noteq> []" "length evs < max_events_per_feed (parser w)"
    "decode_all (butlast (event_bytes (parser w))) \<noteq> None"
  shows "\<exists>f w1. end_event give evs w = (Inr f, w1) \<and> unbounded (parser w1)"
proof -
  have "\<not> pending_budget_bytes (parser w) < 1"
    using assms(1, 2) by (cases "event_bytes (parser w)") (auto simp: unbounded_def)
  with assms show ?thesis
    by (auto simp: end_event_def validate_complete_event_def unbounded_def Let_def)
qed

lemma extract_loop_ok:
  "unbounded (parser w) \<Longrightarrow>
   \<forall>f \<in> set (fst (blank_split 10 (event_bytes (parser w)) bs)). decode_all f \<noteq> None \<Longrightarrow>
   length evs + length (fst (blank_split 10 (event_bytes (parser w)) bs)) \<le> max_events_per_feed (parser w) \<Longrightarrow>
   \<exists>fs credit' w'. extract_loop give bs credit evs w = (None, fs, credit', w') \<and> unbounded (parser w')"
proof (induction "length bs" arbitrary: bs credit evs w rule: less_induct)
  case less
  let ?seg = "takeWhile (\<lambda>b. b \<noteq> 10) bs" and ?rest = "dropWhile (\<lambda>b. b \<noteq> 10) bs"
  let ?w = "w\<lparr>parser := append_pending ?seg (parser w)\<rparr>"
  have seg: "blank_split 10 (event_bytes (parser w)) bs = blank_split 10 (event_bytes (parser ?w)) ?rest"
    using blank_split_segment [of 10 ?seg "event_bytes (parser w)" ?rest] by (auto dest: set_takeWhileD)
  have u: "unbounded (parser ?w)" using less.prems(1) by (simp add: unbounded_append)
  have ok: "(if ?seg = [] then None else validate_complete_event (parser ?w)) = None"
    using u by (simp add: validate_complete_event_def unbounded_def)
  show ?case
  proof (cases ?rest)
    case Nil
    from extract_loop_turn(2) [OF ok Nil, of give credit evs] u show ?thesis by simp
  next
    case (Cons b rest)
    note IH = less.hyps [OF dropWhile_shorter [OF Cons]]
    have b: "b = 10" using hd_dropWhile [of "\<lambda>b. b \<noteq> 10" bs] Cons by auto
    show ?thesis
    proof (cases "event_bytes (parser ?w) \<noteq> [] \<and> last (event_bytes (parser ?w)) = 10")
      case True
      then have split: "fst (blank_split 10 (event_bytes (parser w)) bs) =
          butlast (event_bytes (parser ?w)) # fst (blank_split 10 [] rest)"
        unfolding seg Cons b by simp
      have "length evs < max_events_per_feed (parser ?w)" "decode_all (butlast (event_bytes (parser ?w))) \<noteq> None"
        using less.prems(2, 3) split by simp_all
      from end_event_ok [OF u conjunct1 [OF True] this] obtain f w1 where
        e: "end_event give evs ?w = (Inr f, w1)" "unbounded (parser w1)" by blast
      note f = end_event_frame [OF e(1)]
      have "max_events_per_feed (parser w1) = max_events_per_feed (parser w)" using outside_fields(8) [OF f(3)] by simp
      then have "\<exists>fs credit' w'. extract_loop give rest (credit - length ?seg) (evs @ [f]) w1 = (None, fs, credit', w') \<and>
          unbounded (parser w')"
        using less.prems(2, 3) split f(2) e(2) by (intro IH) simp_all
      with extract_loop_turn(3) [OF ok Cons True, of give credit evs] e(1) show ?thesis by simp
    next
      case False
      then have "blank_split 10 (event_bytes (parser w)) bs = blank_split 10 (event_bytes (parser ?w) @ [10]) rest"
        unfolding seg Cons b by auto
      with less.prems(2, 3) u have
        "\<exists>fs credit' w'. extract_loop give rest (credit - length ?seg - 1) evs
           (?w\<lparr>parser := append_pending [10] (parser ?w)\<rparr>) = (None, fs, credit', w') \<and> unbounded (parser w')"
        by (intro IH) (simp_all add: unbounded_append)
      with extract_loop_turn(4) [OF ok Cons False, of give credit evs] show ?thesis by simp
    qed
  qed
qed

lemma blank_split_count: "length (fst (blank_split lf ev t)) \<le> length t"
  by (induction lf ev t rule: blank_split.induct) auto

lemma norm_length: "length (norm cr t) \<le> length t"
  by (induction cr t rule: norm.induct) auto

lemma extract_events_ok:
  assumes "unbounded (parser w)" "event_bytes (parser w) = utf8_bytes ev" "list_all scalar ev" "list_all scalar t"
    "length t \<le> max_events_per_feed (parser w)" "granting reserve"
  shows "\<exists>fs w'. extract_events reserve give t w = (Inr fs, w') \<and> unbounded (parser w')"
proof (cases "t = []")
  case True
  with assms(1) show ?thesis by (simp add: extract_events_def)
next
  case False
  obtain b where g: "reserve (length (utf8_bytes t)) (pool w) = (True, b)"
    using assms(6) unfolding granting_def by (metis prod.collapse)
  let ?w = "w\<lparr>pool := b\<rparr>"
  note split = blank_split_utf8 [OF assms(3, 4)] and sc = blank_split_scalar [OF assms(3, 4), of 10]
  have fr: "fst (blank_split 10 (event_bytes (parser ?w)) (utf8_bytes t)) = map utf8_bytes (fst (blank_split 10 ev t))"
    by (simp add: assms(2) split)
  have d: "\<forall>f \<in> set (map utf8_bytes (fst (blank_split 10 ev t))). decode_all f \<noteq> None" using sc by simp
  have n: "length ([] :: frame list) + length (map utf8_bytes (fst (blank_split 10 ev t))) \<le> max_events_per_feed (parser ?w)"
    using blank_split_count [of 10 ev t] assms(5) by simp
  have u: "unbounded (parser ?w)" using assms(1) by simp
  from extract_loop_ok [of ?w "utf8_bytes t" "[]" give "length (utf8_bytes t)", unfolded fr, OF u d n] obtain fs credit w1 where
    "extract_loop give (utf8_bytes t) (length (utf8_bytes t)) [] ?w = (None, fs, credit, w1)" "unbounded (parser w1)" by blast
  with False assms(4) g show ?thesis by (auto simp: extract_events_def encode_def Let_def)
qed

definition units :: "chunk \<Rightarrow> nat" where
  "units c = (case c of Text t \<Rightarrow> length t | Bytes bs \<Rightarrow> length bs)"

lemma push_length: "push kept b = Some (t, k) \<Longrightarrow> length t \<le> 1"
  by (auto simp: push_def split: list.splits if_splits)

lemma decode_length: "decode kept bs = Some (t, k) \<Longrightarrow> length t \<le> length bs"
  by (induction kept bs arbitrary: t k rule: decode.induct) (fastforce split: option.splits dest: push_length)+

lemma chunk_text_units: "chunk_text kept c = Some (t, k) \<Longrightarrow> length t \<le> units c"
  by (auto simp: chunk_text_def units_def dest: decode_length split: chunk.splits if_splits)

lemma unbounded_valid: "unbounded p \<Longrightarrow> validate_pending_size p = None"
  by (simp add: unbounded_def validate_pending_size_def)

text \<open>A parser that has read a text goes on with the text of the next chunk.\<close>

lemma feed_piece_ok:
  assumes "unbounded (parser w)" "has_read t kept (parser w)" "chunk_text kept c = Some (u, kept')"
    "list_all scalar u" "length evs + units c \<le> max_events_per_feed (parser w)" "granting reserve"
    "case c of Text s \<Rightarrow> kept = [] | Bytes _ \<Rightarrow> True"
  shows "\<exists>fs w'. feed_piece reserve give c evs w = (Inr fs, w') \<and> unbounded (parser w') \<and>
    limits_of (parser w') = limits_of (parser w) \<and> length fs \<le> length evs + units c"
proof -
  let ?p = "parser w"
  have k: "undecoded ?p = kept" "at_stream_start ?p = (t = [])" "event_bytes ?p = utf8_bytes (sse_rest t)"
    "list_all scalar t"
    using assms(2) by (simp_all add: has_read_def)
  have d: "decode_chunk c ?p = Inr (u, ?p\<lparr>undecoded := kept'\<rparr>)"
    using assms(3, 7) k(1) by (auto simp: decode_chunk_def chunk_text_def split: chunk.splits if_splits)
  obtain t1 p1 where 1: "strip_initial_bom False u (?p\<lparr>undecoded := kept'\<rparr>) = (t1, p1)" by fastforce
  obtain t2 p2 where 2: "normalize_newlines False t1 p1 = (t2, p2)" by fastforce
  have t1: "list_all scalar t1 \<and> length t1 \<le> length u"
    using 1 assms(4) by (cases u) (auto simp: strip_initial_bom_def remove_bom_def split: if_splits)
  then have t2: "list_all scalar t2" "length t2 \<le> units c"
    using 2 norm_length [of "trailing_cr p1" t1] chunk_text_units [OF assms(3)]
    by (auto simp: normalize_norm scalar_norm)
  have same: "limits_of p2 = limits_of ?p" "event_bytes p2 = event_bytes ?p"
    "pending_budget_bytes p2 = pending_budget_bytes ?p"
    using 1 2 by (auto simp: strip_initial_bom_def normalize_norm limits_of_def split: if_splits)
  have u2: "unbounded p2" by (rule unbounded_parser [OF assms(1) same])
  have m: "max_events_per_feed p2 = max_events_per_feed ?p" using same(1) by (simp add: limits_of_def)
  have "\<exists>fs w'. extract_events reserve give t2 (w\<lparr>parser := p2\<rparr>) = (Inr fs, w') \<and> unbounded (parser w')"
    using u2 same(2) k(3) scalar_rest [OF k(4)] t2 m assms(5, 6) by (intro extract_events_ok) simp_all
  then obtain gs w1 where x: "extract_events reserve give t2 (w\<lparr>parser := p2\<rparr>) = (Inr gs, w1)" "unbounded (parser w1)"
    by blast
  have w1: "limits_of (parser w1) = limits_of ?p"
    using limits_outside [OF extract_events_limits(1) [OF x(1)]] same(1) by simp
  have "map frame_text gs = fst (blank_split 10 (sse_rest t) t2)"
    using extract_events_frames(2) [OF x(1)] same(2) k(3) scalar_rest [OF k(4)] by simp
  then have g: "length gs \<le> units c"
    using blank_split_count [of 10 "sse_rest t" t2] t2(2) by (metis length_map order_trans)
  have n: "length evs + length gs \<le> max_events_per_feed (parser w1)"
    using g assms(5) w1 by (simp add: limits_of_def)
  show ?thesis
    unfolding feed_piece_def d sum.case prod.case 1 2 Let_def x(1)
    using n g x(2) w1 unbounded_valid [OF x(2)] by simp
qed

definition solid :: "chunk \<Rightarrow> bool" where
  "solid c \<longleftrightarrow> (case c of Text s \<Rightarrow> s \<noteq> [] | Bytes _ \<Rightarrow> True)"

lemma feed_loop_ok:
  "unbounded (parser w) \<Longrightarrow> has_read t kept (parser w) \<Longrightarrow> stream_text kept cs = Some (u, kept') \<Longrightarrow>
   list_all scalar u \<Longrightarrow> length evs + sum_list (map units cs) \<le> max_events_per_feed (parser w) \<Longrightarrow>
   \<forall>c \<in> set cs. solid c \<Longrightarrow> granting reserve \<Longrightarrow>
   \<exists>fs w'. feed_loop reserve give cs evs w = (Inr fs, w') \<and> unbounded (parser w') \<and>
     limits_of (parser w') = limits_of (parser w)"
proof (induction cs arbitrary: evs w t kept u)
  case (Cons c cs)
  from Cons.prems(3) obtain v k x where
    c: "chunk_text kept c = Some (v, k)" "stream_text k cs = Some (x, kept')" "u = v @ x"
    by (auto split: option.splits)
  have "case c of Text s \<Rightarrow> kept = [] | Bytes _ \<Rightarrow> True"
    using c(1) Cons.prems(6) by (auto simp: chunk_text_def solid_def split: chunk.splits if_splits)
  with Cons.prems(4, 5) c(3) feed_piece_ok [OF Cons.prems(1, 2) c(1) _ _ Cons.prems(7), of evs give]
  obtain fs w1 where
    s: "feed_piece reserve give c evs w = (Inr fs, w1)" "unbounded (parser w1)"
      "limits_of (parser w1) = limits_of (parser w)" "length fs \<le> length evs + units c" by auto
  have h: "has_read (t @ v) k (parser w1)" using feed_piece_frames [OF s(1) Cons.prems(2)] c(1) by auto
  have "length fs + sum_list (map units cs) \<le> max_events_per_feed (parser w1)"
    using s(3, 4) Cons.prems(5) by (simp add: limits_of_def)
  with Cons.IH [OF s(2) h c(2) _ _ _ Cons.prems(7)] Cons.prems(4, 6) c(3) s(1, 3) show ?case by auto
qed simp

lemma units_slices: "0 < n \<Longrightarrow> sum_list (map length (slices n xs)) = length xs"
  using concat_slices [of n xs] by (metis length_concat)

lemma feed_pieces_units: "sum_list (map units (feed_pieces c)) = units c"
  by (cases c) (simp_all add: feed_pieces_def units_def comp_def UNITS_def units_slices)

lemma feed_pieces_solid: "\<forall>p \<in> set (feed_pieces c). solid p"
  using slices_nonempty [of UNITS] by (cases c) (auto simp: feed_pieces_def solid_def UNITS_def)

lemma feed_ok:
  assumes "unbounded (parser w)" "has_read t kept (parser w)" "\<not> finished (parser w)" "\<not> failed (parser w)"
    "chunk_text kept c = Some (u, kept')" "list_all scalar u" "units c \<le> max_events_per_feed (parser w)"
    "granting reserve"
  shows "\<exists>fs w'. feed reserve give c w = (Inr fs, w') \<and> unbounded (parser w') \<and>
    limits_of (parser w') = limits_of (parser w)"
proof -
  have "stream_text kept (feed_pieces c) = Some (u, kept')" using assms(5) by (simp add: feed_pieces_text)
  moreover have "length ([] :: frame list) + sum_list (map units (feed_pieces c)) \<le> max_events_per_feed (parser w)"
    using assms(7) by (simp add: feed_pieces_units)
  ultimately obtain fs w' where
    "feed_loop reserve give (feed_pieces c) [] w = (Inr fs, w')" "unbounded (parser w')"
    "limits_of (parser w') = limits_of (parser w)"
    using feed_loop_ok [OF assms(1, 2) _ assms(6) _ feed_pieces_solid assms(8)] by blast
  moreover have "validate_feed_size c (parser w) = None"
    using assms(1) by (simp add: validate_feed_size_def unbounded_def)
  ultimately show ?thesis using assms(3, 4) by (simp add: feed_def)
qed

lemma finish_ok:
  assumes "unbounded (parser w)" "has_read t [] (parser w)" "\<not> finished (parser w)" "\<not> failed (parser w)"
    "sse_rest t = []"
  shows "\<exists>w'. finish reserve give w = (Inr [], w')"
proof -
  have e: "event_bytes (parser w) = []" "undecoded (parser w) = []" using assms(2, 5) by (simp_all add: has_read_def)
  define p0 where "p0 = (parser w)\<lparr>finished := True\<rparr>"
  obtain t1 p1 where 1: "strip_initial_bom True [] p0 = (t1, p1)" by fastforce
  obtain t2 p2 where 2: "normalize_newlines True t1 p1 = (t2, p2)" by fastforce
  have t: "t2 = []" using 1 2 by (auto simp: strip_initial_bom_def remove_bom_def normalize_newlines_def
      replace_cr_def Let_def split: if_splits)
  have p2: "event_bytes p2 = []" "limits_of p2 = limits_of (parser w)" "undecoded p2 = []"
    "pending_budget_bytes p2 = pending_budget_bytes (parser w)"
    using 1 2 e by (auto simp: p0_def strip_initial_bom_def normalize_newlines_def limits_of_def Let_def split: if_splits)
  have "unbounded p2" using p2 e by (intro unbounded_parser [OF assms(1)]) simp_all
  then have "validate_pending_size p2 = None" by (rule unbounded_valid)
  then show ?thesis
    using assms(3, 4) e 1 2 t p2(1) by (simp add: finish_def extract_events_def Let_def p0_def)
qed

lemma iter_ok:
  "unbounded (parser w) \<Longrightarrow> has_read t kept (parser w) \<Longrightarrow> \<not> finished (parser w) \<Longrightarrow> \<not> failed (parser w) \<Longrightarrow>
   stream_text kept cs = Some (u, []) \<Longrightarrow> list_all scalar u \<Longrightarrow> sse_rest (t @ u) = [] \<Longrightarrow>
   \<forall>c \<in> set cs. units c \<le> max_events_per_feed (parser w) \<Longrightarrow> granting reserve \<Longrightarrow>
   \<exists>fs w'. iter_sse_events reserve give cs w = (fs, None, w')"
proof (induction cs arbitrary: w t kept u)
  case Nil
  then have "has_read t [] (parser w)" "sse_rest t = []" by simp_all
  from finish_ok [OF Nil.prems(1) this(1) Nil.prems(3, 4) this(2), of reserve give] show ?case by auto
next
  case (Cons c cs)
  from Cons.prems(5) obtain v k x where
    c: "chunk_text kept c = Some (v, k)" "stream_text k cs = Some (x, [])" "u = v @ x"
    by (auto split: option.splits)
  have "list_all scalar v" "units c \<le> max_events_per_feed (parser w)" using Cons.prems(6, 8) c(3) by simp_all
  from feed_ok [OF Cons.prems(1-4) c(1) this Cons.prems(9), of give] obtain fs w1 where
    f: "feed reserve give c w = (Inr fs, w1)" "unbounded (parser w1)" "limits_of (parser w1) = limits_of (parser w)"
    by blast
  from feed_frames [OF f(1) Cons.prems(2)] c(1) have h: "has_read (t @ v) k (parser w1)"
    "finished (parser w1) = finished (parser w)" "failed (parser w1) = failed (parser w)" by auto
  have "\<exists>gs w'. iter_sse_events reserve give cs w1 = (gs, None, w')"
    using Cons.prems(3, 4, 6-8) c(3) h(2, 3) f(3)
    by (intro Cons.IH [OF f(2) h(1) _ _ c(2) _ _ _ Cons.prems(9)]) (simp_all add: limits_of_def)
  with f(1) show ?case by auto
qed

text \<open>The capacity of the budget never changes.\<close>

locale pool_frame =
  fixes P :: "'b \<Rightarrow> bool"
    and reserve :: "nat \<Rightarrow> 'b \<Rightarrow> bool \<times> 'b"
    and give :: "nat \<Rightarrow> 'b \<Rightarrow> 'b"
  assumes reserve_keeps: "P b \<Longrightarrow> P (snd (reserve n b))"
    and give_keeps: "P b \<Longrightarrow> P (give n b)"
begin

lemma clear_keeps: "P (pool w) \<Longrightarrow> P (pool (clear_pending_event give w))"
  by (simp add: clear_pending_event_def give_keeps Let_def)

lemma fail_keeps: "P (pool w) \<Longrightarrow> P (pool (fail_parser give w))"
  by (simp add: fail_parser_def clear_keeps)

lemma discard_keeps: "P (pool w) \<Longrightarrow> P (pool (discard give w))"
  by (simp add: discard_def clear_keeps)

lemma drop_keeps: "P (pool w) \<Longrightarrow> P (pool (drop_frames give fs w))"
proof (induction fs arbitrary: w)
  case (Cons f fs)
  with Cons.IH [of "w\<lparr>pool := give (frame_retained f) (pool w)\<rparr>"] show ?case
    by (simp add: drop_frames_def give_keeps)
qed (simp add: drop_frames_def)

lemma end_event_keeps: "P (pool w) \<Longrightarrow> end_event give evs w = (r, w') \<Longrightarrow> P (pool w')"
  by (auto simp: end_event_def Let_def give_keeps clear_pending_event_def split: if_splits option.splits)

lemma loop_keeps: "extract_loop give bs credit evs w = (e, fs, credit', w') \<Longrightarrow> P (pool w) \<Longrightarrow> P (pool w')"
proof (induction "length bs" arbitrary: bs credit evs w rule: less_induct)
  case less
  let ?seg = "takeWhile (\<lambda>b. b \<noteq> 10) bs" and ?rest = "dropWhile (\<lambda>b. b \<noteq> 10) bs"
  let ?w = "w\<lparr>parser := append_pending ?seg (parser w)\<rparr>"
  show ?case
  proof (cases "if ?seg = [] then None else validate_complete_event (parser ?w)")
    case (Some x)
    from extract_loop_turn(1) [OF Some, of give credit evs] less.prems show ?thesis by simp
  next
    case ok: None
    show ?thesis
    proof (cases ?rest)
      case Nil
      from extract_loop_turn(2) [OF ok Nil, of give credit evs] less.prems show ?thesis by simp
    next
      case (Cons b rest)
      note IH = less.hyps [OF dropWhile_shorter [OF Cons]]
      show ?thesis
      proof (cases "event_bytes (parser ?w) \<noteq> [] \<and> last (event_bytes (parser ?w)) = 10")
        case True
        obtain r w1 where r: "end_event give evs ?w = (r, w1)" by fastforce
        with end_event_keeps [OF _ r] less.prems(2) have "P (pool w1)" by simp
        with extract_loop_turn(3) [OF ok Cons True, of give credit evs] r less.prems IH show ?thesis
          by (cases r) auto
      next
        case False
        from extract_loop_turn(4) [OF ok Cons False, of give credit evs] less.prems IH show ?thesis by simp
      qed
    qed
  qed
qed

lemma extract_keeps: "P (pool w) \<Longrightarrow> P (pool (snd (extract_events reserve give t w)))"
proof -
  assume p: "P (pool w)"
  show ?thesis
  proof (cases "t = [] \<or> encode t = None")
    case False
    then obtain bs where bs: "t \<noteq> []" "encode t = Some bs" by auto
    obtain granted b where g: "reserve (length bs) (pool w) = (granted, b)" by fastforce
    have b: "P b" using reserve_keeps [OF p, of "length bs"] g by simp
    obtain e fs credit w1 where l: "extract_loop give bs (length bs) [] (w\<lparr>pool := b\<rparr>) = (e, fs, credit, w1)"
      by (cases "extract_loop give bs (length bs) [] (w\<lparr>pool := b\<rparr>)")
    from loop_keeps [OF l] b have w1: "P (pool w1)" by simp
    show ?thesis
      using bs g l b w1 give_keeps [OF w1] drop_keeps [OF w1] drop_keeps [of "w1\<lparr>pool := give credit (pool w1)\<rparr>" fs]
      by (cases granted; cases e) (simp_all add: extract_events_def Let_def)
  qed (use p in \<open>auto simp: extract_events_def\<close>)
qed

lemma piece_keeps: "P (pool w) \<Longrightarrow> P (pool (snd (feed_piece reserve give c evs w)))"
proof -
  assume p: "P (pool w)"
  have x: "P (pool w1)" if "extract_events reserve give t (w\<lparr>parser := q\<rparr>) = (r, w1)" for t q r w1
    using extract_keeps [of "w\<lparr>parser := q\<rparr>" t] that p by simp
  show ?thesis
    using p x by (auto simp: feed_piece_def Let_def drop_keeps split: sum.split prod.split option.split)
qed

lemma feed_loop_keeps: "P (pool w) \<Longrightarrow> P (pool (snd (feed_loop reserve give cs evs w)))"
proof (induction cs arbitrary: evs w)
  case (Cons c cs)
  then show ?case using piece_keeps [of w c evs] by (auto split: prod.split sum.split)
qed simp

lemma feed_keeps: "P (pool w) \<Longrightarrow> P (pool (snd (feed reserve give c w)))"
  using feed_loop_keeps [of w "feed_pieces c" "[]"] by (auto simp: feed_def fail_keeps split: option.split prod.split sum.split)

lemma finish_keeps: "P (pool w) \<Longrightarrow> P (pool (snd (finish reserve give w)))"
proof -
  assume p: "P (pool w)"
  have x: "P (pool w1)" if "extract_events reserve give t (w\<lparr>parser := q\<rparr>) = (r, w1)" for t q r w1
    using extract_keeps [of "w\<lparr>parser := q\<rparr>" t] that p by simp
  show ?thesis
    using p x by (auto simp: finish_def Let_def drop_keeps fail_keeps split: sum.split prod.split option.split)
qed

lemma run_keeps: "P (pool w) \<Longrightarrow> P (pool (fst (fold (sse_step reserve give) ops (w, live))))"
proof (induction ops arbitrary: w live)
  case (Cons op ops)
  have "P (pool (fst (sse_step reserve give op (w, live))))"
  proof (cases op)
    case (Feed c)
    obtain r w1 where r: "feed reserve give c w = (r, w1)" by fastforce
    with feed_keeps [OF Cons.prems, of c] Feed show ?thesis by (cases r) simp_all
  next
    case Finish
    obtain r w1 where r: "finish reserve give w = (r, w1)" by fastforce
    with finish_keeps [OF Cons.prems] Finish show ?thesis by (cases r) simp_all
  qed (use Cons.prems in \<open>simp_all add: discard_keeps drop_keeps\<close>)
  with Cons.IH [of "fst (sse_step reserve give op (w, live))" "snd (sse_step reserve give op (w, live))"]
  show ?case by simp
qed simp

end

interpretation capacity: pool_frame "\<lambda>(b, _). parser_capacity_bytes b = n" "budget_reserve grab give" "budget_give give"
  for n and grab :: "nat \<Rightarrow> 'g \<Rightarrow> bool \<times> 'g" and give
  by unfold_locales
    (auto simp: budget_reserve_def budget_give_def budget_release_def Let_def split: prod.splits if_splits)

lemma capacity_run:
  "parser_capacity_bytes (fst (pool (fst (fold (sse_step (budget_reserve grab give) (budget_give give)) ops (w, live))))) =
   parser_capacity_bytes (fst (pool w))"
  using capacity.run_keeps [of "parser_capacity_bytes (fst (pool w))" w grab give ops live]
  by (simp add: split_beta)

section \<open>Properties\<close>

definition demo_parser :: SSEParser where
  "demo_parser = projr (new_sse_parser 100 100 10 100)"

definition demo_limitless :: SSEParser where
  "demo_limitless = projr (new_sse_parser 0 0 10 0)"

text \<open>Two events with every line ending and a two-byte character, cut inside a CRLF and inside the character.\<close>

definition demo_chunks :: "chunk list" where
  "demo_chunks = [Bytes [0xEF, 0xBB], Bytes [0xBF, 100, 58, 0xC3], Bytes [0xA9, 13], Bytes [10, 13, 10, 101],
     Bytes [13, 13]]"

lemma demo_parsers:
  "new_sse_parser 100 100 10 100 = Inr demo_parser" "new_sse_parser 0 0 10 0 = Inr demo_limitless"
  by (simp_all add: demo_parser_def demo_limitless_def new_sse_parser_def)

text \<open>
  C3. What \<open>iter_sse_events\<close> yields are the events of the stream. Whatever the limits, the budget and the chunks, the
  frames it yields are those of the text of some of the first chunks: that text, without its byte-order mark and
  with every line ending made an LF, is the frames, each followed by a blank line, and a rest, and neither a frame
  nor the rest has a blank line inside. When no exception ends it, these are all chunks, and nothing is left over,
  neither of an event nor of a character.
\<close>

theorem sse_yields_stream_frames:
  assumes "new_sse_parser pending event_limit most feed_limit = Inr p"
    and "iter_sse_events reserve give cs \<lparr>parser = p, pool = b\<rparr> = (fs, e, w')"
  shows "\<exists>n t kept. n \<le> length cs \<and> stream_text [] (take n cs) = Some (t, kept) \<and>
     normalized t = concat (map (\<lambda>f. frame_text f @ [10, 10]) fs) @ sse_rest t \<and>
     (\<forall>f \<in> set fs. no_blank (frame_text f @ [10])) \<and> no_blank (sse_rest t) \<and>
     (e = None \<longrightarrow> n = length cs \<and> kept = [] \<and> sse_rest t = [])"
proof -
  note new = new_parser_read [OF assms(1)]
  from iter_frames [OF assms(2), of "[]" "[]"] new obtain n t kept where
    *: "n \<le> length cs" "stream_text [] (take n cs) = Some (t, kept)" "sse_frames t = sse_frames [] @ map frame_text fs"
      "e = None \<longrightarrow> n = length cs \<and> kept = [] \<and> sse_rest t = []" by auto
  have "sse_frames [] = []" by (simp add: sse_frames_def normalized_def remove_bom_def)
  with *(3) have fs: "map frame_text fs = sse_frames t" by simp
  have "no_blank []" by (simp add: no_blank_def)
  from blank_split_decomposes [OF this, of "normalized t"]
  have d: "normalized t = concat (map (\<lambda>f. f @ [10, 10]) (map frame_text fs)) @ sse_rest t"
    "\<forall>f \<in> set (map frame_text fs). no_blank (f @ [10])" "no_blank (sse_rest t)"
    unfolding fs by (simp_all add: sse_frames_def sse_rest_def)
  then have "normalized t = concat (map (\<lambda>f. frame_text f @ [10, 10]) fs) @ sse_rest t"
    by (simp add: comp_def)
  with *(1, 2, 4) d(2, 3) show ?thesis by auto
qed

lemma sse_yields_stream_frames_witness:
  "\<exists>fs e w'. iter_sse_events (\<lambda>n b. (True, b + n)) (\<lambda>n b. b - n) demo_chunks \<lparr>parser = demo_parser, pool = 0\<rparr> = (fs, e, w') \<and>
     (\<forall>f \<in> set fs. no_blank (frame_text f @ [10]))"
proof -
  obtain fs e w' where i: "iter_sse_events (\<lambda>n b. (True, b + n)) (\<lambda>n b. b - n) demo_chunks
      \<lparr>parser = demo_parser, pool = 0 :: nat\<rparr> = (fs, e, w')" by (metis prod_cases3)
  from sse_yields_stream_frames [OF demo_parsers(1) i] i show ?thesis by blast
qed

text \<open>
  C19. The parser accepts what it should: when every reservation is granted, no byte limit is set and no chunk is longer
  than the number of events a call may return, \<open>iter_sse_events\<close> ends without an exception for every stream of
  valid UTF-8 that ends with a blank line.
\<close>

theorem sse_accepts_complete_streams:
  assumes "new_sse_parser 0 0 most 0 = Inr p" "granting reserve"
    and "stream_text [] cs = Some (t, [])" "list_all scalar t" "sse_rest t = []"
    and "\<forall>c \<in> set cs. units c \<le> nat most"
  shows "\<exists>fs w'. iter_sse_events reserve give cs \<lparr>parser = p, pool = b\<rparr> = (fs, None, w') \<and>
    map frame_text fs = sse_frames t"
proof -
  have p: "unbounded p" "max_events_per_feed p = nat most"
    using assms(1) by (auto simp: new_sse_parser_def unbounded_def split: if_splits)
  note new = new_parser_read [OF assms(1)]
  have "\<exists>fs w'. iter_sse_events reserve give cs \<lparr>parser = p, pool = b\<rparr> = (fs, None, w')"
    using new p assms by (intro iter_ok [where t = "[]" and kept = "[]" and u = t]) auto
  then obtain fs w' where i: "iter_sse_events reserve give cs \<lparr>parser = p, pool = b\<rparr> = (fs, None, w')" by blast
  from iter_frames [OF i, of "[]" "[]"] new assms(3) have "sse_frames t = sse_frames [] @ map frame_text fs" by auto
  then have "map frame_text fs = sse_frames t" by (simp add: sse_frames_def normalized_def remove_bom_def)
  with i show ?thesis by blast
qed

lemma demo_stream: "stream_text [] demo_chunks = Some ([0xFEFF, 100, 58, 0xE9, 13, 10, 13, 10, 101, 13, 13], [])"
  by (simp add: demo_chunks_def chunk_text_def push_def follows_def sequence_length_def code_of_def lead_value_def)

lemma sse_accepts_complete_streams_witness:
  "\<exists>fs w'. iter_sse_events (\<lambda>n b. (True, b + n)) (\<lambda>n b. b - n) demo_chunks \<lparr>parser = demo_limitless, pool = 0 :: nat\<rparr> =
     (fs, None, w') \<and> map frame_text fs = [[100, 58, 0xE9], [101]]"
proof -
  have "granting (\<lambda>n b :: nat. (True, b + n))" by (simp add: granting_def)
  moreover have "list_all scalar [0xFEFF, 100, 58, 0xE9, 13, 10, 13, 10, 101, 13, 13]" by (simp add: scalar_def)
  moreover have "sse_rest [0xFEFF, 100, 58, 0xE9, 13, 10, 13, 10, 101, 13, 13] = []"
    by (simp add: sse_rest_def normalized_def remove_bom_def)
  moreover have "\<forall>c \<in> set demo_chunks. units c \<le> nat 10" by (simp add: demo_chunks_def units_def)
  moreover have "sse_frames [0xFEFF, 100, 58, 0xE9, 13, 10, 13, 10, 101, 13, 13] = [[100, 58, 0xE9], [101]]"
    by (simp add: sse_frames_def normalized_def remove_bom_def)
  ultimately show ?thesis
    using sse_accepts_complete_streams [OF demo_parsers(2) _ demo_stream, of "\<lambda>n b :: nat. (True, b + n)" "\<lambda>n b. b - n" 0]
    by simp
qed

text \<open>
  C36. A call of \<open>feed\<close> stays within the limits and refuses only for cause. The frames it returns are at most
  \<open>max_events_per_feed\<close> and each within \<open>max_event_bytes\<close>; after it the pending event is within
  \<open>max_pending_bytes\<close> and \<open>max_event_bytes\<close>; and an exception about a limit names an observation that exceeds it.
\<close>

theorem sse_feed_within_limits:
  assumes "feed reserve give c w = (r, w')" "units c \<noteq> 0"
  shows "case r of
       Inr fs \<Rightarrow> length fs \<le> max_events_per_feed (parser w) \<and>
         (max_event_bytes (parser w) \<noteq> 0 \<longrightarrow>
            (\<forall>f \<in> set fs. length (utf8_bytes (frame_text f)) \<le> max_event_bytes (parser w)) \<and>
            pending_size_bytes (parser w') \<le> max_event_bytes (parser w)) \<and>
         (max_pending_bytes (parser w) \<noteq> 0 \<longrightarrow> pending_size_bytes (parser w') \<le> max_pending_bytes (parser w))
     | Inl e \<Rightarrow> truthful e"
proof (cases r)
  case (Inl e)
  have "truthful e" if "validate_feed_size c (parser w) = None" "\<not> finished (parser w)" "\<not> failed (parser w)"
  proof -
    obtain x w1 where x: "feed_loop reserve give (feed_pieces c) [] w = (x, w1)" by fastforce
    have "x = Inl e" using assms(1) Inl that x by (auto simp: feed_def split: sum.splits)
    with feed_loop_limits [OF x] show ?thesis by (simp add: small_frames_def)
  qed
  moreover have "truthful e" if "validate_feed_size c (parser w) = Some e" using truthful_validate(3) [OF that] .
  moreover have "truthful e" if "finished (parser w) \<or> failed (parser w)"
    using assms(1) Inl that by (auto simp: feed_def truthful_def split: if_splits)
  ultimately have "truthful e" using assms(1) Inl by (auto simp: feed_def split: if_splits option.splits)
  with Inl show ?thesis by simp
next
  case (Inr fs)
  have l: "feed_loop reserve give (feed_pieces c) [] w = (Inr fs, w')"
    using assms(1) Inr by (auto simp: feed_def split: if_splits option.splits prod.splits sum.splits)
  have "feed_pieces c \<noteq> []" using assms(2) feed_pieces_units [of c] by auto
  with feed_loop_limits [OF l] have "limits_of (parser w') = limits_of (parser w)" "small_frames (parser w') fs"
    "validate_pending_size (parser w') = None" by (simp_all add: small_frames_def)
  with Inr show ?thesis
    by (auto simp: limits_of_def small_frames_def validate_pending_size_def split: if_splits)
qed

lemma sse_feed_within_limits_witness:
  "\<exists>n m w'. feed (\<lambda>n b. (True, b + n)) (\<lambda>n b. b - n) (Bytes (replicate 200 97)) \<lparr>parser = demo_parser, pool = 0 :: nat\<rparr> =
     (Inl (SSEBufferOverflowError ''input chunk'' n m), w') \<and> n < m"
proof -
  let ?w = "\<lparr>parser = demo_parser, pool = 0 :: nat\<rparr>"
  obtain w' where f: "feed (\<lambda>n b. (True, b + n)) (\<lambda>n b. b - n) (Bytes (replicate 200 97)) ?w =
      (Inl (SSEBufferOverflowError ''input chunk'' 100 200), w')"
    by (simp add: feed_def validate_feed_size_def demo_parser_def new_sse_parser_def)
  from sse_feed_within_limits [OF f] have "(100 :: nat) < 200" by (simp add: units_def truthful_def)
  with f show ?thesis by blast
qed

text \<open>
  C14. Every byte a parser holds is charged. In whatever order chunks are fed, the stream is finished or
  abandoned and frames are let go of, failed calls included, the budget counts exactly the bytes of the pending event
  and of the frames that are still referenced, within its capacity, and the governor owns exactly these bytes for it.
\<close>

theorem sse_bytes_charged:
  assumes "new_sse_parser pending event_limit most feed_limit = Inr p" "governor_ok g"
    and "fold (sse_step (budget_reserve (governor_grab cat) (governor_give cat)) (budget_give (governor_give cat))) ops
       (\<lparr>parser = p, pool = (new_parser_budget capacity, g, rs)\<rparr>, []) = (\<lparr>parser = q, pool = (b, g', rs')\<rparr>, live)"
  shows "used_bytes b = length (event_bytes q) + retained live \<and> used_bytes b \<le> capacity \<and>
    owned_by g' cat = owned_by g cat + int (used_bytes b)"
proof -
  let ?other = "owned_by g cat"
  let ?w = "\<lparr>parser = p, pool = (new_parser_budget capacity, g, rs)\<rparr>"
  have "parser_pool.charged ?other cat (0 + int (retained [])) ?w"
    using assms(1) owned_by_nonneg [OF assms(2)] assms(2)
    unfolding parser_pool.charged_def
    by (auto simp: new_parser_budget_def new_sse_parser_def split: if_splits)
  from parser_pool.charged_run [OF this, of ops] assms(3)
  have c: "parser_pool.charged ?other cat (int (retained live)) \<lparr>parser = q, pool = (b, g', rs')\<rparr>" by simp
  moreover have "parser_capacity_bytes b = capacity"
    using capacity_run [of "governor_grab cat" "governor_give cat" ops ?w "[]"] assms(3)
    by (simp add: new_parser_budget_def)
  ultimately show ?thesis unfolding parser_pool.charged_def by auto
qed

lemma sse_bytes_charged_witness:
  "\<exists>q b g rs live. fold (sse_step (budget_reserve (governor_grab ''sse'') (governor_give ''sse'')) (budget_give (governor_give ''sse'')))
       [Feed (Bytes [97, 10, 10, 98]), DropFrame 0, Feed (Text [0xD800]), Finish]
       (\<lparr>parser = demo_parser, pool = (new_parser_budget 50, default_governor, [(0, Inr sample_1g), (1, Inr sample_1g)])\<rparr>, []) =
       (\<lparr>parser = q, pool = (b, g, rs)\<rparr>, live) \<and>
     used_bytes b = length (event_bytes q) + retained live"
proof -
  obtain w live where r: "fold (sse_step (budget_reserve (governor_grab ''sse'') (governor_give ''sse'')) (budget_give (governor_give ''sse'')))
       [Feed (Bytes [97, 10, 10, 98]), DropFrame 0, Feed (Text [0xD800]), Finish]
       (\<lparr>parser = demo_parser, pool = (new_parser_budget 50, default_governor, [(0, Inr sample_1g), (1, Inr sample_1g)])\<rparr>, []) =
       (w, live)" by fastforce
  obtain q b g rs where w: "w = \<lparr>parser = q, pool = (b, g, rs)\<rparr>" by (cases w) (metis prod_cases3)
  from sse_bytes_charged [OF demo_parsers(1) default_governor_ok r [unfolded w]] r w show ?thesis by blast
qed

end
