(* ===== verification/AsyncLock.thy ===== *)
theory AsyncLock
  imports Main
begin

text \<open>
  \<open>asyncio.Lock\<close> of the standard library, as far as the components see it. Tasks are numbered. A waiter is a task
  with the state of its future; between the moment a future is resolved or cancelled and the moment its task
  runs again, other tasks run, so waking, withdrawing and resuming are separate operations.
\<close>

datatype waiter_state = Asleep | Woken | Withdrawn

record async_lock =
  locked :: bool
  lock_waiters :: "(nat \<times> waiter_state) list"

definition new_lock :: async_lock where
  "new_lock = \<lparr>locked = False, lock_waiters = []\<rparr>"

definition waiting :: "async_lock \<Rightarrow> nat list" where
  "waiting l = map fst (lock_waiters l)"

text \<open>The first waiter is woken unless its future is done.\<close>

definition wake_up_first :: "async_lock \<Rightarrow> async_lock" where
  "wake_up_first l =
     (case lock_waiters l of
        (t, Asleep) # ws \<Rightarrow> l\<lparr>lock_waiters := (t, Woken) # ws\<rparr>
      | _ \<Rightarrow> l)"

text \<open>\<open>acquire\<close> up to its suspension: True when the lock is taken at once.\<close>

definition lock_acquire :: "nat \<Rightarrow> async_lock \<Rightarrow> bool \<times> async_lock" where
  "lock_acquire t l =
     (if \<not> locked l \<and> list_all (\<lambda>x. snd x = Withdrawn) (lock_waiters l) then (True, l\<lparr>locked := True\<rparr>)
      else (False, l\<lparr>lock_waiters := lock_waiters l @ [(t, Asleep)]\<rparr>))"

text \<open>The rest of \<open>acquire\<close> after its future was resolved, and after a cancellation was thrown into it.\<close>

definition lock_resume :: "nat \<Rightarrow> async_lock \<Rightarrow> async_lock" where
  "lock_resume t l = l\<lparr>locked := True, lock_waiters := filter (\<lambda>x. fst x \<noteq> t) (lock_waiters l)\<rparr>"

definition lock_unwind :: "nat \<Rightarrow> async_lock \<Rightarrow> async_lock" where
  "lock_unwind t l =
     (let l = l\<lparr>lock_waiters := filter (\<lambda>x. fst x \<noteq> t) (lock_waiters l)\<rparr>
      in if locked l then l else wake_up_first l)"

text \<open>Cancelling a task that sleeps in \<open>acquire\<close> cancels its future; it unwinds when it runs again.\<close>

definition lock_cancel :: "nat \<Rightarrow> async_lock \<Rightarrow> async_lock" where
  "lock_cancel t l =
     l\<lparr>lock_waiters := map (\<lambda>(u, w). (u, if u = t \<and> w = Asleep then Withdrawn else w)) (lock_waiters l)\<rparr>"

text \<open>None: \<open>RuntimeError\<close>, the lock is not acquired.\<close>

definition lock_release :: "async_lock \<Rightarrow> async_lock option" where
  "lock_release l = (if locked l then Some (wake_up_first (l\<lparr>locked := False\<rparr>)) else None)"

section \<open>The invariant\<close>

text \<open>Only the first waiter can have been woken, and a free lock never leaves its first waiter asleep.\<close>

definition lock_ok :: "async_lock \<Rightarrow> bool" where
  "lock_ok l \<longleftrightarrow> distinct (waiting l) \<and> (\<forall>x \<in> set (tl (lock_waiters l)). snd x \<noteq> Woken) \<and>
     (locked l \<longrightarrow> (\<forall>x \<in> set (lock_waiters l). snd x \<noteq> Woken)) \<and>
     (\<not> locked l \<longrightarrow> lock_waiters l \<noteq> [] \<longrightarrow> snd (hd (lock_waiters l)) \<noteq> Asleep)"

lemma new_lock_ok [simp]: "lock_ok new_lock" "waiting new_lock = []" "\<not> locked new_lock"
  by (simp_all add: new_lock_def lock_ok_def waiting_def)

lemma wake_up_first_fields [simp]:
  "locked (wake_up_first l) = locked l" "waiting (wake_up_first l) = waiting l"
  by (auto simp: wake_up_first_def waiting_def split: list.split prod.split waiter_state.split)

lemma in_set_tl: "x \<in> set (tl xs) \<Longrightarrow> x \<in> set xs"
  by (cases xs) auto

lemma in_tl_filter: "x \<in> set (tl (filter P xs)) \<Longrightarrow> x \<in> set (tl xs)"
  by (induction xs) (auto split: if_splits dest: in_set_tl)

lemma wake_up_first_ok:
  assumes "distinct (waiting l)" "\<not> locked l" "\<forall>x \<in> set (tl (lock_waiters l)). snd x \<noteq> Woken"
  shows "lock_ok (wake_up_first l)"
proof (cases "lock_waiters l")
  case (Cons x ws)
  obtain t w where "x = (t, w)" by fastforce
  with Cons assms show ?thesis by (cases w) (auto simp: wake_up_first_def lock_ok_def waiting_def)
qed (use assms in \<open>simp add: wake_up_first_def lock_ok_def\<close>)

lemma lock_acquire_ok:
  assumes "lock_ok l" "t \<notin> set (waiting l)" "lock_acquire t l = (b, l')"
  shows "lock_ok l'" and "b \<Longrightarrow> \<not> locked l \<and> locked l' \<and> waiting l' = waiting l"
    and "\<not> b \<Longrightarrow> locked l' = locked l \<and> waiting l' = waiting l @ [t]"
proof -
  show "lock_ok l'"
  proof (cases "\<not> locked l \<and> list_all (\<lambda>x. snd x = Withdrawn) (lock_waiters l)")
    case True
    then have "l' = l\<lparr>locked := True\<rparr>" using assms(3) by (simp add: lock_acquire_def)
    with True assms(1) show ?thesis by (auto simp: lock_ok_def waiting_def list_all_iff)
  next
    case False
    then have l': "l' = l\<lparr>lock_waiters := lock_waiters l @ [(t, Asleep)]\<rparr>"
      using assms(3) by (auto simp: lock_acquire_def)
    from False assms(1, 2) show ?thesis unfolding l'
      by (cases "lock_waiters l") (auto simp: lock_ok_def waiting_def)
  qed
qed (use assms in \<open>auto simp: lock_acquire_def waiting_def split: if_splits\<close>)

lemma lock_resume_ok:
  assumes "lock_ok l" "(t, Woken) \<in> set (lock_waiters l)"
  shows "\<not> locked l" "lock_ok (lock_resume t l)" "locked (lock_resume t l)"
    "waiting (lock_resume t l) = filter (\<lambda>u. u \<noteq> t) (waiting l)"
proof -
  show "\<not> locked l" using assms by (auto simp: lock_ok_def)
  obtain ws where "lock_waiters l = (t, Woken) # ws"
    using assms by (cases "lock_waiters l") (auto simp: lock_ok_def)
  with assms(1) show "lock_ok (lock_resume t l)"
    by (auto simp: lock_resume_def lock_ok_def waiting_def distinct_map_filter dest: in_tl_filter in_set_tl)
qed (auto simp: lock_resume_def waiting_def filter_map comp_def)

lemma lock_unwind_ok:
  assumes "lock_ok l"
  shows "lock_ok (lock_unwind t l)" "locked (lock_unwind t l) = locked l"
    "waiting (lock_unwind t l) = filter (\<lambda>u. u \<noteq> t) (waiting l)"
proof -
  let ?l = "l\<lparr>lock_waiters := filter (\<lambda>x. fst x \<noteq> t) (lock_waiters l)\<rparr>"
  have d: "distinct (waiting ?l)" using assms by (simp add: lock_ok_def waiting_def distinct_map_filter)
  have "\<forall>x \<in> set (tl (lock_waiters ?l)). snd x \<noteq> Woken"
    using assms by (auto simp: lock_ok_def dest: in_tl_filter)
  with d wake_up_first_ok [of ?l] assms show "lock_ok (lock_unwind t l)"
    by (auto simp: lock_unwind_def Let_def lock_ok_def)
qed (auto simp: lock_unwind_def Let_def, auto simp: waiting_def filter_map comp_def)

lemma lock_cancel_ok:
  assumes "lock_ok l"
  shows "lock_ok (lock_cancel t l)" "locked (lock_cancel t l) = locked l" "waiting (lock_cancel t l) = waiting l"
proof -
  show w: "waiting (lock_cancel t l) = waiting l" by (auto simp: lock_cancel_def waiting_def)
  show "lock_ok (lock_cancel t l)"
    using assms unfolding lock_ok_def w by (cases "lock_waiters l") (auto simp: lock_cancel_def split: if_splits)
qed (simp add: lock_cancel_def)

lemma lock_release_ok:
  assumes "lock_ok l" "lock_release l = Some l'"
  shows "lock_ok l'" "locked l" "\<not> locked l'" "waiting l' = waiting l"
proof -
  have l: "locked l" "l' = wake_up_first (l\<lparr>locked := False\<rparr>)"
    using assms(2) by (auto simp: lock_release_def split: if_splits)
  then show "locked l" by simp
  show "lock_ok l'" unfolding l(2)
    by (rule wake_up_first_ok) (use assms(1) in \<open>auto simp: lock_ok_def waiting_def\<close>)
  show "\<not> locked l'" "waiting l' = waiting l" using l by (simp_all, simp add: waiting_def)
qed

text \<open>A free lock that is waited for has a waiter whose task is about to run.\<close>

lemma lock_not_stuck:
  assumes "lock_ok l" "\<not> locked l" "waiting l \<noteq> []"
  shows "\<exists>t w. (t, w) \<in> set (lock_waiters l) \<and> w \<noteq> Asleep"
  using assms by (cases "lock_waiters l") (auto simp: lock_ok_def waiting_def, metis prod.collapse)

end
