(* ===== verification/SearchAffinity.thy ===== *)
theory SearchAffinity
  imports AsyncLock Utf8
begin

text \<open>
  \<open>uni_api/routing/search_affinity.py\<close>: a search session stays with the provider and the credential that served
  it first. \<open>SearchAffinityStore\<close> keeps the bindings in an ordered dictionary with a time to live and a capacity,
  the least recently used one first, and one lock per session that is in use.

  A block under \<open>_guard\<close> has no suspension point, so it is one function. A task in \<open>session\<close> goes through the
  phases below; every order of their steps is a run of \<open>session_step\<close>. The clock is an argument.
\<close>

section \<open>The store\<close>

record SearchAffinityBinding =
  bound_provider :: string
  request_model :: string
  original_model :: string
  bound_credential :: "string option"

record StoredBinding =
  binding :: SearchAffinityBinding
  expires_at :: time

record SessionLock =
  session_lock :: async_lock
  users :: nat

record SearchAffinityStore =
  ttl_seconds :: time
  max_entries :: nat
  bindings :: "(string, StoredBinding) dict"
  session_locks :: "(string, nat) dict"
  entries :: "nat \<Rightarrow> SessionLock"
  next_entry :: nat
  hits :: nat
  misses :: nat
  evictions :: nat

definition new_affinity_store :: "time \<Rightarrow> int \<Rightarrow> string + SearchAffinityStore" where
  "new_affinity_store ttl limit =
     (if ttl \<le> 0 then Inl ''ttl_seconds must be positive''
      else if limit \<le> 0 then Inl ''max_entries must be positive''
      else Inr \<lparr>ttl_seconds = ttl, max_entries = nat limit, bindings = [], session_locks = [],
                entries = (\<lambda>_. \<lparr>session_lock = new_lock, users = 0\<rparr>), next_entry = 0,
                hits = 0, misses = 0, evictions = 0\<rparr>)"

text \<open>The message whose HMAC is the key of a session; a surrogate is encoded as a question mark.\<close>

definition encode_replace :: "codepoint_list \<Rightarrow> byte list" where
  "encode_replace t = utf8_bytes (map (\<lambda>c. if scalar c then c else 63) t)"

definition ascii_bytes :: "string \<Rightarrow> byte list" where
  "ascii_bytes s = map (\<lambda>c. of_nat (codepoint c)) s"

definition session_message :: "codepoint_list \<Rightarrow> codepoint_list \<Rightarrow> byte list" where
  "session_message scope search_id =
     ascii_bytes ''uni-api-alpha-search-session-v1'' @ [0] @ encode_replace scope @ [0] @ encode_replace search_id"

definition session_key ::
  "(byte list \<Rightarrow> byte list \<Rightarrow> string) \<Rightarrow> byte list \<Rightarrow> codepoint_list \<Rightarrow> codepoint_list \<Rightarrow> string" where
  "session_key hmac_sha256 pepper scope search_id = hmac_sha256 pepper (session_message scope search_id)"

text \<open>\<open>OrderedDict.move_to_end\<close>\<close>

definition move_to_end :: "'k \<Rightarrow> ('k, 'v) dict \<Rightarrow> ('k, 'v) dict" where
  "move_to_end k d = (case map_of d k of None \<Rightarrow> d | Some v \<Rightarrow> AList.delete k d @ [(k, v)])"

definition affinity_get ::
  "string \<Rightarrow> time \<Rightarrow> SearchAffinityStore \<Rightarrow> SearchAffinityBinding option \<times> SearchAffinityStore" where
  "affinity_get k now s =
     (case map_of (bindings s) k of
        None \<Rightarrow> (None, s\<lparr>misses := misses s + 1\<rparr>)
      | Some stored \<Rightarrow>
          if expires_at stored \<le> now
          then (None, s\<lparr>bindings := AList.delete k (bindings s), misses := misses s + 1\<rparr>)
          else (Some (binding stored), s\<lparr>bindings := move_to_end k (bindings s), hits := hits s + 1\<rparr>))"

definition purge_expired :: "time \<Rightarrow> SearchAffinityStore \<Rightarrow> SearchAffinityStore" where
  "purge_expired now s = s\<lparr>bindings := filter (\<lambda>x. \<not> expires_at (snd x) \<le> now) (bindings s)\<rparr>"

text \<open>The \<open>while\<close> loop that makes room: the oldest entries go.\<close>

fun evict_oldest :: "nat \<Rightarrow> ('k, 'v) dict \<Rightarrow> nat \<times> ('k, 'v) dict" where
  "evict_oldest limit [] = (0, [])"
| "evict_oldest limit (x # d) =
     (if limit \<le> length (x # d) then (let (n, d) = evict_oldest limit d in (n + 1, d)) else (0, x # d))"

definition bind_if_absent ::
  "string \<Rightarrow> SearchAffinityBinding \<Rightarrow> time \<Rightarrow> SearchAffinityStore
   \<Rightarrow> SearchAffinityBinding \<times> SearchAffinityStore" where
  "bind_if_absent k b now s =
     (case map_of (bindings s) k of
        Some stored \<Rightarrow>
          if now < expires_at stored
          then (binding stored, s\<lparr>bindings := move_to_end k (bindings s)\<rparr>)
          else
            let s = purge_expired now (s\<lparr>bindings := AList.delete k (bindings s)\<rparr>);
                (n, d) = evict_oldest (max_entries s) (bindings s)
            in (b, s\<lparr>bindings := AList.update k \<lparr>binding = b, expires_at = now + ttl_seconds s\<rparr> d,
                     evictions := evictions s + n\<rparr>)
      | None \<Rightarrow>
          let s = purge_expired now s; (n, d) = evict_oldest (max_entries s) (bindings s)
          in (b, s\<lparr>bindings := AList.update k \<lparr>binding = b, expires_at = now + ttl_seconds s\<rparr> d,
                   evictions := evictions s + n\<rparr>))"

record affinity_snapshot =
  snap_entries :: nat
  snap_active_session_locks :: nat
  snap_hits :: nat
  snap_misses :: nat
  snap_evictions :: nat
  snap_max_entries :: nat

definition affinity_snapshot :: "time \<Rightarrow> SearchAffinityStore \<Rightarrow> affinity_snapshot \<times> SearchAffinityStore" where
  "affinity_snapshot now s =
     (let s = purge_expired now s in
      (\<lparr>snap_entries = length (bindings s), snap_active_session_locks = length (session_locks s),
        snap_hits = hits s, snap_misses = misses s, snap_evictions = evictions s,
        snap_max_entries = max_entries s\<rparr>, s))"

section \<open>Sessions\<close>

text \<open>Where a task is: it has joined the session, it sleeps at its lock, it is inside, it leaves.\<close>

datatype phase =
    Outside
  | Joined string nat
  | AtLock string nat
  | Inside string nat
  | Leaving string nat

record session_system =
  store :: SearchAffinityStore
  phase :: "nat \<Rightarrow> phase"

definition join_session :: "string \<Rightarrow> SearchAffinityStore \<Rightarrow> nat \<times> SearchAffinityStore" where
  "join_session k s =
     (let (e, s) = (case map_of (session_locks s) k of
            Some e \<Rightarrow> (e, s)
          | None \<Rightarrow>
              (next_entry s,
               s\<lparr>session_locks := AList.update k (next_entry s) (session_locks s),
                 entries := (entries s)(next_entry s := \<lparr>session_lock = new_lock, users = 0\<rparr>),
                 next_entry := next_entry s + 1\<rparr>))
      in (e, s\<lparr>entries := (entries s)(e := (entries s e)\<lparr>users := users (entries s e) + 1\<rparr>)\<rparr>))"

definition with_lock :: "nat \<Rightarrow> (async_lock \<Rightarrow> async_lock) \<Rightarrow> SearchAffinityStore \<Rightarrow> SearchAffinityStore" where
  "with_lock e f s =
     s\<lparr>entries := (entries s)(e := (entries s e)\<lparr>session_lock := f (session_lock (entries s e))\<rparr>)\<rparr>"

definition release_session_entry :: "string \<Rightarrow> nat \<Rightarrow> SearchAffinityStore \<Rightarrow> SearchAffinityStore" where
  "release_session_entry k e s =
     (let s = s\<lparr>entries := (entries s)(e := (entries s e)\<lparr>users := users (entries s e) - 1\<rparr>)\<rparr> in
      if users (entries s e) = 0 \<and> map_of (session_locks s) k = Some e
      then s\<lparr>session_locks := AList.delete k (session_locks s)\<rparr> else s)"

definition lock_of :: "session_system \<Rightarrow> nat \<Rightarrow> async_lock" where
  "lock_of x e = session_lock (entries (store x) e)"

text \<open>
  The steps of the tasks. A task cancelled at its lock is withdrawn and unwinds, also one that had been woken.
  \<open>binds\<close> is any operation on the bindings.
\<close>

inductive session_step :: "session_system \<Rightarrow> session_system \<Rightarrow> bool" where
  join: "phase x t = Outside \<Longrightarrow> join_session k (store x) = (e, s) \<Longrightarrow>
    session_step x (x\<lparr>store := s, phase := (phase x)(t := Joined k e)\<rparr>)"
| acquire: "phase x t = Joined k e \<Longrightarrow> lock_acquire t (lock_of x e) = (b, l) \<Longrightarrow>
    session_step x (x\<lparr>store := with_lock e (\<lambda>_. l) (store x),
      phase := (phase x)(t := if b then Inside k e else AtLock k e)\<rparr>)"
| resume: "phase x t = AtLock k e \<Longrightarrow> (t, Woken) \<in> set (lock_waiters (lock_of x e)) \<Longrightarrow>
    session_step x (x\<lparr>store := with_lock e (lock_resume t) (store x), phase := (phase x)(t := Inside k e)\<rparr>)"
| cancel: "phase x t = AtLock k e \<Longrightarrow> session_step x (x\<lparr>store := with_lock e (lock_cancel t) (store x)\<rparr>)"
| unwind: "phase x t = AtLock k e \<Longrightarrow> (t, w) \<in> set (lock_waiters (lock_of x e)) \<Longrightarrow> w \<noteq> Asleep \<Longrightarrow>
    session_step x (x\<lparr>store := with_lock e (lock_unwind t) (store x), phase := (phase x)(t := Leaving k e)\<rparr>)"
| leave: "phase x t = Inside k e \<Longrightarrow> lock_release (lock_of x e) = Some l \<Longrightarrow>
    session_step x (x\<lparr>store := with_lock e (\<lambda>_. l) (store x), phase := (phase x)(t := Leaving k e)\<rparr>)"
| cleanup: "phase x t = Leaving k e \<Longrightarrow>
    session_step x (x\<lparr>store := release_session_entry k e (store x), phase := (phase x)(t := Outside)\<rparr>)"
| get: "session_step x (x\<lparr>store := snd (affinity_get k now (store x))\<rparr>)"
| bind: "session_step x (x\<lparr>store := snd (bind_if_absent k b now (store x))\<rparr>)"
| snapshot: "session_step x (x\<lparr>store := snd (affinity_snapshot now (store x))\<rparr>)"

inductive session_reachable :: "session_system \<Rightarrow> bool" where
  init: "new_affinity_store ttl limit = Inr s \<Longrightarrow> session_reachable \<lparr>store = s, phase = (\<lambda>_. Outside)\<rparr>"
| step: "session_reachable x \<Longrightarrow> session_step x y \<Longrightarrow> session_reachable y"

text \<open>The session a task takes part in.\<close>

fun membership :: "phase \<Rightarrow> (string \<times> nat) option" where
  "membership Outside = None"
| "membership (Joined k e) = Some (k, e)"
| "membership (AtLock k e) = Some (k, e)"
| "membership (Inside k e) = Some (k, e)"
| "membership (Leaving k e) = Some (k, e)"

definition members :: "session_system \<Rightarrow> nat \<Rightarrow> nat set" where
  "members x e = {t. \<exists>k. membership (phase x t) = Some (k, e)}"

definition at_lock :: "session_system \<Rightarrow> nat \<Rightarrow> nat set" where
  "at_lock x e = {t. \<exists>k. phase x t = AtLock k e}"

definition inside :: "session_system \<Rightarrow> nat \<Rightarrow> nat set" where
  "inside x e = {t. \<exists>k. phase x t = Inside k e}"

text \<open>
  The table of locks names an entry for each session that has members and no other, an entry counts its
  members, and its lock is held by the one task inside and waited for by the tasks at it.
\<close>

definition lock_agrees :: "async_lock \<Rightarrow> nat set \<Rightarrow> nat set \<Rightarrow> bool" where
  "lock_agrees l sleepers owners \<longleftrightarrow>
     lock_ok l \<and> set (waiting l) = sleepers \<and> (if locked l then \<exists>t. owners = {t} else owners = {})"

definition entry_ok :: "session_system \<Rightarrow> nat \<Rightarrow> bool" where
  "entry_ok x e \<longleftrightarrow>
     finite (members x e) \<and> users (entries (store x) e) = card (members x e) \<and>
     lock_agrees (lock_of x e) (at_lock x e) (inside x e)"

definition table_ok :: "session_system \<Rightarrow> bool" where
  "table_ok x \<longleftrightarrow>
     distinct_keys (session_locks (store x)) \<and>
     (\<forall>k k' e. map_of (session_locks (store x)) k = Some e \<longrightarrow> map_of (session_locks (store x)) k' = Some e \<longrightarrow> k = k') \<and>
     (\<forall>k e. map_of (session_locks (store x)) k = Some e \<longrightarrow> e < next_entry (store x) \<and> members x e \<noteq> {}) \<and>
     (\<forall>t k e. membership (phase x t) = Some (k, e) \<longrightarrow> map_of (session_locks (store x)) k = Some e)"

definition session_inv :: "session_system \<Rightarrow> bool" where
  "session_inv x \<longleftrightarrow> table_ok x \<and> (\<forall>e < next_entry (store x). entry_ok x e)"

lemma table_okD:
  "table_ok x \<Longrightarrow> map_of (session_locks (store x)) k = Some e \<Longrightarrow> e < next_entry (store x)"
  "table_ok x \<Longrightarrow> membership (phase x t) = Some (k, e) \<Longrightarrow> map_of (session_locks (store x)) k = Some e"
  by (auto simp: table_ok_def)

section \<open>Operations on the bindings\<close>

definition same_sessions :: "SearchAffinityStore \<Rightarrow> SearchAffinityStore \<Rightarrow> bool" where
  "same_sessions s s' \<longleftrightarrow>
     session_locks s' = session_locks s \<and> entries s' = entries s \<and> next_entry s' = next_entry s"

lemma bindings_same_sessions:
  "same_sessions s (snd (affinity_get k now s))"
  "same_sessions s (snd (bind_if_absent k b now s))"
  "same_sessions s (snd (affinity_snapshot now s))"
  by (auto simp: same_sessions_def affinity_get_def bind_if_absent_def affinity_snapshot_def purge_expired_def
      Let_def split: option.split prod.split)

lemma same_sessions_inv: "same_sessions (store x) s \<Longrightarrow> session_inv (x\<lparr>store := s\<rparr>) = session_inv x"
  by (simp add: same_sessions_def session_inv_def table_ok_def entry_ok_def members_def at_lock_def inside_def
      lock_of_def)

section \<open>Operations on the locks\<close>

lemma with_lock_fields [simp]:
  "session_locks (with_lock e f s) = session_locks s" "next_entry (with_lock e f s) = next_entry s"
  "entries (with_lock e f s) e' =
     (if e' = e then (entries s e)\<lparr>session_lock := f (session_lock (entries s e))\<rparr> else entries s e')"
  by (simp_all add: with_lock_def)

text \<open>A task of an entry does something with its lock and stays a member.\<close>

lemma lock_step_inv:
  assumes "session_inv x" "membership (phase x t) = Some (k, e)" "membership p = Some (k, e)"
    and "lock_agrees (f (lock_of x e))
        (if \<exists>k. p = AtLock k e then insert t (at_lock x e) else at_lock x e - {t})
        (if \<exists>k. p = Inside k e then insert t (inside x e) else inside x e - {t})"
  shows "session_inv (x\<lparr>store := with_lock e f (store x), phase := (phase x)(t := p)\<rparr>)" (is "session_inv ?y")
proof -
  have m: "members ?y = members x" using assms(2, 3) by (auto simp: members_def fun_eq_iff)
  then have "table_ok ?y" using assms(1-3) by (auto simp: session_inv_def table_ok_def)
  moreover have "entry_ok ?y e'" if "e' < next_entry (store ?y)" for e'
  proof (cases "e' = e")
    case True
    have "at_lock ?y e = (if \<exists>k. p = AtLock k e then insert t (at_lock x e) else at_lock x e - {t})"
      "inside ?y e = (if \<exists>k. p = Inside k e then insert t (inside x e) else inside x e - {t})"
      by (auto simp: at_lock_def inside_def)
    moreover have "lock_of ?y e = f (lock_of x e)" by (simp add: lock_of_def)
    ultimately show ?thesis using assms(1, 4) that True m by (auto simp: session_inv_def entry_ok_def)
  next
    case False
    have "at_lock ?y e' = at_lock x e'"
      using assms(2, 3) False by (cases "phase x t"; cases p) (auto simp: at_lock_def)
    moreover have "inside ?y e' = inside x e'"
      using assms(2, 3) False by (cases "phase x t"; cases p) (auto simp: inside_def)
    moreover have "lock_of ?y e' = lock_of x e'" using False by (simp add: lock_of_def)
    ultimately show ?thesis using assms(1) that False m by (simp add: session_inv_def entry_ok_def)
  qed
  ultimately show ?thesis by (simp add: session_inv_def)
qed

text \<open>The entry of a member.\<close>

lemma member_entry:
  assumes "session_inv x" "membership (phase x t) = Some (k, e)"
  shows "e < next_entry (store x)" "entry_ok x e" "map_of (session_locks (store x)) k = Some e" "t \<in> members x e"
proof -
  have tab: "table_ok x" using assms(1) by (simp add: session_inv_def)
  show "map_of (session_locks (store x)) k = Some e" by (rule table_okD(2) [OF tab assms(2)])
  then show "e < next_entry (store x)" by (rule table_okD(1) [OF tab])
  then show "entry_ok x e" using assms by (simp add: session_inv_def)
  show "t \<in> members x e" using assms by (auto simp: members_def)
qed

lemma acquire_inv:
  assumes "session_inv x" "phase x t = Joined k e" "lock_acquire t (lock_of x e) = (b, l)"
  shows "session_inv (x\<lparr>store := with_lock e (\<lambda>_. l) (store x),
      phase := (phase x)(t := if b then Inside k e else AtLock k e)\<rparr>)"
proof (rule lock_step_inv [OF assms(1), of _ k])
  have ok: "entry_ok x e" using member_entry(2) [OF assms(1), of t k e] assms(2) by simp
  have t: "t \<notin> at_lock x e" "t \<notin> inside x e" using assms(2) by (auto simp: at_lock_def inside_def)
  then have "t \<notin> set (waiting (lock_of x e))" using ok by (simp add: entry_ok_def lock_agrees_def)
  note a = lock_acquire_ok [OF _ this assms(3)]
  show "lock_agrees l
      (if \<exists>k'. (if b then Inside k e else AtLock k e) = AtLock k' e then insert t (at_lock x e) else at_lock x e - {t})
      (if \<exists>k'. (if b then Inside k e else AtLock k e) = Inside k' e then insert t (inside x e) else inside x e - {t})"
    using ok a t by (cases b) (auto simp: entry_ok_def lock_agrees_def split: if_splits)
qed (use assms in auto)

lemma resume_inv:
  assumes "session_inv x" "phase x t = AtLock k e" "(t, Woken) \<in> set (lock_waiters (lock_of x e))"
  shows "session_inv (x\<lparr>store := with_lock e (lock_resume t) (store x), phase := (phase x)(t := Inside k e)\<rparr>)"
proof (rule lock_step_inv [OF assms(1), of _ k])
  have ok: "entry_ok x e" using member_entry(2) [OF assms(1), of t k e] assms(2) by simp
  then show "lock_agrees (lock_resume t (lock_of x e))
      (if \<exists>k'. Inside k e = AtLock k' e then insert t (at_lock x e) else at_lock x e - {t})
      (if \<exists>k'. Inside k e = Inside k' e then insert t (inside x e) else inside x e - {t})"
    using lock_resume_ok [OF _ assms(3)] by (auto simp: entry_ok_def lock_agrees_def)
qed (use assms in auto)

lemma cancel_inv:
  assumes "session_inv x" "phase x t = AtLock k e"
  shows "session_inv (x\<lparr>store := with_lock e (lock_cancel t) (store x)\<rparr>)"
proof -
  have ok: "entry_ok x e" using member_entry(2) [OF assms(1), of t k e] assms(2) by simp
  have "t \<in> at_lock x e" "t \<notin> inside x e" using assms(2) by (auto simp: at_lock_def inside_def)
  then have "lock_agrees (lock_cancel t (lock_of x e))
      (if \<exists>k'. AtLock k e = AtLock k' e then insert t (at_lock x e) else at_lock x e - {t})
      (if \<exists>k'. AtLock k e = Inside k' e then insert t (inside x e) else inside x e - {t})"
    using ok lock_cancel_ok [of "lock_of x e" t] by (auto simp: entry_ok_def lock_agrees_def insert_absorb)
  from lock_step_inv [OF assms(1), of t k e "AtLock k e" "lock_cancel t", OF _ _ this] assms(2) show ?thesis
    by (simp add: fun_upd_idem)
qed

lemma unwind_inv:
  assumes "session_inv x" "phase x t = AtLock k e"
  shows "session_inv (x\<lparr>store := with_lock e (lock_unwind t) (store x), phase := (phase x)(t := Leaving k e)\<rparr>)"
proof (rule lock_step_inv [OF assms(1), of _ k])
  have ok: "entry_ok x e" using member_entry(2) [OF assms(1), of t k e] assms(2) by simp
  have "t \<notin> inside x e" using assms(2) by (auto simp: inside_def)
  then show "lock_agrees (lock_unwind t (lock_of x e))
      (if \<exists>k'. Leaving k e = AtLock k' e then insert t (at_lock x e) else at_lock x e - {t})
      (if \<exists>k'. Leaving k e = Inside k' e then insert t (inside x e) else inside x e - {t})"
    using ok lock_unwind_ok [of "lock_of x e" t] by (auto simp: entry_ok_def lock_agrees_def)
qed (use assms in auto)

lemma leave_inv:
  assumes "session_inv x" "phase x t = Inside k e" "lock_release (lock_of x e) = Some l"
  shows "session_inv (x\<lparr>store := with_lock e (\<lambda>_. l) (store x), phase := (phase x)(t := Leaving k e)\<rparr>)"
proof (rule lock_step_inv [OF assms(1), of _ k])
  have ok: "entry_ok x e" using member_entry(2) [OF assms(1), of t k e] assms(2) by simp
  have t: "t \<notin> at_lock x e" "t \<in> inside x e" using assms(2) by (auto simp: at_lock_def inside_def)
  show "lock_agrees l
      (if \<exists>k'. Leaving k e = AtLock k' e then insert t (at_lock x e) else at_lock x e - {t})
      (if \<exists>k'. Leaving k e = Inside k' e then insert t (inside x e) else inside x e - {t})"
    using ok t lock_release_ok [OF _ assms(3)] by (auto simp: entry_ok_def lock_agrees_def)
qed (use assms in auto)


lemma sleepers_members: "at_lock x e \<subseteq> members x e"
  by (auto simp: at_lock_def members_def)

lemma owners_members: "inside x e \<subseteq> members x e"
  by (auto simp: inside_def members_def)

lemma join_inv:
  assumes "session_inv x" "phase x t = Outside" "join_session k (store x) = (e, s)"
  shows "session_inv (x\<lparr>store := s, phase := (phase x)(t := Joined k e)\<rparr>)" (is "session_inv ?y")
proof -
  let ?T = "session_locks (store x)"
  have sets: "at_lock ?y e' = at_lock x e'" "inside ?y e' = inside x e'"
    "members ?y e' = (if e' = e then insert t (members x e) else members x e')" for e'
    using assms(2) by (auto simp: at_lock_def inside_def members_def)
  have t: "t \<notin> members x e'" for e' using assms(2) by (simp add: members_def)
  have tab: "table_ok x" and all: "\<And>e'. e' < next_entry (store x) \<Longrightarrow> entry_ok x e'"
    using assms(1) by (auto simp: session_inv_def)
  show ?thesis
  proof (cases "map_of ?T k")
    case (Some e1)
    then have e1: "map_of ?T k = Some e" and s: "session_locks s = ?T" "next_entry s = next_entry (store x)"
      "entries s e' = (if e' = e then (entries (store x) e)\<lparr>users := users (entries (store x) e) + 1\<rparr> else entries (store x) e')" for e'
      using assms(3) by (auto simp: join_session_def)
    have l: "lock_of ?y e' = lock_of x e'" for e' by (simp add: lock_of_def s)
    have "table_ok ?y"
      unfolding table_ok_def
    proof (intro conjI allI impI)
      show "distinct_keys (session_locks (store ?y))" using tab by (simp add: table_ok_def s)
      fix k1 k2 e' assume "map_of (session_locks (store ?y)) k1 = Some e'" "map_of (session_locks (store ?y)) k2 = Some e'"
      then show "k1 = k2" using tab by (simp add: s) (metis table_ok_def)
    qed (use tab e1 in \<open>auto simp: s sets table_ok_def split: if_splits\<close>)
    moreover have "entry_ok ?y e'" if "e' < next_entry (store ?y)" for e'
      using all [of e'] that t [of e] by (auto simp: entry_ok_def sets l s)
    ultimately show ?thesis by (simp add: session_inv_def)
  next
    case None
    let ?n = "next_entry (store x)"
    have s: "e = ?n" "session_locks s = AList.update k ?n ?T" "next_entry s = ?n + 1"
      "entries s e' = (if e' = ?n then \<lparr>session_lock = new_lock, users = 1\<rparr> else entries (store x) e')" for e'
      using assms(3) None by (auto simp: join_session_def)
    have "members x ?n = {}"
      using table_okD(1) [OF tab, OF table_okD(2) [OF tab]] by (fastforce simp: members_def)
    then have m: "members x ?n = {}" "at_lock x ?n = {}" "inside x ?n = {}"
      using sleepers_members [of x ?n] owners_members [of x ?n] by auto
    have "table_ok ?y"
      using tab None table_okD(1) [OF tab] m(1)
      by (auto simp: table_ok_def s sets [unfolded s(1)] update_conv' less_Suc_eq split: if_splits)
    moreover have "entry_ok ?y e'" if "e' < next_entry (store ?y)" for e'
    proof (cases "e' = ?n")
      case True
      then show ?thesis using m by (simp add: entry_ok_def sets [unfolded s(1)] lock_agrees_def lock_of_def s)
    next
      case False
      then have "lock_of ?y e' = lock_of x e'" by (simp add: lock_of_def s)
      with all [of e'] that False show ?thesis by (simp add: entry_ok_def sets [unfolded s(1)] s)
    qed
    ultimately show ?thesis by (simp add: session_inv_def)
  qed
qed

lemma cleanup_inv:
  assumes "session_inv x" "phase x t = Leaving k e"
  shows "session_inv (x\<lparr>store := release_session_entry k e (store x), phase := (phase x)(t := Outside)\<rparr>)"
proof -
  let ?T = "session_locks (store x)"
  define s where "s = release_session_entry k e (store x)"
  let ?y = "x\<lparr>store := s, phase := (phase x)(t := Outside)\<rparr>"
  have mem: "membership (phase x t) = Some (k, e)" using assms(2) by simp
  note e = member_entry [OF assms(1) mem]
  have sets: "at_lock ?y e' = at_lock x e'" "inside ?y e' = inside x e'"
    "members ?y e' = (if e' = e then members x e - {t} else members x e')" for e'
    using assms(2) by (auto simp: at_lock_def inside_def members_def)
  have tab: "table_ok x" and all: "\<And>e'. e' < next_entry (store x) \<Longrightarrow> entry_ok x e'"
    using assms(1) by (auto simp: session_inv_def)
  have u: "users (entries (store x) e) - 1 = card (members x e - {t})" "finite (members x e)"
    using e(2, 4) by (auto simp: entry_ok_def)
  have zero: "card (members x e - {t}) = 0 \<longleftrightarrow> members x e - {t} = {}" using u(2) by simp
  have s: "next_entry s = next_entry (store x)"
    "session_locks s = (if members x e - {t} = {} then AList.delete k ?T else ?T)"
    "entries s e' = (if e' = e then (entries (store x) e)\<lparr>users := card (members x e - {t})\<rparr> else entries (store x) e')" for e'
    using e(3) by (auto simp: s_def release_session_entry_def Let_def u(1) zero simp flip: One_nat_def)
  have l: "lock_of ?y e' = lock_of x e'" for e' by (simp add: lock_of_def s)
  have "table_ok ?y"
  proof (cases "members x e - {t} = {}")
    case True
    have "k' \<noteq> k" if "membership (phase x t') = Some (k', e')" "t' \<noteq> t" for t' k' e'
    proof
      assume "k' = k"
      then have "e' = e" using table_okD(2) [OF tab that(1)] e(3) by simp
      then show False using that True by (auto simp: members_def)
    qed
    with True tab e(3) show ?thesis by (auto simp: table_ok_def s sets delete_conv' split: if_splits)
  next
    case False
    with tab show ?thesis by (auto simp: table_ok_def s sets split: if_splits)
  qed
  moreover have "entry_ok ?y e'" if "e' < next_entry (store ?y)" for e'
    using all [of e'] that u by (simp add: entry_ok_def sets l s)
  ultimately show ?thesis unfolding s_def [symmetric] by (simp add: session_inv_def)
qed

lemma session_step_inv: "session_step x y \<Longrightarrow> session_inv x \<Longrightarrow> session_inv y"
  by (induction rule: session_step.induct)
    (rule join_inv acquire_inv resume_inv cancel_inv unwind_inv leave_inv cleanup_inv
      iffD2 [OF same_sessions_inv, OF bindings_same_sessions(1)]
      iffD2 [OF same_sessions_inv, OF bindings_same_sessions(2)]
      iffD2 [OF same_sessions_inv, OF bindings_same_sessions(3)]; assumption)+

lemma session_reachable_inv: "session_reachable x \<Longrightarrow> session_inv x"
proof (induction rule: session_reachable.induct)
  case (init ttl limit s)
  then show ?case
    by (auto simp: new_affinity_store_def session_inv_def table_ok_def split: if_splits)
qed (rule session_step_inv)


lemma lock_not_stuck_member:
  assumes "session_inv x" "phase x t = AtLock k e" "\<forall>u. phase x u \<noteq> Inside k e"
  shows "\<exists>u w. phase x u = AtLock k e \<and> (u, w) \<in> set (lock_waiters (lock_of x e)) \<and> w \<noteq> Asleep"
proof -
  have tab: "table_ok x" using assms(1) by (simp add: session_inv_def)
  have mem: "membership (phase x t) = Some (k, e)" using assms(2) by simp
  have key: "k' = k" if "membership (phase x u) = Some (k', e)" for u k'
    using table_okD(2) [OF tab that] table_okD(2) [OF tab mem] tab by (auto simp: table_ok_def)
  note e = member_entry(2) [OF assms(1) mem]
  have "phase x u \<noteq> Inside k' e" for u k' using assms(3) key [of u k'] by auto
  then have "inside x e = {}" by (simp add: inside_def)
  moreover have "t \<in> at_lock x e" using assms(2) by (auto simp: at_lock_def)
  ultimately have "lock_ok (lock_of x e)" "\<not> locked (lock_of x e)" "waiting (lock_of x e) \<noteq> []"
    and at: "set (waiting (lock_of x e)) = at_lock x e"
    using e by (auto simp: entry_ok_def lock_agrees_def split: if_splits)
  from lock_not_stuck [OF this(1-3)] obtain u w where u: "(u, w) \<in> set (lock_waiters (lock_of x e))" "w \<noteq> Asleep"
    by blast
  then have "u \<in> at_lock x e" using at by (force simp: waiting_def)
  then obtain k' where "phase x u = AtLock k' e" by (auto simp: at_lock_def)
  with key [of u k'] u show ?thesis by auto
qed

section \<open>The bindings\<close>

datatype affinity_op = Get string time | Bind string SearchAffinityBinding time | Snapshot time

fun affinity_step :: "affinity_op \<Rightarrow> SearchAffinityStore \<Rightarrow> SearchAffinityStore" where
  "affinity_step (Get k now) s = snd (affinity_get k now s)"
| "affinity_step (Bind k b now) s = snd (bind_if_absent k b now s)"
| "affinity_step (Snapshot now) s = snd (affinity_snapshot now s)"

fun op_time :: "affinity_op \<Rightarrow> time" where
  "op_time (Get k now) = now"
| "op_time (Bind k b now) = now"
| "op_time (Snapshot now) = now"

fun op_keys :: "affinity_op \<Rightarrow> string set" where
  "op_keys (Get k now) = {k}"
| "op_keys (Bind k b now) = {k}"
| "op_keys (Snapshot now) = {}"

text \<open>The entry of a key, and that only keys of a set were used after it.\<close>

definition recent :: "'k set \<Rightarrow> 'k \<Rightarrow> 'v \<Rightarrow> ('k, 'v) dict \<Rightarrow> bool" where
  "recent K k v d \<longleftrightarrow> distinct_keys d \<and> (\<exists>as bs. d = as @ (k, v) # bs \<and> fst ` set bs \<subseteq> K)"

lemma recentI: "d = as @ (k, v) # bs \<Longrightarrow> distinct_keys d \<Longrightarrow> fst ` set bs \<subseteq> K \<Longrightarrow> recent K k v d"
  by (auto simp: recent_def)

lemma recentE:
  assumes "recent K k v d"
  obtains as bs where "d = as @ (k, v) # bs" "distinct_keys d" "fst ` set bs \<subseteq> K"
  using assms by (auto simp: recent_def)

lemma recent_get: "recent K k v d \<Longrightarrow> map_of d k = Some v"
  by (erule recentE) (rule map_of_is_SomeI; simp add: distinct_keys_def)

lemma recent_mono: "recent K k v d \<Longrightarrow> K \<subseteq> L \<Longrightarrow> recent L k v d"
  by (erule recentE) (auto intro: recentI)

lemma recent_filter: "recent K k v d \<Longrightarrow> P (k, v) \<Longrightarrow> recent K k v (filter P d)"
  by (erule recentE, rule recentI [of _ "filter P as" k v "filter P bs" for as bs])
    (auto simp: distinct_keys_def distinct_map_filter)

lemma delete_append: "AList.delete k (xs @ ys) = AList.delete k xs @ AList.delete k ys"
  by (simp add: AList.delete_eq)

lemma recent_delete: "recent K k v d \<Longrightarrow> j \<noteq> k \<Longrightarrow> recent (K - {j}) k v (AList.delete j d)"
  by (erule recentE, rule recentI [of _ "AList.delete j as" k v "AList.delete j bs" for as bs])
    (auto simp: delete_append dest: distinct_keys_delete [of _ j], auto simp: AList.delete_eq)

lemma distinct_keys_snoc: "distinct_keys d \<Longrightarrow> map_of d k = None \<Longrightarrow> distinct_keys (d @ [(k, v)])"
  by (auto simp: distinct_keys_def map_of_eq_None_iff)

lemma recent_snoc:
  assumes "recent K k v d" "map_of d j = None" "j \<in> K"
  shows "recent K k v (d @ [(j, w)])"
proof -
  from assms(1) obtain as bs where "d = as @ (k, v) # bs" "distinct_keys d" "fst ` set bs \<subseteq> K" by (rule recentE)
  then show ?thesis
    using assms(2, 3) distinct_keys_snoc [of d j] by (intro recentI [of _ as k v "bs @ [(j, w)]"]) auto
qed

lemma recent_last: "distinct_keys d \<Longrightarrow> map_of d k = None \<Longrightarrow> recent K k v (d @ [(k, v)])"
  by (rule recentI [of _ d _ _ "[]"]) (simp_all add: distinct_keys_snoc)

lemma recent_move_self: "distinct_keys d \<Longrightarrow> map_of d k = Some v \<Longrightarrow> recent K k v (move_to_end k d)"
  by (simp add: move_to_end_def recent_last delete_conv')

lemma recent_move_other: "recent K k v d \<Longrightarrow> j \<in> K \<Longrightarrow> j \<noteq> k \<Longrightarrow> recent K k v (move_to_end j d)"
  by (auto simp: move_to_end_def delete_conv' split: option.split
      intro!: recent_snoc recent_mono [OF recent_delete])

text \<open>Making room for one more key spares the entry when fewer keys than the capacity were used.\<close>

lemma evict_oldest_spares: "Suc (length bs) < limit \<Longrightarrow> \<exists>cs. snd (evict_oldest limit (as @ y # bs)) = cs @ y # bs"
  by (induction as) (auto split: prod.split)

lemma evict_oldest_suffix: "\<exists>cs. d = cs @ snd (evict_oldest limit d)"
proof (induction d)
  case (Cons x d)
  then obtain cs where "d = cs @ snd (evict_oldest limit d)" by blast
  then show ?case by (cases "limit \<le> length (x # d)") (auto split: prod.splits intro: exI [of _ "x # cs"])
qed simp

lemma evict_oldest_length: "0 < limit \<Longrightarrow> length (snd (evict_oldest limit d)) < limit"
  by (induction d) (auto split: prod.split)

lemma recent_evict:
  assumes "recent (K - {j}) k v d" "finite K" "j \<in> K" "card K < limit"
  shows "recent (K - {j}) k v (snd (evict_oldest limit d))"
proof -
  from assms(1) obtain as bs where d: "d = as @ (k, v) # bs" "distinct_keys d" "fst ` set bs \<subseteq> K - {j}"
    by (rule recentE)
  then have "length bs = card (set (map fst bs))"
    by (subst distinct_card) (simp_all add: distinct_keys_def)
  also have "\<dots> \<le> card (K - {j})" by (rule card_mono) (use assms(2) d(3) in auto)
  also have "\<dots> < card K" using assms(2, 3) by (rule card_Diff1_less)
  finally have "Suc (length bs) < limit" using assms(4) by simp
  from evict_oldest_spares [OF this, of as "(k, v)"] obtain cs where "snd (evict_oldest limit d) = cs @ (k, v) # bs"
    unfolding d(1) by blast
  moreover obtain es where "d = es @ snd (evict_oldest limit d)" using evict_oldest_suffix by blast
  then have "distinct_keys (snd (evict_oldest limit d))" using d(2) by (metis distinct_append distinct_keys_def map_append)
  ultimately show ?thesis using d(3) by (auto intro: recentI)
qed


lemma update_fresh: "map_of d j = None \<Longrightarrow> AList.update j w d = d @ [(j, w)]"
  by (induction d) (auto split: if_splits)

lemma evict_oldest_absent: "map_of d j = None \<Longrightarrow> map_of (snd (evict_oldest limit d)) j = None"
  using evict_oldest_suffix [of d limit] by (metis map_of_eq_None_iff image_Un set_append UnCI)

lemma recent_insert:
  assumes "recent (K - {j}) k v d" "finite K" "j \<in> K" "card K < limit" "map_of d j = None"
  shows "recent K k v (AList.update j w (snd (evict_oldest limit d)))"
  using recent_mono [OF recent_evict [OF assms(1-4)], of K] assms(3, 5)
  by (auto simp: update_fresh evict_oldest_absent intro: recent_snoc)

text \<open>Every operation keeps the dictionary's keys distinct and its size within the capacity.\<close>

definition bindings_ok :: "SearchAffinityStore \<Rightarrow> bool" where
  "bindings_ok s \<longleftrightarrow> distinct_keys (bindings s) \<and> length (bindings s) \<le> max_entries s \<and> 0 < max_entries s"

lemma delete_length: "length (AList.delete k d) \<le> length d"
  by (simp add: AList.delete_eq)

lemma move_to_end_fields:
  "distinct_keys d \<Longrightarrow> distinct_keys (move_to_end k d) \<and> length (move_to_end k d) \<le> length d"
proof (cases "map_of d k")
  case (Some v)
  assume d: "distinct_keys d"
  have "length (AList.delete k d) < length d"
    using map_of_SomeD [OF Some] length_filter_less [of "(k, v)" d "\<lambda>(k', _). k \<noteq> k'"] by (simp add: AList.delete_eq)
  with d Some show ?thesis by (auto simp: move_to_end_def delete_conv' intro: distinct_keys_snoc)
qed (simp add: move_to_end_def)

lemma filter_keys: "distinct_keys d \<Longrightarrow> distinct_keys (filter P d) \<and> length (filter P d) \<le> length d"
  by (simp add: distinct_keys_def distinct_map_filter)

lemma filter_absent: "map_of d k = None \<Longrightarrow> map_of (filter P d) k = None"
  by (auto simp: map_of_eq_None_iff)

lemma insert_fields:
  assumes "distinct_keys d" "map_of d k = None" "0 < limit"
  shows "distinct_keys (AList.update k v (snd (evict_oldest limit d))) \<and>
    length (AList.update k v (snd (evict_oldest limit d))) \<le> limit"
proof -
  obtain cs where "d = cs @ snd (evict_oldest limit d)" using evict_oldest_suffix by blast
  then have "distinct_keys (snd (evict_oldest limit d))"
    using assms(1) by (metis distinct_append distinct_keys_def map_append)
  with assms evict_oldest_length [OF assms(3), of d] show ?thesis
    by (simp add: update_fresh evict_oldest_absent distinct_keys_snoc)
qed

text \<open>What an insertion leaves, on either branch that inserts.\<close>

definition inserted :: "string \<Rightarrow> SearchAffinityBinding \<Rightarrow> time \<Rightarrow> SearchAffinityStore \<Rightarrow> (string, StoredBinding) dict" where
  "inserted k b now s =
     AList.update k \<lparr>binding = b, expires_at = now + ttl_seconds s\<rparr>
       (snd (evict_oldest (max_entries s) (filter (\<lambda>x. \<not> expires_at (snd x) \<le> now) (AList.delete k (bindings s)))))"

lemma bind_if_absent_cases:
  obtains st where "map_of (bindings s) k = Some st" "now < expires_at st"
      "fst (bind_if_absent k b now s) = binding st" "bindings (snd (bind_if_absent k b now s)) = move_to_end k (bindings s)"
      "max_entries (snd (bind_if_absent k b now s)) = max_entries s"
  | "\<forall>st. map_of (bindings s) k = Some st \<longrightarrow> expires_at st \<le> now" "fst (bind_if_absent k b now s) = b"
      "bindings (snd (bind_if_absent k b now s)) = inserted k b now s"
      "max_entries (snd (bind_if_absent k b now s)) = max_entries s"
proof (cases "map_of (bindings s) k")
  case None
  then have "AList.delete k (bindings s) = bindings s" by (auto simp: map_of_eq_None_iff delete_absent)
  with None show ?thesis
    by (intro that(2)) (auto simp: bind_if_absent_def purge_expired_def inserted_def Let_def split: prod.split)
next
  case (Some st)
  show ?thesis
  proof (cases "now < expires_at st")
    case True
    with Some show ?thesis by (intro that(1)) (auto simp: bind_if_absent_def)
  next
    case False
    with Some show ?thesis
      by (intro that(2)) (auto simp: bind_if_absent_def purge_expired_def inserted_def Let_def split: prod.split)
  qed
qed

lemma affinity_step_ok:
  assumes "bindings_ok s"
  shows "bindings_ok (affinity_step op s) \<and> max_entries (affinity_step op s) = max_entries s"
proof (cases op)
  case (Get k now)
  with assms move_to_end_fields [of "bindings s" k] delete_length [of k "bindings s"] show ?thesis
    by (auto simp: affinity_get_def bindings_ok_def split: option.split)
next
  case (Bind k b now)
  have "map_of (AList.delete k (bindings s)) k = None" by (simp add: delete_conv')
  then have "distinct_keys (inserted k b now s) \<and> length (inserted k b now s) \<le> max_entries s"
    unfolding inserted_def using assms
    by (intro insert_fields) (auto simp: bindings_ok_def filter_absent filter_keys)
  with assms move_to_end_fields [of "bindings s" k] show ?thesis
    by (cases rule: bind_if_absent_cases [of s k now b]) (auto simp: Bind bindings_ok_def)
next
  case (Snapshot now)
  with assms filter_keys [of "bindings s" "\<lambda>x. \<not> expires_at (snd x) \<le> now"] show ?thesis
    by (auto intro: le_trans [OF length_filter_le] simp: affinity_snapshot_def purge_expired_def bindings_ok_def Let_def)
qed

lemma affinity_step_recent:
  assumes "recent K k st (bindings s)" "finite K" "k \<notin> K" "card K < max_entries s" "bindings_ok s"
    and "op_keys op \<subseteq> insert k K" "op_time op < expires_at st"
  shows "recent K k st (bindings (affinity_step op s))"
proof (cases op)
  case (Get j now)
  show ?thesis
  proof (cases "j = k")
    case True
    then show ?thesis using assms recent_get [OF assms(1)]
      by (auto simp: Get affinity_get_def bindings_ok_def intro: recent_move_self)
  next
    case False
    then show ?thesis using assms(1, 6)
      by (auto simp: Get affinity_get_def split: option.split
          intro: recent_move_other recent_mono [OF recent_delete])
  qed
next
  case (Bind j b now)
  show ?thesis
  proof (cases rule: bind_if_absent_cases [of s j now b])
    case (1 st')
    then show ?thesis using assms recent_get [OF assms(1)]
      by (cases "j = k") (auto simp: Bind bindings_ok_def intro: recent_move_self recent_move_other)
  next
    case 2
    then have j: "j \<noteq> k" using recent_get [OF assms(1)] assms(7) by (auto simp: Bind)
    have "map_of (filter (\<lambda>x. \<not> expires_at (snd x) \<le> now) (AList.delete j (bindings s))) j = None"
      by (rule filter_absent) (simp add: delete_conv')
    with recent_delete [OF assms(1) j] j assms(2, 4, 6, 7) 2 show ?thesis
      by (auto simp: Bind inserted_def intro!: recent_insert recent_filter)
  qed
next
  case (Snapshot now)
  then show ?thesis using assms(1, 7)
    by (auto simp: affinity_snapshot_def purge_expired_def Let_def intro: recent_filter)
qed

lemma affinity_run_recent:
  "recent K k st (bindings s) \<Longrightarrow> finite K \<Longrightarrow> k \<notin> K \<Longrightarrow> card K < max_entries s \<Longrightarrow> bindings_ok s \<Longrightarrow>
   \<forall>op \<in> set ops. op_keys op \<subseteq> insert k K \<and> op_time op < expires_at st \<Longrightarrow>
   recent K k st (bindings (fold affinity_step ops s)) \<and> bindings_ok (fold affinity_step ops s) \<and>
     max_entries (fold affinity_step ops s) = max_entries s"
  by (induction ops arbitrary: s) (simp_all add: affinity_step_recent affinity_step_ok)

text \<open>A binding that was just made or confirmed is the most recent one.\<close>

lemma bind_recent:
  assumes "bindings_ok s" "map_of (bindings (snd (bind_if_absent k b now s))) k = Some st"
  shows "recent K k st (bindings (snd (bind_if_absent k b now s))) \<and> binding st = fst (bind_if_absent k b now s)"
proof (cases rule: bind_if_absent_cases [of s k now b])
  case (1 st')
  have "recent K k st' (move_to_end k (bindings s))"
    using 1(1) assms(1) by (intro recent_move_self) (simp_all add: bindings_ok_def)
  with 1 assms(2) recent_get [OF this] show ?thesis by simp
next
  case 2
  let ?st = "\<lparr>binding = b, expires_at = now + ttl_seconds s\<rparr>"
  let ?d = "snd (evict_oldest (max_entries s) (filter (\<lambda>x. \<not> expires_at (snd x) \<le> now) (AList.delete k (bindings s))))"
  have none: "map_of ?d k = None" by (intro evict_oldest_absent filter_absent) (simp add: delete_conv')
  obtain cs where "filter (\<lambda>x. \<not> expires_at (snd x) \<le> now) (AList.delete k (bindings s)) = cs @ ?d"
    using evict_oldest_suffix by blast
  moreover have "distinct_keys (filter (\<lambda>x. \<not> expires_at (snd x) \<le> now) (AList.delete k (bindings s)))"
    using assms(1) by (simp add: filter_keys bindings_ok_def)
  ultimately have "distinct_keys ?d" by (metis distinct_append distinct_keys_def map_append)
  then have "recent K k ?st (inserted k b now s)"
    using none by (simp add: inserted_def update_fresh recent_last)
  with 2 assms(2) recent_get [OF this] show ?thesis by auto
qed

lemma same_bindings_locks:
  "bindings (with_lock e f s) = bindings s" "max_entries (with_lock e f s) = max_entries s"
  "bindings (release_session_entry k e s) = bindings s" "max_entries (release_session_entry k e s) = max_entries s"
  "bindings (snd (join_session k s)) = bindings s" "max_entries (snd (join_session k s)) = max_entries s"
  by (auto simp: with_lock_def release_session_entry_def join_session_def Let_def split: option.split)

lemma session_step_bindings: "session_step x y \<Longrightarrow> bindings_ok (store x) \<Longrightarrow> bindings_ok (store y)"
proof (induction rule: session_step.induct)
  case (join x t k e s)
  then show ?case using same_bindings_locks(5, 6) [of k "store x"] by (simp add: bindings_ok_def)
next
  case (get x k now)
  then show ?case using affinity_step_ok [of "store x" "Get k now"] by simp
next
  case (bind x k b now)
  then show ?case using affinity_step_ok [of "store x" "Bind k b now"] by simp
next
  case (snapshot x now)
  then show ?case using affinity_step_ok [of "store x" "Snapshot now"] by simp
qed (simp_all add: bindings_ok_def same_bindings_locks)

lemma session_reachable_bindings: "session_reachable x \<Longrightarrow> bindings_ok (store x)"
proof (induction rule: session_reachable.induct)
  case (init ttl limit s)
  then show ?case by (auto simp: new_affinity_store_def bindings_ok_def split: if_splits)
qed (rule session_step_bindings)


section \<open>Claims\<close>

text \<open>
  C37. In every interleaving of the tasks that use sessions, at most one task is inside a session, the table of locks has
  an entry for exactly the sessions that some task takes part in, and while a task waits at a session either
  another one is inside it or a waiter has been woken or withdrawn, so that its task goes on.
\<close>
theorem search_sessions_exclusive:
  assumes "session_reachable x"
  shows "(\<forall>t t' k e e'. phase x t = Inside k e \<and> phase x t' = Inside k e' \<longrightarrow> t = t') \<and>
    (\<forall>k. (\<exists>e. map_of (session_locks (store x)) k = Some e) \<longleftrightarrow> (\<exists>t e. membership (phase x t) = Some (k, e))) \<and>
    (\<forall>t k e. phase x t = AtLock k e \<longrightarrow>
       (\<exists>u. phase x u = Inside k e) \<or>
       (\<exists>u w. phase x u = AtLock k e \<and> (u, w) \<in> set (lock_waiters (lock_of x e)) \<and> w \<noteq> Asleep))"
proof (intro conjI allI impI)
  have inv: "session_inv x" by (rule session_reachable_inv [OF assms])
  then have tab: "table_ok x" by (simp add: session_inv_def)
  fix t t' k e e' assume p: "phase x t = Inside k e \<and> phase x t' = Inside k e'"
  then have "e' = e" using table_okD(2) [OF tab, of t k e] table_okD(2) [OF tab, of t' k e'] by simp
  with p have "{t, t'} \<subseteq> inside x e" by (auto simp: inside_def)
  with member_entry(2) [OF inv, of t k e] p show "t = t'"
    by (auto simp: entry_ok_def lock_agrees_def split: if_splits)
next
  fix k
  have tab: "table_ok x" using session_reachable_inv [OF assms] by (simp add: session_inv_def)
  show "(\<exists>e. map_of (session_locks (store x)) k = Some e) \<longleftrightarrow> (\<exists>t e. membership (phase x t) = Some (k, e))"
  proof
    assume "\<exists>e. map_of (session_locks (store x)) k = Some e"
    then obtain e where e: "map_of (session_locks (store x)) k = Some e" ..
    then obtain t k' where m: "membership (phase x t) = Some (k', e)" using tab by (fastforce simp: table_ok_def members_def)
    with table_okD(2) [OF tab m] e tab have "k' = k" by (auto simp: table_ok_def)
    with m show "\<exists>t e. membership (phase x t) = Some (k, e)" by blast
  qed (use table_okD(2) [OF tab] in blast)
next
  fix t k e assume "phase x t = AtLock k e"
  from lock_not_stuck_member [OF session_reachable_inv [OF assms] this]
  show "(\<exists>u. phase x u = Inside k e) \<or>
    (\<exists>u w. phase x u = AtLock k e \<and> (u, w) \<in> set (lock_waiters (lock_of x e)) \<and> w \<noteq> Asleep)" by blast
qed

text \<open>One task inside a session and one that waits.\<close>

definition demo_affinity :: SearchAffinityStore where
  "demo_affinity = projr (new_affinity_store 60 2)"

definition demo_sessions :: session_system where
  "demo_sessions =
     (let s0 = demo_affinity; (e, s1) = join_session ''a'' s0; (e', s2) = join_session ''a'' s1;
          (b, l) = lock_acquire 0 (session_lock (entries s2 e)); s3 = with_lock e (\<lambda>_. l) s2;
          (b', l') = lock_acquire 1 (session_lock (entries s3 e)); s4 = with_lock e (\<lambda>_. l') s3
      in \<lparr>store = s4, phase = ((\<lambda>_. Outside)(0 := Inside ''a'' 0, 1 := AtLock ''a'' 0))\<rparr>)"

lemma demo_sessions_reachable: "session_reachable demo_sessions"
proof -
  have "session_reachable \<lparr>store = demo_affinity, phase = (\<lambda>_. Outside)\<rparr>"
    by (rule session_reachable.init [of 60 2]) (simp add: demo_affinity_def new_affinity_store_def)
  from session_reachable.step [OF this session_step.join [where t = 0 and k = "''a''", OF _ surjective_pairing]]
  have 1: "session_reachable \<lparr>store = snd (join_session ''a'' demo_affinity),
      phase = (\<lambda>_. Outside)(0 := Joined ''a'' 0)\<rparr>"
    by (simp add: join_session_def demo_affinity_def new_affinity_store_def)
  from session_reachable.step [OF this session_step.join [where t = 1 and k = "''a''", OF _ surjective_pairing]]
  have 2: "session_reachable \<lparr>store = snd (join_session ''a'' (snd (join_session ''a'' demo_affinity))),
      phase = (\<lambda>_. Outside)(0 := Joined ''a'' 0, 1 := Joined ''a'' 0)\<rparr>"
    by (simp add: join_session_def demo_affinity_def new_affinity_store_def)
  from session_reachable.step [OF this session_step.acquire [where t = 0, OF _ surjective_pairing]]
  have 3: "session_reachable \<lparr>store = with_lock 0 (\<lambda>_. \<lparr>locked = True, lock_waiters = []\<rparr>)
      (snd (join_session ''a'' (snd (join_session ''a'' demo_affinity)))),
      phase = (\<lambda>_. Outside)(0 := Inside ''a'' 0, 1 := Joined ''a'' 0)\<rparr>"
    by (simp add: join_session_def demo_affinity_def new_affinity_store_def lock_of_def lock_acquire_def new_lock_def
        fun_upd_twist)
  from session_reachable.step [OF this session_step.acquire [where t = 1, OF _ surjective_pairing]]
  show ?thesis
    by (simp add: demo_sessions_def join_session_def demo_affinity_def new_affinity_store_def lock_of_def
        lock_acquire_def new_lock_def with_lock_def fun_upd_twist)
qed

theorem search_sessions_exclusive_witness:
  "phase demo_sessions 0 = Inside ''a'' 0 \<and> phase demo_sessions 1 = AtLock ''a'' 0 \<and>
   {t. phase demo_sessions t = Inside ''a'' 0} = {0}"
proof -
  have p: "phase demo_sessions 0 = Inside ''a'' 0" "phase demo_sessions 1 = AtLock ''a'' 0"
    by (simp_all add: demo_sessions_def join_session_def demo_affinity_def new_affinity_store_def lock_acquire_def
        split: prod.split)
  with search_sessions_exclusive [OF demo_sessions_reachable] have "t = 0" if "phase demo_sessions t = Inside ''a'' 0" for t
    using that by metis
  with p show ?thesis by auto
qed

text \<open>
  C38. A session sticks to its binding: what \<open>bind_if_absent\<close> answers is what every later \<open>get\<close> and \<open>bind_if_absent\<close> for
  the key answers until the binding expires, whatever is looked up and bound in between, as long as that
  concerns fewer other keys than the store has entries; and the store never exceeds its capacity.
\<close>
theorem search_binding_sticks:
  assumes "session_reachable x" "bind_if_absent k b now (store x) = (chosen, s)" "map_of (bindings s) k = Some st"
    and "\<forall>op \<in> set ops. op_time op < expires_at st" "later < expires_at st"
    and "card ((\<Union>op \<in> set ops. op_keys op) - {k}) < max_entries (store x)"
  shows "fst (affinity_get k later (fold affinity_step ops s)) = Some chosen \<and>
    fst (bind_if_absent k b' later (fold affinity_step ops s)) = chosen \<and>
    length (bindings (fold affinity_step ops s)) \<le> max_entries (store x)"
proof -
  let ?K = "(\<Union>op \<in> set ops. op_keys op) - {k}"
  have ok: "bindings_ok (store x)" by (rule session_reachable_bindings [OF assms(1)])
  have s: "bindings_ok s" "max_entries s = max_entries (store x)"
    using affinity_step_ok [OF ok, of "Bind k b now"] assms(2) by simp_all
  have r: "recent ?K k st (bindings s)" "binding st = chosen"
    using bind_recent [OF ok, of k b now st ?K] assms(2, 3) by simp_all
  have "finite (op_keys op)" for op by (cases op) simp_all
  then have "finite ?K" by simp
  from affinity_run_recent [OF r(1) this, of ops] s assms(4, 6)
  have "recent ?K k st (bindings (fold affinity_step ops s))" "bindings_ok (fold affinity_step ops s)"
    "max_entries (fold affinity_step ops s) = max_entries (store x)" by auto
  with recent_get [OF this(1)] r(2) assms(5) show ?thesis
    by (simp add: affinity_get_def bind_if_absent_def bindings_ok_def)
qed

definition demo_binding :: "string \<Rightarrow> SearchAffinityBinding" where
  "demo_binding p = \<lparr>bound_provider = p, request_model = ''m'', original_model = ''m'', bound_credential = None\<rparr>"

theorem search_binding_sticks_witness:
  "let s = snd (bind_if_absent ''a'' (demo_binding ''p'') 0 demo_affinity);
       s' = affinity_step (Bind ''b'' (demo_binding ''q'') 1) s
   in fst (affinity_get ''a'' 2 s') = Some (demo_binding ''p'')"
proof -
  have "session_reachable \<lparr>store = demo_affinity, phase = (\<lambda>_. Outside)\<rparr>"
    by (rule session_reachable.init [of 60 2]) (simp add: demo_affinity_def new_affinity_store_def)
  from search_binding_sticks [OF this, of "''a''" "demo_binding ''p''" 0 "demo_binding ''p''"
      "snd (bind_if_absent ''a'' (demo_binding ''p'') 0 demo_affinity)"
      "\<lparr>binding = demo_binding ''p'', expires_at = 60\<rparr>" "[Bind ''b'' (demo_binding ''q'') 1]" 2]
  show ?thesis
    by (simp add: bind_if_absent_def purge_expired_def demo_affinity_def new_affinity_store_def Let_def)
qed

end
