(* ===== verification/ChannelManager.thy ===== *)
theory ChannelManager
  imports RoutingPlan CircuitBreaker
begin

text \<open>
  \<open>ChannelManager\<close> of \<open>uni_api/runtime.py\<close>: which provider-model channels are out of rotation, because a failure
  excluded them for a cool-down period or because the circuit of their route is open; and the default resolver of
  \<open>RoutingRules\<close> over it. The readings of the two clocks (\<open>datetime.now\<close>, and the clock of the circuit breaker) are
  an argument, the same for the whole of a call. An exception is a \<^typ>\<open>route_error\<close>; \<open>TypeError\<close> and
  \<open>AttributeError\<close> are \<^const>\<open>RouteTypeError\<close>.
\<close>

section \<open>State and operations\<close>

record readings =
  wall :: time
  mono_clock :: time

record ChannelManager =
  excluded_models :: "(string, time) dict"
  cooldown_period :: real
  route_circuit :: ProviderModelCircuitBreaker

definition new_channel_manager :: "real \<Rightarrow> ProviderModelCircuitBreaker \<Rightarrow> ChannelManager" where
  "new_channel_manager period circuit =
     \<lparr>excluded_models = [], cooldown_period = period, route_circuit = circuit\<rparr>"

text \<open>\<open>f"{provider}/{model}"\<close>, and \<open>str(model or "")\<close>, which the circuit breaker makes of a model.\<close>

definition channel_key :: "(pyval \<Rightarrow> string) \<Rightarrow> string \<Rightarrow> pyval \<Rightarrow> string" where
  "channel_key repr provider model = provider @ ''/'' @ py_str repr model"

definition circuit_model :: "(pyval \<Rightarrow> string) \<Rightarrow> pyval \<Rightarrow> string" where
  "circuit_model repr model = (if truthy model then py_str repr model else [])"

definition exclude_model ::
  "(pyval \<Rightarrow> string) \<Rightarrow> time \<Rightarrow> string \<Rightarrow> pyval \<Rightarrow> ChannelManager \<Rightarrow> ChannelManager" where
  "exclude_model repr now provider model cm =
     cm\<lparr>excluded_models := AList.update (channel_key repr provider model) now (excluded_models cm)\<rparr>"

text \<open>\<open>timedelta(seconds=period)\<close> takes a number.\<close>

definition seconds_number :: "pyval \<Rightarrow> real option" where
  "seconds_number v =
     (case v of PInt i \<Rightarrow> Some (of_int i) | PBool b \<Rightarrow> Some (of_bool b) | PFloat r \<Rightarrow> Some r | _ \<Rightarrow> None)"

definition is_legacy_model_excluded ::
  "(pyval \<Rightarrow> string) \<Rightarrow> time \<Rightarrow> string \<Rightarrow> pyval \<Rightarrow> pyval \<Rightarrow> ChannelManager
   \<Rightarrow> (route_error + bool) \<times> ChannelManager" where
  "is_legacy_model_excluded repr now provider model period cm =
     (let key = channel_key repr provider model in
      case map_of (excluded_models cm) key of
        None \<Rightarrow> (Inr False, cm)
      | Some excluded \<Rightarrow>
          (case seconds_number period of
             None \<Rightarrow> (Inl RouteTypeError, cm)
           | Some seconds \<Rightarrow>
               if seconds < now - excluded
               then (Inr False, cm\<lparr>excluded_models := AList.delete key (excluded_models cm)\<rparr>)
               else (Inr True, cm)))"

definition circuit_is_open ::
  "(pyval \<Rightarrow> string) \<Rightarrow> time \<Rightarrow> string \<Rightarrow> pyval \<Rightarrow> ChannelManager \<Rightarrow> bool \<times> ChannelManager" where
  "circuit_is_open repr t provider model cm =
     (let (opened, b) = is_open t provider (circuit_model repr model) (route_circuit cm) in
      (opened, cm\<lparr>route_circuit := b\<rparr>))"

definition is_model_excluded ::
  "(pyval \<Rightarrow> string) \<Rightarrow> readings \<Rightarrow> string \<Rightarrow> pyval \<Rightarrow> pyval \<Rightarrow> ChannelManager
   \<Rightarrow> (route_error + bool) \<times> ChannelManager" where
  "is_model_excluded repr clk provider model period cm =
     (case is_legacy_model_excluded repr (wall clk) provider model period cm of
        (Inr False, cm) \<Rightarrow>
          (let (opened, cm) = circuit_is_open repr (mono_clock clk) provider model cm in (Inr opened, cm))
      | r \<Rightarrow> r)"

definition record_model_failure ::
  "(pyval \<Rightarrow> string) \<Rightarrow> time \<Rightarrow> string \<Rightarrow> pyval \<Rightarrow> int \<Rightarrow> ChannelManager \<Rightarrow> bool \<times> ChannelManager" where
  "record_model_failure repr t provider model status cm =
     (let (opened, b) = CircuitBreaker.record_failure t provider (circuit_model repr model) status (route_circuit cm) in
      (opened, cm\<lparr>route_circuit := b\<rparr>))"

definition record_model_success ::
  "(pyval \<Rightarrow> string) \<Rightarrow> string \<Rightarrow> pyval \<Rightarrow> ChannelManager \<Rightarrow> bool \<times> ChannelManager" where
  "record_model_success repr provider model cm =
     (let (reset, b) = record_success provider (circuit_model repr model) (route_circuit cm) in
      (reset, cm\<lparr>route_circuit := b\<rparr>))"

record channel_snapshot =
  legacy_cooldown_period_seconds :: real
  legacy_excluded_model_count :: nat
  provider_model_circuit :: "open_route list \<times> nat"

definition manager_snapshot ::
  "(route \<Rightarrow> string) \<Rightarrow> time \<Rightarrow> ChannelManager \<Rightarrow> channel_snapshot \<times> ChannelManager" where
  "manager_snapshot fp t cm =
     (let (routes, b) = snapshot fp t (route_circuit cm) in
      (\<lparr>legacy_cooldown_period_seconds = cooldown_period cm,
        legacy_excluded_model_count = length (excluded_models cm), provider_model_circuit = routes\<rparr>,
       cm\<lparr>route_circuit := b\<rparr>))"

text \<open>\<open>list(provider['model'][0].values())[0]\<close>, and \<open>provider.get('preferences', {}).get(key, default)\<close>.\<close>

definition target_model :: "provider \<Rightarrow> route_error + pyval" where
  "target_model p =
     (case map_of p ''model'' of
        None \<Rightarrow> Inl (MissingKey ''model'')
      | Some (PList (PDict ((_, v) # _) # _)) \<Rightarrow> Inr v
      | Some (PList (PDict [] # _)) \<Rightarrow> Inl RoutingRules.IndexError
      | Some (PList []) \<Rightarrow> Inl RoutingRules.IndexError
      | Some _ \<Rightarrow> Inl RouteTypeError)"

definition provider_preference :: "provider \<Rightarrow> string \<Rightarrow> pyval \<Rightarrow> route_error + pyval" where
  "provider_preference p key otherwise =
     (case map_of p ''preferences'' of
        None \<Rightarrow> Inr otherwise
      | Some (PDict d) \<Rightarrow> Inr (pget d key otherwise)
      | Some _ \<Rightarrow> Inl RouteTypeError)"

fun available_loop ::
  "(pyval \<Rightarrow> string) \<Rightarrow> readings \<Rightarrow> bool \<Rightarrow> provider list \<Rightarrow> ChannelManager
   \<Rightarrow> (route_error + provider list) \<times> ChannelManager" where
  "available_loop repr clk legacy [] cm = (Inr [], cm)"
| "available_loop repr clk legacy (p # ps) cm =
     (case target_model p of
        Inl e \<Rightarrow> (Inl e, cm)
      | Inr model \<Rightarrow>
     (case provider_preference p ''cooldown_period'' (PFloat (cooldown_period cm)) of
        Inl e \<Rightarrow> (Inl e, cm)
      | Inr period \<Rightarrow>
     (let (opened, cm) = circuit_is_open repr (mono_clock clk) (pname p) model cm;
          (excluded, cm) = (if legacy then is_legacy_model_excluded repr (wall clk) (pname p) model period cm
                            else (Inr False, cm))
      in case excluded of
           Inl e \<Rightarrow> (Inl e, cm)
         | Inr excluded \<Rightarrow>
             (case available_loop repr clk legacy ps cm of
                (Inl e, cm) \<Rightarrow> (Inl e, cm)
              | (Inr qs, cm) \<Rightarrow> (Inr (if opened \<or> excluded then qs else p # qs), cm)))))"

definition get_available_providers ::
  "(pyval \<Rightarrow> string) \<Rightarrow> readings \<Rightarrow> provider list \<Rightarrow> ChannelManager
   \<Rightarrow> (route_error + provider list) \<times> ChannelManager" where
  "get_available_providers repr clk ps cm = available_loop repr clk (1 < length ps) ps cm"

section \<open>The default resolver over the manager\<close>

definition channel_at :: "(pyval \<Rightarrow> string) \<Rightarrow> readings \<Rightarrow> ChannelManager \<Rightarrow> channel" where
  "channel_at repr clk cm =
     \<lparr>cooldown_enabled = 0 < cooldown_period cm, has_route_circuit = True,
      available = (\<lambda>ps. fst (get_available_providers repr clk ps cm))\<rparr>"

text \<open>The configuration a resolver reads, at the moment of the call: all that is no channel manager.\<close>

record resolver_config =
  config_env :: route_env
  configured_rules :: "nat \<Rightarrow> pyval list"
  configured_weights :: "nat \<Rightarrow> (string, int) dict"

definition resolver_env :: "resolver_config \<Rightarrow> resolver_call \<Rightarrow> channel option \<Rightarrow> route_env" where
  "resolver_env cfg call ch =
     (config_env cfg)\<lparr>channel_manager := ch, api_list := call_api_list call, models_list := call_models_list call\<rparr>"

text \<open>What \<open>get_right_order_providers\<close> hands to the channel manager, if it gets there.\<close>

definition channel_stage :: "route_env \<Rightarrow> request \<Rightarrow> pyval list \<Rightarrow> provider list option" where
  "channel_stage env req rules =
     (case body_filter env req (endpoint_filter env req (matching env rules (request_model req))) of
        Inl e \<Rightarrow> None
      | Inr ps \<Rightarrow>
          (case tokens_filter env req ps of Inl e \<Rightarrow> None | Inr ps \<Rightarrow> if ps = [] then None else Some ps))"

definition managed_resolver ::
  "resolver_config \<Rightarrow> readings \<Rightarrow> resolver_call \<Rightarrow> ChannelManager \<Rightarrow> (route_error + provider list) \<times> ChannelManager" where
  "managed_resolver cfg clk call cm =
     (let repr = repr_of (config_env cfg);
          env = resolver_env cfg call (Some (channel_at repr clk cm));
          rules = rules_for_key (Some (call_model_rules call)) (configured_rules cfg) (call_api_index call)
      in (default_resolver ((config_env cfg)\<lparr>channel_manager := Some (channel_at repr clk cm)\<rparr>)
            (configured_rules cfg) (configured_weights cfg) call,
          case channel_stage env (call_request call) rules of
            None \<Rightarrow> cm
          | Some ps \<Rightarrow> snd (get_available_providers repr clk ps cm)))"


section \<open>What the manager answers\<close>

text \<open>Asking for one route changes no answer of the same moment.\<close>

definition answers_alike :: "time \<Rightarrow> ProviderModelCircuitBreaker \<Rightarrow> ProviderModelCircuitBreaker \<Rightarrow> bool" where
  "answers_alike t b b' \<longleftrightarrow> (\<forall>p m. fst (is_open t p m b') = fst (is_open t p m b))"

lemma answers_alike_refl [simp]: "answers_alike t b b"
  by (simp add: answers_alike_def)

lemma answers_alike_trans: "answers_alike t b c \<Longrightarrow> answers_alike t c d \<Longrightarrow> answers_alike t b d"
  by (simp add: answers_alike_def)

lemma dropWhile_same: "dropWhile P (dropWhile P xs) = dropWhile P xs"
  by (induction xs) auto

lemma prune_route_twice: "prune_route w t (prune_route w t st) = prune_route w t st"
  by (simp add: prune_route_def Let_def dropWhile_same)

lemma is_open_alike: "answers_alike t b (snd (is_open t p m b))"
  by (auto simp: answers_alike_def is_open_def Let_def update_conv' delete_conv' prune_route_twice idle_def
      split: option.splits)

lemma circuit_is_open_simps [simp]:
  "fst (circuit_is_open repr t p m cm) = fst (is_open t p (circuit_model repr m) (route_circuit cm))"
  "excluded_models (snd (circuit_is_open repr t p m cm)) = excluded_models cm"
  "cooldown_period (snd (circuit_is_open repr t p m cm)) = cooldown_period cm"
  "answers_alike t (route_circuit cm) (route_circuit (snd (circuit_is_open repr t p m cm)))"
  using is_open_alike [of t "route_circuit cm" p "circuit_model repr m"]
  by (auto simp: circuit_is_open_def split_beta)

lemma legacy_frame [simp]:
  "route_circuit (snd (is_legacy_model_excluded repr now p m period cm)) = route_circuit cm"
  "cooldown_period (snd (is_legacy_model_excluded repr now p m period cm)) = cooldown_period cm"
  by (auto simp: is_legacy_model_excluded_def Let_def split: option.splits)

text \<open>The target of a provider is closed in the state \<open>b\<close> of the circuits.\<close>

definition target_closed ::
  "(pyval \<Rightarrow> string) \<Rightarrow> time \<Rightarrow> ProviderModelCircuitBreaker \<Rightarrow> provider \<Rightarrow> bool" where
  "target_closed repr t b p \<longleftrightarrow>
     (\<exists>m. target_model p = Inr m \<and> \<not> fst (is_open t (pname p) (circuit_model repr m) b))"

lemma target_closed_alike: "answers_alike t b b' \<Longrightarrow> target_closed repr t b' p = target_closed repr t b p"
  by (simp add: target_closed_def answers_alike_def)

text \<open>One provider of the list, and what is left of the manager for the rest.\<close>

lemma available_loop_ConsE:
  assumes "available_loop repr clk legacy (p # ps) cm = (Inr qs, cm')"
  obtains m excluded cm1 qs' where "target_model p = Inr m"
    "answers_alike (mono_clock clk) (route_circuit cm) (route_circuit cm1)"
    "available_loop repr clk legacy ps cm1 = (Inr qs', cm')"
    "qs = (if fst (is_open (mono_clock clk) (pname p) (circuit_model repr m) (route_circuit cm)) \<or> excluded
           then qs' else p # qs')"
    "excluded_models cm = [] \<or> \<not> legacy \<Longrightarrow> \<not> excluded \<and> excluded_models cm1 = excluded_models cm"
proof -
  obtain m where m: "target_model p = Inr m" using assms by (auto split: sum.splits)
  obtain period where period: "provider_preference p ''cooldown_period'' (PFloat (cooldown_period cm)) = Inr period"
    using assms m by (auto split: sum.splits)
  obtain opened cm0 where c: "circuit_is_open repr (mono_clock clk) (pname p) m cm = (opened, cm0)" by fastforce
  let ?e = "if legacy then is_legacy_model_excluded repr (wall clk) (pname p) m period cm0 else (Inr False, cm0)"
  obtain r cm1 where r: "?e = (r, cm1)" by fastforce
  have eq: "(case r of Inl e \<Rightarrow> (Inl e, cm1) | Inr excluded \<Rightarrow>
      (case available_loop repr clk legacy ps cm1 of (Inl e, cm) \<Rightarrow> (Inl e, cm)
       | (Inr qs, cm) \<Rightarrow> (Inr (if opened \<or> excluded then qs else p # qs), cm))) = (Inr qs, cm')"
    using assms unfolding available_loop.simps m period sum.case Let_def c prod.case r by simp
  then obtain excluded where e: "r = Inr excluded" by (cases r) auto
  obtain r' cm2 where "available_loop repr clk legacy ps cm1 = (r', cm2)" by fastforce
  with eq e obtain qs' where qs': "available_loop repr clk legacy ps cm1 = (Inr qs', cm')"
      "qs = (if opened \<or> excluded then qs' else p # qs')"
    by (cases r') auto
  have cs: "opened = fst (is_open (mono_clock clk) (pname p) (circuit_model repr m) (route_circuit cm))"
      "excluded_models cm0 = excluded_models cm" "cooldown_period cm0 = cooldown_period cm"
      "answers_alike (mono_clock clk) (route_circuit cm) (route_circuit cm0)"
    using circuit_is_open_simps [where repr = repr and t = "mono_clock clk" and p = "pname p" and m = m and cm = cm]
    unfolding c by simp_all
  have "route_circuit cm1 = route_circuit cm0"
    using r legacy_frame(1) [of repr "wall clk" "pname p" m period cm0] by (cases legacy) (simp_all del: legacy_frame)
  with cs(4) have "answers_alike (mono_clock clk) (route_circuit cm) (route_circuit cm1)" by simp
  moreover have "\<not> excluded \<and> excluded_models cm1 = excluded_models cm" if "excluded_models cm = [] \<or> \<not> legacy"
    using r e that cs(2) by (auto simp: is_legacy_model_excluded_def split: if_splits)
  ultimately show ?thesis using that m qs' cs(1) by blast
qed

lemma available_loop_sound:
  "available_loop repr clk legacy ps cm = (Inr qs, cm') \<Longrightarrow>
     set qs \<subseteq> set ps \<and> (\<forall>p \<in> set qs. target_closed repr (mono_clock clk) (route_circuit cm) p)"
proof (induction ps arbitrary: cm qs)
  case (Cons p ps)
  from Cons.prems show ?case
  proof (cases rule: available_loop_ConsE)
    case (1 m excluded cm1 qs')
    from Cons.IH [OF 1(3)] 1(1,4) target_closed_alike [OF 1(2), of repr] show ?thesis
      by (auto simp: target_closed_def)
  qed
qed simp

lemma available_loop_complete:
  "available_loop repr clk legacy ps cm = (Inr qs, cm') \<Longrightarrow> excluded_models cm = [] \<or> \<not> legacy \<Longrightarrow>
     qs = filter (target_closed repr (mono_clock clk) (route_circuit cm)) ps"
proof (induction ps arbitrary: cm qs)
  case (Cons p ps)
  from Cons.prems(1) show ?case
  proof (cases rule: available_loop_ConsE)
    case (1 m excluded cm1 qs')
    have e: "\<not> excluded" "excluded_models cm1 = [] \<or> \<not> legacy" using 1(5) Cons.prems(2) by auto
    have "qs' = filter (target_closed repr (mono_clock clk) (route_circuit cm)) ps"
      using Cons.IH [OF 1(3) e(2)] target_closed_alike [OF 1(2), of repr] by simp
    moreover have "target_closed repr (mono_clock clk) (route_circuit cm) p \<longleftrightarrow>
        \<not> fst (is_open (mono_clock clk) (pname p) (circuit_model repr m) (route_circuit cm))"
      using 1(1) by (simp add: target_closed_def)
    ultimately show ?thesis using 1(4) e(1) by simp
  qed
qed simp

text \<open>
  The manager takes out exactly the providers whose route is open, as long as no cool-down is running, or for a single
  provider, which a cool-down never takes out.
\<close>

lemma available_providers_exact:
  assumes "get_available_providers repr clk ps cm = (Inr qs, cm')" "excluded_models cm = [] \<or> length ps \<le> 1"
  shows "qs = filter (target_closed repr (mono_clock clk) (route_circuit cm)) ps"
  using assms available_loop_complete [of repr clk "1 < length ps" ps cm qs cm']
  by (auto simp: get_available_providers_def)

text \<open>The default resolver answers no provider whose route is open.\<close>

lemma managed_resolver_closed:
  assumes answer: "fst (managed_resolver cfg clk call cm) = Inr ps" and p: "p \<in> set ps"
    and sample: "\<forall>ps. set (sample_all (config_env cfg) ps) = set ps"
  shows "target_closed (repr_of (config_env cfg)) (mono_clock clk) (route_circuit cm) p"
proof -
  let ?repr = "repr_of (config_env cfg)"
  let ?env = "(config_env cfg)\<lparr>channel_manager := Some (channel_at ?repr clk cm), api_list := call_api_list call,
      models_list := call_models_list call\<rparr>"
  obtain rules weights where "get_right_order_providers ?env (call_request call) (call_algorithm call) rules weights = Inr ps"
    using answer by (simp add: managed_resolver_def default_resolver_def Let_def)
  then show ?thesis
  proof (cases rule: right_order_stages)
    case (1 ps1 ps2 ps3)
    have "set ps \<subseteq> set ps3" using weigh_subset [OF 1(5)] sample by (auto split: if_splits)
    moreover have "fst (get_available_providers ?repr clk ps2 cm) = Inr ps3"
      using 1(4) by (auto simp: channel_filter_def channel_at_def split: sum.splits if_splits)
    ultimately show ?thesis
      using p available_loop_sound [of ?repr clk "1 < length ps2" ps2 cm ps3]
      by (auto simp: get_available_providers_def prod_eq_iff)
  qed
qed

text \<open>The providers of an answer name the requested model as their target, whatever upstream calls it.\<close>

lemma target_of_views [simp]:
  "target_model (provider_view c d model req) = Inr (PStr req)"
  "target_model (local_view name req) = Inr (PStr req)"
  by (simp_all add: target_model_def provider_view_def local_view_def)

text \<open>
  So a route is found again only if upstream's name of the model is the requested one. Under another name the failure
  that opens the circuit, and the exclusion of the channel, take nothing out.
\<close>

lemma is_open_unseen: "map_of (states b) (route_key p m) = None \<Longrightarrow> is_open t p m b = (False, b)"
  by (simp add: is_open_def Let_def)

lemma record_failure_elsewhere:
  "route_key p' m' \<noteq> route_key p m \<Longrightarrow>
   map_of (states (snd (CircuitBreaker.record_failure t p m code b))) (route_key p' m') = map_of (states b) (route_key p' m')"
  by (auto simp: CircuitBreaker.record_failure_def Let_def update_conv' split: option.splits)

lemma renamed_model_stays_available:
  assumes "strip original \<noteq> strip req" "map_of (states (route_circuit cm)) (route_key name req) = None"
    and "p = provider_view c d model req" "pname p = name" "provider_preference p ''cooldown_period'' (PFloat (cooldown_period cm)) = Inr period"
  shows "fst (get_available_providers repr clk [p] (snd (record_model_failure repr t name (PStr original) code cm))) = Inr [p]"
proof -
  have key: "route_key name req \<noteq> route_key name original" using assms(1) by (simp add: route_key_def)
  have c: "circuit_model repr (PStr s) = s" for s by (simp add: circuit_model_def py_str_def)
  have "map_of (states (snd (CircuitBreaker.record_failure t name original code (route_circuit cm)))) (route_key name req) = None"
    using record_failure_elsewhere [OF key, of t code "route_circuit cm"] assms(2) by simp
  then show ?thesis
    using assms(3-5) by (simp add: get_available_providers_def record_model_failure_def circuit_is_open_def c is_open_unseen split_beta)
qed

end
