(* ===== verification/UpstreamPolicies.thy ===== *)
theory UpstreamPolicies
  imports RoutingRules
begin

text \<open>
  What a failed attempt means: \<open>uni_api/upstream/transport_errors.py\<close> (the classification of HTTPX errors) and
  \<open>uni_api/upstream/policies.py\<close> (the status of an error, whether the next provider is tried, how long a key
  cools down).

  An exception is the record of the attributes the policies read. The text of an error is a \<^typ>\<open>string\<close>; the
  one marker with characters outside its range is the predicate \<open>chinese_marker\<close>. The parsers of JSON and of
  Python literals, \<open>repr\<close>, and \<open>safe_get\<close> and \<open>get_engine\<close> of \<open>core.utils\<close> are arguments.
\<close>

section \<open>Transport errors\<close>

datatype httpx_error =
    ConnectTimeout
  | ConnectError
  | PoolTimeout
  | ReadTimeout
  | WriteTimeout
  | ReadError
  | WriteError
  | CloseError
  | ProxyError
  | UnsupportedProtocol
  | LocalProtocolError
  | RemoteProtocolError
  | OtherTransportError

record TransportErrorClassification =
  kind :: string
  owner :: string
  failed_phase :: string
  transport_status :: int
  transport_message :: string
  timeout_extension_key :: "string option"
  provider_penalty_eligible :: bool

definition local_overload :: "TransportErrorClassification \<Rightarrow> bool" where
  "local_overload c \<longleftrightarrow> owner c = ''ember_local_overload''"

text \<open>A missing stage is the empty text.\<close>

definition normalized_stage :: "string \<Rightarrow> string" where
  "normalized_stage s = map (\<lambda>c. if c = CHR ''-'' then CHR ''_'' else c) (lower (strip s))"

definition read_timeout_phase :: "string \<Rightarrow> bool option \<Rightarrow> string" where
  "read_timeout_phase failure_stage first_byte_observed =
     (case first_byte_observed of
        Some False \<Rightarrow> ''before_first_byte''
      | Some True \<Rightarrow> ''after_first_byte''
      | None \<Rightarrow>
          (let stage = normalized_stage failure_stage in
           if stage \<in> {''send_headers'', ''send_body'', ''upstream_headers'', ''wait_response_headers''}
           then ''before_response_headers''
           else if stage \<in> {''precommit'', ''preflight''} then ''before_first_byte''
           else if stage \<in> {''read_body'', ''response_body''} then ''response_body''
           else if stage \<in> {''postcommit'', ''post_commit''} then ''after_first_byte''
           else ''unknown''))"

definition classified ::
  "string \<Rightarrow> string \<Rightarrow> string \<Rightarrow> int \<Rightarrow> string \<Rightarrow> string option \<Rightarrow> TransportErrorClassification" where
  "classified k who p s m t =
     \<lparr>kind = k, owner = who, failed_phase = p, transport_status = s, transport_message = m,
      timeout_extension_key = t, provider_penalty_eligible = True\<rparr>"

definition upstream_transport :: string where
  "upstream_transport = ''upstream_transport''"

definition classify_httpx_transport_error ::
  "httpx_error \<Rightarrow> string \<Rightarrow> bool option \<Rightarrow> TransportErrorClassification" where
  "classify_httpx_transport_error e failure_stage first_byte_observed =
     (let up = upstream_transport; stage = normalized_stage failure_stage; stage_or = (\<lambda>s. if stage \<noteq> [] then stage else s) in
      case e of
        ConnectTimeout \<Rightarrow> classified ''connect_timeout'' up ''connect'' 504 ''Connection timed out'' (Some ''connect'')
      | ConnectError \<Rightarrow> classified ''connect_error'' up ''connect'' 503 ''Unable to connect to service'' None
      | PoolTimeout \<Rightarrow>
          (classified ''pool_timeout'' ''ember_local_overload'' ''pool_acquire'' 503
             ''Local upstream connection pool timed out'' (Some ''pool''))\<lparr>provider_penalty_eligible := False\<rparr>
      | ReadTimeout \<Rightarrow>
          classified ''read_timeout'' up (read_timeout_phase failure_stage first_byte_observed) 504
            ''Request timed out'' (Some ''read'')
      | WriteTimeout \<Rightarrow>
          classified ''write_timeout'' up (stage_or ''send_body'') 504 ''Request write timed out'' (Some ''write'')
      | ReadError \<Rightarrow> classified ''read_error'' up (stage_or ''read_body'') 502 ''Network read error'' None
      | WriteError \<Rightarrow> classified ''write_error'' up (stage_or ''send_body'') 502 ''Network write error'' None
      | CloseError \<Rightarrow> classified ''close_error'' up (stage_or ''close'') 502 ''Network close error'' None
      | ProxyError \<Rightarrow>
          classified ''proxy_error'' up (stage_or ''proxy_connect'') 502 ''Unable to connect to upstream proxy'' None
      | UnsupportedProtocol \<Rightarrow>
          classified ''unsupported_protocol'' ''ember_local_configuration'' ''configuration'' 500
            ''Unsupported upstream protocol'' None
      | LocalProtocolError \<Rightarrow>
          classified ''local_protocol_error'' up (stage_or ''protocol'') 502 ''Local protocol error'' None
      | RemoteProtocolError \<Rightarrow>
          classified ''remote_protocol_error'' up (stage_or ''protocol'') 502 ''Remote protocol error'' None
      | OtherTransportError \<Rightarrow>
          classified ''transport_error'' up (stage_or ''unknown'') 502 ''Upstream transport error'' None)"

section \<open>Exceptions\<close>

text \<open>
  \<open>exn_semantic\<close> and \<open>exn_http\<close> are set for a \<open>ResponsesSemanticError\<close> (its status and \<open>detail_json\<close>) and for an
  \<open>HTTPException\<close> (its status and \<open>str(detail)\<close>); \<open>exn_timeout\<close> is \<open>_timeout_seconds_text\<close> of the request's
  timeout extension.
\<close>

record exn =
  exn_class :: string
  exn_text :: string
  exn_value_error :: bool
  exn_transport :: "httpx_error option"
  exn_protocol_reason :: string
  exn_timeout :: "string \<Rightarrow> string option"
  exn_semantic :: "(int \<times> string) option"
  exn_http :: "(int \<times> string) option"
  exn_status_code :: "int option"
  exn_reason :: string
  exn_local_admission :: bool
  exn_retry_after :: int
  exn_upstream_semantic :: bool

record policy_env =
  json_loads :: "string \<Rightarrow> pyval option"
  literal_eval :: "string \<Rightarrow> pyval option"
  repr_text :: "pyval \<Rightarrow> string"
  safe_get :: "provider \<Rightarrow> string \<Rightarrow> string \<Rightarrow> pyval \<Rightarrow> pyval"
  get_engine :: "provider \<Rightarrow> string option \<Rightarrow> string \<Rightarrow> string option"
  chinese_marker :: "string \<Rightarrow> bool"

definition json_or_python_dict :: "policy_env \<Rightarrow> string \<Rightarrow> pyval option" where
  "json_or_python_dict env raw =
     (if \<not> (startswith raw ''{'' \<or> startswith raw ''['') then None
      else (case json_loads env raw of Some v \<Rightarrow> Some v | None \<Rightarrow> literal_eval env raw))"

text \<open>\<open>or\<close> of Python, \<open>value.get(key)\<close>, and the dictionary under a key, if it is one.\<close>

definition py_or :: "pyval \<Rightarrow> pyval \<Rightarrow> pyval" where
  "py_or a b = (if truthy a then a else b)"

definition dict_under :: "pyval option \<Rightarrow> string \<Rightarrow> (string, pyval) dict option" where
  "dict_under v k =
     (case v of
        Some (PDict d) \<Rightarrow> (case map_of d k of Some (PDict e) \<Rightarrow> Some e | _ \<Rightarrow> None)
      | _ \<Rightarrow> None)"

definition non_empty :: "string \<Rightarrow> string option" where
  "non_empty s = (if s = [] then None else Some s)"

definition details_parts :: "policy_env \<Rightarrow> string \<Rightarrow> string option \<times> string option \<times> string option \<times> string" where
  "details_parts env raw =
     (let parsed = json_or_python_dict env raw;
          (code, typ, message) =
            (case dict_under parsed ''error'' of
               None \<Rightarrow> (PNone, PNone, PNone)
             | Some err \<Rightarrow> (pget err ''code'' PNone, pget err ''type'' PNone, pget err ''message'' PNone));
          (code, typ, message) =
            (case dict_under parsed ''detail'' of
               None \<Rightarrow> (code, typ, message)
             | Some detail \<Rightarrow>
                 (py_or (pget detail ''code'' PNone) code, py_or (pget detail ''type'' PNone) typ,
                  py_or (pget detail ''message'' PNone) message))
      in (non_empty (lower (strip (py_str (repr_text env) code))),
          non_empty (lower (strip (py_str (repr_text env) typ))),
          non_empty (strip (py_str (repr_text env) message)), raw))"

text \<open>\<open>" ".join(part for part in parts if part)\<close>\<close>

definition join_parts :: "string option list \<Rightarrow> string" where
  "join_parts parts = join_on (CHR '' '') (filter (\<lambda>p. p \<noteq> []) (map (\<lambda>p. case p of None \<Rightarrow> [] | Some s \<Rightarrow> s) parts))"

definition any_in :: "string list \<Rightarrow> string \<Rightarrow> bool" where
  "any_in tokens text \<longleftrightarrow> list_ex (\<lambda>t. contains t text) tokens"

section \<open>The status of an error\<close>

definition transport_error_message :: "exn \<Rightarrow> TransportErrorClassification \<Rightarrow> string" where
  "transport_error_message e c =
     (if kind c = ''local_protocol_error'' then ''Local protocol error: '' @ exn_protocol_reason e
      else if kind c = ''remote_protocol_error'' then ''Remote protocol error: '' @ exn_protocol_reason e
      else
        (case timeout_extension_key c of
           None \<Rightarrow> transport_message c
         | Some k \<Rightarrow>
             (case exn_timeout e k of
                None \<Rightarrow> transport_message c
              | Some seconds \<Rightarrow> transport_message c @ '' after '' @ seconds @ '' seconds'')))"

definition normalize_exception :: "exn \<Rightarrow> int \<times> string" where
  "normalize_exception e =
     (let local_reason = strip (exn_reason e);
          bounded = (case exn_status_code e of Some s \<Rightarrow> 400 \<le> s \<and> s \<le> 599 | None \<Rightarrow> False) in
      case exn_semantic e of
        Some r \<Rightarrow> r
      | None \<Rightarrow>
          if exn_local_admission e \<and> local_reason \<noteq> [] \<and> bounded then (the (exn_status_code e), local_reason)
          else if local_reason \<noteq> [] \<and> bounded then (the (exn_status_code e), local_reason)
          else
            (case exn_transport e of
               Some t \<Rightarrow>
                 (let c = classify_httpx_transport_error t [] None in
                  (transport_status c, transport_error_message e c))
             | None \<Rightarrow>
                 (case exn_http e of
                    Some r \<Rightarrow> r
                  | None \<Rightarrow> (500, if exn_text e \<noteq> [] then exn_text e else ''Unknown error: '' @ exn_class e))))"

definition MODEL_PRICING_CODES :: "string list" where
  "MODEL_PRICING_CODES =
     [''model_not_priced'', ''model_price_not_configured'', ''model_pricing_not_configured'',
      ''model_price_unconfigured'', ''model_pricing_missing'']"

definition MODEL_PRICING_MARKERS :: "string list" where
  "MODEL_PRICING_MARKERS =
     [''has not been priced by the administrator'', ''has not been priced by administrator'',
      ''price has not been configured by the administrator'',
      ''pricing has not been configured by the administrator'']"

text \<open>\<open>str.casefold\<close>: the sharp s is the only character of the range that becomes two.\<close>

definition casefold :: "string \<Rightarrow> string" where
  "casefold s = concat (map (\<lambda>c. if codepoint c = 223 then ''ss'' else [to_lower c]) s)"

definition is_model_pricing_unconfigured_error :: "policy_env \<Rightarrow> int \<Rightarrow> string \<Rightarrow> bool" where
  "is_model_pricing_unconfigured_error env status details =
     (if status \<noteq> 400 then False
      else
        let (code, typ, message, raw) = details_parts env details;
            haystack = casefold (join_parts [message, Some raw])
        in (case code of Some c \<Rightarrow> c \<in> set MODEL_PRICING_CODES | None \<Rightarrow> False) \<or>
           any_in (map casefold MODEL_PRICING_MARKERS) haystack \<or> chinese_marker env haystack \<or>
           chinese_marker env (filter (\<lambda>c. \<not> is_space c) haystack))"

definition TOO_LARGE_MARKERS :: "string list" where
  "TOO_LARGE_MARKERS =
     [''string_above_max_length'', ''must be less than max_seq_len'',
      ''Please reduce the length of the messages or completion'',
      ''Request contains text fields that are too large.'',
      ''Please reduce the length of either one, or use the'', ''exceeds the maximum number of tokens allowed'']"

definition BAD_KEY_MARKERS :: "string list" where
  "BAD_KEY_MARKERS =
     [CHR 0x27 # ''reason'' @ [CHR 0x27] @ '': '' @ [CHR 0x27] @ ''API_KEY_INVALID'' @ [CHR 0x27],
      ''API key not valid'', ''API key expired'']"

definition remap_status_code :: "policy_env \<Rightarrow> int \<Rightarrow> string \<Rightarrow> int" where
  "remap_status_code env status message =
     (if any_in TOO_LARGE_MARKERS message then 413
      else if any_in BAD_KEY_MARKERS message then 401
      else if contains ''User location is not supported for the API use.'' message then 403
      else if contains ''<center><h1>400 Bad Request</h1></center>'' message then 502
      else if contains ''Provider API error: bad response status code 400'' message then 502
      else if is_model_pricing_unconfigured_error env status message then 502
      else if contains (''The response was filtered due to the prompt triggering Azure OpenAI'' @ [CHR 0x27] @
          ''s content management policy.'') message then 403
      else if contains ''<head><title>413 Request Entity Too Large</title></head>'' message then 429
      else status)"

section \<open>Retry\<close>

text \<open>
  \<open>urlparse(url).netloc\<close>: after a scheme, what stands between the two slashes and the path. None: the brackets
  of an IPv6 address do not match and \<open>ValueError\<close> is raised.
\<close>

definition is_scheme_char :: "char \<Rightarrow> bool" where
  "is_scheme_char c = (let n = codepoint c in
     is_digit c \<or> (65 \<le> n \<and> n \<le> 90) \<or> (97 \<le> n \<and> n \<le> 122) \<or> c = CHR ''+'' \<or> c = CHR ''-'' \<or> c = CHR ''.'')"

definition is_letter :: "char \<Rightarrow> bool" where
  "is_letter c = (let n = codepoint c in (65 \<le> n \<and> n \<le> 90) \<or> (97 \<le> n \<and> n \<le> 122))"

definition url_netloc :: "string \<Rightarrow> string option" where
  "url_netloc url =
     (let url = filter (\<lambda>c. codepoint c \<notin> {9, 10, 13}) (dropWhile (\<lambda>c. codepoint c \<le> 32) url);
          scheme = takeWhile (\<lambda>c. c \<noteq> CHR '':'') url; rest = dropWhile (\<lambda>c. c \<noteq> CHR '':'') url;
          rest = (if rest \<noteq> [] \<and> scheme \<noteq> [] \<and> is_letter (hd scheme) \<and> list_all is_scheme_char scheme
                  then tl rest else url)
      in if startswith rest ''//''
         then let n = takeWhile (\<lambda>c. c \<notin> {CHR ''/'', CHR ''?'', CHR ''#''}) (drop 2 rest) in
              if (CHR ''['' \<in> set n) \<noteq> (CHR '']'' \<in> set n) then None else Some n
         else Some [])"

definition engine_or_none :: "policy_env \<Rightarrow> provider \<Rightarrow> string option \<Rightarrow> string option \<Rightarrow> string option" where
  "engine_or_none env p ep model = get_engine env p ep (case model of None \<Rightarrow> [] | Some m \<Rightarrow> m)"

definition is_codex_chatgpt_model_unsupported_error ::
  "policy_env \<Rightarrow> int \<Rightarrow> string \<Rightarrow> provider \<Rightarrow> string option \<Rightarrow> string option \<Rightarrow> bool" where
  "is_codex_chatgpt_model_unsupported_error env status details p ep model =
     (if status \<noteq> 400 then False
      else if ep \<noteq> Some ''/v1/responses'' \<and> ep \<noteq> Some ''/v1/responses/compact'' then False
      else if engine_or_none env p ep model \<noteq> Some ''codex'' then False
      else
        let (_, _, message, raw) = details_parts env details in
        contains ''model is not supported when using codex with a chatgpt account''
          (lower (join_parts [message, Some raw])))"

definition is_missing_persisted_responses_item_error :: "policy_env \<Rightarrow> int \<Rightarrow> string \<Rightarrow> bool" where
  "is_missing_persisted_responses_item_error env status details =
     (if status \<noteq> 404 then False
      else
        let (_, typ, message, raw) = details_parts env details;
            haystack = lower (join_parts [typ, message, Some raw])
        in list_all (\<lambda>t. contains t haystack)
             [''invalid_request_error'', ''item with id'', ''not found'', ''items are not persisted when'', ''store''])"

text \<open>\<open>should_retry\<close>; None: the base URL cannot be parsed. What is false is parsed like nothing.\<close>

definition should_retry ::
  "policy_env \<Rightarrow> bool \<Rightarrow> int \<Rightarrow> provider \<Rightarrow> string \<Rightarrow> string option \<Rightarrow> string option \<Rightarrow> bool option" where
  "should_retry env auto_retry status p message ep model =
     (if \<not> auto_retry then Some False
      else if is_model_pricing_unconfigured_error env status message then Some True
      else if is_codex_chatgpt_model_unsupported_error env status message p ep model then Some True
      else if is_missing_persisted_responses_item_error env status message then Some False
      else if status \<noteq> 400 \<and> status \<noteq> 413 then Some True
      else
        (case pget p ''base_url'' (PStr []) of
           PStr url \<Rightarrow> map_option (\<lambda>n. n = ''models.inference.ai.azure.com'') (url_netloc url)
         | v \<Rightarrow> if truthy v then None else Some False))"

section \<open>Cool-down\<close>

definition RATE_LIMIT_MARKERS :: "string list" where
  "RATE_LIMIT_MARKERS =
     [''rate_limit_exceeded'', ''rate limit reached'', ''too many requests'', ''tokens per min'', ''requests per min'',
      ''tokens per day'', ''requests per day'', ''please try again in'']"

definition is_retryable_rate_limit_error :: "policy_env \<Rightarrow> int \<Rightarrow> string \<Rightarrow> bool" where
  "is_retryable_rate_limit_error env status details =
     (if status \<noteq> 429 then False
      else
        let (code, typ, message, raw) = details_parts env details in
        any_in RATE_LIMIT_MARKERS (lower (join_parts [code, typ, message, Some raw])))"

text \<open>
  The regular expression of \<open>retry_after_seconds\<close>: the phrase, white space, a decimal number, optional white space
  and a unit that ends at a word boundary; the number and the unit in lower case. Digits, white space and
  units share no character, so no shorter match of a part can make the rest match.
\<close>

definition RETRY_UNITS :: "string list" where
  "RETRY_UNITS =
     [''ms'', ''milliseconds'', ''millisecond'', ''s'', ''sec'', ''secs'', ''seconds'', ''second'', ''m'', ''min'',
      ''mins'', ''minutes'', ''minute'']"

definition match_unit :: "string \<Rightarrow> string option" where
  "match_unit s =
     find (\<lambda>u. startswith (lower s) u \<and> (case drop (length u) s of [] \<Rightarrow> True | c # _ \<Rightarrow> \<not> is_word c)) RETRY_UNITS"

definition match_number :: "string \<Rightarrow> (real \<times> string) option" where
  "match_number s =
     (let digits = takeWhile is_digit s; rest = dropWhile is_digit s;
          frac = (case rest of c # r \<Rightarrow> if c = CHR ''.'' then takeWhile is_digit r else [] | [] \<Rightarrow> []);
          rest = (if frac \<noteq> [] then drop (1 + length frac) rest else rest)
      in if digits = [] then None
         else Some (real (nat_of_digits digits) + real (nat_of_digits frac) / 10 ^ length frac, rest))"

definition match_retry_here :: "string \<Rightarrow> (real \<times> string) option" where
  "match_retry_here s =
     (if \<not> startswith (lower s) ''try again in'' then None
      else
        let s = drop 12 s in
        if s = [] \<or> \<not> is_space (hd s) then None
        else
          (case match_number (dropWhile is_space s) of
             None \<Rightarrow> None
           | Some (value, rest) \<Rightarrow> map_option (\<lambda>u. (value, u)) (match_unit (dropWhile is_space rest))))"

fun search_retry :: "string \<Rightarrow> (real \<times> string) option" where
  "search_retry [] = None"
| "search_retry (c # s) = (case match_retry_here (c # s) of Some r \<Rightarrow> Some r | None \<Rightarrow> search_retry s)"

definition retry_after_seconds :: "policy_env \<Rightarrow> string \<Rightarrow> int" where
  "retry_after_seconds env details =
     (let (_, _, message, raw) = details_parts env details in
      case search_retry (join_parts [message, Some raw]) of
        None \<Rightarrow> 0
      | Some (value, unit) \<Rightarrow>
          (let seconds = (if startswith unit ''ms'' then value / 1000
                          else if startswith unit ''m'' \<and> \<not> startswith unit ''ms'' then value * 60
                          else value)
           in max 1 \<lceil>seconds\<rceil>))"

text \<open>\<open>int(value)\<close>; None: \<open>TypeError\<close> or \<open>ValueError\<close>.\<close>

definition py_int_of :: "pyval \<Rightarrow> int option" where
  "py_int_of v =
     (case v of PInt i \<Rightarrow> Some i | PBool b \<Rightarrow> Some (of_bool b) | PFloat r \<Rightarrow> Some (trunc r) | PStr s \<Rightarrow> py_int s | _ \<Rightarrow> None)"

definition HALF_HOUR :: int where "HALF_HOUR = 30 * 60"

definition rate_limit_cooling_time :: "policy_env \<Rightarrow> provider \<Rightarrow> int \<Rightarrow> string \<Rightarrow> int" where
  "rate_limit_cooling_time env p status details =
     (if \<not> is_retryable_rate_limit_error env status details then 0
      else
        let configured = safe_get env p ''preferences'' ''api_key_rate_limit_cooldown_period'' (PInt HALF_HOUR);
            configured = (case py_int_of configured of Some i \<Rightarrow> i | None \<Rightarrow> HALF_HOUR);
            after = retry_after_seconds env details
        in if 0 < configured then max configured after else if 0 < after then after else HALF_HOUR)"

definition QUOTA_MARKERS :: "string list" where
  "QUOTA_MARKERS =
     [''insufficient_quota'', ''billing_hard_limit_reached'', ''quota exceeded'', ''exceeded your current quota'',
      ''usage limit'', ''out of credits'', ''payment required'']"

definition is_quota_exhausted_error :: "int \<Rightarrow> string \<Rightarrow> bool" where
  "is_quota_exhausted_error status details = (status \<noteq> 401 \<and> any_in QUOTA_MARKERS (lower details))"

definition PERMANENT_CODES :: "string list" where
  "PERMANENT_CODES =
     [''account_deactivated'', ''account_disabled'', ''account_suspended'', ''deactivated_workspace'',
      ''user_deactivated'', ''user_suspended'', ''organization_deactivated'', ''organization_suspended'']"

definition PERMANENT_MARKERS :: "string list" where
  "PERMANENT_MARKERS =
     [''account_deactivated'', ''account_disabled'', ''account_suspended'', ''deactivated_workspace'',
      ''organization_deactivated'', ''user_deactivated'', ''has been deactivated'', ''has been suspended'']"

text \<open>None: the message is no text and \<open>lower\<close> is an \<open>AttributeError\<close>.\<close>

definition is_codex_permanent_auth_error :: "policy_env \<Rightarrow> int \<Rightarrow> string \<Rightarrow> bool option" where
  "is_codex_permanent_auth_error env status raw =
     (if status \<notin> {401, 402, 403} then Some False
      else
        let parsed = json_or_python_dict env raw;
            (code, message) =
              (case dict_under parsed ''error'' of
                 None \<Rightarrow> (PNone, PNone)
               | Some err \<Rightarrow> (pget err ''code'' PNone, pget err ''message'' PNone));
            (code, message) =
              (case dict_under parsed ''detail'' of
                 None \<Rightarrow> (code, message)
               | Some detail \<Rightarrow>
                   if code = PNone then (pget detail ''code'' PNone, py_or (pget detail ''message'' PNone) message)
                   else (code, message))
        in if truthy code \<and> strip (py_str (repr_text env) code) \<in> set PERMANENT_CODES then Some True
           else
             (case (if truthy message then message else PStr raw) of
                PStr s \<Rightarrow> Some (any_in PERMANENT_MARKERS (lower s))
              | _ \<Rightarrow> None))"

definition should_use_quota_cooldown ::
  "policy_env \<Rightarrow> provider \<Rightarrow> int \<Rightarrow> string \<Rightarrow> string option \<Rightarrow> string option \<Rightarrow> bool option" where
  "should_use_quota_cooldown env p status message ep model =
     (if is_codex_chatgpt_model_unsupported_error env status message p ep model then Some True
      else if is_quota_exhausted_error status message then Some True
      else if engine_or_none env p ep model \<noteq> Some ''codex'' \<or> status \<notin> {401, 402, 403} then Some False
      else if contains ''Codex token refresh'' message \<or> contains ''refresh_token_reused'' message then Some True
      else is_codex_permanent_auth_error env status message)"

section \<open>What upstream asks for\<close>

lemma cooling_time_positive:
  "0 < rate_limit_cooling_time env p s m \<longleftrightarrow> is_retryable_rate_limit_error env s m"
  by (auto simp: rate_limit_cooling_time_def HALF_HOUR_def Let_def max_def)

text \<open>The seconds of a unit, as upstream means them; the long names of the millisecond are left out (see below).\<close>

definition UNIT_SECONDS :: "(string \<times> real) list" where
  "UNIT_SECONDS =
     [(''ms'', 1 / 1000), (''s'', 1), (''sec'', 1), (''secs'', 1), (''second'', 1), (''seconds'', 1),
      (''m'', 60), (''min'', 60), (''mins'', 60), (''minute'', 60), (''minutes'', 60)]"

lemma lower_append [simp]: "lower (s @ t) = lower s @ lower t"
  by (simp add: lower_def)

lemma length_lower [simp]: "length (lower s) = length s"
  by (simp add: lower_def)

lemma word_of_lower: "is_word (to_lower c) \<Longrightarrow> is_word c"
proof -
  assume w: "is_word (to_lower c)"
  show ?thesis
  proof (cases "(65 \<le> codepoint c \<and> codepoint c \<le> 90) \<or> (192 \<le> codepoint c \<and> codepoint c \<le> 222 \<and> codepoint c \<noteq> 215)")
    case True
    then show ?thesis unfolding is_word_def Let_def by presburger
  next
    case False
    then have "to_lower c = c" by (auto simp: to_lower_def Let_def)
    with w show ?thesis by simp
  qed
qed

lemma units_words: "\<forall>u \<in> set RETRY_UNITS. lower u = u \<and> u \<noteq> [] \<and> list_all is_word u"
  by code_simp

text \<open>The pattern of a unit matches exactly a whole word.\<close>

lemma match_unit_exact:
  assumes u: "u \<in> set RETRY_UNITS" and post: "post = [] \<or> \<not> is_word (hd post)"
  shows "match_unit (u @ post) = Some u"
proof -
  have only: "v = u" if v: "v \<in> set RETRY_UNITS" "startswith (lower (u @ post)) v"
    "case drop (length v) (u @ post) of [] \<Rightarrow> True | c # _ \<Rightarrow> \<not> is_word c" for v
  proof -
    have lu: "lower u = u" "list_all is_word u" "list_all is_word v" using units_words u v(1) by auto
    obtain r where r: "u @ lower post = v @ r" using v(2) lu(1) by (auto simp: startswith_iff)
    then consider w where "u = v @ w" | w where "v = u @ w" "lower post = w @ r"
      by (auto simp: append_eq_append_conv2)
    then show ?thesis
    proof cases
      case 1
      with v(3) lu(2) show ?thesis by (cases w) auto
    next
      case 2
      with post lu(3) show ?thesis by (cases w; cases post) (auto simp: lower_def dest: word_of_lower)
    qed
  qed
  have self: "startswith (lower (u @ post)) u" "case drop (length u) (u @ post) of [] \<Rightarrow> True | c # _ \<Rightarrow> \<not> is_word c"
    using units_words u post by (auto split: list.split)
  define P where "P v \<longleftrightarrow> startswith (lower (u @ post)) v \<and>
    (case drop (length v) (u @ post) of [] \<Rightarrow> True | c # _ \<Rightarrow> \<not> is_word c)" for v
  have "P u" unfolding P_def using self by (rule conjI)
  then obtain v where v: "find P RETRY_UNITS = Some v" using u by (cases "find P RETRY_UNITS") (auto simp: find_None_iff)
  then have "v \<in> set RETRY_UNITS" "P v" unfolding find_Some_iff by (metis nth_mem)+
  then have "v = u" unfolding P_def by (elim conjE) (rule only)
  with v have "find P RETRY_UNITS = Some u" by simp
  then show ?thesis unfolding match_unit_def P_def [abs_def] .
qed

lemma takeWhile_digits:
  "\<forall>c \<in> set ds. is_digit c \<Longrightarrow> r = [] \<or> \<not> is_digit (hd r) \<Longrightarrow> takeWhile is_digit (ds @ r) = ds \<and> dropWhile is_digit (ds @ r) = r"
  by (cases r) auto

lemma match_number_exact:
  assumes "r = [] \<or> \<not> is_digit (hd r) \<and> hd r \<noteq> CHR ''.''"
  shows "match_number (digits_of_nat n @ r) = Some (real n, r)"
proof -
  have "takeWhile is_digit (digits_of_nat n @ r) = digits_of_nat n \<and> dropWhile is_digit (digits_of_nat n @ r) = r"
    by (rule takeWhile_digits) (use assms in \<open>auto intro: digits_of_nat_digits\<close>)
  then show ?thesis
    using assms nat_of_digits_of_nat [of n] digits_of_nat_nonempty [of n]
    by (cases r) (simp_all only: match_number_def Let_def, simp_all, simp_all add: nat_of_digits_def)
qed

definition PHRASE :: string where "PHRASE = ''try again in''"

lemma is_space_not_digit: "is_space c \<Longrightarrow> \<not> is_digit c \<and> c \<noteq> CHR ''.''"
  by (auto simp: is_space_def is_digit_def codepoint_def Let_def)

lemma match_retry_exact:
  assumes "u \<in> set RETRY_UNITS" "post = [] \<or> \<not> is_word (hd post)" "list_all is_space gap"
    and "list_all is_space ws" "ws \<noteq> []"
  shows "match_retry_here (PHRASE @ ws @ digits_of_nat n @ gap @ u @ post) = Some (real n, u)"
proof -
  have lower: "lower PHRASE = PHRASE" by code_simp
  obtain c w where u: "u = c # w" using units_words assms(1) by (cases u) auto
  have start: "\<forall>u \<in> set RETRY_UNITS. \<not> is_digit (hd u) \<and> hd u \<noteq> CHR ''.'' \<and> \<not> is_space (hd u)" by code_simp
  obtain d ds where d: "digits_of_nat n = d # ds" using digits_of_nat_nonempty [of n] by (cases "digits_of_nat n") auto
  have "is_digit d" using digits_of_nat_digits [of d n] d by simp
  then have "\<not> is_space d" by (auto simp: is_digit_def is_space_def Let_def)
  then have ws: "dropWhile is_space (ws @ digits_of_nat n @ gap @ u @ post) = digits_of_nat n @ gap @ u @ post"
    using assms(4) by (induction ws) (simp_all add: d)
  have "is_space (hd (ws @ digits_of_nat n @ gap @ u @ post))" using assms(4, 5) by (cases ws) simp_all
  moreover have "match_number (digits_of_nat n @ gap @ u @ post) = Some (real n, gap @ u @ post)"
    by (rule match_number_exact) (cases gap; use start assms(1, 3) u in \<open>auto simp: is_space_not_digit\<close>)
  moreover have "dropWhile is_space (gap @ u @ post) = u @ post"
    using start assms(1, 3) u by (induction gap) auto
  moreover have "drop 12 (PHRASE @ ws @ digits_of_nat n @ gap @ u @ post) = ws @ digits_of_nat n @ gap @ u @ post"
    by (simp add: PHRASE_def)
  ultimately show ?thesis
    using match_unit_exact [OF assms(1, 2)] lower ws assms(5)
    by (simp add: match_retry_here_def PHRASE_def [symmetric])
qed

lemma search_retry_here: "match_retry_here s = Some r \<Longrightarrow> search_retry s = Some r"
  by (cases s) (simp_all add: match_retry_here_def lower_def)

lemma search_retry_prefix:
  "\<forall>i < length pre. \<not> startswith (lower (drop i pre @ rest)) PHRASE \<Longrightarrow> search_retry (pre @ rest) = search_retry rest"
proof (induction pre)
  case (Cons c pre)
  then have "\<not> startswith (lower ((c # pre) @ rest)) PHRASE" by fastforce
  then have "match_retry_here (c # pre @ rest) = None" by (simp add: match_retry_here_def PHRASE_def)
  moreover have "\<forall>i < length pre. \<not> startswith (lower (drop i pre @ rest)) PHRASE"
    using Cons.prems by (metis Suc_less_eq drop_Suc_Cons length_Cons)
  ultimately show ?case using Cons.IH by simp
qed simp


text \<open>No occurrence of the phrase begins before the one that is read.\<close>

lemma long_prefix: "a @ b = p @ r \<Longrightarrow> length p \<le> length a \<Longrightarrow> \<exists>q. a = p @ q"
  by (auto simp: append_eq_append_conv2)

lemma no_earlier_phrase:
  assumes "\<not> contains PHRASE (lower (pre @ ''try again i''))" "i < length pre"
  shows "\<not> startswith (lower (drop i pre @ PHRASE @ rest)) PHRASE"
proof
  assume "startswith (lower (drop i pre @ PHRASE @ rest)) PHRASE"
  then obtain r where r: "lower (drop i pre @ PHRASE @ rest) = PHRASE @ r" by (auto simp: startswith_iff)
  let ?t = "drop i pre @ ''try again i''"
  have "lower ?t @ lower (''n'' @ rest) = lower (drop i pre @ PHRASE @ rest)"
    by (simp add: PHRASE_def) (simp add: lower_def)
  also note r
  finally have t: "lower ?t @ lower (''n'' @ rest) = PHRASE @ r" .
  have "length PHRASE \<le> length (lower ?t)" using assms(2) by (simp add: PHRASE_def)
  from long_prefix [OF t this] obtain q where "lower ?t = PHRASE @ q" ..
  moreover have "lower (pre @ ''try again i'') = lower (take i pre @ ?t)"
    by (simp only: append_assoc [symmetric] append_take_drop_id)
  then have "lower (pre @ ''try again i'') = lower (take i pre) @ lower ?t" unfolding lower_append [of "take i pre"] .
  ultimately have "lower (pre @ ''try again i'') = lower (take i pre) @ PHRASE @ q" by (simp only: append_assoc)
  with assms(1) show False by (auto simp: contains_iff)
qed

lemma search_retry_exact:
  assumes "\<not> contains PHRASE (lower (pre @ ''try again i''))" "u \<in> set RETRY_UNITS" "post = [] \<or> \<not> is_word (hd post)"
    and "list_all is_space gap" "list_all is_space ws" "ws \<noteq> []"
  shows "search_retry (pre @ PHRASE @ ws @ digits_of_nat n @ gap @ u @ post) = Some (real n, u)"
proof -
  let ?rest = "PHRASE @ ws @ digits_of_nat n @ gap @ u @ post"
  have "search_retry (pre @ ?rest) = search_retry ?rest"
    by (rule search_retry_prefix, intro allI impI) (rule no_earlier_phrase [OF assms(1)])
  also have "\<dots> = Some (real n, u)" by (rule search_retry_here [OF match_retry_exact [OF assms(2-6)]])
  finally show ?thesis .
qed

lemma unit_seconds:
  assumes "(u, k) \<in> set UNIT_SECONDS"
  shows "u \<in> set RETRY_UNITS"
    "(if startswith u ''ms'' then x / 1000 else if startswith u ''m'' \<and> \<not> startswith u ''ms'' then x * 60 else x) = x * k"
  using assms by (auto simp: UNIT_SECONDS_def RETRY_UNITS_def)

lemma plain_details:
  assumes "\<not> startswith raw ''{''" "\<not> startswith raw ''[''"
  shows "details_parts env raw = (Some ''none'', Some ''none'', Some ''None'', raw)"
proof -
  have "strip ''None'' = ''None''" "lower ''None'' = ''none''" by code_simp+
  then show ?thesis
    using assms by (simp add: details_parts_def json_or_python_dict_def dict_under_def py_str_def non_empty_def)
qed

text \<open>
  The text the time is looked for in: the message of the error, where the details are JSON or a Python literal with
  an \<open>error\<close> or a \<open>detail\<close> object, and then the details themselves.
\<close>

definition searched_text :: "policy_env \<Rightarrow> string \<Rightarrow> string" where
  "searched_text env details = (case details_parts env details of (_, _, message, raw) \<Rightarrow> join_parts [message, Some raw])"

lemma details_raw: "\<exists>cd ty message. details_parts env raw = (cd, ty, message, raw)"
  by (simp add: details_parts_def split_beta Let_def)

lemma join_on_ends: "\<exists>ys. join_on c (xs @ [t]) = ys @ t"
proof (induction xs)
  case (Cons x xs)
  then obtain ys where "join_on c (xs @ [t]) = ys @ t" ..
  then show ?case by (cases "xs @ [t]") auto
qed simp

lemma join_ends: "t \<noteq> [] \<Longrightarrow> \<exists>ys. join_parts (ps @ [Some t]) = ys @ t"
  by (simp add: join_parts_def join_on_ends)

lemma marker_retryable:
  assumes "m \<in> set RATE_LIMIT_MARKERS" "contains m (lower details)"
  shows "is_retryable_rate_limit_error env 429 details"
proof -
  obtain cd ty message where parts: "details_parts env details = (cd, ty, message, details)"
    using details_raw by blast
  have "details \<noteq> []" using assms by (auto simp: RATE_LIMIT_MARKERS_def contains_iff lower_def)
  then obtain ys where "join_parts ([cd, ty, message] @ [Some details]) = ys @ details" using join_ends by blast
  then have join: "join_parts [cd, ty, message, Some details] = ys @ details" by simp
  obtain a b where "lower details = a @ m @ b" using assms(2) by (auto simp: contains_iff)
  then have "lower (join_parts [cd, ty, message, Some details]) = (lower ys @ a) @ m @ b" by (simp add: join)
  then have "contains m (lower (join_parts [cd, ty, message, Some details]))" unfolding contains_iff by blast
  then show ?thesis
    using assms(1) by (auto simp: is_retryable_rate_limit_error_def parts any_in_def list_ex_iff)
qed

text \<open>
  C39. A key that upstream rate limits (status 429 and one of the eight markers in the error's text), with a time to wait
  in that text, cools down for the longer of the configured period and that time, rounded up to seconds; where no
  period is configured as positive, for that time; at least a second. The error may be plain text or a JSON body whose
  message names the time. The time is the first ``try again in'' of the text, followed by white space, a whole number
  and a unit: milliseconds as ms, seconds or minutes under any of their names.
\<close>
theorem rate_limited_key_cools_as_told:
  assumes "searched_text env details = pre @ ''try again in'' @ ws @ digits_of_nat n @ gap @ u @ post"
    and "\<not> contains ''try again in'' (lower (pre @ ''try again i''))"
    and "ws \<noteq> []" "list_all is_space ws" "list_all is_space gap"
    and "(u, k) \<in> set UNIT_SECONDS" "post = [] \<or> \<not> is_word (hd post)"
    and "m \<in> {''rate_limit_exceeded'', ''rate limit reached'', ''too many requests'', ''tokens per min'',
       ''requests per min'', ''tokens per day'', ''requests per day'', ''please try again in''}"
    and "contains m (lower details)"
    and "c = (case py_int_of (safe_get env p ''preferences'' ''api_key_rate_limit_cooldown_period'' (PInt 1800)) of
       Some i \<Rightarrow> i | None \<Rightarrow> 1800)"
  shows "rate_limit_cooling_time env p 429 details = max (max 1 c) \<lceil>real n * k\<rceil>"
proof -
  have retryable: "is_retryable_rate_limit_error env 429 details"
    using assms(8, 9) by (intro marker_retryable) (auto simp: RATE_LIMIT_MARKERS_def)
  obtain cd ty message where parts: "details_parts env details = (cd, ty, message, details)"
    using details_raw by blast
  have "search_retry (join_parts [message, Some details]) = Some (real n, u)"
    using search_retry_exact [OF _ unit_seconds(1) [OF assms(6)] assms(7, 5, 4, 3), of pre n] assms(1, 2)
    by (simp add: searched_text_def parts PHRASE_def)
  then have after: "retry_after_seconds env details = max 1 \<lceil>real n * k\<rceil>"
    using unit_seconds(2) [OF assms(6), of "real n"]
    by (simp only: retry_after_seconds_def parts Let_def prod.case option.case)
  obtain z where z: "\<lceil>real n * k\<rceil> = z" by blast
  have h: "HALF_HOUR = 1800" by (simp add: HALF_HOUR_def)
  show ?thesis
    using retryable after unfolding z rate_limit_cooling_time_def h Let_def assms(10) [symmetric]
    by (simp add: max_def)
qed

text \<open>Two answers of one provider: a line of text, and a JSON body with an error object.\<close>

definition demo_policies :: policy_env where
  "demo_policies =
     \<lparr>json_loads = (\<lambda>_. None), literal_eval = (\<lambda>_. None), repr_text = (\<lambda>_. []),
      safe_get = (\<lambda>_ _ _ _. PInt 0), get_engine = (\<lambda>_ _ _. None), chinese_marker = (\<lambda>_. False)\<rparr>"

definition demo_json :: string where
  "demo_json = ''{rate_limit_exceeded}''"

definition demo_json_policies :: policy_env where
  "demo_json_policies = demo_policies\<lparr>json_loads := (\<lambda>_. Some (PDict [(''error'',
     PDict [(''message'', PStr ''Try later: try again in  2 min'')])]))\<rparr>"

lemma demo_safe_get: "safe_get demo_policies p a b d = PInt 0" "safe_get demo_json_policies p a b d = PInt 0"
  by (simp_all add: demo_policies_def demo_json_policies_def)

lemma demo_searched:
  "searched_text demo_policies ''Rate limit. Please try again in 20s.'' = ''None Rate limit. Please try again in 20s.''"
  "searched_text demo_json_policies demo_json = ''Try later: try again in  2 min {rate_limit_exceeded}''"
  unfolding searched_text_def by (simp_all add: plain_details join_parts_def) code_simp+

theorem rate_limited_key_cools_as_told_witness:
  "rate_limit_cooling_time demo_policies [] 429 ''Rate limit. Please try again in 20s.'' = 20 \<and>
   rate_limit_cooling_time demo_json_policies [] 429 demo_json = 120"
proof
  have n: "digits_of_nat 20 = ''20''" "digits_of_nat 2 = ''2''" by code_simp+
  have no: "\<not> contains ''try again in'' (lower (''None Rate limit. Please '' @ ''try again i''))"
    "\<not> contains ''try again in'' (lower (''Try later: '' @ ''try again i''))" by code_simp+
  have m: "contains ''please try again in'' (lower ''Rate limit. Please try again in 20s.'')"
    "contains ''rate_limit_exceeded'' (lower demo_json)" by code_simp+
  have sp: "is_space (CHR '' '')" by code_simp
  have "rate_limit_cooling_time demo_policies [] 429 ''Rate limit. Please try again in 20s.'' = max (max 1 0) \<lceil>real 20 * 1\<rceil>"
    by (rule rate_limited_key_cools_as_told [where pre = "''None Rate limit. Please ''" and n = 20 and ws = "'' ''" and
        gap = "[]" and u = "''s''" and post = "''.''", OF _ no(1) _ _ _ _ _ _ m(1)])
      (simp_all add: demo_searched demo_safe_get n sp UNIT_SECONDS_def is_word_def codepoint_def py_int_of_def)
  then show "rate_limit_cooling_time demo_policies [] 429 ''Rate limit. Please try again in 20s.'' = 20" by simp
  have "rate_limit_cooling_time demo_json_policies [] 429 demo_json = max (max 1 0) \<lceil>real 2 * 60\<rceil>"
    by (rule rate_limited_key_cools_as_told [where pre = "''Try later: ''" and n = 2 and ws = "''  ''" and
        gap = "'' ''" and u = "''min''" and post = "'' {rate_limit_exceeded}''", OF _ no(2) _ _ _ _ _ _ m(2)])
      (simp_all add: demo_searched demo_safe_get n sp UNIT_SECONDS_def is_word_def codepoint_def py_int_of_def)
  then show "rate_limit_cooling_time demo_json_policies [] 429 demo_json = 120" by simp
qed

text \<open>
  The long names of the millisecond begin with an m and not with ms, and are counted as minutes: half a second
  becomes more than eight hours.
\<close>
lemma milliseconds_cool_for_hours:
  "rate_limit_cooling_time demo_policies [] 429 ''Please try again in 500 milliseconds.'' = 30000"
proof -
  have n: "digits_of_nat 500 = ''500''" by code_simp
  have no: "\<not> contains PHRASE (lower (''None Please '' @ ''try again i''))" by code_simp
  have u: "''milliseconds'' \<in> set RETRY_UNITS" by (simp add: RETRY_UNITS_def)
  have s: "search_retry (join_parts [Some ''None'', Some ''Please try again in 500 milliseconds.'']) = Some (500, ''milliseconds'')"
    using search_retry_exact [OF no u, of "''.''" "'' ''" "'' ''" 500]
    by (simp add: is_space_def join_parts_def PHRASE_def n is_word_def codepoint_def)
  have p: "details_parts demo_policies ''Please try again in 500 milliseconds.''
      = (Some ''none'', Some ''none'', Some ''None'', ''Please try again in 500 milliseconds.'')"
    by (rule plain_details) simp_all
  have "is_retryable_rate_limit_error demo_policies 429 ''Please try again in 500 milliseconds.''"
    unfolding is_retryable_rate_limit_error_def p by code_simp
  then show ?thesis
    using s p by (simp add: rate_limit_cooling_time_def retry_after_seconds_def demo_policies_def py_int_of_def)
qed

end
