(* ===== verification/UpstreamRunner.thy ===== *)
theory UpstreamRunner
  imports ChannelManager UpstreamPolicies
begin

text \<open>
  \<open>upstream.py\<close>: what a failed attempt does to the keys, the channels and the plan, and \<open>UpstreamRunner\<close>, which
  tries the providers of a plan until one answers, over \<open>RoutingPlan\<close>, \<open>KeyPool\<close>, \<open>ChannelManager\<close> and
  \<open>UpstreamPolicies\<close>.

  The state outside the plan is a \<open>world\<close> (the key pools, the channel manager, the two clocks); it is extensible, so
  that callbacks have state of their own. The callbacks of \<open>run\<close> are functions on the world and on the attempt: they
  stand for everything that happens while the runner awaits, other requests included. They do not change the plan, as
  no caller's do; a callback that is absent and only has effects is the one that does nothing. The clocks do not move
  while the runner itself computes. An exception that escapes is a \<open>run_error\<close>. Of the log of attempts the entries
  and their bound are kept; the fields that are written into a pending entry only to be shown later (the outcome of
  the retry that follows) are left out.
\<close>

section \<open>State\<close>

record world =
  api_pools :: "string \<Rightarrow> ProviderKeyPool"
  manager :: "ChannelManager option"
  clocks :: readings

datatype run_error = Cancelled | PolicyRaised | PlanRaised plan_error | CallbackRaised exn

datatype raised = Cancellation | Raised exn

text \<open>
  A response: its status, the headers it was given after it was built (None: it has no headers), its content.
\<close>

record response =
  resp_status :: "int option"
  resp_headers :: "(string, string) dict option"
  resp_content :: pyval

text \<open>
  \<open>UpstreamAttemptContext\<close>, with the entries of its \<open>state\<close> and the facts of its diagnostics that decide something:
  the status the wire showed, the stage that failed, the reason of a protocol error, and for a streamed answer its
  phase and the number of chunks seen.
\<close>

record UpstreamAttemptContext =
  attempt_of :: ProviderAttempt
  provider_api_key_raw :: "string option"
  wire_status :: "int option"
  failed_stage :: string
  protocol_error_reason :: string
  stream_facts :: "(string \<times> int) option"
  transport_facts :: "TransportErrorClassification option"
  status_origin :: "string option"
  local_admission_rejected :: bool
  track_channel_stats :: bool
  circuit_opened :: bool
  circuit_blocks_retry :: bool

definition new_attempt_context :: "ProviderAttempt \<Rightarrow> UpstreamAttemptContext" where
  "new_attempt_context a =
     \<lparr>attempt_of = a, provider_api_key_raw = None, wire_status = None, failed_stage = [], protocol_error_reason = [],
      stream_facts = None, transport_facts = None, status_origin = None, local_admission_rejected = False,
      track_channel_stats = True, circuit_opened = False, circuit_blocks_retry = False\<rparr>"

record UpstreamAttemptResult =
  result_response :: "response option"
  result_retry :: bool
  finalize :: bool
  local_admission_reason :: "string option"
  local_admission_retry_after :: "int option"
  result_status_origin :: "string option"

definition plain_result :: UpstreamAttemptResult where
  "plain_result =
     \<lparr>result_response = None, result_retry = False, finalize = False, local_admission_reason = None,
      local_admission_retry_after = None, result_status_origin = None\<rparr>"

datatype executed = Response "response option" | Result UpstreamAttemptResult

text \<open>
  What the runner is given: the policies' libraries, the resolver of the plan (it reads and prunes the channel manager),
  the endpoint, whether a first byte was observed (None: there is no observability context), and \<open>float(text) > 0\<close>.
\<close>

record 'w runner_env =
  policies :: policy_env
  resolve :: "resolver_call \<Rightarrow> 'w \<Rightarrow> (route_error + provider list) \<times> 'w"
  runner_endpoint :: "string option"
  first_byte_observed :: "bool option"
  text_positive :: "string \<Rightarrow> bool"

record 'w handlers =
  prepare_attempt :: "UpstreamAttemptContext \<Rightarrow> 'w \<Rightarrow> (raised + unit) \<times> UpstreamAttemptContext \<times> 'w"
  execute_attempt :: "UpstreamAttemptContext \<Rightarrow> 'w \<Rightarrow> (raised + executed) \<times> UpstreamAttemptContext \<times> 'w"
  before_next_attempt :: "'w \<Rightarrow> (run_error + response option) \<times> 'w"
  after_failure :: "exn \<Rightarrow> int \<Rightarrow> string \<Rightarrow> UpstreamAttemptContext \<Rightarrow> 'w \<Rightarrow> (run_error + unit) \<times> UpstreamAttemptContext \<times> 'w"
  should_cool_down :: "(exn \<Rightarrow> int \<Rightarrow> string \<Rightarrow> UpstreamAttemptContext \<Rightarrow> 'w \<Rightarrow> (run_error + bool) \<times> UpstreamAttemptContext \<times> 'w) option"
  retry_decider :: "(exn \<Rightarrow> int \<Rightarrow> string \<Rightarrow> bool \<Rightarrow> UpstreamAttemptContext \<Rightarrow> 'w \<Rightarrow> (run_error + bool) \<times> UpstreamAttemptContext \<times> 'w) option"
  on_retry :: "int \<Rightarrow> string \<Rightarrow> UpstreamAttemptContext \<Rightarrow> 'w \<Rightarrow> (run_error + unit) \<times> UpstreamAttemptContext \<times> 'w"
  on_cooldown :: "int \<Rightarrow> string \<Rightarrow> UpstreamAttemptContext \<Rightarrow> 'w \<Rightarrow> (run_error + unit) \<times> UpstreamAttemptContext \<times> 'w"
  clear_provider_auth_cache :: "string \<Rightarrow> 'w \<Rightarrow> (run_error + unit) \<times> 'w"
  build_error_response :: "(int \<Rightarrow> string \<Rightarrow> 'w \<Rightarrow> (run_error + response) \<times> 'w) option"
  build_final_response :: "(RoutingPlan \<Rightarrow> 'w \<Rightarrow> (run_error + response) \<times> 'w) option"
  exclude_error_substrings :: "string list"
  rollback_rate_limit_errors :: "string list"
  allow_channel_exclusion :: bool
  max_attempts :: "int option"

text \<open>Sequencing: an exception ends the computation and keeps the state it left.\<close>

definition and_then :: "(run_error + 'a) \<times> 's \<Rightarrow> ('a \<Rightarrow> 's \<Rightarrow> (run_error + 'b) \<times> 's) \<Rightarrow> (run_error + 'b) \<times> 's" where
  "and_then r f = (case r of (Inl e, s) \<Rightarrow> (Inl e, s) | (Inr a, s) \<Rightarrow> f a s)"

section \<open>The effects of a failure\<close>

definition model_text :: "pyval \<Rightarrow> string option" where
  "model_text m = (case m of PStr s \<Rightarrow> Some s | _ \<Rightarrow> None)"

definition falsy_text :: "string option \<Rightarrow> bool" where
  "falsy_text s \<longleftrightarrow> s = None \<or> s = Some []"

definition SIX_HOURS :: int where "SIX_HOURS = 6 * 60 * 60"

definition maybe_cool_provider_api_key ::
  "policy_env \<Rightarrow> time \<Rightarrow> provider \<Rightarrow> string \<Rightarrow> string option \<Rightarrow> int \<Rightarrow> string \<Rightarrow> pyval \<Rightarrow> string option \<Rightarrow> string list
   \<Rightarrow> (string \<Rightarrow> ProviderKeyPool) \<Rightarrow> (run_error + bool) \<times> (string \<Rightarrow> ProviderKeyPool)" where
  "maybe_cool_provider_api_key env now p name key status message model ep excluded ps =
     (if falsy_text key \<or> startswith name ''sk-'' then (Inr False, ps)
      else if get_items_count (ps name) \<le> 1 then (Inr False, ps)
      else
        let quota = safe_get env p ''preferences'' ''api_key_quota_cooldown_period'' (PInt 0);
            cooling = safe_get env p ''preferences'' ''api_key_cooldown_period'' (PInt 0);
            rate_limit = rate_limit_cooling_time env p status message;
            cool = (\<lambda>seconds. (Inr True, ps(name := pool_set_cooling now (the key) seconds (ps name))))
        in case should_use_quota_cooldown env p status message ep (model_text model) of
             None \<Rightarrow> (Inl PolicyRaised, ps)
           | Some True \<Rightarrow>
               (case py_int_of quota of
                  None \<Rightarrow> (Inl PolicyRaised, ps)
                | Some q \<Rightarrow> cool (if 0 < q then q else SIX_HOURS))
           | Some False \<Rightarrow>
               if 0 < rate_limit then cool rate_limit
               else
                 (case py_int_of cooling of
                    None \<Rightarrow> (Inl PolicyRaised, ps)
                  | Some c \<Rightarrow> if c \<le> 0 \<or> any_in excluded message then (Inr False, ps) else cool c))"

definition rollback_failed_rate_limit_record ::
  "string \<Rightarrow> string option \<Rightarrow> pyval \<Rightarrow> string \<Rightarrow> string list \<Rightarrow> (string \<Rightarrow> ProviderKeyPool) \<Rightarrow> (string \<Rightarrow> ProviderKeyPool)" where
  "rollback_failed_rate_limit_record name key model message errors ps =
     (if falsy_text key \<or> \<not> any_in errors message then ps
      else ps(name := rollback_rate_limit_record (the key) (model_text model) (ps name)))"

datatype circuit_result = Opened | OpenedNoAlternative

definition refresh_plan ::
  "'w runner_env \<Rightarrow> RoutingPlan \<Rightarrow> 'w \<Rightarrow> (plan_error + unit) \<times> RoutingPlan \<times> 'w" where
  "refresh_plan env pl w =
     (let (answer, w) = resolve env (plan_call pl) w in
      case refresh_matching_providers (\<lambda>_. answer) pl of
        Inl e \<Rightarrow> (Inl e, pl, w)
      | Inr pl \<Rightarrow> (Inr (), pl, w))"

text \<open>\<open>float(period) > 0\<close>, false where \<open>float\<close> raises.\<close>

definition float_positive :: "(string \<Rightarrow> bool) \<Rightarrow> pyval \<Rightarrow> bool" where
  "float_positive text v =
     (case v of PInt i \<Rightarrow> 0 < i | PBool b \<Rightarrow> b | PFloat r \<Rightarrow> 0 < r | PStr s \<Rightarrow> text s | _ \<Rightarrow> False)"

definition provider_preferences :: "provider \<Rightarrow> (string, pyval) dict" where
  "provider_preferences p = (case map_of p ''preferences'' of Some (PDict d) \<Rightarrow> d | _ \<Rightarrow> [])"

text \<open>What follows a failure that opened no circuit: the cool-down of the channel.\<close>

definition exclude_channel ::
  "'x world_scheme runner_env \<Rightarrow> string \<Rightarrow> pyval \<Rightarrow> string \<Rightarrow> provider \<Rightarrow> string list \<Rightarrow> ChannelManager \<Rightarrow> RoutingPlan
   \<Rightarrow> 'x world_scheme \<Rightarrow> (run_error + circuit_result option) \<times> RoutingPlan \<times> 'x world_scheme" where
  "exclude_channel env name model message p excluded cm pl w =
     (if any_in excluded message then (Inr None, pl, w)
      else if \<not> float_positive (text_positive env)
             (pget (provider_preferences p) ''cooldown_period'' (PFloat (cooldown_period cm)))
           \<or> num_matching_providers (plan_state pl) \<le> 1 then (Inr None, pl, w)
      else
        (case refresh_plan env pl
                (w\<lparr>manager := Some (exclude_model (repr_text (policies env)) (wall (clocks w)) name model cm)\<rparr>) of
           (Inl e, pl, w) \<Rightarrow> (Inl (PlanRaised e), pl, w)
         | (Inr _, pl, w) \<Rightarrow> (Inr None, pl, w)))"

definition maybe_exclude_failed_channel ::
  "'x world_scheme runner_env \<Rightarrow> string \<Rightarrow> pyval \<Rightarrow> int \<Rightarrow> string \<Rightarrow> provider \<Rightarrow> string list \<Rightarrow> RoutingPlan
   \<Rightarrow> 'x world_scheme \<Rightarrow> (run_error + circuit_result option) \<times> RoutingPlan \<times> 'x world_scheme" where
  "maybe_exclude_failed_channel env name model status message p excluded pl w =
     (case manager w of
        None \<Rightarrow> (Inr None, pl, w)
      | Some cm \<Rightarrow>
          if status = 403 \<or> status = 404 then
            (let (opened, cm) = record_model_failure (repr_text (policies env)) (mono_clock (clocks w)) name model status cm;
                 w = w\<lparr>manager := Some cm\<rparr>
             in if opened then
                  (case refresh_plan env pl w of
                     (Inr _, pl, w) \<Rightarrow> (Inr (Some Opened), pl, w)
                   | (Inl (Resolver (RoutingRules.HTTPException s d)), pl, w) \<Rightarrow>
                       if s = 503 then (Inr (Some OpenedNoAlternative), pl, w)
                       else (Inl (PlanRaised (Resolver (RoutingRules.HTTPException s d))), pl, w)
                   | (Inl e, pl, w) \<Rightarrow> (Inl (PlanRaised e), pl, w))
                else exclude_channel env name model message p excluded cm pl w)
          else exclude_channel env name model message p excluded cm pl w)"

definition maybe_reset_provider_model_circuit ::
  "(pyval \<Rightarrow> string) \<Rightarrow> string \<Rightarrow> pyval \<Rightarrow> 'x world_scheme \<Rightarrow> 'x world_scheme" where
  "maybe_reset_provider_model_circuit repr name model w =
     (case manager w of
        None \<Rightarrow> w
      | Some cm \<Rightarrow> w\<lparr>manager := Some (snd (record_model_success repr name model cm))\<rparr>)"

text \<open>The content of an error: a parsed body as it is, any other text under a key.\<close>

definition error_content :: "string \<Rightarrow> pyval" where
  "error_content text = PDict [(''error'', PStr text)]"

definition json_response :: "int \<Rightarrow> pyval \<Rightarrow> response" where
  "json_response status body = \<lparr>resp_status = Some status, resp_headers = Some [], resp_content = body\<rparr>"

definition build_upstream_error_response :: "policy_env \<Rightarrow> int \<Rightarrow> pyval \<Rightarrow> string option \<Rightarrow> response" where
  "build_upstream_error_response env status message fallback_prefix =
     (let parsed =
            (case message of
               PDict d \<Rightarrow> Some (PDict d)
             | PList l \<Rightarrow> Some (PList l)
             | PStr s \<Rightarrow>
                 (let stripped = strip s in
                  if startswith stripped ''{'' \<or> startswith stripped ''['' then json_loads env stripped else None)
             | _ \<Rightarrow> None);
          text = py_str (repr_text env) message
      in case parsed of
           Some body \<Rightarrow> json_response status body
         | None \<Rightarrow>
             json_response status
               (error_content (if falsy_text fallback_prefix then text else the fallback_prefix @ '': '' @ text)))"


section \<open>The headers of an answer\<close>

definition set_header :: "string \<Rightarrow> string \<Rightarrow> response \<Rightarrow> response" where
  "set_header k v r = r\<lparr>resp_headers := map_option (AList.update k v) (resp_headers r)\<rparr>"

definition apply_local_admission_headers :: "string option \<Rightarrow> int option \<Rightarrow> response \<Rightarrow> response" where
  "apply_local_admission_headers reason retry_after r =
     (if falsy_text reason then r
      else
        let seconds = (case retry_after of None \<Rightarrow> 1 | Some s \<Rightarrow> if s = 0 then 1 else s) in
        set_header ''x-uni-api-admission-reason'' (the reason)
          (set_header ''retry-after'' (int_str (max 1 seconds)) r))"

definition apply_status_origin_header :: "string option \<Rightarrow> response \<Rightarrow> response" where
  "apply_status_origin_header origin r =
     (if falsy_text origin then r else set_header ''x-uni-api-status-origin'' (take 64 (the origin)) r)"

section \<open>A failed attempt\<close>

definition classify_transport_failure ::
  "bool option \<Rightarrow> exn \<Rightarrow> UpstreamAttemptContext \<Rightarrow> TransportErrorClassification option" where
  "classify_transport_failure observed e c =
     (let stage = (case stream_facts c of Some (phase, _) \<Rightarrow> if phase \<noteq> [] then phase else failed_stage c
                                        | None \<Rightarrow> failed_stage c);
          first_byte = (case stream_facts c of Some (_, chunks) \<Rightarrow> Some (chunks \<noteq> 0) | None \<Rightarrow> observed)
      in map_option (\<lambda>h. classify_httpx_transport_error h stage first_byte) (exn_transport e))"

text \<open>What \<open>_handle_failure\<close> makes of an exception before it does anything about it.\<close>

record failure_facts =
  fact_transport :: "TransportErrorClassification option"
  fact_status :: int
  fact_message :: string
  fact_local :: bool
  fact_origin :: string
  fact_request_scoped :: bool
  fact_semantic_request :: bool

definition examine_failure :: "policy_env \<Rightarrow> bool option \<Rightarrow> exn \<Rightarrow> UpstreamAttemptContext \<Rightarrow> failure_facts" where
  "examine_failure env observed e c =
     (let transport = classify_transport_failure observed e c;
          (original, text) = normalize_exception e;
          status = remap_status_code env original text;
          origin = (if exn_local_admission e then ''ember_local_admission''
                    else if wire_status c = Some original \<or> wire_status c = Some status then ''provider_http''
                    else if exn_upstream_semantic e then ''provider_semantic''
                    else (case transport of Some t \<Rightarrow> owner t | None \<Rightarrow> ''ember_upstream_processing''));
          reason = protocol_error_reason c;
          text = (if reason \<noteq> [] \<and> reason \<noteq> ''NOT_PROTOCOL_ERROR'' then
                    (case exn_transport e of
                       Some LocalProtocolError \<Rightarrow> ''Local protocol error: '' @ reason
                     | Some RemoteProtocolError \<Rightarrow> ''Remote protocol error: '' @ reason
                     | _ \<Rightarrow> text)
                  else text)
      in \<lparr>fact_transport = transport, fact_status = status, fact_message = text,
          fact_local = exn_local_admission e, fact_origin = origin,
          fact_request_scoped =
            status = 400 \<or> status = 413 \<or> status = 404 \<and> is_missing_persisted_responses_item_error env status text,
          fact_semantic_request = (exn_upstream_semantic e \<and> (status = 400 \<or> status = 413))\<rparr>)"

definition penalty_eligible :: "failure_facts \<Rightarrow> bool" where
  "penalty_eligible f \<longleftrightarrow> \<not> fact_local f \<and>
     (case fact_transport f of None \<Rightarrow> True | Some t \<Rightarrow> provider_penalty_eligible t)"

definition note_failure :: "failure_facts \<Rightarrow> UpstreamAttemptContext \<Rightarrow> UpstreamAttemptContext" where
  "note_failure f c =
     c\<lparr>transport_facts := (if fact_transport f = None then transport_facts c else fact_transport f),
       status_origin := Some (fact_origin f),
       local_admission_rejected := local_admission_rejected c \<or> fact_local f,
       track_channel_stats := track_channel_stats c \<and> penalty_eligible f \<and> \<not> fact_request_scoped f\<rparr>"

record 'w run_state =
  run_plan :: RoutingPlan
  run_attempt :: UpstreamAttemptContext
  run_world :: 'w

definition call_back ::
  "(UpstreamAttemptContext \<Rightarrow> 'w \<Rightarrow> ('e + 'a) \<times> UpstreamAttemptContext \<times> 'w) \<Rightarrow> 'w run_state \<Rightarrow> ('e + 'a) \<times> 'w run_state" where
  "call_back f s =
     (let (r, c, w) = f (run_attempt s) (run_world s) in (r, s\<lparr>run_attempt := c, run_world := w\<rparr>))"

definition exclude_step ::
  "'x world_scheme runner_env \<Rightarrow> 'x world_scheme handlers \<Rightarrow> failure_facts \<Rightarrow> bool \<Rightarrow> 'x world_scheme run_state
   \<Rightarrow> (run_error + unit) \<times> 'x world_scheme run_state" where
  "exclude_step env h f prepare_failure s =
     (if allow_channel_exclusion h \<and> \<not> prepare_failure \<and> penalty_eligible f \<and> \<not> fact_request_scoped f then
        (let a = attempt_of (run_attempt s);
             (r, pl, w) = maybe_exclude_failed_channel env (attempt_provider_name a) (attempt_original_model a)
               (fact_status f) (fact_message f) (attempt_provider a) (exclude_error_substrings h) (run_plan s) (run_world s);
             s = s\<lparr>run_plan := pl, run_world := w\<rparr>
         in and_then (r, s) (\<lambda>result s.
              (Inr (), s\<lparr>run_attempt := (run_attempt s)\<lparr>circuit_opened := result \<noteq> None,
                                            circuit_blocks_retry := result = Some OpenedNoAlternative\<rparr>\<rparr>)))
      else (Inr (), s))"

text \<open>Whether the key is cooled; the callback is asked only when the code asks it.\<close>

definition cool_decision ::
  "'w runner_env \<Rightarrow> 'w handlers \<Rightarrow> exn \<Rightarrow> failure_facts \<Rightarrow> 'w run_state \<Rightarrow> (run_error + bool) \<times> 'w run_state" where
  "cool_decision env h e f s =
     (let a = attempt_of (run_attempt s);
          force = is_codex_chatgpt_model_unsupported_error (policies env) (fact_status f) (fact_message f)
                    (attempt_provider a) (runner_endpoint env) (model_text (attempt_original_model a))
      in if \<not> penalty_eligible f then (Inr False, s)
         else
           (case should_cool_down h of
              None \<Rightarrow> (Inr (force \<or> \<not> fact_request_scoped f), s)
            | Some decide \<Rightarrow>
                if force then (Inr True, s)
                else if fact_request_scoped f then (Inr False, s)
                else call_back (decide e (fact_status f) (fact_message f)) s))"

definition cool_step ::
  "'x world_scheme runner_env \<Rightarrow> 'x world_scheme handlers \<Rightarrow> failure_facts \<Rightarrow> 'x world_scheme run_state
   \<Rightarrow> (run_error + unit) \<times> 'x world_scheme run_state" where
  "cool_step env h f s =
     (let c = run_attempt s; a = attempt_of c; w = run_world s;
          (r, ps) = maybe_cool_provider_api_key (policies env) (wall (clocks w)) (attempt_provider a) (attempt_provider_name a)
            (provider_api_key_raw c) (fact_status f) (fact_message f) (attempt_original_model a) (runner_endpoint env)
            (exclude_error_substrings h) (api_pools w);
          s = s\<lparr>run_world := w\<lparr>api_pools := ps\<rparr>\<rparr>
      in and_then (r, s) (\<lambda>cooled s.
           if cooled then call_back (on_cooldown h (fact_status f) (fact_message f)) s else (Inr (), s)))"

definition rollback_step ::
  "'x world_scheme handlers \<Rightarrow> failure_facts \<Rightarrow> bool \<Rightarrow> 'x world_scheme run_state \<Rightarrow> 'x world_scheme run_state" where
  "rollback_step h f prepare_failure s =
     (let c = run_attempt s; a = attempt_of c; w = run_world s in
      if rollback_rate_limit_errors h \<noteq> [] \<and> \<not> prepare_failure
      then s\<lparr>run_world := w\<lparr>api_pools := rollback_failed_rate_limit_record (attempt_provider_name a) (provider_api_key_raw c)
               (attempt_original_model a) (fact_message f) (rollback_rate_limit_errors h) (api_pools w)\<rparr>\<rparr>
      else s)"

definition clear_auth_step ::
  "'w runner_env \<Rightarrow> 'w handlers \<Rightarrow> failure_facts \<Rightarrow> 'w run_state \<Rightarrow> (run_error + unit) \<times> 'w run_state" where
  "clear_auth_step env h f s =
     (let c = run_attempt s; a = attempt_of c in
      if fact_local f \<or> falsy_text (provider_api_key_raw c) \<or> fact_status f \<noteq> 401 \<and> fact_status f \<noteq> 403
         \<or> engine_or_none (policies env) (attempt_provider a) (runner_endpoint env) (model_text (attempt_original_model a))
             \<noteq> Some ''codex''
      then (Inr (), s)
      else
        (let (r, w) = clear_provider_auth_cache h (the (provider_api_key_raw c)) (run_world s) in
         (r, s\<lparr>run_world := w\<rparr>)))"

text \<open>Steps up to the decision whether to retry.\<close>

definition punish ::
  "'x world_scheme runner_env \<Rightarrow> 'x world_scheme handlers \<Rightarrow> exn \<Rightarrow> failure_facts \<Rightarrow> bool \<Rightarrow> 'x world_scheme run_state
   \<Rightarrow> (run_error + unit) \<times> 'x world_scheme run_state" where
  "punish env h e f prepare_failure s =
     and_then (exclude_step env h f prepare_failure s) (\<lambda>_ s.
     and_then (cool_decision env h e f s) (\<lambda>cool s.
     and_then (if cool then cool_step env h f s else (Inr (), s)) (\<lambda>_ s.
     and_then (clear_auth_step env h f (rollback_step h f prepare_failure s)) (\<lambda>_ s.
       call_back (after_failure h e (fact_status f) (fact_message f)) s))))"

definition decide_retry ::
  "'w runner_env \<Rightarrow> 'w handlers \<Rightarrow> exn \<Rightarrow> failure_facts \<Rightarrow> bool \<Rightarrow> 'w run_state \<Rightarrow> (run_error + bool) \<times> 'w run_state" where
  "decide_retry env h e f prepare_failure s =
     (let a = attempt_of (run_attempt s);
          own = (if prepare_failure
                 then Some (truthy (auto_retry (run_plan s)) \<and> \<not> fact_local f \<and> \<not> fact_semantic_request f)
                 else if fact_local f \<or> fact_semantic_request f \<or> circuit_blocks_retry (run_attempt s) then Some False
                 else should_retry (policies env) (truthy (auto_retry (run_plan s))) (fact_status f) (attempt_provider a)
                        (fact_message f) (runner_endpoint env) (model_text (attempt_original_model a)))
      in case own of
           None \<Rightarrow> (Inl PolicyRaised, s)
         | Some own \<Rightarrow>
             (case retry_decider h of
                None \<Rightarrow> (Inr own, s)
              | Some decide \<Rightarrow> call_back (decide e (fact_status f) (fact_message f) prepare_failure) s))"

definition failure_response ::
  "'w handlers \<Rightarrow> failure_facts \<Rightarrow> 'w run_state \<Rightarrow> (run_error + response) \<times> 'w run_state" where
  "failure_response h f s =
     (case build_error_response h of
        None \<Rightarrow>
          (Inr (json_response (fact_status f)
             (error_content (''Error: Current provider response failed: '' @ fact_message f))), s)
      | Some build \<Rightarrow>
          (let (r, w) = build (fact_status f) (fact_message f) (run_world s) in (r, s\<lparr>run_world := w\<rparr>)))"

definition handle_failure ::
  "'x world_scheme runner_env \<Rightarrow> 'x world_scheme handlers \<Rightarrow> exn \<Rightarrow> bool \<Rightarrow> 'x world_scheme run_state
   \<Rightarrow> (run_error + UpstreamAttemptResult) \<times> 'x world_scheme run_state" where
  "handle_failure env h e prepare_failure s =
     (let f = examine_failure (policies env) (first_byte_observed env) e (run_attempt s);
          pl = run_plan s;
          s = s\<lparr>run_plan := pl\<lparr>plan_state := RoutingPlan.record_failure (fact_status f) (fact_message f) (plan_state pl)\<rparr>,
                run_attempt := note_failure f (run_attempt s)\<rparr>;
          reason = (if fact_local f then Some (if exn_reason e \<noteq> [] then exn_reason e else ''upstream_overload'') else None);
          retry_after = (if fact_local f then Some (max 1 (if exn_retry_after e = 0 then 1 else exn_retry_after e)) else None);
          base = plain_result\<lparr>local_admission_reason := reason, local_admission_retry_after := retry_after,
                              result_status_origin := Some (fact_origin f)\<rparr>
      in and_then (punish env h e f prepare_failure s) (\<lambda>_ s.
         and_then (decide_retry env h e f prepare_failure s) (\<lambda>retry s.
           if retry then
             and_then (call_back (on_retry h (fact_status f) (fact_message f)) s) (\<lambda>_ s. (Inr (base\<lparr>result_retry := True\<rparr>), s))
           else if prepare_failure then (Inr (base\<lparr>finalize := True\<rparr>), s)
           else
             and_then (failure_response h f s) (\<lambda>r s.
               (Inr (base\<lparr>result_response := Some (apply_status_origin_header (Some (fact_origin f))
                             (apply_local_admission_headers reason retry_after r))\<rparr>), s)))))"

definition run_one_attempt ::
  "'x world_scheme runner_env \<Rightarrow> 'x world_scheme handlers \<Rightarrow> 'x world_scheme run_state
   \<Rightarrow> (run_error + UpstreamAttemptResult) \<times> 'x world_scheme run_state" where
  "run_one_attempt env h s =
     (case call_back (prepare_attempt h) s of
        (Inl Cancellation, s) \<Rightarrow> (Inl Cancelled, s)
      | (Inl (Raised e), s) \<Rightarrow>
          handle_failure env (h\<lparr>build_error_response := None, allow_channel_exclusion := False\<rparr>) e True s
      | (Inr _, s) \<Rightarrow>
          (case call_back (execute_attempt h) s of
             (Inl Cancellation, s) \<Rightarrow> (Inl Cancelled, s)
           | (Inl (Raised e), s) \<Rightarrow> handle_failure env h e False s
           | (Inr (Result r), s) \<Rightarrow> (Inr r, s)
           | (Inr (Response r), s) \<Rightarrow> (Inr (plain_result\<lparr>result_response := r\<rparr>), s)))"


section \<open>What an attempt leaves of the plan\<close>

text \<open>A reflexive and transitive relation of states goes through a sequence if it goes through its parts.\<close>

locale respected =
  fixes R :: "'s \<Rightarrow> 's \<Rightarrow> bool"
  assumes R_refl [simp]: "R s s"
    and R_trans: "R s t \<Longrightarrow> R t u \<Longrightarrow> R s u"
begin

lemma and_then_respects:
  assumes "R s (snd r)" "\<And>a t. fst r = Inr a \<Longrightarrow> snd r = t \<Longrightarrow> R t (snd (f a t))"
  shows "R s (snd (and_then r f))"
proof (cases "fst r")
  case (Inl e)
  with assms(1) show ?thesis by (cases r) (simp add: and_then_def)
next
  case (Inr a)
  from R_trans [OF assms(1) assms(2) [OF Inr refl]] show ?thesis
    using Inr by (cases r) (simp add: and_then_def)
qed

end

definition ring_kept :: "RoutingPlan \<Rightarrow> RoutingPlan \<Rightarrow> bool" where
  "ring_kept pl pl' \<longleftrightarrow>
     same_ring (plan_state pl) (plan_state pl') \<and> plan_index (plan_state pl') = plan_index (plan_state pl) \<and>
     plan_call pl' = plan_call pl \<and> start_index pl' = start_index pl"

interpretation ring: respected "\<lambda>s s'. ring_kept (run_plan s) (run_plan s')"
  by unfold_locales (auto simp: ring_kept_def same_ring_def)

lemma ring_kept_refl [simp]: "ring_kept pl pl"
  by (simp add: ring_kept_def same_ring_def)

lemma ring_kept_record [simp]:
  "ring_kept pl (pl\<lparr>plan_state := RoutingPlan.record_failure c t (plan_state pl)\<rparr>)"
  by (simp add: ring_kept_def same_ring_def RoutingPlan.record_failure_def)

lemma refresh_plan_ring: "refresh_plan env pl w = (r, pl', w') \<Longrightarrow> ring_kept pl pl'"
  by (auto simp: refresh_plan_def refresh_matching_providers_def ring_kept_def same_ring_def split_beta
      split: sum.splits)

lemma exclude_channel_ring: "exclude_channel env name m msg p ex cm pl w = (r, pl', w') \<Longrightarrow> ring_kept pl pl'"
  by (auto simp: exclude_channel_def dest: refresh_plan_ring split: if_splits prod.splits sum.splits)

lemma maybe_exclude_ring:
  "maybe_exclude_failed_channel env name m st msg p ex pl w = (r, pl', w') \<Longrightarrow> ring_kept pl pl'"
  by (auto simp: maybe_exclude_failed_channel_def Let_def
      dest: refresh_plan_ring exclude_channel_ring
      split: option.splits if_splits prod.splits sum.splits plan_error.splits route_error.splits)

lemma call_back_plan [simp]: "run_plan (snd (call_back f s)) = run_plan s"
  by (simp add: call_back_def split_beta)

lemma exclude_step_ring: "ring_kept (run_plan s) (run_plan (snd (exclude_step env h f prep s)))"
proof -
  obtain r pl w where m: "maybe_exclude_failed_channel env (attempt_provider_name (attempt_of (run_attempt s)))
      (attempt_original_model (attempt_of (run_attempt s))) (fact_status f) (fact_message f)
      (attempt_provider (attempt_of (run_attempt s))) (exclude_error_substrings h) (run_plan s) (run_world s) = (r, pl, w)"
    by (metis prod_cases3)
  from maybe_exclude_ring [OF this] show ?thesis
    by (cases r) (simp_all add: exclude_step_def m Let_def and_then_def)
qed

lemma cool_decision_plan [simp]: "run_plan (snd (cool_decision env h e f s)) = run_plan s"
  by (auto simp: cool_decision_def Let_def split: option.splits)

lemma and_then_plan:
  "run_plan (snd r) = pl \<Longrightarrow> (\<And>a s. run_plan s = pl \<Longrightarrow> run_plan (snd (f a s)) = pl) \<Longrightarrow> run_plan (snd (and_then r f)) = pl"
  by (auto simp: and_then_def split: prod.splits sum.splits)

lemma cool_step_plan [simp]: "run_plan (snd (cool_step env h f s)) = run_plan s"
  by (auto simp: cool_step_def Let_def split_beta intro!: and_then_plan)

lemma quiet_plan [simp]:
  "run_plan (rollback_step h f prep s) = run_plan s"
  "run_plan (snd (clear_auth_step env h f s)) = run_plan s"
  "run_plan (snd (failure_response h f s)) = run_plan s"
  "run_plan (snd (decide_retry env h e f prep s)) = run_plan s"
  by (auto simp: rollback_step_def clear_auth_step_def failure_response_def decide_retry_def Let_def split_beta
      split: option.splits)

lemma punish_ring: "ring_kept (run_plan s) (run_plan (snd (punish env h e f prep s)))"
  unfolding punish_def by (intro ring.and_then_respects exclude_step_ring) simp_all

lemma handle_failure_ring: "ring_kept (run_plan s) (run_plan (snd (handle_failure env h e prep s)))"
proof -
  let ?f = "examine_failure (policies env) (first_byte_observed env) e (run_attempt s)"
  let ?s = "s\<lparr>run_plan := (run_plan s)\<lparr>plan_state := RoutingPlan.record_failure (fact_status ?f) (fact_message ?f)
      (plan_state (run_plan s))\<rparr>, run_attempt := note_failure ?f (run_attempt s)\<rparr>"
  have "ring_kept (run_plan s) (run_plan ?s)" by simp
  moreover have "ring_kept (run_plan ?s) (run_plan (snd (handle_failure env h e prep s)))"
    unfolding handle_failure_def Let_def
    by (intro ring.and_then_respects punish_ring) (auto intro!: ring.and_then_respects)
  ultimately show ?thesis by (rule ring.R_trans)
qed

lemma run_one_attempt_ring: "ring_kept (run_plan s) (run_plan (snd (run_one_attempt env h s)))"
proof -
  obtain r s1 where p: "call_back (prepare_attempt h) s = (r, s1)" by fastforce
  obtain r2 s2 where x: "call_back (execute_attempt h) s1 = (r2, s2)" by fastforce
  have "run_plan s1 = run_plan s" "run_plan s2 = run_plan s1"
    using call_back_plan [of "prepare_attempt h" s] call_back_plan [of "execute_attempt h" s1] p x by simp_all
  then show ?thesis
    using p x handle_failure_ring [of s1 env] handle_failure_ring [of s2 env]
    by (auto simp: run_one_attempt_def split: sum.splits raised.splits executed.splits)
qed

section \<open>The loop over the attempts\<close>

text \<open>
  The routing log of the observability context keeps the first and the last \<open>_ROUTING_ATTEMPT_HEAD\<close> attempts and
  counts what it leaves out between them. \<open>fp\<close> is the SHA-256 fingerprint of a local key's name.
\<close>

record routing_entry =
  entry_index :: nat
  entry_provider :: string
  entry_model :: string

record routing_log =
  attempt_count :: nat
  routing_attempts :: "routing_entry list"
  routing_attempts_omitted_count :: nat

definition ROUTING_ATTEMPT_HEAD :: nat where "ROUTING_ATTEMPT_HEAD = 16"
definition ROUTING_ATTEMPT_LIMIT :: nat where "ROUTING_ATTEMPT_LIMIT = 16 + 16"

definition observable_provider_name :: "(string \<Rightarrow> string) \<Rightarrow> string \<Rightarrow> string" where
  "observable_provider_name fp name =
     (if startswith name ''sk-'' then ''local-api-key:'' @ take 16 (fp name) else take 256 name)"

definition log_attempt :: "routing_entry \<Rightarrow> routing_log \<Rightarrow> routing_log" where
  "log_attempt entry l =
     (let xs = routing_attempts l in
      if length xs < ROUTING_ATTEMPT_LIMIT then l\<lparr>routing_attempts := xs @ [entry]\<rparr>
      else l\<lparr>routing_attempts := take ROUTING_ATTEMPT_HEAD xs @ drop (Suc ROUTING_ATTEMPT_HEAD) xs @ [entry],
             routing_attempts_omitted_count := routing_attempts_omitted_count l + 1\<rparr>)"

definition start_routing_attempt ::
  "(string \<Rightarrow> string) \<Rightarrow> string \<Rightarrow> ProviderAttempt \<Rightarrow> routing_log \<Rightarrow> routing_log" where
  "start_routing_attempt fp model a l =
     (let n = attempt_count l + 1 in
      log_attempt \<lparr>entry_index = n, entry_provider = observable_provider_name fp (attempt_provider_name a),
                   entry_model = take 256 model\<rparr> (l\<lparr>attempt_count := n\<rparr>))"

text \<open>The variables of \<open>run\<close>.\<close>

record run_log =
  attempts_started :: nat
  observed_log :: "routing_log option"
  final_reason :: "string option"
  final_retry_after :: "int option"
  final_origin :: "string option"

definition new_run_log :: "bool \<Rightarrow> run_log" where
  "new_run_log observed =
     \<lparr>attempts_started = 0,
      observed_log = (if observed then Some \<lparr>attempt_count = 0, routing_attempts = [], routing_attempts_omitted_count = 0\<rparr>
                      else None),
      final_reason = None, final_retry_after = None, final_origin = None\<rparr>"

definition ask_world :: "string \<Rightarrow> pyval \<Rightarrow> 'x world_scheme \<Rightarrow> bool \<times> 'x world_scheme" where
  "ask_world name model w =
     (let (limited, ps) = ask_pool (wall (clocks w)) name model (api_pools w) in (limited, w\<lparr>api_pools := ps\<rparr>))"

definition next_attempt ::
  "RoutingPlan \<Rightarrow> 'x world_scheme \<Rightarrow> (plan_error + ProviderAttempt option) \<times> RoutingPlan \<times> 'x world_scheme" where
  "next_attempt pl w =
     (let (r, st, w) = next_provider ask_world (request_model (call_request (plan_call pl))) (start_index pl) (plan_state pl) w in
      (r, pl\<lparr>plan_state := st\<rparr>, w))"

definition final_answer ::
  "'w handlers \<Rightarrow> RoutingPlan \<Rightarrow> run_log \<Rightarrow> 'w \<Rightarrow> (run_error + response) \<times> 'w" where
  "final_answer h pl l w =
     (let st = plan_state pl;
          answer = (case build_final_response h of
              None \<Rightarrow>
                (Inr (json_response (RoutingPlan.status_code st)
                   (error_content (''All '' @ request_model (call_request (plan_call pl)) @ '' error: '' @
                      (case error_message st of None \<Rightarrow> ''None'' | Some t \<Rightarrow> t)))), w)
            | Some build \<Rightarrow> build pl w)
      in and_then answer (\<lambda>r w.
           (Inr (apply_status_origin_header (final_origin l)
                   (apply_local_admission_headers (final_reason l) (final_retry_after l) r)), w)))"

definition exhausted :: "'w handlers \<Rightarrow> run_log \<Rightarrow> bool" where
  "exhausted h l \<longleftrightarrow> (case max_attempts h of None \<Rightarrow> False | Some n \<Rightarrow> max 0 n \<le> int (attempts_started l))"

definition note_result :: "UpstreamAttemptResult \<Rightarrow> run_log \<Rightarrow> run_log" where
  "note_result r l =
     l\<lparr>final_reason := local_admission_reason r, final_retry_after := local_admission_retry_after r,
       final_origin := result_status_origin r\<rparr>"

definition reset_after ::
  "(pyval \<Rightarrow> string) \<Rightarrow> UpstreamAttemptResult \<Rightarrow> ProviderAttempt \<Rightarrow> 'x world_scheme \<Rightarrow> 'x world_scheme" where
  "reset_after repr r a w =
     (case result_response r of
        None \<Rightarrow> w
      | Some resp \<Rightarrow>
          (case resp_status resp of
             None \<Rightarrow> w
           | Some st \<Rightarrow>
               if st < 400
               then maybe_reset_provider_model_circuit repr (attempt_provider_name a) (attempt_original_model a) w else w))"

definition started :: "(string \<Rightarrow> string) \<Rightarrow> RoutingPlan \<Rightarrow> ProviderAttempt \<Rightarrow> run_log \<Rightarrow> run_log" where
  "started fp pl a l =
     l\<lparr>attempts_started := attempts_started l + 1,
       observed_log := map_option (start_routing_attempt fp (request_model (call_request (plan_call pl))) a) (observed_log l)\<rparr>"

text \<open>The slots of the ring that are left.\<close>

definition slots_remaining :: "RoutingPlan \<Rightarrow> nat" where
  "slots_remaining pl =
     (let st = plan_state pl in num_matching_providers st + retry_count st - plan_index st)"

lemma next_attempt_uses_slot:
  assumes "next_attempt pl w = (r, pl', w')"
  shows "slots_remaining pl' \<le> slots_remaining pl"
    "r = Inr (Some a) \<Longrightarrow> slots_remaining pl' < slots_remaining pl"
proof -
  obtain st where st: "next_provider ask_world (request_model (call_request (plan_call pl))) (start_index pl) (plan_state pl) w
      = (r, st, w')" "pl' = pl\<lparr>plan_state := st\<rparr>"
    using assms by (auto simp: next_attempt_def split_beta prod_eq_iff)
  from next_provider_ring [OF st(1)] show "slots_remaining pl' \<le> slots_remaining pl"
      "r = Inr (Some a) \<Longrightarrow> slots_remaining pl' < slots_remaining pl"
    by (auto simp: slots_remaining_def Let_def st(2) same_ring_def num_matching_providers_def)
qed

lemma ring_kept_slots: "ring_kept pl pl' \<Longrightarrow> slots_remaining pl' = slots_remaining pl"
  by (simp add: ring_kept_def same_ring_def slots_remaining_def num_matching_providers_def Let_def)

lemma run_one_attempt_slots:
  "run_one_attempt env h s = (r, s') \<Longrightarrow> slots_remaining (run_plan s') = slots_remaining (run_plan s)"
  using ring_kept_slots [OF run_one_attempt_ring [of s env h]] by simp

function run_loop ::
  "'x world_scheme runner_env \<Rightarrow> (string \<Rightarrow> string) \<Rightarrow> 'x world_scheme handlers \<Rightarrow> RoutingPlan \<Rightarrow> run_log \<Rightarrow> 'x world_scheme
   \<Rightarrow> (run_error + response) \<times> RoutingPlan \<times> run_log \<times> 'x world_scheme" where
  "run_loop env fp h pl l w =
     (if exhausted h l then (let (r, w) = final_answer h pl l w in (r, pl, l, w))
      else
        (case before_next_attempt h w of
           (Inl e, w) \<Rightarrow> (Inl e, pl, l, w)
         | (Inr (Some r), w) \<Rightarrow> (Inr r, pl, l, w)
         | (Inr None, w) \<Rightarrow>
        (case next_attempt pl w of
           (Inl e, pl, w) \<Rightarrow> (Inl (PlanRaised e), pl, l, w)
         | (Inr None, pl, w) \<Rightarrow> (let (r, w) = final_answer h pl l w in (r, pl, l, w))
         | (Inr (Some a), pl, w) \<Rightarrow>
             (let l = started fp pl a l in
              case run_one_attempt env h \<lparr>run_plan = pl, run_attempt = new_attempt_context a, run_world = w\<rparr> of
                (Inl e, s) \<Rightarrow> (Inl e, run_plan s, l, run_world s)
              | (Inr result, s) \<Rightarrow>
                  (let w = reset_after (repr_text (policies env)) result a (run_world s); l = note_result result l in
                   if result_retry result then run_loop env fp h (run_plan s) l w
                   else if finalize result then (let (r, w) = final_answer h (run_plan s) l w in (r, run_plan s, l, w))
                   else
                     (case result_response result of
                        None \<Rightarrow> run_loop env fp h (run_plan s) l w
                      | Some r \<Rightarrow>
                          (Inr (apply_status_origin_header (result_status_origin result) r), run_plan s, l, w)))))))"
  by pat_completeness auto
termination
  by (relation "measure (\<lambda>(env, fp, h, pl, l, w). slots_remaining pl)")
    (auto dest!: run_one_attempt_slots [OF sym] next_attempt_uses_slot(2) [OF sym refl])

declare run_loop.simps [simp del]

end
