(* ===== verification/UpstreamRuns.thy ===== *)
theory UpstreamRuns
  imports UpstreamRunner
begin

text \<open>
  What the runs of \<open>UpstreamRunner\<close> promise: they end within the slots of the plan, a failure that is not the provider's
  touches neither its keys nor its channel, and a route whose circuit a failure opened is left alone while it is open.
  The last is a statement about \<open>plan_run\<close>, a labelled step relation: attempts handed out, refreshes, and whatever the
  rest of the gateway does in between.
\<close>

section \<open>Runs end within the ring\<close>

text \<open>What the routing log holds after \<open>n\<close> attempts.\<close>

definition logged_indices :: "nat \<Rightarrow> nat list" where
  "logged_indices n = (if n \<le> 32 then [1..<n + 1] else [1..<17] @ [n - 15..<n + 1])"

definition log_ok :: "run_log \<Rightarrow> bool" where
  "log_ok l \<longleftrightarrow>
     (case observed_log l of
        None \<Rightarrow> True
      | Some g \<Rightarrow> attempt_count g = attempts_started l \<and>
          map entry_index (routing_attempts g) = logged_indices (attempt_count g) \<and>
          routing_attempts_omitted_count g = attempt_count g - 32)"





lemma started_count [simp]: "attempts_started (started fp pl a l) = Suc (attempts_started l)"
  by (simp add: started_def)

lemma note_result_frame [simp]:
  "attempts_started (note_result r l) = attempts_started l"
  "log_ok (note_result r l) = log_ok l"
  "exhausted h (note_result r l) = exhausted h l"
  by (auto simp: note_result_def log_ok_def exhausted_def split: option.splits)







section \<open>Failures that are not the provider's\<close>

text \<open>
  What may change the world although the runner punishes nobody: the caller's callbacks, and the return of a request to
  its rate limit.
\<close>

inductive lenient_step :: "'x world_scheme handlers \<Rightarrow> 'x world_scheme \<Rightarrow> 'x world_scheme \<Rightarrow> bool" for h where
  cool_asked: "should_cool_down h = Some f \<Longrightarrow> lenient_step h w (snd (snd (f e st t c w)))"
| retry_asked: "retry_decider h = Some f \<Longrightarrow> lenient_step h w (snd (snd (f e st t prep c w)))"
| retried: "lenient_step h w (snd (snd (on_retry h st t c w)))"
| failed: "lenient_step h w (snd (snd (after_failure h e st t c w)))"
| auth_cleared: "lenient_step h w (snd (clear_provider_auth_cache h key w))"
| answered: "build_error_response h = Some f \<Longrightarrow> lenient_step h w (snd (f st t w))"
| undone: "lenient_step h w (w\<lparr>api_pools := rollback_failed_rate_limit_record name key model t errors (api_pools w)\<rparr>)"

definition spared :: "'x world_scheme handlers \<Rightarrow> 'x world_scheme run_state \<Rightarrow> 'x world_scheme run_state \<Rightarrow> bool" where
  "spared h s s' \<longleftrightarrow>
     rtranclp (lenient_step h) (run_world s) (run_world s') \<and>
     available_provider_names (plan_state (run_plan s')) = available_provider_names (plan_state (run_plan s))"

interpretation lenient: respected "spared h" for h
  by unfold_locales (auto simp: spared_def)

text \<open>A failure that must not count against the provider.\<close>

definition not_the_providers ::
  "'w runner_env \<Rightarrow> failure_facts \<Rightarrow> UpstreamAttemptContext \<Rightarrow> bool" where
  "not_the_providers env f c \<longleftrightarrow>
     \<not> penalty_eligible f \<or>
     fact_request_scoped f \<and>
     \<not> is_codex_chatgpt_model_unsupported_error (policies env) (fact_status f) (fact_message f)
         (attempt_provider (attempt_of c)) (runner_endpoint env) (model_text (attempt_original_model (attempt_of c)))"

lemma call_back_world: "run_world (snd (call_back f s)) = snd (snd (f (run_attempt s) (run_world s)))"
  by (simp add: call_back_def split_beta)

lemma spared_call_back:
  "lenient_step h (run_world s) (snd (snd (f (run_attempt s) (run_world s)))) \<Longrightarrow> spared h s (snd (call_back f s))"
  by (simp add: spared_def call_back_world r_into_rtranclp)

lemma exclude_step_spared: "not_the_providers env f c \<Longrightarrow> exclude_step env h f prep s = (Inr (), s)"
  by (auto simp: not_the_providers_def exclude_step_def)

lemma cool_decision_spared:
  assumes "not_the_providers env f (run_attempt s)"
  shows "spared h s (snd (cool_decision env h e f s)) \<and> fst (cool_decision env h e f s) = Inr False"
  using assms by (auto simp: not_the_providers_def cool_decision_def Let_def split: option.splits)

lemma rollback_spared: "spared h s (rollback_step h f prep s)"
  using lenient_step.undone [of h "run_world s"] by (auto simp: rollback_step_def Let_def spared_def intro: r_into_rtranclp)

lemma clear_auth_spared: "spared h s (snd (clear_auth_step env h f s))"
  by (auto simp: clear_auth_step_def Let_def split_beta spared_def intro: r_into_rtranclp lenient_step.auth_cleared)

lemma punish_spared:
  assumes "not_the_providers env f (run_attempt s)"
  shows "spared h s (snd (punish env h e f prep s))"
proof -
  obtain s1 where c: "cool_decision env h e f s = (Inr False, s1)" "spared h s s1"
    using cool_decision_spared [OF assms, of h e] by (metis prod.collapse)
  let ?s2 = "rollback_step h f prep s1"
  have "punish env h e f prep s = and_then (clear_auth_step env h f ?s2) (\<lambda>_ s.
      call_back (after_failure h e (fact_status f) (fact_message f)) s)"
    by (simp add: punish_def exclude_step_spared [OF assms] and_then_def c(1))
  moreover have "spared h ?s2 (snd (and_then (clear_auth_step env h f ?s2) (\<lambda>_ s.
      call_back (after_failure h e (fact_status f) (fact_message f)) s)))"
    by (intro lenient.and_then_respects clear_auth_spared spared_call_back lenient_step.failed)
  ultimately show ?thesis
    using c(2) rollback_spared [of h s1 f prep] by (metis lenient.R_trans)
qed

lemma decide_retry_spared: "spared h s (snd (decide_retry env h e f prep s))"
  by (auto simp: decide_retry_def Let_def split: option.split intro!: spared_call_back lenient_step.retry_asked)

lemma failure_response_spared: "spared h s (snd (failure_response h f s))"
  by (auto simp: failure_response_def split_beta spared_def split: option.split
      intro!: r_into_rtranclp lenient_step.answered)

lemma handle_failure_spared:
  assumes "not_the_providers env f (run_attempt s)" "f = examine_failure (policies env) (first_byte_observed env) e (run_attempt s)"
  shows "spared h s (snd (handle_failure env h e prep s))"
proof -
  let ?s = "s\<lparr>run_plan := (run_plan s)\<lparr>plan_state := RoutingPlan.record_failure (fact_status f) (fact_message f)
      (plan_state (run_plan s))\<rparr>, run_attempt := note_failure f (run_attempt s)\<rparr>"
  have "spared h s ?s" by (simp add: spared_def RoutingPlan.record_failure_def)
  moreover have n: "not_the_providers env f (run_attempt ?s)"
    using assms(1) by (simp add: not_the_providers_def note_failure_def)
  have "spared h ?s (snd (handle_failure env h e prep s))"
    unfolding handle_failure_def assms(2) [symmetric] Let_def
    by (intro lenient.and_then_respects punish_spared [OF n] decide_retry_spared)
      (auto intro!: lenient.and_then_respects failure_response_spared spared_call_back lenient_step.retried)
  ultimately show ?thesis by (rule lenient.R_trans)
qed

lemma local_not_the_providers:
  assumes "exn_local_admission e \<or> exn_transport e = Some PoolTimeout"
  shows "\<not> penalty_eligible (examine_failure env observed e c)"
  using assms
  by (auto simp: penalty_eligible_def examine_failure_def Let_def split_beta classify_transport_failure_def
      classify_httpx_transport_error_def classified_def)


lemma decide_retry_local:
  "fact_local f \<Longrightarrow> retry_decider h = None \<Longrightarrow> decide_retry env h e f prep s = (Inr False, s)"
  by (simp add: decide_retry_def Let_def)

lemma and_then_Inr: "and_then r f = (Inr x, s') \<Longrightarrow> \<exists>a s. r = (Inr a, s) \<and> f a s = (Inr x, s')"
  by (auto simp: and_then_def split: prod.splits sum.splits)

lemma local_admission_not_retried:
  assumes "exn_local_admission e" "retry_decider h = None" "handle_failure env h e prep s = (Inr res, s')"
  shows "\<not> result_retry res \<and> local_admission_reason res \<noteq> None \<and> (\<exists>n \<ge> 1. local_admission_retry_after res = Some n)"
proof -
  let ?f = "examine_failure (policies env) (first_byte_observed env) e (run_attempt s)"
  have l: "fact_local ?f" using assms(1) by (simp add: examine_failure_def Let_def split_beta)
  show ?thesis
    using assms(3) l unfolding handle_failure_def Let_def
    by (auto dest!: and_then_Inr simp: decide_retry_local [OF l assms(2)] plain_result_def split: if_splits)
qed

text \<open>
  C13. A rejection by the gateway's own admission, a time-out of its own connection pool, and an error of the request
  itself (400 or 413, unless Codex refuses the model) never cool a key down, open a circuit, exclude a channel or
  take a provider out of the plan: whatever changes outside the plan is done by the caller's callbacks or returns a
  request to a rate limit. A local rejection is not retried against the next provider, and says when to come back.
\<close>
theorem local_failures_spare_the_provider:
  fixes e :: exn and s :: "'x world_scheme run_state" and env :: "'x world_scheme runner_env"
  defines "c \<equiv> run_attempt s"
  defines "f \<equiv> examine_failure (policies env) (first_byte_observed env) e c"
  assumes "exn_local_admission e \<or> exn_transport e = Some PoolTimeout \<or>
      (fact_status f = 400 \<or> fact_status f = 413) \<and>
      \<not> is_codex_chatgpt_model_unsupported_error (policies env) (fact_status f) (fact_message f)
         (attempt_provider (attempt_of c)) (runner_endpoint env) (model_text (attempt_original_model (attempt_of c)))"
    and "handle_failure env h e prep s = (r, s')"
  shows "rtranclp (lenient_step h) (run_world s) (run_world s') \<and>
    available_provider_names (plan_state (run_plan s')) = available_provider_names (plan_state (run_plan s)) \<and>
    (\<forall>res. exn_local_admission e \<and> retry_decider h = None \<and> r = Inr res \<longrightarrow>
       \<not> result_retry res \<and> local_admission_reason res \<noteq> None \<and> (\<exists>n \<ge> 1. local_admission_retry_after res = Some n))"
proof -
  have scoped: "fact_status f = 400 \<or> fact_status f = 413 \<Longrightarrow> fact_request_scoped f"
    by (auto simp: f_def examine_failure_def Let_def split_beta)
  have "not_the_providers env f (run_attempt s)"
    using assms(3) scoped local_not_the_providers [of e "policies env" "first_byte_observed env" c]
    unfolding not_the_providers_def f_def [symmetric] c_def [symmetric] by blast
  from handle_failure_spared [OF this, of e h prep] assms(4)
  have "spared h s s'" by (simp add: f_def c_def)
  with assms(4) show ?thesis
    using local_admission_not_retried [of e h env prep s _ s'] by (auto simp: spared_def)
qed

section \<open>An open route is left alone\<close>

text \<open>The resolver of the running gateway: the default one over the channel manager of the world.\<close>

definition resolve_in_world ::
  "('x world_scheme \<Rightarrow> resolver_config) \<Rightarrow> resolver_call \<Rightarrow> 'x world_scheme
   \<Rightarrow> (route_error + provider list) \<times> 'x world_scheme" where
  "resolve_in_world cfg call w =
     (case manager w of
        None \<Rightarrow>
          (default_resolver ((config_env (cfg w))\<lparr>channel_manager := None\<rparr>) (configured_rules (cfg w))
             (configured_weights (cfg w)) call, w)
      | Some cm \<Rightarrow>
          (let (answer, cm) = managed_resolver (cfg w) (clocks w) call cm in (answer, w\<lparr>manager := Some cm\<rparr>)))"

lemma circuit_query: "route_circuit (snd (circuit_is_open repr t p m cm)) =
    circuit_step (Query t p (circuit_model repr m)) (route_circuit cm)"
  by (simp add: circuit_is_open_def split_beta)

lemma available_loop_open:
  "open_for T key (route_circuit cm) \<Longrightarrow> mono_clock clk < T \<Longrightarrow> 0 < T \<Longrightarrow>
   open_for T key (route_circuit (snd (available_loop repr clk legacy ps cm)))"
proof (induction ps arbitrary: cm)
  case (Cons p ps)
  show ?case
  proof (cases "target_model p")
    case (Inr m)
    let ?cm0 = "snd (circuit_is_open repr (mono_clock clk) (pname p) m cm)"
    have o: "open_for T key (route_circuit ?cm0)"
      using Cons.prems circuit_step_open [of T key "route_circuit cm"] by (simp add: circuit_query del: circuit_step.simps)
    then have "open_for T key (route_circuit (snd (is_legacy_model_excluded repr (wall clk) (pname p) m period ?cm0)))" for period
      by simp
    from Cons.IH [OF o Cons.prems(2,3)] Cons.IH [OF this Cons.prems(2,3)] o this Cons.prems(1) show ?thesis
      by (auto simp: Inr Let_def split_beta split: sum.splits prod.splits)
  qed (use Cons.prems in simp)
qed simp

lemma managed_resolver_open:
  "open_for T key (route_circuit cm) \<Longrightarrow> mono_clock clk < T \<Longrightarrow> 0 < T \<Longrightarrow>
   open_for T key (route_circuit (snd (managed_resolver cfg clk call cm)))"
  by (auto simp: managed_resolver_def Let_def get_available_providers_def intro: available_loop_open split: option.split)

text \<open>Every provider of an answer has the requested model as its target.\<close>

lemma view_of_rule:
  "p \<in> set (provider_of_rule gmd model keys idx item) \<Longrightarrow> target_model p = Inr (PStr model)"
  by (auto simp: provider_of_rule_def Let_def split: if_splits option.splits)

lemma managed_resolver_target:
  assumes "fst (managed_resolver cfg clk call cm) = Inr ps" "p \<in> set ps"
    and "\<forall>ps. set (sample_all (config_env cfg) ps) = set ps"
  shows "target_model p = Inr (PStr (request_model (call_request call)))"
proof -
  let ?env = "(config_env cfg)\<lparr>channel_manager := Some (channel_at (repr_of (config_env cfg)) clk cm),
      api_list := call_api_list call, models_list := call_models_list call\<rparr>"
  obtain rules weights where "get_right_order_providers ?env (call_request call) (call_algorithm call) rules weights = Inr ps"
    using assms(1) by (simp add: managed_resolver_def default_resolver_def Let_def)
  then show ?thesis
  proof (cases rule: right_order_stages)
    case (1 ps1 ps2 ps3)
    have "set ps \<subseteq> set ps3" using weigh_subset [OF 1(5)] assms(3) by (auto split: if_splits)
    moreover have "fst (get_available_providers (repr_of (config_env cfg)) clk ps2 cm) = Inr ps3"
      using 1(4) by (auto simp: channel_filter_def channel_at_def split: sum.splits if_splits)
    then have "set ps3 \<subseteq> set ps2"
      using available_loop_sound [of _ clk "1 < length ps2" ps2 cm ps3]
      by (auto simp: get_available_providers_def prod_eq_iff)
    ultimately have "p \<in> set (matching ?env rules (request_model (call_request call)))"
      using assms(2) tokens_filter_subset [OF 1(2)] body_filter_subset [OF 1(1)] endpoint_filter_subset by blast
    then show ?thesis
      by (auto simp: matching_def get_matching_providers_def get_provider_list_def dest: view_of_rule)
  qed
qed

lemma refresh_leaves_open_route:
  assumes "open_for T (route_key name m) (route_circuit cm)" "mono_clock (clocks w) < T" "0 < T" "valid_key (route_key name m)"
    and "manager w = Some cm" "resolve env = resolve_in_world cfg" "m = request_model (call_request (plan_call pl))"
    and "\<forall>w ps. set (sample_all (config_env (cfg w)) ps) = set ps"
    and "refresh_plan env pl w = (Inr (), pl', w')"
  shows "name \<notin> available_provider_names (plan_state pl') \<and>
    (\<exists>cm'. manager w' = Some cm' \<and> open_for T (route_key name m) (route_circuit cm'))"
proof -
  obtain ps cm' where r: "managed_resolver (cfg w) (clocks w) (plan_call pl) cm = (Inr ps, cm')"
      "pl' = pl\<lparr>plan_state := refresh_state ps (plan_state pl)\<rparr>" "w' = w\<lparr>manager := Some cm'\<rparr>"
    using assms(5,6,9)
    by (auto simp: refresh_plan_def resolve_in_world_def refresh_matching_providers_state split_beta Let_def prod_eq_iff
        split: sum.splits)
  have fst: "fst (managed_resolver (cfg w) (clocks w) (plan_call pl) cm) = Inr ps" by (simp add: r(1))
  have sample: "\<forall>ps. set (sample_all (config_env (cfg w)) ps) = set ps" using assms(8) by blast
  have "name \<notin> provider_names ps"
  proof
    assume "name \<in> provider_names ps"
    then obtain p where p: "p \<in> set ps" "pname p = name" by (auto simp: provider_names_def)
    have "target_model p = Inr (PStr m)" using managed_resolver_target [OF fst p(1) sample] assms(7) by simp
    with managed_resolver_closed [OF fst p(1) sample] p(2)
    have "\<not> fst (is_open (mono_clock (clocks w)) name (circuit_model (repr_of (config_env (cfg w))) (PStr m)) (route_circuit cm))"
      by (simp add: target_closed_def)
    moreover have "circuit_model repr (PStr m) = m" for repr by (simp add: circuit_model_def py_str_def)
    ultimately show False using is_open_open_for [OF assms(1,4,2,3)] by simp
  qed
  then show ?thesis
    using managed_resolver_open [OF assms(1-3), of "cfg w" "plan_call pl"] r by (simp add: refresh_state_def)
qed

lemma next_provider_step:
  "next_provider limited model start st w =
     (let st1 = st\<lparr>plan_index := plan_index st + 1\<rparr>;
          st2 = RoutingPlan.record_failure 429 ''All API keys are rate limited and stop auto retry!'' st1
      in if num_matching_providers st + retry_count st \<le> plan_index st then (Inr None, st, w)
      else if num_matching_providers st = 0 then (Inl ZeroDivisionError, st, w)
      else if pname (slot start st (plan_index st)) \<notin> available_provider_names st then next_provider limited model start st1 w
      else (case original_model model (slot start st (plan_index st)) of
             Inl e \<Rightarrow> (Inl e, st1, w)
           | Inr m \<Rightarrow>
               (let (refused, w) = limited (pname (slot start st (plan_index st))) m w in
                if refused then if num_matching_providers st = 1 then (Inr None, st2, w) else next_provider limited model start st2 w
                else (Inr (Some \<lparr>attempt_provider = slot start st (plan_index st),
                        attempt_provider_name = pname (slot start st (plan_index st)), attempt_original_model = m\<rparr>), st1, w))))"
  by (subst next_provider.simps) (simp add: Let_def RoutingPlan.record_failure_def cong: if_cong sum.case_cong)

lemma next_provider_available:
  "next_provider limited model start st w = (Inr (Some a), st', w') \<Longrightarrow>
   attempt_provider_name a \<in> available_provider_names st"
proof (induction "num_matching_providers st + retry_count st - plan_index st" arbitrary: st w rule: less_induct)
  case less
  let ?st = "st\<lparr>plan_index := plan_index st + 1\<rparr>"
  let ?st2 = "RoutingPlan.record_failure 429 ''All API keys are rate limited and stop auto retry!'' ?st"
  have later: "attempt_provider_name a \<in> available_provider_names st"
    if "next_provider limited model start st2 w2 = (Inr (Some a), st', w')" "st2 = ?st \<or> st2 = ?st2"
      "plan_index st < num_matching_providers st + retry_count st" for st2 w2
    using less.hyps [of st2 w2] that by (auto simp: RoutingPlan.record_failure_def)
  show ?case
    using less.prems unfolding next_provider_step [of limited model start st w]
    by (auto simp: Let_def split: if_splits sum.splits prod.splits dest: later)
qed

text \<open>A walk along the ring changes neither the names of the plan nor what the questions to the pools leave alone.\<close>

lemma next_provider_frame:
  assumes "\<And>n m w. f (snd (limited n m w)) = f w"
  shows "next_provider limited model start st w = (r, st', w') \<Longrightarrow>
    available_provider_names st' = available_provider_names st \<and> f w' = f w"
proof (induction "num_matching_providers st + retry_count st - plan_index st" arbitrary: st w rule: less_induct)
  case less
  let ?st = "st\<lparr>plan_index := plan_index st + 1\<rparr>"
  let ?st2 = "RoutingPlan.record_failure 429 ''All API keys are rate limited and stop auto retry!'' ?st"
  have later: "available_provider_names st' = available_provider_names st \<and> f w' = f w2"
    if "next_provider limited model start st2 w2 = (r, st', w')" "st2 = ?st \<or> st2 = ?st2"
      "plan_index st < num_matching_providers st + retry_count st" for st2 w2
    using less.hyps [of st2 w2] that by (auto simp: RoutingPlan.record_failure_def)
  have asked: "limited n m w = (b, w2) \<Longrightarrow> f w2 = f w" for n m b w2 using assms [of n m w] by simp
  have names: "available_provider_names (RoutingPlan.record_failure c t st1) = available_provider_names st1" for c t st1
    by (simp add: RoutingPlan.record_failure_def)
  show ?case
    using less.prems unfolding next_provider_step [of limited model start st w]
    by (auto simp: Let_def names split: if_splits sum.splits prod.splits dest: asked dest!: later)
qed

lemma next_attempt_frame:
  assumes "next_attempt pl w = (r, pl', w')"
  shows "available_provider_names (plan_state pl') = available_provider_names (plan_state pl) \<and> plan_call pl' = plan_call pl \<and>
    manager w' = manager w \<and> clocks w' = clocks w"
proof -
  obtain st where st: "next_provider ask_world (request_model (call_request (plan_call pl))) (start_index pl) (plan_state pl) w
      = (r, st, w')" "pl' = pl\<lparr>plan_state := st\<rparr>"
    using assms by (auto simp: next_attempt_def split_beta prod_eq_iff)
  have "(manager (snd (ask_world n m w)), clocks (snd (ask_world n m w))) = (manager w, clocks w)" for n m and w :: "'a world_scheme"
    by (simp add: ask_world_def split_beta)
  from next_provider_frame [where f = "\<lambda>w. (manager w, clocks w)", OF this st(1)] st(2) show ?thesis by simp
qed

lemma next_attempt_available:
  "next_attempt pl w = (Inr (Some a), pl', w') \<Longrightarrow> attempt_provider_name a \<in> available_provider_names (plan_state pl)"
  by (auto simp: next_attempt_def split_beta prod_eq_iff intro!: next_provider_available)


lemma recorded_failure_open:
  assumes "record_model_failure repr t name (PStr m) st cm = (True, cm')" "distinct_keys (states (route_circuit cm))"
  shows "open_for (t + open_seconds (route_circuit cm)) (route_key name m) (route_circuit cm') \<and> valid_key (route_key name m)"
  using assms
  by (auto simp: record_model_failure_def circuit_model_def py_str_def split_beta open_for_def
      CircuitBreaker.record_failure_def Let_def update_conv' split: if_splits)

lemma opened_by_exclusion:
  assumes "maybe_exclude_failed_channel env name m st msg p ex pl w = (Inr (Some result), pl', w')" "manager w = Some cm"
  obtains cm' x where "record_model_failure (repr_text (policies env)) (mono_clock (clocks w)) name m st cm = (True, cm')"
    "refresh_plan env pl (w\<lparr>manager := Some cm'\<rparr>) = (x, pl', w')" "result = Opened \<longleftrightarrow> x = Inr ()"
proof -
  obtain opened cm' where r: "record_model_failure (repr_text (policies env)) (mono_clock (clocks w)) name m st cm = (opened, cm')"
    by fastforce
  obtain x pl2 w2 where f: "refresh_plan env pl (w\<lparr>manager := Some cm'\<rparr>) = (x, pl2, w2)" by (metis prod_cases3)
  have "exclude_channel env name m msg p ex c pl v \<noteq> (Inr (Some result), pl', w')" for c v
    by (auto simp: exclude_channel_def split: prod.splits sum.splits)
  with assms r f that show ?thesis
    by (auto simp: maybe_exclude_failed_channel_def Let_def split: if_splits sum.splits plan_error.splits route_error.splits)
qed

text \<open>
  What may happen to a plan and to the world around it: the plan hands an attempt out or none, is refreshed or fails to
  be, records a failure, excludes another channel after one; and the rest of the gateway moves on: other requests change
  the world in any way, as long as the circuits change by their own operations, before the time \<open>T\<close> and without a
  success of the route \<open>key\<close>.
\<close>

datatype plan_event = Handed ProviderAttempt | Renewed | Elsewhere

inductive plan_step ::
  "'x world_scheme runner_env \<Rightarrow> time \<Rightarrow> route \<Rightarrow> RoutingPlan \<times> 'x world_scheme \<Rightarrow> plan_event
   \<Rightarrow> RoutingPlan \<times> 'x world_scheme \<Rightarrow> bool" for env T key where
  handed: "next_attempt pl w = (Inr (Some a), pl', w') \<Longrightarrow> plan_step env T key (pl, w) (Handed a) (pl', w')"
| none_handed: "next_attempt pl w = (r, pl', w') \<Longrightarrow> r = Inr None \<or> isl r \<Longrightarrow> plan_step env T key (pl, w) Elsewhere (pl', w')"
| renewed: "refresh_plan env pl w = (Inr (), pl', w') \<Longrightarrow> plan_step env T key (pl, w) Renewed (pl', w')"
| not_renewed: "refresh_plan env pl w = (Inl e, pl', w') \<Longrightarrow> plan_step env T key (pl, w) Elsewhere (pl', w')"
| noted: "plan_step env T key (pl, w) Elsewhere (pl\<lparr>plan_state := RoutingPlan.record_failure c t (plan_state pl)\<rparr>, w)"
| excluded: "maybe_exclude_failed_channel env n v c t p ex pl w = (r, pl', w') \<Longrightarrow>
    plan_step env T key (pl, w) Elsewhere (pl', w')"
| moved: "manager w = Some cm \<Longrightarrow> manager w' = Some cm' \<Longrightarrow> route_circuit cm' = fold circuit_step ops (route_circuit cm) \<Longrightarrow>
    list_all (before T key) ops \<Longrightarrow> mono_clock (clocks w') < T \<Longrightarrow> plan_step env T key (pl, w) Elsewhere (pl, w')"

inductive plan_run ::
  "'x world_scheme runner_env \<Rightarrow> time \<Rightarrow> route \<Rightarrow> RoutingPlan \<times> 'x world_scheme \<Rightarrow> plan_event list
   \<Rightarrow> RoutingPlan \<times> 'x world_scheme \<Rightarrow> bool" for env T key where
  at_rest: "plan_run env T key s [] s"
| more: "plan_run env T key s es t \<Longrightarrow> plan_step env T key t e u \<Longrightarrow> plan_run env T key s (es @ [e]) u"

text \<open>The world while the route is open, and a plan that leaves its provider out.\<close>

definition held_open :: "time \<Rightarrow> route \<Rightarrow> 'x world_scheme \<Rightarrow> bool" where
  "held_open T key w \<longleftrightarrow> mono_clock (clocks w) < T \<and> (\<exists>cm. manager w = Some cm \<and> open_for T key (route_circuit cm))"

text \<open>The sampling of a resolver only reorders, and the resolver is the one of the gateway.\<close>

definition gateway_env ::
  "('x world_scheme \<Rightarrow> resolver_config) \<Rightarrow> 'x world_scheme runner_env \<Rightarrow> bool" where
  "gateway_env cfg env \<longleftrightarrow>
     resolve env = resolve_in_world cfg \<and> (\<forall>w ps. set (sample_all (config_env (cfg w)) ps) = set ps)"

lemma refresh_plan_frame:
  assumes "refresh_plan env pl w = (r, pl', w')" "held_open T (route_key name m) w" "0 < T" "valid_key (route_key name m)"
    "gateway_env cfg env" "m = request_model (call_request (plan_call pl))"
  shows "held_open T (route_key name m) w' \<and> plan_call pl' = plan_call pl \<and>
    (if isl r then pl' = pl else name \<notin> available_provider_names (plan_state pl'))"
proof -
  obtain cm where cm: "manager w = Some cm" "open_for T (route_key name m) (route_circuit cm)" "mono_clock (clocks w) < T"
    using assms(2) by (auto simp: held_open_def)
  have env: "resolve env = resolve_in_world cfg" "\<forall>w ps. set (sample_all (config_env (cfg w)) ps) = set ps"
    using assms(5) unfolding gateway_env_def by blast+
  have w': "w' = w\<lparr>manager := Some (snd (managed_resolver (cfg w) (clocks w) (plan_call pl) cm))\<rparr>"
      "plan_call pl' = plan_call pl" "isl r \<longrightarrow> pl' = pl"
    using assms(1) env(1) cm(1)
    by (auto simp: refresh_plan_def resolve_in_world_def refresh_matching_providers_state split_beta Let_def prod_eq_iff
        split: sum.splits)
  with managed_resolver_open [OF cm(2,3) assms(3), of "cfg w" "plan_call pl"] cm(3) have "held_open T (route_key name m) w'"
    by (simp add: held_open_def)
  moreover have "name \<notin> available_provider_names (plan_state pl')" if "r = Inr ()"
    using refresh_leaves_open_route [OF cm(2,3) assms(3,4) cm(1) env(1) assms(6) env(2)] assms(1) that by blast
  ultimately show ?thesis using w' by (cases r) auto
qed

lemma held_open_manager:
  "manager w = Some cm \<Longrightarrow> route_circuit cm' = fold circuit_step ops (route_circuit cm) \<Longrightarrow> list_all (before T key) ops \<Longrightarrow>
   0 < T \<Longrightarrow> held_open T key w \<Longrightarrow> mono_clock (clocks w') < T \<Longrightarrow> manager w' = Some cm' \<Longrightarrow> held_open T key w'"
  using circuit.run_inv legal_before [of T key ops "route_circuit cm"] by (auto simp: held_open_def)

text \<open>A failure of any provider of the plan: the names change by refreshes only.\<close>

lemma maybe_exclude_frame:
  assumes "maybe_exclude_failed_channel env n v c t p ex pl w = (r, pl', w')"
    "held_open T (route_key name m) w" "0 < T" "valid_key (route_key name m)"
    "gateway_env cfg env" "m = request_model (call_request (plan_call pl))"
  shows "held_open T (route_key name m) w' \<and> plan_call pl' = plan_call pl \<and>
    (pl' = pl \<or> name \<notin> available_provider_names (plan_state pl'))"
proof -
  let ?key = "route_key name m"
  obtain cm where cm: "manager w = Some cm" using assms(2) by (auto simp: held_open_def)
  obtain opened cm1 where f: "record_model_failure (repr_text (policies env)) (mono_clock (clocks w)) n v c cm = (opened, cm1)"
    by fastforce
  let ?w1 = "w\<lparr>manager := Some cm1\<rparr>"
  have step: "route_circuit cm1 =
      fold circuit_step [Failure (mono_clock (clocks w)) n (circuit_model (repr_text (policies env)) v) c] (route_circuit cm)"
    using f by (auto simp: record_model_failure_def split_beta)
  have w1: "held_open T ?key ?w1"
    by (rule held_open_manager [OF cm step _ assms(3,2)]) (use assms(2) in \<open>simp_all add: held_open_def\<close>)
  have refreshed: "held_open T ?key w2 \<and> plan_call pl2 = plan_call pl \<and>
      (pl2 = pl \<or> name \<notin> available_provider_names (plan_state pl2))"
    if "refresh_plan env pl v = (x, pl2, w2)" "held_open T ?key v" for x pl2 w2 v
    using refresh_plan_frame [OF that assms(3-6)] by (auto split: if_splits)
  have excluded: "held_open T ?key w' \<and> plan_call pl' = plan_call pl \<and>
      (pl' = pl \<or> name \<notin> available_provider_names (plan_state pl'))"
    if "exclude_channel env n v t p ex cm2 pl u = (r, pl', w')" "manager u = Some cm2" "held_open T ?key u" for cm2 u
  proof -
    have "held_open T ?key (u\<lparr>manager := Some (exclude_model (repr_text (policies env)) (wall (clocks u)) n v cm2)\<rparr>)"
      using that(2,3) by (simp add: held_open_def exclude_model_def)
    with that refreshed show ?thesis by (auto simp: exclude_channel_def split: if_splits prod.splits sum.splits)
  qed
  show ?thesis
  proof (cases "(c = 403 \<or> c = 404) \<and> opened")
    case True
    with assms(1) cm f refreshed [OF _ w1] show ?thesis
      by (auto simp: maybe_exclude_failed_channel_def Let_def
          split: if_splits prod.splits sum.splits plan_error.splits route_error.splits)
  next
    case False
    with assms(1) cm f consider "exclude_channel env n v t p ex cm pl w = (r, pl', w')"
      | "exclude_channel env n v t p ex cm1 pl ?w1 = (r, pl', w')"
      by (auto simp: maybe_exclude_failed_channel_def split: if_splits)
    then show ?thesis using excluded [OF _ cm assms(2)] excluded [OF _ _ w1] by cases simp_all
  qed
qed

lemma plan_step_frame:
  assumes "plan_step env T (route_key name m) s e s'"
    "held_open T (route_key name m) (snd s)" "0 < T" "valid_key (route_key name m)"
    "gateway_env cfg env" "m = request_model (call_request (plan_call (fst s)))"
  shows "held_open T (route_key name m) (snd s') \<and> plan_call (fst s') = plan_call (fst s) \<and>
    (e = Renewed \<or> name \<notin> available_provider_names (plan_state (fst s)) \<longrightarrow>
       name \<notin> available_provider_names (plan_state (fst s'))) \<and>
    (\<forall>a. e = Handed a \<longrightarrow> attempt_provider_name a \<in> available_provider_names (plan_state (fst s)))"
  using assms
proof cases
  case (handed pl w a pl' w')
  with assms(2) next_attempt_available [OF handed(4)] next_attempt_frame [OF handed(4)] show ?thesis
    by (simp add: held_open_def)
next
  case (none_handed pl w r pl' w')
  with assms(2) next_attempt_frame [OF none_handed(4)] show ?thesis by (simp add: held_open_def)
next
  case (renewed pl w pl' w')
  with assms refresh_plan_frame [OF renewed(4), of T name m cfg] show ?thesis by simp
next
  case (not_renewed pl w e' pl' w')
  with assms refresh_plan_frame [OF not_renewed(4), of T name m cfg] show ?thesis by simp
next
  case (noted pl w c t)
  with assms(2) show ?thesis by (simp add: RoutingPlan.record_failure_def)
next
  case (excluded n v c t p ex pl w r pl' w')
  with assms maybe_exclude_frame [OF excluded(4), of T name m cfg] show ?thesis by auto
next
  case (moved w cm w' cm' ops pl)
  with assms(2) held_open_manager [OF moved(4,6,7) assms(3) _ moved(8,5)] show ?thesis by simp
qed

text \<open>The attempts a run hands out from the first refresh on.\<close>

lemma plan_run_frame:
  assumes "plan_run env T (route_key name m) s es s'"
    "held_open T (route_key name m) (snd s)" "0 < T" "valid_key (route_key name m)"
    "gateway_env cfg env" "m = request_model (call_request (plan_call (fst s)))"
  shows "held_open T (route_key name m) (snd s') \<and> plan_call (fst s') = plan_call (fst s) \<and>
    (Renewed \<in> set es \<or> name \<notin> available_provider_names (plan_state (fst s)) \<longrightarrow>
       name \<notin> available_provider_names (plan_state (fst s'))) \<and>
    (\<forall>as bs. es = as @ bs \<and> (Renewed \<in> set as \<or> name \<notin> available_provider_names (plan_state (fst s))) \<longrightarrow>
       (\<forall>a. Handed a \<in> set bs \<longrightarrow> attempt_provider_name a \<noteq> name))"
  using assms
proof (induction rule: plan_run.induct)
  case (more s es t e u)
  note IH = more.IH [OF more.prems]
  have t: "held_open T (route_key name m) (snd t)" "m = request_model (call_request (plan_call (fst t)))"
    using IH more.prems(5) by simp_all
  note step = plan_step_frame [OF more.hyps(2) t(1) more.prems(2-4) t(2)]
  have "attempt_provider_name a \<noteq> name"
    if "es @ [e] = as @ bs" "Renewed \<in> set as \<or> name \<notin> available_provider_names (plan_state (fst s))" "Handed a \<in> set bs"
    for as bs a
  proof (cases bs rule: rev_cases)
    case (snoc cs x)
    with that(1) have es: "es = as @ cs" "x = e" by simp_all
    show ?thesis
    proof (cases "Handed a \<in> set cs")
      case True
      with IH es(1) that(2) show ?thesis by blast
    next
      case False
      with that(3) snoc es have "e = Handed a" by auto
      moreover have "name \<notin> available_provider_names (plan_state (fst t))" using IH that(2) es(1) by auto
      ultimately show ?thesis using step by auto
    qed
  qed (use that in simp)
  with IH step show ?case by auto
qed simp

text \<open>
  C2. A provider whose circuit a failed attempt opened is left alone while the circuit is open. If the refresh that
  follows finds another provider (\<open>Opened\<close>), no attempt the plan hands out goes to it any more; if it finds none
  (the resolver answers 503, \<open>OpenedNoAlternative\<close>), the plan keeps its names, and no attempt goes to the provider from
  the next successful refresh on. This holds of every sequence of attempts, refreshes and further failures of the plan,
  whatever the rest of the gateway does in between, as long as upstream calls the model by the requested name, the open
  period lasts and no success of that route is reported.
\<close>
theorem opened_route_is_left_alone:
  assumes "gateway_env cfg env" "manager w = Some cm" "distinct_keys (states (route_circuit cm))"
    and "0 < open_seconds (route_circuit cm)" "0 \<le> mono_clock (clocks w)"
    and "maybe_exclude_failed_channel env name (PStr m) st msg p ex pl w = (Inr (Some result), pl1, w1)"
    and "m = request_model (call_request (plan_call pl))"
    and "plan_run env (mono_clock (clocks w) + open_seconds (route_circuit cm)) (route_key name m) (pl1, w1) es (pl2, w2)"
  shows "(result = OpenedNoAlternative \<longrightarrow> pl1 = pl) \<and>
    (\<forall>as bs a. es = as @ bs \<and> (result = Opened \<or> Renewed \<in> set as) \<and> Handed a \<in> set bs \<longrightarrow> attempt_provider_name a \<noteq> name)"
proof -
  let ?T = "mono_clock (clocks w) + open_seconds (route_circuit cm)" and ?key = "route_key name m"
  have T: "0 < ?T" "mono_clock (clocks w) < ?T" using assms(4,5) by simp_all
  obtain cm' x where cm': "record_model_failure (repr_text (policies env)) (mono_clock (clocks w)) name (PStr m) st cm = (True, cm')"
      "refresh_plan env pl (w\<lparr>manager := Some cm'\<rparr>) = (x, pl1, w1)" "result = Opened \<longleftrightarrow> x = Inr ()"
    by (rule opened_by_exclusion [OF assms(6,2)])
  from recorded_failure_open [OF cm'(1) assms(3)] T(2)
  have o: "held_open ?T ?key (w\<lparr>manager := Some cm'\<rparr>)" "valid_key ?key" by (simp_all add: held_open_def)
  note first = refresh_plan_frame [OF cm'(2) o(1) T(1) o(2) assms(1,7)]
  have "m = request_model (call_request (plan_call (fst (pl1, w1))))" using first assms(7) by simp
  from plan_run_frame [OF assms(8) _ T(1) o(2) assms(1) this] first
  have "es = as @ bs \<Longrightarrow> Renewed \<in> set as \<or> name \<notin> available_provider_names (plan_state pl1) \<Longrightarrow> Handed a \<in> set bs \<Longrightarrow>
      attempt_provider_name a \<noteq> name" for as bs a by simp
  then show ?thesis using first cm'(3) by (cases result; cases x) auto
qed

text \<open>Two providers of one model; the first fails and its circuit opens at once.\<close>

definition demo_routes :: route_env where
  "demo_routes =
     (let ps = [demo_provider ''east'' ''gpt'' [], demo_provider ''west'' ''gpt'' []] in
      demo_env\<lparr>providers := ps, routing_index := build_routing_index (\<lambda>_. []) ps [''sk-a'']\<rparr>)"

definition demo_breaker :: ProviderModelCircuitBreaker where
  "demo_breaker =
     \<lparr>failure_threshold = 1, failure_window_seconds = 120, open_seconds = 300, states = [], failure_total = [],
      opened_total = 0, success_reset_total = 0\<rparr>"

definition demo_pool :: "string \<Rightarrow> ProviderKeyPool" where
  "demo_pool name =
     \<lparr>provider_name = Some name, original_items = [name], schedule_algorithm = FixedPriority, items = [name], index = 0,
      state = init_state, policy = [], reordering_task = NoTask\<rparr>"

definition demo_world :: world where
  "demo_world =
     \<lparr>api_pools = demo_pool, manager = Some (new_channel_manager 0 demo_breaker), clocks = \<lparr>wall = 1000, mono_clock = 50\<rparr>\<rparr>"

definition demo_config :: "world \<Rightarrow> resolver_config" where
  "demo_config w = \<lparr>config_env = demo_routes, configured_rules = (\<lambda>_. [PStr ''all'']), configured_weights = (\<lambda>_. [])\<rparr>"

definition demo_runner :: "world runner_env" where
  "demo_runner =
     \<lparr>policies = demo_policies, resolve = resolve_in_world demo_config, runner_endpoint = None, first_byte_observed = None,
      text_positive = (\<lambda>_. False)\<rparr>"

definition demo_call :: resolver_call where
  "demo_call =
     \<lparr>call_request = demo_request None, call_api_index = 0, call_algorithm = ''fixed_priority'', call_api_list = [''sk-a''],
      call_models_list = [], call_model_rules = [], call_weights = []\<rparr>"

definition demo_views :: "provider list" where
  "demo_views = map (\<lambda>n. provider_view (demo_provider n ''gpt'' []) [(''gpt'', PStr ''gpt'')] ''gpt'' ''gpt'') [''east'', ''west'']"

definition demo_plan :: RoutingPlan where
  "demo_plan =
     \<lparr>plan_call = demo_call, api_key_preferences = [], api_key_roles = [], auto_retry = PBool True, role = [],
      start_index = 0, plan_state = new_plan_state (\<lambda>_. 1) demo_views\<rparr>"

lemma demo_matching:
  "body_filter env req (endpoint_filter env req (matching env [PStr ''all''] ''gpt'')) = Inr demo_views"
  if "env = demo_routes\<lparr>channel_manager := ch, api_list := [''sk-a''], models_list := []\<rparr>" "req = demo_request None"
  unfolding that by (simp add: route_eval py_defs demo_routes_def demo_views_def)

lemma demo_tokens: "tokens_filter env (demo_request None) ps = Inr ps"
  by (simp add: tokens_filter_def demo_request_def)

lemma demo_weigh: "weigh env ''fixed_priority'' m [] ps = Inr ps"
  by (simp add: weigh_def)

lemma demo_resolve:
  "resolve_in_world demo_config demo_call (w\<lparr>manager := Some cm\<rparr>) =
     (let (r, cm) = get_available_providers (\<lambda>_. []) (clocks w) demo_views cm in
      (case r of Inl e \<Rightarrow> Inl e
       | Inr ps \<Rightarrow> if ps = [] then Inl (RoutingRules.HTTPException 503 ''No available providers at the moment'') else Inr ps,
       w\<lparr>manager := Some cm\<rparr>))"
proof -
  have r: "request_model (demo_request None) = ''gpt''" "endpoint (demo_request None) = None"
    "repr_of demo_routes = (\<lambda>_. [])" "demo_views \<noteq> []"
    by (simp_all add: demo_request_def demo_routes_def demo_env_def demo_views_def Let_def)
  show ?thesis
    unfolding resolve_in_world_def managed_resolver_def default_resolver_def get_right_order_providers_def channel_stage_def
      resolver_env_def
    by (simp add: demo_config_def demo_call_def rules_for_key_def weights_for_key_def r demo_matching demo_tokens demo_weigh
        Let_def channel_filter_def channel_at_def split_beta split: sum.splits)
qed

lemma demo_view_facts:
  "demo_views = [provider_view (demo_provider ''east'' ''gpt'' []) [(''gpt'', PStr ''gpt'')] ''gpt'' ''gpt'',
     provider_view (demo_provider ''west'' ''gpt'' []) [(''gpt'', PStr ''gpt'')] ''gpt'' ''gpt'']"
  "pname (demo_provider n ''gpt'' []) = n"
  "provider_preference (provider_view (demo_provider n ''gpt'' []) d m r) ''cooldown_period'' v = Inr v"
  "original_model ''gpt'' (provider_view c [(''gpt'', PStr ''gpt'')] m r) = Inr (PStr ''gpt'')"
  by (simp_all add: demo_views_def provider_view_def demo_provider_def pname_def provider_preference_def pget_def original_model_def)

definition demo_opened :: ChannelManager where
  "demo_opened = snd (record_model_failure (\<lambda>_. []) 50 ''east'' (PStr ''gpt'') 404 (new_channel_manager 0 demo_breaker))"

lemma demo_opened_eq:
  "demo_opened = \<lparr>excluded_models = [], cooldown_period = 0, route_circuit =
     demo_breaker\<lparr>states := [((''east'', ''gpt''), \<lparr>failures = [(50, 404)], open_until = 350, route_opened_total = 1,
        last_status_code = Some 404\<rparr>)], failure_total := [(404, 1)], opened_total := 1\<rparr>\<rparr>"
  "fst (record_model_failure (\<lambda>_. []) 50 ''east'' (PStr ''gpt'') 404 (new_channel_manager 0 demo_breaker))"
  by (simp_all add: demo_opened_def record_model_failure_def new_channel_manager_def demo_breaker_def circuit_model_def
      CircuitBreaker.record_failure_def route_key_def valid_key_def new_route_def prune_route_def py_defs)

lemma demo_strip: "strip ''east'' = ''east''" "strip ''west'' = ''west''" "strip ''gpt'' = ''gpt''"
  by (code_simp)+

lemma demo_available:
  "get_available_providers (\<lambda>_. []) \<lparr>wall = 1000, mono_clock = 50\<rparr> demo_views demo_opened = (Inr [demo_views ! 1], demo_opened)"
  by (simp add: demo_opened_eq demo_view_facts get_available_providers_def circuit_is_open_def is_open_def route_key_def
      valid_key_def circuit_model_def is_legacy_model_excluded_def prune_route_def idle_def demo_breaker_def demo_strip
      py_str_def Let_def)

lemma demo_opened_world:
  "manager demo_world = Some (new_channel_manager 0 demo_breaker)" "clocks demo_world = \<lparr>wall = 1000, mono_clock = 50\<rparr>"
  by (simp_all add: demo_world_def)

text \<open>The plan and the world after the failure: the second provider alone is left.\<close>

definition demo_world1 :: world where "demo_world1 = demo_world\<lparr>manager := Some demo_opened\<rparr>"

definition demo_plan1 :: RoutingPlan where
  "demo_plan1 = demo_plan\<lparr>plan_state := (plan_state demo_plan)\<lparr>available_provider_names := {''west''}\<rparr>\<rparr>"

lemma demo_names:
  "pname (demo_views ! 0) = ''east''" "pname (demo_views ! 1) = ''west''" "length demo_views = 2"
  "original_model ''gpt'' (demo_views ! 1) = Inr (PStr ''gpt'')"
  "provider_names demo_views \<inter> provider_names [demo_views ! 1] = {''west''}"
  by (simp_all add: demo_view_facts provider_names_def)

lemma demo_refresh:
  assumes "plan_call pl = demo_call" "matching_providers (plan_state pl) = demo_views"
  shows "refresh_plan demo_runner pl (demo_world\<lparr>manager := Some demo_opened\<rparr>) =
     (Inr (), pl\<lparr>plan_state := (plan_state pl)\<lparr>available_provider_names := {''west''}\<rparr>\<rparr>, demo_world1)"
proof -
  have "resolve demo_runner (plan_call pl) (demo_world\<lparr>manager := Some demo_opened\<rparr>) = (Inr [demo_views ! 1], demo_world1)"
    using demo_resolve [where w = demo_world and cm = demo_opened] demo_available
    by (simp add: demo_runner_def assms(1) demo_opened_world demo_world1_def)
  then show ?thesis
    by (simp only: refresh_plan_def refresh_matching_providers_def assms(2) demo_names Let_def prod.case sum.case)
qed

lemma demo_fails:
  "maybe_exclude_failed_channel demo_runner ''east'' (PStr ''gpt'') 404 [] [] [] demo_plan demo_world =
     (Inr (Some Opened), demo_plan1, demo_world1)"
proof -
  have "repr_text (policies demo_runner) = (\<lambda>_. [])" by (simp add: demo_runner_def demo_policies_def)
  moreover have "record_model_failure (\<lambda>_. []) 50 ''east'' (PStr ''gpt'') 404 (new_channel_manager 0 demo_breaker) = (True, demo_opened)"
    using demo_opened_eq(2) by (auto simp: demo_opened_def prod_eq_iff)
  moreover have "plan_call demo_plan = demo_call" "matching_providers (plan_state demo_plan) = demo_views"
    by (simp_all add: demo_plan_def new_plan_state_def)
  ultimately show ?thesis
    by (simp add: maybe_exclude_failed_channel_def demo_opened_world demo_refresh demo_plan1_def Let_def)
qed

text \<open>The next attempt of the plan is at the second provider.\<close>

lemma demo_next: "\<exists>pl w. next_attempt demo_plan1 demo_world1 = (Inr (Some \<lparr>attempt_provider = demo_views ! 1,
    attempt_provider_name = ''west'', attempt_original_model = PStr ''gpt''\<rparr>), pl, w)"
proof -
  have st: "plan_index (plan_state demo_plan1) = 0" "num_matching_providers (plan_state demo_plan1) = 2"
      "available_provider_names (plan_state demo_plan1) = {''west''}" "start_index demo_plan1 = 0"
      "matching_providers (plan_state demo_plan1) = demo_views" "request_model (call_request (plan_call demo_plan1)) = ''gpt''"
    by (simp_all add: demo_plan1_def demo_plan_def new_plan_state_def num_matching_providers_def demo_names demo_call_def
        demo_request_def)
  have slot: "slot 0 (plan_state demo_plan1) 0 = demo_views ! 0"
      "slot 0 ((plan_state demo_plan1)\<lparr>plan_index := 1\<rparr>) 1 = demo_views ! 1"
    using st by (simp_all add: slot_def)
  have asked: "\<not> fst (ask_world ''west'' (PStr ''gpt'') demo_world1)"
    by (simp add: ask_world_def ask_pool_def split_beta fst_is_all_rate_limited demo_world1_def demo_world_def demo_pool_def
        fst_is_rate_limited init_state_def rules_for_def named_model_def prune_windows_def windows_full_def default_rules_def)
  have one: "next_provider ask_world ''gpt'' 0 (plan_state demo_plan1) demo_world1 =
      next_provider ask_world ''gpt'' 0 ((plan_state demo_plan1)\<lparr>plan_index := 1\<rparr>) demo_world1"
    by (subst next_provider.simps) (simp add: st slot demo_names)
  have two: "fst (next_provider ask_world ''gpt'' 0 ((plan_state demo_plan1)\<lparr>plan_index := 1\<rparr>) demo_world1) = Inr (Some \<lparr>attempt_provider = demo_views ! 1, attempt_provider_name = ''west'', attempt_original_model = PStr ''gpt''\<rparr>)"
    using asked
    by (subst next_provider.simps) (simp add: st slot demo_names split_beta del: One_nat_def)
  show ?thesis using two unfolding one [symmetric] by (simp add: next_attempt_def st split_beta)
qed

text \<open>
  After the failure the plan is refreshed, the rest of the gateway asks for the open circuit, and the plan hands its
  next attempt out.
\<close>

theorem opened_route_is_left_alone_witness:
  "\<exists>a s. plan_run demo_runner 350 (''east'', ''gpt'') (demo_plan1, demo_world1) [Renewed, Elsewhere, Handed a] s \<and>
     attempt_provider_name a \<noteq> ''east''"
proof -
  obtain a pl w where n: "next_attempt demo_plan1 demo_world1 = (Inr (Some a), pl, w)" using demo_next by blast
  have again: "refresh_plan demo_runner demo_plan1 demo_world1 = (Inr (), demo_plan1, demo_world1)"
    using demo_refresh [of demo_plan1] by (simp add: demo_plan1_def demo_plan_def new_plan_state_def demo_world1_def)
  have "route_circuit demo_opened = fold circuit_step [Query 60 ''east'' ''gpt''] (route_circuit demo_opened)"
    by (simp add: demo_opened_eq is_open_def route_key_def valid_key_def prune_route_def idle_def demo_breaker_def Let_def
        demo_strip)
  then have asked: "plan_step demo_runner 350 (''east'', ''gpt'') (demo_plan1, demo_world1) Elsewhere (demo_plan1, demo_world1)"
    by (rule plan_step.moved [rotated 2]) (simp_all add: demo_world1_def demo_opened_world)
  have run: "plan_run demo_runner 350 (''east'', ''gpt'') (demo_plan1, demo_world1) ((([] @ [Renewed]) @ [Elsewhere]) @ [Handed a]) (pl, w)"
    by (rule plan_run.more [OF plan_run.more [OF plan_run.more [OF plan_run.at_rest plan_step.renewed [OF again]] asked]
          plan_step.handed [OF n]])
  have "gateway_env demo_config demo_runner"
    by (simp add: gateway_env_def demo_runner_def demo_config_def demo_routes_def demo_env_def Let_def)
  from opened_route_is_left_alone [OF this demo_opened_world(1) _ _ _ demo_fails, of "[Renewed, Elsewhere, Handed a]" pl w]
  have "attempt_provider_name a \<noteq> ''east''"
    using run
    by (force simp: new_channel_manager_def demo_breaker_def distinct_keys_def demo_opened_world demo_plan_def
        demo_call_def demo_request_def route_key_def demo_strip)
  with run show ?thesis by auto
qed


text \<open>Callbacks that change nothing, and an attempt that the gateway's own admission rejects.\<close>

definition demo_rejection :: exn where
  "demo_rejection =
     \<lparr>exn_class = ''UpstreamAdmissionRejected'', exn_text = ''busy'', exn_value_error = False, exn_transport = None,
      exn_protocol_reason = [], exn_timeout = (\<lambda>_. None), exn_semantic = None, exn_http = None, exn_status_code = Some 503,
      exn_reason = ''upstream_queue_full'', exn_local_admission = True, exn_retry_after = 2, exn_upstream_semantic = False\<rparr>"

definition demo_handlers :: "world handlers" where
  "demo_handlers =
     \<lparr>prepare_attempt = (\<lambda>c w. (Inr (), c, w)), execute_attempt = (\<lambda>c w. (Inl (Raised demo_rejection), c, w)),
      before_next_attempt = (\<lambda>w. (Inr None, w)), after_failure = (\<lambda>_ _ _ c w. (Inr (), c, w)), should_cool_down = None,
      retry_decider = None, on_retry = (\<lambda>_ _ c w. (Inr (), c, w)), on_cooldown = (\<lambda>_ _ c w. (Inr (), c, w)),
      clear_provider_auth_cache = (\<lambda>_ w. (Inr (), w)), build_error_response = None, build_final_response = None,
      exclude_error_substrings = [], rollback_rate_limit_errors = [], allow_channel_exclusion = True, max_attempts = Some 3\<rparr>"


theorem local_failures_spare_the_provider_witness:
  "rtranclp (lenient_step demo_handlers) demo_world
     (run_world (snd (handle_failure demo_runner demo_handlers demo_rejection False
        \<lparr>run_plan = demo_plan, run_attempt = new_attempt_context \<lparr>attempt_provider = demo_views ! 0,
           attempt_provider_name = ''east'', attempt_original_model = PStr ''gpt''\<rparr>, run_world = demo_world\<rparr>)))"
  (is "rtranclp _ _ (run_world (snd ?r))")
proof -
  obtain x s where r: "?r = (x, s)" by fastforce
  have "exn_local_admission demo_rejection" by (simp add: demo_rejection_def)
  from local_failures_spare_the_provider [OF disjI1 [OF this] r] show ?thesis by (simp add: r)
qed

end
