(* ===== verification/Spec2Isabelle.thy ===== *)
theory Spec2Isabelle
  imports RoutingPlan ApiModels CircuitBreaker AdmissionGate FairBodyQueue MemoryGate NetworkGovernor StreamBudget
    StreamQueue JsonMemory ReplaySpool Idempotency SseStream SearchAffinity UpstreamRuns
begin

text \<open>
  A verification library for uni-api, a gateway that takes OpenAI-style requests and forwards each of them to one of
  many upstream providers. This is the root theory: it imports the components and says what they model.

  \<^bold>\<open>The program and its parts.\<close> A request passes \<^emph>\<open>admission\<close> (\<open>uni_api/admission\<close>): a place in a
  bounded gate, or control memory in a memory gate, then memory for its body, charged to one governor of the process;
  its JSON body is bounded while it is read. If it carries an idempotency key, the \<^emph>\<open>idempotency coordinator\<close>
  (\<open>uni_api/middleware/idempotency.py\<close>) makes it the owner of the key, lets it wait for the owner, or replays the
  stored response from a spool. \<^emph>\<open>Routing\<close> (\<open>uni_api/routing\<close>) finds the providers the rules of its API key allow
  for the model, orders them, skips the routes whose circuit is open, and hands them out one attempt after the other;
  each provider's \<^emph>\<open>key pool\<close> (\<open>uni_api/rate_limit\<close>) picks the next upstream key whose rate limits admit the request.
  The \<^emph>\<open>runner\<close> (\<open>upstream.py\<close>) makes the attempts, and after a failure cools the key, opens the circuit of the route,
  refreshes the plan and decides whether to try the next provider.
  The response \<^emph>\<open>streams\<close> back through a queue bounded in items and bytes (\<open>uni_api/streaming/bounded_queue.py\<close>),
  whose bytes are again charged to the governor.

  \<^bold>\<open>Theories, bottom up.\<close>
  \<^item> \<open>Py_Prelude\<close>: Python values, strings, dictionaries as association lists, and the locale
    \<open>invariant_machine\<close> (a step function that keeps an invariant, lifted to sequences of operations).
  \<^item> \<open>RateLimit\<close>: \<open>rate_limit/policy.py\<close>, \<open>state.py\<close>, \<open>memory.py\<close>. The language of limits with a round trip; the
    sliding windows, refined to a log of accepted requests.
  \<^item> \<open>KeyPool\<close>: \<open>rate_limit/key_pool.py\<close>. The ring of keys of a provider.
  \<^item> \<open>Scheduling\<close>, \<open>CircuitBreaker\<close>: the scheduling algorithms of \<open>routing/core.py\<close>; \<open>routing/health.py\<close>.
  \<^item> \<open>RoutingRules\<close>, \<open>RoutingPlan\<close>, \<open>ApiModels\<close>: \<open>routing/core.py\<close> and the model lists of \<open>api/models.py\<close>. The rules
    of an API key, the plan of one request over the pools (locale \<open>pools\<close>, interpreted on \<open>KeyPool\<close>), and
    the models a key may list.
  \<^item> \<open>AsyncLock\<close>, \<open>SearchAffinity\<close>: the lock of \<open>asyncio\<close> as steps of its tasks, and
    \<open>routing/search_affinity.py\<close> over it: the bindings of search sessions and their exclusion.
  \<^item> \<open>UpstreamPolicies\<close>: \<open>upstream/transport_errors.py\<close> and \<open>upstream/policies.py\<close>. The status of a failure, the
    decision to retry and the cool-down of a key. The parsers of error bodies are arguments.
  \<^item> \<open>ChannelManager\<close>: the class of \<open>runtime.py\<close> over \<open>CircuitBreaker\<close>, and the default resolver of a plan over it.
  \<^item> \<open>UpstreamRunner\<close>, \<open>UpstreamRuns\<close>: \<open>upstream.py\<close>. The loop that tries the providers of a plan, and what a failed
    attempt does to keys, circuits, channels and the plan (locale \<open>respected\<close>: relations of states that go through
    a sequence of steps); the callbacks of its callers are arguments. Then the properties of its runs.
  \<^item> \<open>AdmissionLease\<close>, \<open>AdmissionGate\<close>, \<open>FairBodyQueue\<close>, \<open>MemoryGate\<close>: the classes of \<open>admission/core.py\<close>.
    Futures are entries of a waiting list with an answer; an operation that awaits is split into its sections, and
    every order of sections is a sequence of steps.
  \<^item> \<open>ByteBudget\<close>, \<open>MemoryGovernor\<close>, \<open>NetworkGovernor\<close>: the interface of a budget of bytes, and the governors of
    \<open>admission/memory.py\<close> and \<open>admission/network.py\<close>. What cgroup files and kernel counters say is an argument.
  \<^item> \<open>JsonMemory\<close>: \<open>admission/json_memory.py\<close>, the incremental bound of what a JSON document costs.
  \<^item> \<open>StreamQueue\<close>, \<open>StreamBudget\<close>: \<open>streaming/bounded_queue.py\<close>.
  \<^item> \<open>Utf8\<close>, \<open>SseParser\<close>, \<open>SseStream\<close>: \<open>streaming/sse.py\<close>. The strict incremental UTF-8 codec of the standard
    library; the parsers' retained-byte budget, the incremental event parser and \<open>iter_sse_events\<close>; the frames of
    a stream as a function of its text alone, and the bytes a parser retains (locales \<open>byte_pool\<close> and
    \<open>pool_frame\<close>, interpreted on the parsers' budget over the memory governor).
  \<^item> \<open>ReplaySpool\<close>, \<open>Idempotency\<close>: \<open>middleware/idempotency_spool.py\<close> over the memory governor (locale
    \<open>spool_budget\<close>), and the coordinator of \<open>middleware/idempotency.py\<close> (locale \<open>sweep_stable\<close>: what expiry and
    eviction keep).

  \<^bold>\<open>Correspondence.\<close> Definitions keep the names of the source. A class is a record, a method is a function on it that
  returns the state it leaves, an exception is the left value of a sum. A mutable object that is shared lives
  in a store and is named by a natural number. Clocks, random numbers, files, hash functions and what a
  submodule computes (\<open>core.utils\<close>) are arguments. Time and weights of Python floats are reals; rounding is not
  modelled.

  \<^bold>\<open>What the lemmas show.\<close> For each component: the invariant of its state and that every operation keeps it; what each
  operation answers on every branch; where it has a contract, the refinement (rate limits and their log,
  the budget interface, the incremental JSON scan and the whole document, a spool and the bytes appended to it, the
  event parser and the text of its stream). Fairness is stated over every sequence of operations: the order of arrival at the gate,
  the turns of the tenants of the body queue, the end of a waiting reservation.
  Across components: routing authorisation, the plan over the pools, a run over the plan, the pools and the circuits, bytes of streams and spools balanced
  in the governor.

  \<^bold>\<open>Termination.\<close> No definition carries fuel. Loops are structural recursion, or functions with a measure: the places
  left of a ring (\<open>KeyPool\<close>), the attempts left of a plan (\<open>RoutingPlan\<close>), the keys not yet visited
  (\<open>ApiModels\<close>), the slots of a plan a run has left (\<open>UpstreamRunner\<close>), the waiters left in the tenants' queues (\<open>FairBodyQueue\<close>), the bytes left of a chunk
  (\<open>JsonMemory\<close>, \<open>SseParser\<close>).

  \<^bold>\<open>Not modelled.\<close> The request runtime (\<open>runtime.py\<close>) and the ASGI middlewares, which wire these components
  to frameworks; the translation of payloads between vendors, which rests on a submodule that is not in the repository;
  HTTP clients; databases; log records and metrics.
\<close>

end
